(* ===== verification/Prelude.thy ===== *)
theory Prelude
  imports Main "HOL-Library.Word"
begin

text \<open>
  Shared vocabulary of the ParadoxOS development: the machine integer types of
  \<^verbatim>\<open>src/include/types.h\<close>, the counted loops of the C++ sources as
  recursive functions over machine words with their translation to list folds, C strings,
  and the generic facts on words, lists and maps that several components use.
\<close>

unbundle bit_operations_syntax

section \<open>Machine integers\<close>

type_synonym u8 = "8 word"
type_synonym u16 = "16 word"
type_synonym u32 = "32 word"
type_synonym u64 = "64 word"
type_synonym i32 = "32 word"

named_theorems loop_simps \<open>counted loops turned into folds and bounded searches\<close>
named_theorems frame_simps \<open>fields an operation leaves alone\<close>

lemma unat_plus_one:
  fixes i n :: "'a::len word"
  assumes "i < n"
  shows "unat (i + 1) = Suc (unat i)"
  using assms by unat_arith

lemma unat_of_nat_le:
  fixes n :: "'a::len word"
  assumes "k \<le> unat n"
  shows "unat (of_nat k :: 'a word) = k"
  using assms by (metis unat_of_nat mod_less le_less_trans unsigned_less)

lemma unat_lt_64: "unat (x :: u64) < 2 ^ 64"
  using unsigned_less [of x, where ?'a = nat] by simp

lemma unat_of_nat_64: "k < 2 ^ 64 \<Longrightarrow> unat (of_nat k :: u64) = k"
  by (simp add: unat_of_nat)

lemma unat_lt_32: "unat (x :: u32) < 2 ^ 32"
  using unsigned_less [of x, where ?'a = nat] by simp

lemma unat_zext_64: "unat (ucast (x :: u32) :: u64) = unat x"
  using unat_lt_32 [of x] by (simp add: unsigned_ucast_eq take_bit_nat_eq_self)

lemma unat_drop_bit: "unat (drop_bit k a :: u64) = unat a div 2 ^ k"
proof -
  have "unat (drop_bit k a) = drop_bit k (unat a)"
    by (rule bit_eqI) (simp add: bit_simps)
  then show ?thesis by (simp only: drop_bit_eq_div)
qed

lemma unat_and_not_mask: "unat (x AND NOT (mask k) :: 'a::len word) = unat x div 2 ^ k * 2 ^ k"
proof -
  have "unat (x AND NOT (mask k)) = push_bit k (drop_bit k (unat x))"
    by (rule bit_eqI) (auto simp: bit_simps dest: bit_imp_le_length)
  then show ?thesis by (simp add: push_bit_eq_mult drop_bit_eq_div)
qed

text \<open>Signed arithmetic that does not overflow.\<close>

lemma sint_i32_exact:
  fixes a b :: i32
  shows "- (2 ^ 31) \<le> sint a + sint b \<Longrightarrow> sint a + sint b < 2 ^ 31 \<Longrightarrow> sint (a + b) = sint a + sint b"
    and "- (2 ^ 31) \<le> sint a - sint b \<Longrightarrow> sint a - sint b < 2 ^ 31 \<Longrightarrow> sint (a - b) = sint a - sint b"
  by (simp_all add: sint_word_ariths signed_take_bit_int_eq_self)

lemma of_nat_eq_iff_le:
  fixes n :: "'a::len word"
  assumes "k \<le> unat n" and "l \<le> unat n"
  shows "(of_nat k :: 'a word) = of_nat l \<longleftrightarrow> k = l"
  using assms by (metis unat_of_nat_le)

lemma word_plus_eq_iff_small:
  fixes a :: "'a::len word"
  assumes "k < 2 ^ LENGTH('a)" and "l < 2 ^ LENGTH('a)"
  shows "a + of_nat k = a + of_nat l \<longleftrightarrow> k = l"
  using assms by (metis add_left_cancel unat_of_nat mod_less)

section \<open>Counted loops\<close>

text \<open>
  \<open>for_w i n f s\<close> is \<^verbatim>\<open>for (T k = i; k < n; k++) s = f(k, s);\<close> for an unsigned
  type \<^verbatim>\<open>T\<close>, and \<open>find_w i n P\<close> is the loop that leaves at the first index
  that satisfies \<open>P\<close>.
\<close>

function for_w :: "'a::len word \<Rightarrow> 'a word \<Rightarrow> ('a word \<Rightarrow> 's \<Rightarrow> 's) \<Rightarrow> 's \<Rightarrow> 's" where
  "for_w i n f s = (if i < n then for_w (i + 1) n f (f i s) else s)"
  by pat_completeness auto
termination
  by (relation "measure (\<lambda>(i, n, f, s). unat n - unat i)")
    (auto simp: unat_plus_one word_less_nat_alt)

function find_w :: "'a::len word \<Rightarrow> 'a word \<Rightarrow> ('a word \<Rightarrow> bool) \<Rightarrow> 'a word option" where
  "find_w i n P = (if i < n then if P i then Some i else find_w (i + 1) n P else None)"
  by pat_completeness auto
termination
  by (relation "measure (\<lambda>(i, n, P). unat n - unat i)")
    (auto simp: unat_plus_one word_less_nat_alt)

declare for_w.simps [simp del] find_w.simps [simp del]

lemma for_w_fold [loop_simps]:
  "for_w i n f s = fold (\<lambda>k. f (of_nat k)) [unat i..<unat n] s"
proof (induction i n f s rule: for_w.induct)
  case (1 i n f s)
  show ?case
  proof (cases "i < n")
    case True
    then have "[unat i..<unat n] = unat i # [unat (i + 1)..<unat n]"
      by (simp add: unat_plus_one upt_conv_Cons word_less_nat_alt)
    with True 1 show ?thesis by (simp add: for_w.simps [of i n f s])
  next
    case False
    then show ?thesis by (simp add: for_w.simps [of i n f s] word_less_nat_alt)
  qed
qed

lemma for_w_empty: "\<not> i < n \<Longrightarrow> for_w i n f s = s"
  by (simp add: for_w.simps)

lemma for_w_invariant:
  assumes "P s" and "\<And>k s. i \<le> k \<Longrightarrow> k < n \<Longrightarrow> P s \<Longrightarrow> P (f k s)"
  shows "P (for_w i n f s)"
  using assms
proof (induction i n f s rule: for_w.induct)
  case (1 i n f s)
  show ?case
  proof (cases "i < n")
    case True
    have le: "i \<le> k" if "i + 1 \<le> k" for k
      using that True by unat_arith
    have "P (for_w (i + 1) n f (f i s))"
      by (rule "1.IH" [OF True]) (use 1 True le in auto)
    with True show ?thesis by (simp add: for_w.simps [of i n f s])
  qed (use 1 in \<open>simp add: for_w.simps [of i n f s]\<close>)
qed

lemma find_w_SomeD:
  assumes "find_w i n P = Some k"
  shows "i \<le> k \<and> k < n \<and> P k \<and> (\<forall>j. i \<le> j \<longrightarrow> j < k \<longrightarrow> \<not> P j)"
  using assms
proof (induction i n P rule: find_w.induct)
  case (1 i n P)
  show ?case
  proof (cases "i < n \<and> \<not> P i")
    case True
    with 1 have IH: "i + 1 \<le> k \<and> k < n \<and> P k \<and> (\<forall>j. i + 1 \<le> j \<longrightarrow> j < k \<longrightarrow> \<not> P j)"
      by (simp add: find_w.simps [of i n P])
    have "i \<le> k" using IH True by unat_arith
    moreover have "i + 1 \<le> j" if "i \<le> j" "j \<noteq> i" for j
      using that True by unat_arith
    ultimately show ?thesis using IH True by metis
  qed (use 1 in \<open>auto simp: find_w.simps [of i n P] split: if_splits\<close>)
qed

lemma find_w_NoneD:
  assumes "find_w i n P = None"
  shows "\<forall>k. i \<le> k \<longrightarrow> k < n \<longrightarrow> \<not> P k"
  using assms
proof (induction i n P rule: find_w.induct)
  case (1 i n P)
  show ?case
  proof (cases "i < n")
    case True
    with 1 have "\<not> P i" and IH: "\<forall>k. i + 1 \<le> k \<longrightarrow> k < n \<longrightarrow> \<not> P k"
      by (auto simp: find_w.simps [of i n P] split: if_splits)
    moreover have "i + 1 \<le> k" if "i \<le> k" "k \<noteq> i" for k
      using that True by unat_arith
    ultimately show ?thesis by metis
  qed auto
qed

lemma find_w_None_iff: "find_w i n P = None \<longleftrightarrow> (\<forall>k. i \<le> k \<longrightarrow> k < n \<longrightarrow> \<not> P k)"
proof
  assume "\<forall>k. i \<le> k \<longrightarrow> k < n \<longrightarrow> \<not> P k"
  then show "find_w i n P = None"
    by (cases "find_w i n P") (auto dest: find_w_SomeD)
qed (rule find_w_NoneD)

section \<open>C strings\<close>

text \<open>
  A C string is the characters before its terminating NUL. \<open>cstr\<close> reads the string at
  the start of a buffer; a \<open>string\<close> with no NUL in it is one that C code can hold.
\<close>

definition NUL :: char where
  "NUL = CHR 0x00"

abbreviation no_nul :: "string \<Rightarrow> bool" where
  "no_nul s \<equiv> NUL \<notin> set s"

definition cstr :: "string \<Rightarrow> string" where
  "cstr buf = takeWhile (\<lambda>c. c \<noteq> NUL) buf"

lemma cstr_no_nul [simp]: "no_nul (cstr s)"
  by (auto simp: cstr_def dest: set_takeWhileD)

lemma cstr_id: "no_nul s \<Longrightarrow> cstr s = s"
  by (auto simp: cstr_def takeWhile_eq_all_conv)

lemma cstr_append_NUL: "no_nul s \<Longrightarrow> cstr (s @ NUL # rest) = s"
  by (auto simp: cstr_def takeWhile_tail)

section \<open>Lists and folds\<close>

lemma fold_invariant_upt:
  assumes "P a s" and "\<And>k s. a \<le> k \<Longrightarrow> k < b \<Longrightarrow> P k s \<Longrightarrow> P (Suc k) (f k s)" and "a \<le> b"
  shows "P b (fold f [a..<b] s)"
proof -
  have "P c (fold f [a..<c] s)" if "a \<le> c" "c \<le> b" for c
    using that
  proof (induction rule: dec_induct)
    case base
    then show ?case using assms(1) by simp
  next
    case (step c)
    then show ?case using assms(2) [of c] by simp
  qed
  then show ?thesis using assms(3) by blast
qed

end
