(* ===== verification/Mem.thy ===== *)
theory Mem
  imports Prelude
begin

text \<open>
  Physical memory as the kernel sees it through its identity map: a byte for every 64-bit
  address, with the little-endian reads and writes that a dereference of a
  \<^verbatim>\<open>uint8_t*\<close>, \<^verbatim>\<open>uint32_t*\<close> or \<^verbatim>\<open>uint64_t*\<close>
  performs on x86_64. Integers and byte lists convert through \<open>bytes_of_word\<close> and
  \<open>word_of_bytes\<close>, which the on-disk format uses as well.
\<close>

type_synonym mem = "u64 \<Rightarrow> u8"

section \<open>Little-endian integers\<close>

fun bytes_of_word :: "nat \<Rightarrow> 'a::len word \<Rightarrow> u8 list" where
  "bytes_of_word 0 w = []"
| "bytes_of_word (Suc n) w = ucast w # bytes_of_word n (drop_bit 8 w)"

fun word_of_bytes :: "u8 list \<Rightarrow> 'a::len word" where
  "word_of_bytes [] = 0"
| "word_of_bytes (b # bs) = ucast b OR push_bit 8 (word_of_bytes bs)"

lemma length_bytes_of_word [simp]: "length (bytes_of_word n w) = n"
  by (induction n arbitrary: w) auto

lemma take_bit_split_byte:
  fixes w :: "'a::len word"
  shows "ucast (ucast w :: u8) OR push_bit 8 (take_bit n (drop_bit 8 w)) = take_bit (8 + n) w"
  by (rule bit_word_eqI) (auto simp: bit_simps)

lemma word_of_bytes_of_word: "word_of_bytes (bytes_of_word n w) = take_bit (8 * n) w"
proof (induction n arbitrary: w)
  case (Suc n)
  then show ?case using take_bit_split_byte [of w "8 * n"] by simp
qed simp

lemma bytes_word_roundtrip:
  "LENGTH('a) \<le> 8 * n \<Longrightarrow> word_of_bytes (bytes_of_word n (w :: 'a::len word)) = w"
  by (simp add: word_of_bytes_of_word take_bit_word_eq_self)

definition bytes_of_string :: "string \<Rightarrow> u8 list" where
  "bytes_of_string s = map of_char s"

lemma length_bytes_of_string [simp]: "length (bytes_of_string s) = length s"
  by (simp add: bytes_of_string_def)

section \<open>Runs of bytes in memory\<close>

fun read_bytes :: "mem \<Rightarrow> u64 \<Rightarrow> nat \<Rightarrow> u8 list" where
  "read_bytes m a 0 = []"
| "read_bytes m a (Suc n) = m a # read_bytes m (a + 1) n"

fun write_bytes :: "mem \<Rightarrow> u64 \<Rightarrow> u8 list \<Rightarrow> mem" where
  "write_bytes m a [] = m"
| "write_bytes m a (b # bs) = write_bytes (m(a := b)) (a + 1) bs"

definition in_run :: "u64 \<Rightarrow> u64 \<Rightarrow> nat \<Rightarrow> bool" where
  "in_run x a n \<longleftrightarrow> unat (x - a) < n"

lemma length_read_bytes [simp]: "length (read_bytes m a n) = n"
  by (induction n arbitrary: a) auto

lemma nth_read_bytes: "i < n \<Longrightarrow> read_bytes m a n ! i = m (a + of_nat i)"
proof (induction n arbitrary: a i)
  case (Suc n)
  then show ?case by (cases i) (auto simp: add.assoc)
qed simp

lemma read_bytes_numerals:
  "read_bytes m a 2 = [m a, m (a + 1)]"
  "read_bytes m a 4 = [m a, m (a + 1), m (a + 2), m (a + 3)]"
  "read_bytes m a 8 = [m a, m (a + 1), m (a + 2), m (a + 3), m (a + 4), m (a + 5), m (a + 6), m (a + 7)]"
  by (simp_all add: eval_nat_numeral add.assoc)

lemma read_bytes_eq_map: "read_bytes m a n = map (\<lambda>i. m (a + of_nat i)) [0..<n]"
  by (rule nth_equalityI) (auto simp: nth_read_bytes)

lemma read_bytes_cong: "(\<And>i. i < n \<Longrightarrow> m (a + of_nat i) = m' (a + of_nat i)) \<Longrightarrow>
    read_bytes m a n = read_bytes m' a n"
  by (simp add: read_bytes_eq_map)

lemma read_bytes_append: "read_bytes m a (n + k) = read_bytes m a n @ read_bytes m (a + of_nat n) k"
  by (induction n arbitrary: a) (auto simp: add.assoc)

lemma in_run_nth: "i < n \<Longrightarrow> n \<le> 2 ^ 64 \<Longrightarrow> in_run (a + of_nat i) a n"
  by (simp add: in_run_def unat_of_nat)

lemma in_run_conv:
  "in_run x a n \<longleftrightarrow> (\<exists>i < n. x = a + of_nat i \<and> i < 2 ^ 64)"
proof
  assume "in_run x a n"
  then show "\<exists>i < n. x = a + of_nat i \<and> i < 2 ^ 64"
    unfolding in_run_def
    by (intro exI [of _ "unat (x - a)"]) (use unsigned_less [of "x - a"] in auto)
next
  assume "\<exists>i < n. x = a + of_nat i \<and> i < 2 ^ 64"
  then show "in_run x a n" by (auto simp: in_run_def unat_of_nat)
qed

lemma in_run_Suc: "n < 2 ^ 64 \<Longrightarrow> in_run x a (Suc n) \<longleftrightarrow> x = a \<or> in_run x (a + 1) n"
proof -
  assume n: "n < 2 ^ 64"
  have "unat (x - a) < Suc n \<longleftrightarrow> x = a \<or> unat (x - (a + 1)) < n"
  proof (cases "x = a")
    case False
    then have "0 < unat (x - a)" by (simp add: unat_gt_0)
    moreover have "unat (x - (a + 1)) = unat (x - a - 1)" by (simp add: diff_diff_eq)
    moreover have "unat (x - a - 1) = unat (x - a) - 1"
      using False by (subst unat_minus_one) auto
    ultimately show ?thesis using False by auto
  qed simp
  then show ?thesis by (simp add: in_run_def)
qed

lemma write_bytes_outside:
  "\<not> in_run x a (length bs) \<Longrightarrow> length bs \<le> 2 ^ 64 \<Longrightarrow> write_bytes m a bs x = m x"
proof (induction bs arbitrary: m a)
  case (Cons b bs)
  then have "\<not> (x = a \<or> in_run x (a + 1) (length bs))"
    using in_run_Suc [of "length bs" x a] by simp
  then have "write_bytes (m(a := b)) (a + 1) bs x = (m(a := b)) x"
    using Cons.prems by (intro Cons.IH) auto
  then show ?case using \<open>\<not> (x = a \<or> _)\<close> by simp
qed simp

lemma write_bytes_inside:
  "i < length bs \<Longrightarrow> length bs \<le> 2 ^ 64 \<Longrightarrow> write_bytes m a bs (a + of_nat i) = bs ! i"
proof (induction bs arbitrary: m a i)
  case (Cons b bs)
  show ?case
  proof (cases i)
    case 0
    have "\<not> in_run a (a + 1) (length bs)"
    proof
      assume "in_run a (a + 1) (length bs)"
      then obtain j where "j < length bs" "a = a + 1 + of_nat j"
        by (auto simp: in_run_conv)
      then have "(of_nat (Suc j) :: u64) = 0" by (simp add: add.assoc)
      then have "unat (of_nat (Suc j) :: u64) = 0" by simp
      moreover have "unat (of_nat (Suc j) :: u64) = Suc j"
        using \<open>j < length bs\<close> Cons.prems by (subst unat_of_nat) (simp add: mod_less)
      ultimately show False by simp
    qed
    then show ?thesis using 0 Cons.prems by (simp add: write_bytes_outside)
  next
    case (Suc k)
    have "write_bytes (m(a := b)) (a + 1) bs (a + 1 + of_nat k) = bs ! k"
      using Suc Cons.prems by (intro Cons.IH) auto
    then show ?thesis using Suc by (simp add: add.assoc)
  qed
qed simp

lemma read_write_bytes: "length bs \<le> 2 ^ 64 \<Longrightarrow> read_bytes (write_bytes m a bs) a (length bs) = bs"
  by (rule nth_equalityI) (auto simp: nth_read_bytes write_bytes_inside)

lemma read_write_bytes_disjoint:
  assumes "\<And>i. i < n \<Longrightarrow> \<not> in_run (a + of_nat i) b (length bs)" and "length bs \<le> 2 ^ 64"
  shows "read_bytes (write_bytes m b bs) a n = read_bytes m a n"
  by (rule read_bytes_cong) (rule write_bytes_outside; use assms in blast)

section \<open>Integer loads and stores\<close>

definition read16 :: "mem \<Rightarrow> u64 \<Rightarrow> u16" where
  "read16 m a = word_of_bytes (read_bytes m a 2)"

definition read32 :: "mem \<Rightarrow> u64 \<Rightarrow> u32" where
  "read32 m a = word_of_bytes (read_bytes m a 4)"

definition read64 :: "mem \<Rightarrow> u64 \<Rightarrow> u64" where
  "read64 m a = word_of_bytes (read_bytes m a 8)"

definition write32 :: "mem \<Rightarrow> u64 \<Rightarrow> u32 \<Rightarrow> mem" where
  "write32 m a v = write_bytes m a (bytes_of_word 4 v)"

definition write64 :: "mem \<Rightarrow> u64 \<Rightarrow> u64 \<Rightarrow> mem" where
  "write64 m a v = write_bytes m a (bytes_of_word 8 v)"

definition sep8 :: "u64 \<Rightarrow> u64 \<Rightarrow> bool" where
  "sep8 a b \<longleftrightarrow> (\<forall>i < 8. \<not> in_run (a + of_nat i) b 8)"

lemma read64_write64_same [simp]: "read64 (write64 m a v) a = v"
proof -
  have "read_bytes (write_bytes m a (bytes_of_word 8 v)) a 8 = bytes_of_word 8 v"
    using read_write_bytes [of "bytes_of_word 8 v" m a] by simp
  then show ?thesis by (simp add: read64_def write64_def bytes_word_roundtrip)
qed

lemma read64_write64_sep: "sep8 a b \<Longrightarrow> read64 (write64 m b v) a = read64 m a"
  unfolding read64_def write64_def sep8_def
  by (subst read_write_bytes_disjoint) auto

lemma write64_outside: "\<not> in_run x a 8 \<Longrightarrow> write64 m a v x = m x"
  by (simp add: write64_def write_bytes_outside)

lemma read64_cong: "(\<And>i. i < 8 \<Longrightarrow> m (a + of_nat i) = m' (a + of_nat i)) \<Longrightarrow> read64 m a = read64 m' a"
  by (simp add: read64_def cong: read_bytes_cong)

text \<open>Two distinct words of memory aligned to eight bytes never overlap.\<close>

lemma unat_and_mask: "unat (a AND mask n :: 'a::len word) = unat a mod 2 ^ n"
  unfolding take_bit_eq_mask [symmetric] unsigned_take_bit_eq by (rule take_bit_eq_mod)

lemma unat_and_7: "unat (a AND 7 :: u64) = unat a mod 8"
  using unat_and_mask [of a 3] by (simp add: mask_numeral)

lemma aligned_plus_small:
  fixes a :: u64
  assumes "unat a mod 8 = 0" and "i < 8"
  shows "unat (a + of_nat i) = unat a + i"
proof -
  have "unat a < 2 ^ 64" using unsigned_less [of a, where ?'a = nat] by simp
  with assms have "unat a + i < 2 ^ 64" by simp presburger
  with assms show ?thesis by (simp add: unat_word_ariths unat_of_nat)
qed

lemma aligned_sep8:
  assumes "a AND 7 = 0" and "b AND 7 = 0" and "a \<noteq> b"
  shows "sep8 a b"
  unfolding sep8_def
proof (intro allI impI notI)
  fix i :: nat
  assume i: "i < 8" and "in_run (a + of_nat i) b 8"
  then obtain j where j: "j < 8" and eq: "a + of_nat i = b + of_nat j"
    by (auto simp: in_run_conv)
  have al: "unat a mod 8 = 0" "unat b mod 8 = 0"
    using unat_and_7 [of a] unat_and_7 [of b] assms(1,2) by simp_all
  have "unat a + i = unat b + j"
    using eq al i j by (metis aligned_plus_small)
  with al i j have "unat a = unat b" by presburger
  with assms(3) show False by (simp add: word_unat_eq_iff)
qed

lemma read_zero [simp]: "read64 (\<lambda>_. 0) a = 0"
proof -
  have "word_of_bytes (read_bytes (\<lambda>_. 0) a n) = (0 :: u64)" for n
    by (induction n arbitrary: a) auto
  then show ?thesis by (simp add: read64_def)
qed

end
