(* ===== verification/Allocator.thy ===== *)
theory Allocator
  imports Prelude
begin

text \<open>
  The contract that the page allocator (\<^verbatim>\<open>pmm_alloc_page\<close> /
  \<^verbatim>\<open>pmm_free_page\<close>) and the kernel heap (\<^verbatim>\<open>kmalloc\<close> /
  \<^verbatim>\<open>kfree\<close>) share, as the locale \<open>block_allocator\<close>, and what a client
  gets from it: whatever sequence of requests and releases it makes, the blocks it holds at
  one time never overlap. The client is a ledger of the blocks it was given.
\<close>

definition span :: "u64 \<Rightarrow> nat \<Rightarrow> nat set" where
  "span p n = {unat p..<unat p + n}"

section \<open>A client that allocates and releases\<close>

datatype 'r alloc_op = Request 'r | Release nat

fun client_step ::
  "('r \<Rightarrow> 's \<Rightarrow> u64 \<times> 's) \<Rightarrow> (u64 \<Rightarrow> 's \<Rightarrow> 's) \<Rightarrow> ('r \<Rightarrow> nat) \<Rightarrow>
    'r alloc_op \<Rightarrow> 's \<times> (u64 \<times> nat) list \<Rightarrow> 's \<times> (u64 \<times> nat) list" where
  "client_step alloc free need (Request r) (s, led) =
     (let (p, s') = alloc r s in if p = 0 then (s', led) else (s', (p, need r) # led))"
| "client_step alloc free need (Release i) (s, led) =
     (if i < length led then (free (fst (led ! i)) s, take i led @ drop (Suc i) led)
      else (s, led))"

fun client_run ::
  "('r \<Rightarrow> 's \<Rightarrow> u64 \<times> 's) \<Rightarrow> (u64 \<Rightarrow> 's \<Rightarrow> 's) \<Rightarrow> ('r \<Rightarrow> nat) \<Rightarrow>
    'r alloc_op list \<Rightarrow> 's \<times> (u64 \<times> nat) list \<Rightarrow> 's \<times> (u64 \<times> nat) list" where
  "client_run alloc free need [] x = x"
| "client_run alloc free need (e # es) x =
     client_run alloc free need es (client_step alloc free need e x)"

definition blocks_disjoint :: "(u64 \<times> nat) list \<Rightarrow> bool" where
  "blocks_disjoint led \<longleftrightarrow>
     (\<forall>i < length led. \<forall>j < length led. i \<noteq> j \<longrightarrow>
        span (fst (led ! i)) (snd (led ! i)) \<inter> span (fst (led ! j)) (snd (led ! j)) = {})"

section \<open>The contract\<close>

locale block_allocator =
  fixes alloc :: "'r \<Rightarrow> 's \<Rightarrow> u64 \<times> 's"
    and free :: "u64 \<Rightarrow> 's \<Rightarrow> 's"
    and need :: "'r \<Rightarrow> nat"
    and inv :: "'s \<Rightarrow> bool"
    and live :: "'s \<Rightarrow> u64 set"
    and extent :: "'s \<Rightarrow> u64 \<Rightarrow> nat set"
  assumes alloc_inv: "inv s \<Longrightarrow> alloc r s = (p, s') \<Longrightarrow> inv s'"
    and alloc_fail: "inv s \<Longrightarrow> alloc r s = (0, s') \<Longrightarrow> s' = s"
    and alloc_fresh: "inv s \<Longrightarrow> alloc r s = (p, s') \<Longrightarrow> p \<noteq> 0 \<Longrightarrow> p \<notin> live s"
    and alloc_live: "inv s \<Longrightarrow> alloc r s = (p, s') \<Longrightarrow> p \<noteq> 0 \<Longrightarrow> live s' = insert p (live s)"
    and alloc_span: "inv s \<Longrightarrow> alloc r s = (p, s') \<Longrightarrow> p \<noteq> 0 \<Longrightarrow>
           span p (need r) \<subseteq> extent s' p"
    and alloc_frame: "inv s \<Longrightarrow> alloc r s = (p, s') \<Longrightarrow> q \<in> live s \<Longrightarrow> extent s' q = extent s q"
    and free_inv: "inv s \<Longrightarrow> p \<in> live s \<Longrightarrow> inv (free p s)"
    and free_live: "inv s \<Longrightarrow> p \<in> live s \<Longrightarrow> live (free p s) = live s - {p}"
    and free_frame: "inv s \<Longrightarrow> p \<in> live s \<Longrightarrow> q \<in> live s \<Longrightarrow> q \<noteq> p \<Longrightarrow>
           extent (free p s) q = extent s q"
    and live_disjoint: "inv s \<Longrightarrow> p \<in> live s \<Longrightarrow> q \<in> live s \<Longrightarrow> p \<noteq> q \<Longrightarrow>
           extent s p \<inter> extent s q = {}"
begin

definition holds :: "'s \<Rightarrow> u64 \<times> nat \<Rightarrow> bool" where
  "holds s x \<longleftrightarrow> fst x \<in> live s \<and> span (fst x) (snd x) \<subseteq> extent s (fst x)"

definition ledger_ok :: "'s \<times> (u64 \<times> nat) list \<Rightarrow> bool" where
  "ledger_ok x \<longleftrightarrow> inv (fst x) \<and> distinct (map fst (snd x)) \<and> (\<forall>b \<in> set (snd x). holds (fst x) b)"

lemma holds_request:
  assumes "inv s" and "alloc r s = (p, s')" and "p \<noteq> 0" and "holds s b"
  shows "holds s' b \<and> fst b \<noteq> p"
  using assms alloc_fresh [OF assms(1-3)] alloc_live [OF assms(1-3)]
    alloc_frame [OF assms(1,2), of "fst b"]
  by (auto simp: holds_def)

lemma holds_release:
  assumes "inv s" and "p \<in> live s" and "holds s b" and "fst b \<noteq> p"
  shows "holds (free p s) b"
  using assms free_live [OF assms(1,2)] free_frame [OF assms(1,2), of "fst b"]
  by (auto simp: holds_def)

lemma ledger_ok_request:
  assumes ok: "ledger_ok (s, led)"
  shows "ledger_ok (client_step alloc free need (Request r) (s, led))"
proof -
  obtain p s' where a: "alloc r s = (p, s')" by force
  have i: "inv s" using ok by (simp add: ledger_ok_def)
  show ?thesis
  proof (cases "p = 0")
    case True
    with a i have "s' = s" using alloc_fail by blast
    with a True ok show ?thesis by simp
  next
    case False
    have old: "holds s' b \<and> fst b \<noteq> p" if "b \<in> set led" for b
      using that ok holds_request [OF i a False] by (simp add: ledger_ok_def)
    moreover have "holds s' (p, need r)"
      using alloc_live [OF i a False] alloc_span [OF i a False] by (simp add: holds_def)
    ultimately show ?thesis
      using a False ok alloc_inv [OF i a] by (auto simp: ledger_ok_def)
  qed
qed

lemma ledger_ok_release:
  assumes ok: "ledger_ok (s, led)"
  shows "ledger_ok (client_step alloc free need (Release i) (s, led))"
proof (cases "i < length led")
  case True
  define rest where "rest = take i led @ drop (Suc i) led"
  define p where "p = fst (led ! i)"
  have "map fst led = map fst (take i led) @ p # map fst (drop (Suc i) led)"
    using True id_take_nth_drop [OF True] unfolding p_def by (metis list.simps(9) map_append)
  then have d: "distinct (map fst rest)" and np: "p \<notin> set (map fst rest)"
    using ok by (auto simp: ledger_ok_def rest_def)
  have i: "inv s" and pl: "p \<in> live s"
    using ok True nth_mem [OF True] by (auto simp: ledger_ok_def holds_def p_def)
  have "holds (free p s) b" if "b \<in> set rest" for b
  proof (rule holds_release [OF i pl])
    show "holds s b" using that ok by (auto simp: ledger_ok_def rest_def dest: in_set_takeD in_set_dropD)
    show "fst b \<noteq> p" using that np by auto
  qed
  then have "ledger_ok (free p s, rest)"
    using d free_inv [OF i pl] by (simp add: ledger_ok_def)
  then show ?thesis using True by (simp add: rest_def p_def)
qed (use ok in simp)

lemma ledger_ok_run: "ledger_ok x \<Longrightarrow> ledger_ok (client_run alloc free need es x)"
proof (induction es arbitrary: x)
  case (Cons e es)
  obtain s led where "x = (s, led)" by force
  with Cons show ?case
    by (cases e) (auto simp: ledger_ok_request ledger_ok_release simp del: client_step.simps)
qed simp

lemma ledger_ok_disjoint:
  assumes "ledger_ok (s, led)"
  shows "blocks_disjoint led"
  unfolding blocks_disjoint_def
proof (intro allI impI)
  fix i j
  assume ij: "i < length led" "j < length led" "i \<noteq> j"
  then have "fst (led ! i) \<noteq> fst (led ! j)"
    using assms by (simp add: ledger_ok_def distinct_conv_nth)
  moreover have "holds s (led ! i)" "holds s (led ! j)" "inv s"
    using ij assms by (auto simp: ledger_ok_def)
  ultimately show "span (fst (led ! i)) (snd (led ! i)) \<inter> span (fst (led ! j)) (snd (led ! j)) = {}"
    using live_disjoint [of s "fst (led ! i)" "fst (led ! j)"] unfolding holds_def by blast
qed

theorem client_blocks_disjoint:
  assumes "inv s" and "client_run alloc free need es (s, []) = (s', led)"
  shows "blocks_disjoint led \<and> inv s'"
  using ledger_ok_run [of "(s, [])" es] assms ledger_ok_disjoint [of s' led]
  by (auto simp: ledger_ok_def)

end

end
