(* ===== verification/Pmm.thy ===== *)
theory Pmm
  imports Mem Allocator
begin

text \<open>
  The physical memory manager, \<^verbatim>\<open>src/kernel/pmm.cpp\<close>. The record \<open>pmm\<close>
  holds the file's statics; the bitmap is the list of bytes at \<open>page_bitmap_at\<close>, one
  bit per page, set for a page in use. \<open>pmm_init\<close> parses the Multiboot2 memory map out
  of byte memory. Diagnostics printed on the serial port are not part of the state.
  The lemmas show that the bit operations implement a set of pages, that the two
  allocators return the lowest page, and the lowest run of pages, that is free, and that
  \<open>used_pages\<close> counts the set bits after every operation.
\<close>

section \<open>State and bitmap operations\<close>

definition PAGE_SIZE :: u64 where
  "PAGE_SIZE = 4096"

record pmm =
  page_bitmap_at :: u64
  page_bitmap :: "u8 list"
  total_pages :: u64
  used_pages :: u64
  bitmap_size :: u64
  total_memory :: u64
  usable_memory :: u64

definition pmm_boot :: pmm where
  "pmm_boot = \<lparr>page_bitmap_at = 0, page_bitmap = [], total_pages = 0, used_pages = 0,
     bitmap_size = 0, total_memory = 0, usable_memory = 0\<rparr>"

definition bitmap_set :: "u64 \<Rightarrow> u8 list \<Rightarrow> u8 list" where
  "bitmap_set b bm =
     bm[unat (b div 8) := (bm ! unat (b div 8)) OR push_bit (unat (b mod 8)) 1]"

definition bitmap_clear :: "u64 \<Rightarrow> u8 list \<Rightarrow> u8 list" where
  "bitmap_clear b bm =
     bm[unat (b div 8) := (bm ! unat (b div 8)) AND NOT (push_bit (unat (b mod 8)) 1)]"

definition bitmap_test :: "u8 list \<Rightarrow> u64 \<Rightarrow> bool" where
  "bitmap_test bm b \<longleftrightarrow> (bm ! unat (b div 8)) AND push_bit (unat (b mod 8)) 1 \<noteq> 0"

section \<open>Initialisation from the Multiboot2 memory map\<close>

partial_function (option) find_mmap_tag :: "mem \<Rightarrow> u64 \<Rightarrow> u64 option" where
  "find_mmap_tag m tag =
     (if read32 m tag = 0 then Some 0
      else if read32 m tag = 6 then Some tag
      else find_mmap_tag m (tag + ucast ((read32 m (tag + 4) + 7) AND NOT 7)))"

record mmap_entry =
  me_base :: u64
  me_length :: u64
  me_type :: u32

fun mmap_entries :: "mem \<Rightarrow> u64 \<Rightarrow> u32 \<Rightarrow> nat \<Rightarrow> mmap_entry list" where
  "mmap_entries m e esz 0 = []"
| "mmap_entries m e esz (Suc n) =
     \<lparr>me_base = read64 m e, me_length = read64 m (e + 8), me_type = read32 m (e + 16)\<rparr>
       # mmap_entries m (e + ucast esz) esz n"

definition mmap_stats :: "mmap_entry \<Rightarrow> u64 \<times> u64 \<times> u64 \<Rightarrow> u64 \<times> u64 \<times> u64" where
  "mmap_stats e = (\<lambda>(highest, total, usable).
     let end_addr = me_base e + me_length e
     in (if end_addr > highest then end_addr else highest,
         total + me_length e,
         if me_type e = 1 then usable + me_length e else usable))"

definition mark_page_free :: "u64 \<Rightarrow> pmm \<Rightarrow> pmm" where
  "mark_page_free page s =
     (if page < total_pages s
      then s\<lparr>page_bitmap := bitmap_clear page (page_bitmap s), used_pages := used_pages s - 1\<rparr>
      else s)"

definition mark_region :: "mmap_entry \<Rightarrow> pmm \<Rightarrow> pmm" where
  "mark_region e s =
     (if me_type e = 1
      then for_w ((me_base e + PAGE_SIZE - 1) div PAGE_SIZE)
             ((me_base e + me_length e) div PAGE_SIZE) mark_page_free s
      else s)"

definition mark_page_used :: "u64 \<Rightarrow> pmm \<Rightarrow> pmm" where
  "mark_page_used page s =
     (if page < total_pages s \<and> \<not> bitmap_test (page_bitmap s) page
      then s\<lparr>page_bitmap := bitmap_set page (page_bitmap s), used_pages := used_pages s + 1\<rparr>
      else s)"

text \<open>
  \<open>kernel_end\<close> is the linker's \<^verbatim>\<open>_kernel_end\<close>. The result \<open>None\<close> says
  that the call does not return: a tag of size 0 keeps the tag walk in place, and an entry
  size of 0 is a division fault. The last loop of the code counts up to and including
  \<open>bitmap_end_page\<close>, a quotient by 4096, so the bound \<open>bitmap_end_page + 1\<close> cannot wrap.
\<close>

definition pmm_init_map :: "u64 \<Rightarrow> mem \<Rightarrow> u64 \<Rightarrow> mmap_entry list \<Rightarrow> pmm \<Rightarrow> pmm" where
  "pmm_init_map kernel_end m mboot es s =
     (let (highest, total, usable) = fold mmap_stats es (0, total_memory s, usable_memory s);
          pages = (if highest > usable * 2 then usable * 2 div PAGE_SIZE else highest div PAGE_SIZE);
          size = (pages + 7) div 8;
          mboot_end = mboot + 8 + ucast (read32 m mboot);
          safe_start = (if kernel_end > mboot_end then kernel_end else mboot_end);
          at = (safe_start + PAGE_SIZE - 1) AND NOT (PAGE_SIZE - 1);
          s1 = s\<lparr>total_memory := total, usable_memory := usable, total_pages := pages,
                 bitmap_size := size, page_bitmap_at := at,
                 page_bitmap := replicate (unat size) 0xFF, used_pages := pages\<rparr>;
          s2 = fold mark_region es s1;
          bitmap_end_page = (at + size + PAGE_SIZE - 1) div PAGE_SIZE
      in for_w (0x100000 div PAGE_SIZE) (bitmap_end_page + 1) mark_page_used s2)"

definition mmap_tag_entries :: "mem \<Rightarrow> u64 \<Rightarrow> mmap_entry list" where
  "mmap_tag_entries m t =
     mmap_entries m (t + 16) (read32 m (t + 8))
       (unat ((read32 m (t + 4) - 16) div read32 m (t + 8)))"

definition pmm_init :: "u64 \<Rightarrow> mem \<Rightarrow> u64 \<Rightarrow> pmm \<Rightarrow> pmm option" where
  "pmm_init kernel_end m mboot s =
     (case find_mmap_tag m (mboot + 8) of
        None \<Rightarrow> None
      | Some t \<Rightarrow>
          if t = 0 then Some s
          else if read32 m (t + 8) = 0 then None
          else Some (pmm_init_map kernel_end m mboot (mmap_tag_entries m t) s))"

section \<open>Allocation and release\<close>

definition take_page :: "u64 \<Rightarrow> pmm \<Rightarrow> pmm" where
  "take_page i s = s\<lparr>page_bitmap := bitmap_set i (page_bitmap s), used_pages := used_pages s + 1\<rparr>"

function contiguous_scan :: "u8 list \<Rightarrow> u64 \<Rightarrow> u64 \<Rightarrow> u64 \<Rightarrow> u64 \<Rightarrow> u64 \<Rightarrow> u64 option" where
  "contiguous_scan bm np n i run run_start =
     (if i < np then
        if \<not> bitmap_test bm i then
          (let start = (if run = 0 then i else run_start)
           in if run + 1 \<ge> n then Some start
              else contiguous_scan bm np n (i + 1) (run + 1) start)
        else contiguous_scan bm np n (i + 1) 0 run_start
      else None)"
  by pat_completeness auto
termination
  by (relation "measure (\<lambda>(bm, np, n, i, run, start). unat np - unat i)")
    (auto simp: unat_plus_one word_less_nat_alt)

declare contiguous_scan.simps [simp del]

definition pmm_alloc_contiguous :: "u64 \<Rightarrow> pmm \<Rightarrow> u64 \<times> pmm" where
  "pmm_alloc_contiguous n s =
     (if n = 0 then (0, s)
      else case contiguous_scan (page_bitmap s) (total_pages s) n 1 0 0 of
             None \<Rightarrow> (0, s)
           | Some start \<Rightarrow> (start * PAGE_SIZE, for_w start (start + n) take_page s))"

definition pmm_alloc_page :: "pmm \<Rightarrow> u64 \<times> pmm" where
  "pmm_alloc_page s =
     (case find_w 1 (total_pages s) (\<lambda>i. \<not> bitmap_test (page_bitmap s) i) of
        None \<Rightarrow> (0, s)
      | Some i \<Rightarrow> (i * PAGE_SIZE, take_page i s))"

definition pmm_free_page :: "u64 \<Rightarrow> pmm \<Rightarrow> pmm" where
  "pmm_free_page page s =
     (let i = page div PAGE_SIZE
      in if i \<ge> total_pages s then s
         else if \<not> bitmap_test (page_bitmap s) i then s
         else s\<lparr>page_bitmap := bitmap_clear i (page_bitmap s), used_pages := used_pages s - 1\<rparr>)"

definition pmm_get_total_memory :: "pmm \<Rightarrow> u64" where
  "pmm_get_total_memory s = total_memory s"

definition pmm_get_managed_memory :: "pmm \<Rightarrow> u64" where
  "pmm_get_managed_memory s = total_pages s * PAGE_SIZE"

definition pmm_get_used_memory :: "pmm \<Rightarrow> u64" where
  "pmm_get_used_memory s = used_pages s * PAGE_SIZE"

definition pmm_get_free_memory :: "pmm \<Rightarrow> u64" where
  "pmm_get_free_memory s = (total_pages s - used_pages s) * PAGE_SIZE"

section \<open>The bitmap as a set of pages\<close>

lemma bitmap_test_bit: "bitmap_test bm b \<longleftrightarrow> bit (bm ! (unat b div 8)) (unat b mod 8)"
  by (simp add: bitmap_test_def and_exp_eq_0_iff_not_bit unat_div unat_mod)

lemma page_eq_iff: "(b :: u64) = c \<longleftrightarrow> unat b div 8 = unat c div 8 \<and> unat b mod 8 = unat c mod 8"
  by (metis div_mult_mod_eq word_unat_eq_iff)

lemma bit_set_u8: "n < 8 \<Longrightarrow> bit (w OR 2 ^ k :: u8) n \<longleftrightarrow> bit w n \<or> n = k"
  by (auto simp: bit_simps)

lemma bit_clear_u8: "n < 8 \<Longrightarrow> bit (w AND NOT (2 ^ k) :: u8) n \<longleftrightarrow> bit w n \<and> n \<noteq> k"
  by (auto simp: bit_simps)

lemma bitmap_test_set:
  assumes "unat b div 8 < length bm"
  shows "bitmap_test (bitmap_set b bm) c \<longleftrightarrow> c = b \<or> bitmap_test bm c"
proof (cases "unat c div 8 = unat b div 8")
  case True
  then show ?thesis
    using assms by (auto simp: bitmap_test_bit bitmap_set_def unat_div unat_mod bit_set_u8 page_eq_iff [of c b])
next
  case False
  then show ?thesis
    using assms by (auto simp: bitmap_test_bit bitmap_set_def unat_div unat_mod page_eq_iff [of c b])
qed

lemma bitmap_test_clear:
  assumes "unat b div 8 < length bm"
  shows "bitmap_test (bitmap_clear b bm) c \<longleftrightarrow> c \<noteq> b \<and> bitmap_test bm c"
proof (cases "unat c div 8 = unat b div 8")
  case True
  then show ?thesis
    using assms by (auto simp: bitmap_test_bit bitmap_clear_def unat_div unat_mod bit_clear_u8 page_eq_iff [of c b])
next
  case False
  then show ?thesis
    using assms by (auto simp: bitmap_test_bit bitmap_clear_def unat_div unat_mod page_eq_iff [of c b])
qed

lemma length_bitmap_set [simp]: "length (bitmap_set b bm) = length bm"
  by (simp add: bitmap_set_def)

lemma length_bitmap_clear [simp]: "length (bitmap_clear b bm) = length bm"
  by (simp add: bitmap_clear_def)

definition used_set :: "pmm \<Rightarrow> u64 set" where
  "used_set s = {p. p < total_pages s \<and> bitmap_test (page_bitmap s) p}"

definition free_set :: "pmm \<Rightarrow> u64 set" where
  "free_set s = {p. p < total_pages s \<and> \<not> bitmap_test (page_bitmap s) p}"

text \<open>
  The invariant: the bitmap is large enough, the counter agrees with it, and the address
  of a page fits in 64 bits.
\<close>

definition bitmap_ok :: "pmm \<Rightarrow> bool" where
  "bitmap_ok s \<longleftrightarrow> unat (total_pages s) \<le> 8 * length (page_bitmap s) \<and> total_pages s \<le> 2 ^ 52"

definition pmm_inv :: "pmm \<Rightarrow> bool" where
  "pmm_inv s \<longleftrightarrow> bitmap_ok s \<and> used_pages s = of_nat (card (used_set s))"

lemma bitmap_ok_index: "bitmap_ok s \<Longrightarrow> p < total_pages s \<Longrightarrow> unat p div 8 < length (page_bitmap s)"
  unfolding bitmap_ok_def word_less_nat_alt by linarith

lemma used_set_set:
  assumes "bitmap_ok s" and "p < total_pages s"
  shows "used_set (s\<lparr>page_bitmap := bitmap_set p (page_bitmap s), used_pages := u\<rparr>)
           = insert p (used_set s)"
  using assms by (auto simp: used_set_def bitmap_test_set [OF bitmap_ok_index [OF assms]])

lemma used_set_clear:
  assumes "bitmap_ok s" and "p < total_pages s"
  shows "used_set (s\<lparr>page_bitmap := bitmap_clear p (page_bitmap s), used_pages := u\<rparr>)
           = used_set s - {p}"
  using assms by (auto simp: used_set_def bitmap_test_clear [OF bitmap_ok_index [OF assms]])

lemma finite_used_set [simp]: "finite (used_set s)"
  by simp

lemma bitmap_ok_upd [simp]:
  "length bm = length (page_bitmap s) \<Longrightarrow>
     bitmap_ok (s\<lparr>page_bitmap := bm, used_pages := u\<rparr>) \<longleftrightarrow> bitmap_ok s"
  by (simp add: bitmap_ok_def)

section \<open>Single pages\<close>

lemma used_free_disjoint: "used_set s \<inter> free_set s = {}"
  by (auto simp: used_set_def free_set_def)

lemma free_set_iff: "p \<in> free_set s \<longleftrightarrow> p < total_pages s \<and> p \<notin> used_set s"
  by (auto simp: used_set_def free_set_def)

lemma take_page_used:
  "bitmap_ok s \<Longrightarrow> p < total_pages s \<Longrightarrow> used_set (take_page p s) = insert p (used_set s)"
  by (simp add: take_page_def used_set_set)

lemma take_page_inv:
  assumes "pmm_inv s" and "p \<in> free_set s"
  shows "pmm_inv (take_page p s)"
proof -
  have b: "bitmap_ok s" and p: "p < total_pages s" "p \<notin> used_set s"
    using assms by (auto simp: pmm_inv_def free_set_def used_set_def)
  have "card (used_set (take_page p s)) = Suc (card (used_set s))"
    using p by (simp add: take_page_used [OF b p(1)])
  moreover have "bitmap_ok (take_page p s)" using b by (simp add: take_page_def)
  ultimately show ?thesis using assms(1) by (simp add: pmm_inv_def take_page_def)
qed

lemma take_page_fields [frame_simps]:
  "total_pages (take_page p s) = total_pages s"
  "bitmap_size (take_page p s) = bitmap_size s"
  "page_bitmap_at (take_page p s) = page_bitmap_at s"
  by (simp_all add: take_page_def)

lemma pmm_alloc_page_cases:
  assumes "pmm_alloc_page s = (a, s')"
  obtains (full) "a = 0" "s' = s" "\<forall>p. 1 \<le> p \<longrightarrow> p \<notin> free_set s"
  | (page) i where "a = i * PAGE_SIZE" "s' = take_page i s" "1 \<le> i" "i \<in> free_set s"
      "\<forall>p. 1 \<le> p \<longrightarrow> p < i \<longrightarrow> p \<notin> free_set s"
proof (cases "find_w 1 (total_pages s) (\<lambda>i. \<not> bitmap_test (page_bitmap s) i)")
  case None
  then show ?thesis
    using assms find_w_NoneD [OF None]
    by (intro full) (auto simp: pmm_alloc_page_def free_set_def)
next
  case (Some i)
  then show ?thesis
    using assms find_w_SomeD [OF Some]
    by (intro page [of i]) (auto simp: pmm_alloc_page_def free_set_def)
qed

lemma page_addr:
  assumes "i \<le> 2 ^ 52" and "i \<noteq> 2 ^ 52"
  shows "unat (i * PAGE_SIZE) = unat i * 4096"
proof -
  have "unat i < 2 ^ 52" using assms by (simp add: word_le_nat_alt word_unat_eq_iff)
  then show ?thesis by (simp add: PAGE_SIZE_def unat_word_ariths)
qed

lemma page_addr_lt:
  assumes "bitmap_ok s" and "i < total_pages s"
  shows "unat (i * PAGE_SIZE) = unat i * 4096"
proof (rule page_addr)
  show "i \<le> 2 ^ 52" "i \<noteq> 2 ^ 52" using assms by (auto simp: bitmap_ok_def)
qed

lemma page_addr_inj:
  assumes "bitmap_ok s" and "i < total_pages s" and "j < total_pages s"
  shows "i * PAGE_SIZE = j * PAGE_SIZE \<longleftrightarrow> i = j"
  using page_addr_lt [OF assms(1,2)] page_addr_lt [OF assms(1,3)]
  by (metis mult_right_cancel word_unat_eq_iff zero_neq_numeral)

lemma page_addr_zero:
  assumes "bitmap_ok s" and "i < total_pages s"
  shows "i * PAGE_SIZE = 0 \<longleftrightarrow> i = 0"
  using page_addr_lt [OF assms] by (auto simp: word_unat_eq_iff)

lemma page_addr_div:
  assumes "bitmap_ok s" and "i < total_pages s"
  shows "(i * PAGE_SIZE) div PAGE_SIZE = i"
  using page_addr_lt [OF assms] by (simp add: word_unat_eq_iff unat_div PAGE_SIZE_def)

lemma pmm_free_page_eq:
  "pmm_free_page a s =
     (if a div PAGE_SIZE \<in> used_set s
      then s\<lparr>page_bitmap := bitmap_clear (a div PAGE_SIZE) (page_bitmap s),
             used_pages := used_pages s - 1\<rparr>
      else s)"
  by (auto simp: pmm_free_page_def used_set_def Let_def)

lemma pmm_free_page_used:
  "bitmap_ok s \<Longrightarrow> used_set (pmm_free_page a s) = used_set s - {a div PAGE_SIZE}"
  by (cases "a div PAGE_SIZE < total_pages s")
    (simp_all add: pmm_free_page_eq used_set_clear, simp_all add: used_set_def)

lemma pmm_free_page_bitmap_ok: "bitmap_ok s \<Longrightarrow> bitmap_ok (pmm_free_page a s)"
  by (simp add: pmm_free_page_eq)

lemma pmm_free_page_total [frame_simps]: "total_pages (pmm_free_page a s) = total_pages s"
  by (simp add: pmm_free_page_eq)

lemma pmm_free_page_keeps_inv:
  assumes "pmm_inv s"
  shows "pmm_inv (pmm_free_page a s)"
proof (cases "a div PAGE_SIZE \<in> used_set s")
  case True
  let ?i = "a div PAGE_SIZE"
  have b: "bitmap_ok s" using assms by (simp add: pmm_inv_def)
  have "card (used_set (pmm_free_page a s)) = card (used_set s) - 1"
    using True by (simp add: pmm_free_page_used [OF b])
  moreover have "0 < card (used_set s)" using True by (auto simp: card_gt_0_iff)
  ultimately have "of_nat (card (used_set (pmm_free_page a s))) = (of_nat (card (used_set s)) - 1 :: u64)"
    by simp
  then show ?thesis
    using assms True pmm_free_page_bitmap_ok [OF b, of a]
    by (simp add: pmm_inv_def pmm_free_page_eq)
qed (use assms in \<open>simp add: pmm_free_page_eq\<close>)

lemma pmm_alloc_page_keeps_inv:
  "pmm_inv s \<Longrightarrow> pmm_alloc_page s = (a, s') \<Longrightarrow> pmm_inv s'"
  by (erule pmm_alloc_page_cases) (auto intro: take_page_inv)

text \<open>The bitmap is determined by what it says of each page, as long as its length is known.\<close>

lemma bitmap_clear_set:
  assumes "unat b div 8 < length bm" and "\<not> bitmap_test bm b"
  shows "bitmap_clear b (bitmap_set b bm) = bm"
proof -
  let ?k = "unat (b div 8)" and ?e = "2 ^ unat (b mod 8) :: u8"
  have "(bm ! ?k OR ?e) AND NOT ?e = bm ! ?k"
  proof (rule bit_word_eqI)
    fix n
    assume "n < LENGTH(8)"
    then show "bit ((bm ! ?k OR ?e) AND NOT ?e) n = bit (bm ! ?k) n"
      using assms(2) by (auto simp: bit_clear_u8 bit_set_u8 bitmap_test_bit unat_div unat_mod)
  qed
  then show ?thesis
    using assms(1) by (simp add: bitmap_set_def bitmap_clear_def unat_div)
qed

lemma free_after_take:
  assumes "bitmap_ok s" and "i \<in> free_set s"
  shows "pmm_free_page (i * PAGE_SIZE) (take_page i s) = s"
proof -
  have i: "i < total_pages s" "\<not> bitmap_test (page_bitmap s) i"
    using assms(2) by (auto simp: free_set_def)
  have "bitmap_clear i (bitmap_set i (page_bitmap s)) = page_bitmap s"
    using bitmap_ok_index [OF assms(1) i(1)] i(2) by (rule bitmap_clear_set)
  then show ?thesis
    using take_page_used [OF assms(1) i(1)] page_addr_div [OF assms(1) i(1)]
    by (simp add: pmm_free_page_eq take_page_def)
qed

section \<open>Contiguous runs\<close>

definition page_run :: "u64 \<Rightarrow> u64 \<Rightarrow> u64 set" where
  "page_run start n = {p. unat start \<le> unat p \<and> unat p < unat start + unat n}"

text \<open>
  What the scan knows on reaching page \<open>i\<close>: the pages from the start of the current run
  up to \<open>i\<close> are free, and every earlier page begins a stretch of \<open>n\<close> pages that
  contains a used one.
\<close>

definition scan_inv :: "u8 list \<Rightarrow> u64 \<Rightarrow> u64 \<Rightarrow> u64 \<Rightarrow> u64 \<Rightarrow> u64 \<Rightarrow> bool" where
  "scan_inv bm np n i run start \<longleftrightarrow>
     (let cur = (if run = 0 then i else start)
      in 1 \<le> unat cur \<and> unat cur + unat run = unat i \<and> unat run < unat n \<and>
         unat i \<le> max 1 (unat np) \<and>
         (\<forall>p. unat cur \<le> unat p \<and> unat p < unat i \<longrightarrow> \<not> bitmap_test bm p) \<and>
         (\<forall>b. 1 \<le> unat b \<and> unat b < unat cur \<longrightarrow> (\<exists>p \<in> page_run b n. bitmap_test bm p)))"

definition scan_found :: "u8 list \<Rightarrow> u64 \<Rightarrow> u64 \<Rightarrow> u64 \<Rightarrow> bool" where
  "scan_found bm np n r \<longleftrightarrow>
     1 \<le> unat r \<and> unat r + unat n \<le> unat np \<and> (\<forall>p \<in> page_run r n. \<not> bitmap_test bm p) \<and>
     (\<forall>b. 1 \<le> unat b \<and> unat b < unat r \<longrightarrow> (\<exists>p \<in> page_run b n. bitmap_test bm p))"

definition scan_none :: "u8 list \<Rightarrow> u64 \<Rightarrow> u64 \<Rightarrow> bool" where
  "scan_none bm np n \<longleftrightarrow>
     (\<forall>b. 1 \<le> unat b \<and> unat b + unat n \<le> unat np \<longrightarrow> (\<exists>p \<in> page_run b n. bitmap_test bm p))"

lemma scan_inv_start: "n \<noteq> 0 \<Longrightarrow> scan_inv bm np n 1 0 0"
  by (auto simp: scan_inv_def unat_gt_0)

lemma scan_inv_used:
  assumes I: "scan_inv bm np n i run start" and i: "i < np" and u: "bitmap_test bm i"
  shows "scan_inv bm np n (i + 1) 0 start"
proof -
  define cur where "cur = (if run = 0 then i else start)"
  have I': "1 \<le> unat cur" "unat cur + unat run = unat i" "unat run < unat n"
    "\<forall>b. 1 \<le> unat b \<and> unat b < unat cur \<longrightarrow> (\<exists>p \<in> page_run b n. bitmap_test bm p)"
    using I by (simp_all add: scan_inv_def Let_def cur_def)
  have "\<exists>p \<in> page_run b n. bitmap_test bm p" if b: "1 \<le> unat b" "unat b < Suc (unat i)" for b
  proof (cases "unat b < unat cur")
    case False
    then have "i \<in> page_run b n" using I' b by (simp add: page_run_def)
    with u show ?thesis by blast
  qed (use I' b in blast)
  then show ?thesis
    using I' i by (auto simp: scan_inv_def unat_plus_one word_less_nat_alt)
qed

lemma scan_inv_free:
  assumes I: "scan_inv bm np n i run start" and i: "i < np" and u: "\<not> bitmap_test bm i"
    and run: "\<not> run + 1 \<ge> n"
  shows "scan_inv bm np n (i + 1) (run + 1) (if run = 0 then i else start)"
proof -
  define cur where "cur = (if run = 0 then i else start)"
  have I': "1 \<le> unat cur" "unat cur + unat run = unat i" "unat run < unat n"
    "\<forall>p. unat cur \<le> unat p \<and> unat p < unat i \<longrightarrow> \<not> bitmap_test bm p"
    "\<forall>b. 1 \<le> unat b \<and> unat b < unat cur \<longrightarrow> (\<exists>p \<in> page_run b n. bitmap_test bm p)"
    using I by (simp_all add: scan_inv_def Let_def cur_def)
  have "run < n" using I'(3) by (simp add: word_less_nat_alt)
  then have r1: "unat (run + 1) = Suc (unat run)" by (rule unat_plus_one)
  then have r0: "run + 1 \<noteq> 0" by (metis nat.distinct(1) unat_0)
  have "\<not> bitmap_test bm p" if "unat cur \<le> unat p" "unat p < Suc (unat i)" for p
    using that I'(4) u by (metis less_antisym word_unat_eq_iff)
  then show ?thesis
    using I' i run r1 r0 unat_plus_one [OF i]
    by (simp add: scan_inv_def cur_def [symmetric] word_less_nat_alt word_le_nat_alt)
qed

lemma scan_inv_stop:
  assumes I: "scan_inv bm np n i run start" and i: "i < np" and u: "\<not> bitmap_test bm i"
    and run: "run + 1 \<ge> n"
  shows "scan_found bm np n (if run = 0 then i else start)"
proof -
  define cur where "cur = (if run = 0 then i else start)"
  have I': "1 \<le> unat cur" "unat cur + unat run = unat i" "unat run < unat n"
    "\<forall>p. unat cur \<le> unat p \<and> unat p < unat i \<longrightarrow> \<not> bitmap_test bm p"
    "\<forall>b. 1 \<le> unat b \<and> unat b < unat cur \<longrightarrow> (\<exists>p \<in> page_run b n. bitmap_test bm p)"
    using I by (simp_all add: scan_inv_def Let_def cur_def)
  have "run < n" using I'(3) by (simp add: word_less_nat_alt)
  then have "unat n = Suc (unat run)"
    using run I'(3) by (simp add: unat_plus_one word_le_nat_alt)
  then have last: "unat cur + unat n = Suc (unat i)" using I'(2) by simp
  have "\<not> bitmap_test bm p" if "p \<in> page_run cur n" for p
  proof -
    have "unat cur \<le> unat p" "unat p < Suc (unat i)" using that last by (auto simp: page_run_def)
    then show ?thesis using I'(4) u by (metis less_antisym word_unat_eq_iff)
  qed
  then show ?thesis
    using I' i last by (simp add: scan_found_def cur_def [symmetric] word_less_nat_alt)
qed

lemma scan_inv_end:
  assumes I: "scan_inv bm np n i run start" and i: "\<not> i < np"
  shows "scan_none bm np n"
proof -
  define cur where "cur = (if run = 0 then i else start)"
  have I': "1 \<le> unat cur" "unat cur + unat run = unat i" "unat run < unat n"
    "unat i \<le> max 1 (unat np)"
    "\<forall>b. 1 \<le> unat b \<and> unat b < unat cur \<longrightarrow> (\<exists>p \<in> page_run b n. bitmap_test bm p)"
    using I by (simp_all add: scan_inv_def Let_def cur_def)
  have "unat b < unat cur" if "1 \<le> unat b" "unat b + unat n \<le> unat np" for b
    using that I' i by (simp add: word_less_nat_alt)
  with I'(5) show ?thesis by (auto simp: scan_none_def)
qed

lemma contiguous_scan_spec:
  "scan_inv bm np n i run start \<Longrightarrow>
     (case contiguous_scan bm np n i run start of
        None \<Rightarrow> scan_none bm np n | Some r \<Rightarrow> scan_found bm np n r)"
proof (induction bm np n i run start rule: contiguous_scan.induct)
  case (1 bm np n i run start)
  note un = contiguous_scan.simps [of bm np n i run start]
  show ?case
  proof (cases "i < np")
    case False
    then show ?thesis using scan_inv_end [OF "1.prems"] by (simp add: un)
  next
    case i: True
    show ?thesis
    proof (cases "bitmap_test bm i")
      case True
      then show ?thesis
        using i "1.IH"(2) [OF i] scan_inv_used [OF "1.prems" i True] by (simp add: un)
    next
      case False
      show ?thesis
      proof (cases "n \<le> run + 1")
        case True
        then show ?thesis
          using i False scan_inv_stop [OF "1.prems" i False True] by (simp add: un Let_def)
      next
        case more: False
        show ?thesis
          using i False more "1.IH"(1) [OF i False refl more]
            scan_inv_free [OF "1.prems" i False more]
          by (simp add: un Let_def split: if_splits)
      qed
    qed
  qed
qed

lemma page_interval_Suc:
  assumes "unat (of_nat k :: u64) = k" and "a \<le> k"
  shows "{p :: u64. a \<le> unat p \<and> unat p < Suc k} = insert (of_nat k) {p. a \<le> unat p \<and> unat p < k}"
proof -
  have "p = of_nat k \<longleftrightarrow> unat p = k" for p :: u64 using assms(1) by (simp add: word_unat_eq_iff)
  then show ?thesis using assms by (auto simp: less_Suc_eq)
qed

lemma take_pages_fold:
  assumes "pmm_inv s" and "a \<le> b" and "b \<le> unat (total_pages s)"
    and "\<forall>p. a \<le> unat p \<and> unat p < b \<longrightarrow> p \<in> free_set s"
  shows "pmm_inv (fold (\<lambda>k. take_page (of_nat k)) [a..<b] s) \<and>
         total_pages (fold (\<lambda>k. take_page (of_nat k)) [a..<b] s) = total_pages s \<and>
         used_set (fold (\<lambda>k. take_page (of_nat k)) [a..<b] s)
           = used_set s \<union> {p. a \<le> unat p \<and> unat p < b}"
  using assms(2)
proof (induction rule: dec_induct)
  case base
  then show ?case using assms(1) by auto
next
  case (step k)
  let ?t = "fold (\<lambda>k. take_page (of_nat k)) [a..<k] s"
  have k: "k < b" "a \<le> k" using step by simp_all
  have u: "unat (of_nat k :: u64) = k" using unat_of_nat_le [of k "total_pages s"] k assms(3) by simp
  have ok: "bitmap_ok ?t" using step.IH by (simp add: pmm_inv_def)
  have lt: "of_nat k < total_pages ?t"
    using step.IH k assms(3) by (simp add: word_less_nat_alt u)
  have "of_nat k \<in> free_set s" using assms(4) k u by auto
  then have free: "of_nat k \<in> free_set ?t"
    using step.IH lt u by (simp add: free_set_iff)
  have e: "fold (\<lambda>k. take_page (of_nat k)) [a..<Suc k] s = take_page (of_nat k) ?t"
    using k by simp
  show ?case
    unfolding e frame_simps take_page_used [OF ok lt] page_interval_Suc [OF u k(2)]
    using step.IH take_page_inv [OF _ free] by auto
qed

lemma take_run:
  assumes "pmm_inv s" and "scan_found (page_bitmap s) (total_pages s) n r"
  shows "pmm_inv (for_w r (r + n) take_page s)"
    and "used_set (for_w r (r + n) take_page s) = used_set s \<union> page_run r n"
    and "total_pages (for_w r (r + n) take_page s) = total_pages s"
proof -
  have le: "unat r + unat n \<le> unat (total_pages s)" using assms(2) by (simp add: scan_found_def)
  then have "unat r + unat n < 2 ^ 64" using unsigned_less [of "total_pages s", where ?'a = nat] by simp
  then have u: "unat (r + n) = unat r + unat n" by (simp add: unat_word_ariths)
  have fr: "\<forall>p. unat r \<le> unat p \<and> unat p < unat r + unat n \<longrightarrow> p \<in> free_set s"
    using assms(2) le by (auto simp: scan_found_def page_run_def free_set_def word_less_nat_alt)
  show "pmm_inv (for_w r (r + n) take_page s)"
    "used_set (for_w r (r + n) take_page s) = used_set s \<union> page_run r n"
    "total_pages (for_w r (r + n) take_page s) = total_pages s"
    using take_pages_fold [OF assms(1) _ le fr] by (simp_all add: for_w_fold u page_run_def)
qed

lemma pmm_alloc_contiguous_cases:
  assumes "pmm_alloc_contiguous n s = (a, s')" and "n \<noteq> 0"
  obtains (none) "a = 0" "s' = s" "scan_none (page_bitmap s) (total_pages s) n"
  | (found) r where "a = r * PAGE_SIZE" "s' = for_w r (r + n) take_page s"
      "scan_found (page_bitmap s) (total_pages s) n r"
  using assms contiguous_scan_spec [OF scan_inv_start [OF assms(2)], of "page_bitmap s" "total_pages s"]
  by (cases "contiguous_scan (page_bitmap s) (total_pages s) n 1 0 0")
    (auto simp: pmm_alloc_contiguous_def)

lemma pmm_alloc_contiguous_keeps_inv:
  assumes "pmm_inv s" and "pmm_alloc_contiguous n s = (a, s')"
  shows "pmm_inv s'"
proof (cases "n = 0")
  case True
  then show ?thesis using assms by (simp add: pmm_alloc_contiguous_def)
next
  case False
  from assms(2) this show ?thesis
    by (rule pmm_alloc_contiguous_cases) (use assms(1) take_run(1) in auto)
qed

section \<open>What initialisation leaves free\<close>

definition avail_pages :: "mmap_entry \<Rightarrow> u64 set" where
  "avail_pages e =
     (if me_type e = 1
      then {p. (me_base e + PAGE_SIZE - 1) div PAGE_SIZE \<le> p \<and> p < (me_base e + me_length e) div PAGE_SIZE}
      else {})"

fun disjoint_regions :: "mmap_entry list \<Rightarrow> bool" where
  "disjoint_regions [] = True"
| "disjoint_regions (e # es) =
     ((\<forall>e' \<in> set es. avail_pages e \<inter> avail_pages e' = {}) \<and> disjoint_regions es)"

lemma mark_page_free_fields [frame_simps]:
  "total_pages (mark_page_free p s) = total_pages s"
  "length (page_bitmap (mark_page_free p s)) = length (page_bitmap s)"
  by (simp_all add: mark_page_free_def)

lemma mark_page_free_ok: "bitmap_ok (mark_page_free p s) \<longleftrightarrow> bitmap_ok s"
  by (simp add: bitmap_ok_def frame_simps)

lemma mark_page_free_used: "bitmap_ok s \<Longrightarrow> used_set (mark_page_free p s) = used_set s - {p}"
  by (cases "p < total_pages s")
    (simp_all add: mark_page_free_def used_set_clear, simp add: used_set_def)

lemma mark_page_free_keeps_inv:
  assumes "pmm_inv s" and "p < total_pages s \<Longrightarrow> p \<in> used_set s"
  shows "pmm_inv (mark_page_free p s)"
proof (cases "p < total_pages s")
  case True
  then have "mark_page_free p s = pmm_free_page (p * PAGE_SIZE) s"
    using assms page_addr_div [of s p] by (simp add: mark_page_free_def pmm_free_page_eq pmm_inv_def)
  then show ?thesis using assms(1) by (simp add: pmm_free_page_keeps_inv)
qed (use assms in \<open>simp add: mark_page_free_def\<close>)

lemma free_pages_fold:
  assumes "bitmap_ok s" and "a \<le> b" and "b < 2 ^ 64"
  shows "bitmap_ok (fold (\<lambda>k. mark_page_free (of_nat k)) [a..<b] s) \<and>
         total_pages (fold (\<lambda>k. mark_page_free (of_nat k)) [a..<b] s) = total_pages s \<and>
         used_set (fold (\<lambda>k. mark_page_free (of_nat k)) [a..<b] s)
           = used_set s - {p. a \<le> unat p \<and> unat p < b} \<and>
         (pmm_inv s \<and> {p. p < total_pages s \<and> a \<le> unat p \<and> unat p < b} \<subseteq> used_set s \<longrightarrow>
            pmm_inv (fold (\<lambda>k. mark_page_free (of_nat k)) [a..<b] s))"
  using assms(2)
proof (induction rule: dec_induct)
  case base
  then show ?case using assms(1) by auto
next
  case (step k)
  let ?t = "fold (\<lambda>k. mark_page_free (of_nat k)) [a..<k] s"
  have u: "unat (of_nat k :: u64) = k" using step assms(3) by (simp add: unat_of_nat)
  note split = page_interval_Suc [OF u step(1)]
  have "pmm_inv (mark_page_free (of_nat k) ?t)"
    if "pmm_inv s" "{p. p < total_pages s \<and> a \<le> unat p \<and> unat p < Suc k} \<subseteq> used_set s"
  proof (rule mark_page_free_keeps_inv)
    show "pmm_inv ?t" using step.IH that by auto
    assume "of_nat k < total_pages ?t"
    then have "of_nat k \<in> used_set s" using that(2) step u by auto
    then show "of_nat k \<in> used_set ?t" using step.IH u by simp
  qed
  then show ?case
    using step by (auto simp: frame_simps mark_page_free_ok mark_page_free_used split)
qed

lemma mark_region_spec:
  assumes "bitmap_ok s"
  shows "bitmap_ok (mark_region e s)" and "total_pages (mark_region e s) = total_pages s"
    and "used_set (mark_region e s) = used_set s - avail_pages e"
    and "pmm_inv s \<Longrightarrow> {p. p < total_pages s \<and> p \<in> avail_pages e} \<subseteq> used_set s \<Longrightarrow>
           pmm_inv (mark_region e s)"
proof -
  let ?a = "(me_base e + PAGE_SIZE - 1) div PAGE_SIZE" and ?b = "(me_base e + me_length e) div PAGE_SIZE"
  have av: "avail_pages e = {p. unat ?a \<le> unat p \<and> unat p < unat ?b}" if "me_type e = 1"
    using that by (simp add: avail_pages_def word_le_nat_alt word_less_nat_alt)
  have *: "bitmap_ok (mark_region e s) \<and> total_pages (mark_region e s) = total_pages s \<and>
      used_set (mark_region e s) = used_set s - avail_pages e \<and>
      (pmm_inv s \<and> {p. p < total_pages s \<and> p \<in> avail_pages e} \<subseteq> used_set s \<longrightarrow>
        pmm_inv (mark_region e s))"
  proof (cases "me_type e = 1 \<and> unat ?a \<le> unat ?b")
    case True
    have "unat ?b < 2 ^ 64" using unsigned_less [of ?b, where ?'a = nat] by simp
    with True free_pages_fold [OF assms, of "unat ?a" "unat ?b"] show ?thesis
      by (simp add: mark_region_def for_w_fold av)
  next
    case False
    then have "avail_pages e = {}"
      by (auto simp: avail_pages_def word_le_nat_alt word_less_nat_alt)
    moreover have "mark_region e s = s"
      using False by (auto simp: mark_region_def for_w_empty word_less_nat_alt)
    ultimately show ?thesis using assms by simp
  qed
  show "bitmap_ok (mark_region e s)" "total_pages (mark_region e s) = total_pages s"
    "used_set (mark_region e s) = used_set s - avail_pages e"
    "pmm_inv s \<Longrightarrow> {p. p < total_pages s \<and> p \<in> avail_pages e} \<subseteq> used_set s \<Longrightarrow>
       pmm_inv (mark_region e s)"
    using * by blast+
qed

lemma mark_regions_spec:
  assumes "bitmap_ok s"
  shows "bitmap_ok (fold mark_region es s) \<and> total_pages (fold mark_region es s) = total_pages s \<and>
         used_set (fold mark_region es s) = used_set s - (\<Union>e \<in> set es. avail_pages e)"
  using assms
  by (induction es arbitrary: s) (auto simp: mark_region_spec)

lemma mark_regions_inv:
  assumes "pmm_inv s" and "disjoint_regions es"
    and "\<forall>e \<in> set es. {p. p < total_pages s \<and> p \<in> avail_pages e} \<subseteq> used_set s"
  shows "pmm_inv (fold mark_region es s)"
  using assms
proof (induction es arbitrary: s)
  case (Cons e es)
  have b: "bitmap_ok s" using Cons.prems by (simp add: pmm_inv_def)
  show ?case
  proof (simp, rule Cons.IH)
    show "pmm_inv (mark_region e s)" using mark_region_spec(4) [OF b] Cons.prems by simp
    show "\<forall>e' \<in> set es. {p. p < total_pages (mark_region e s) \<and> p \<in> avail_pages e'}
        \<subseteq> used_set (mark_region e s)"
      using Cons.prems by (fastforce simp: mark_region_spec [OF b])
  qed (use Cons.prems in simp)
qed simp

lemma mark_page_used_spec:
  assumes "bitmap_ok s"
  shows "bitmap_ok (mark_page_used p s)" and "total_pages (mark_page_used p s) = total_pages s"
    and "used_set (mark_page_used p s) = used_set s \<union> ({p} \<inter> {p. p < total_pages s})"
    and "pmm_inv s \<Longrightarrow> pmm_inv (mark_page_used p s)"
proof -
  have eq: "mark_page_used p s = (if p \<in> free_set s then take_page p s else s)"
    by (simp add: mark_page_used_def free_set_def take_page_def)
  show "bitmap_ok (mark_page_used p s)" "total_pages (mark_page_used p s) = total_pages s"
    "pmm_inv s \<Longrightarrow> pmm_inv (mark_page_used p s)"
    using assms by (simp_all add: eq take_page_inv frame_simps) (simp add: take_page_def)
  show "used_set (mark_page_used p s) = used_set s \<union> ({p} \<inter> {p. p < total_pages s})"
    using assms by (auto simp: eq free_set_def take_page_used) (auto simp: used_set_def)
qed

lemma use_pages_fold:
  assumes "bitmap_ok s" and "a \<le> b" and "b < 2 ^ 64"
  shows "bitmap_ok (fold (\<lambda>k. mark_page_used (of_nat k)) [a..<b] s) \<and>
         total_pages (fold (\<lambda>k. mark_page_used (of_nat k)) [a..<b] s) = total_pages s \<and>
         used_set (fold (\<lambda>k. mark_page_used (of_nat k)) [a..<b] s)
           = used_set s \<union> ({p. a \<le> unat p \<and> unat p < b} \<inter> {p. p < total_pages s}) \<and>
         (pmm_inv s \<longrightarrow> pmm_inv (fold (\<lambda>k. mark_page_used (of_nat k)) [a..<b] s))"
  using assms(2)
proof (induction rule: dec_induct)
  case base
  then show ?case using assms(1) by auto
next
  case (step k)
  let ?t = "fold (\<lambda>k. mark_page_used (of_nat k)) [a..<k] s"
  have u: "unat (of_nat k :: u64) = k" using step assms(3) by (simp add: unat_of_nat)
  have ok: "bitmap_ok ?t" using step.IH by blast
  have e: "fold (\<lambda>k. mark_page_used (of_nat k)) [a..<Suc k] s = mark_page_used (of_nat k) ?t"
    using step by simp
  show ?case
    unfolding e page_interval_Suc [OF u step(1)] mark_page_used_spec(2,3) [OF ok]
    using step.IH mark_page_used_spec(1,4) [OF ok] by auto
qed

definition same_layout :: "pmm \<Rightarrow> pmm \<Rightarrow> bool" where
  "same_layout s t \<longleftrightarrow> page_bitmap_at s = page_bitmap_at t \<and> total_pages s = total_pages t \<and>
     bitmap_size s = bitmap_size t \<and> total_memory s = total_memory t \<and>
     usable_memory s = usable_memory t"

lemma same_layout_loop:
  assumes "\<And>k s. same_layout s (f k s)"
  shows "same_layout s (for_w a b f s)"
  by (rule for_w_invariant [where P = "same_layout s"])
    (use assms in \<open>auto simp: same_layout_def\<close>)

lemma same_layout_page: "same_layout s (mark_page_free p s)" "same_layout s (mark_page_used p s)"
  by (simp_all add: same_layout_def mark_page_free_def mark_page_used_def)

lemma same_layout_region: "same_layout s (mark_region e s)"
  by (simp add: mark_region_def same_layout_loop same_layout_page) (simp add: same_layout_def)

lemma same_layout_regions: "same_layout s (fold mark_region es s)"
proof (induction es arbitrary: s)
  case (Cons e es)
  then show ?case
    using same_layout_region [of s e] Cons.IH [of "mark_region e s"] by (simp add: same_layout_def)
qed (simp add: same_layout_def)

lemma card_below: "card {p :: u64. p < n} = unat n"
proof -
  have "bij_betw unat {p :: u64. p < n} {..<unat n}"
    unfolding bij_betw_def
  proof
    show "inj_on unat {p :: u64. p < n}" by (rule inj_onI) (simp add: word_unat_eq_iff)
    show "unat ` {p :: u64. p < n} = {..<unat n}"
    proof
      show "{..<unat n} \<subseteq> unat ` {p :: u64. p < n}"
      proof
        fix k assume "k \<in> {..<unat n}"
        then have "unat (of_nat k :: u64) = k" "k < unat n" by (simp_all add: unat_of_nat_le [of k n])
        then show "k \<in> unat ` {p :: u64. p < n}"
          by (intro image_eqI [of _ _ "of_nat k"]) (auto simp: word_less_nat_alt)
      qed
    qed (auto simp: word_less_nat_alt)
  qed
  then show ?thesis using bij_betw_same_card by force
qed

lemma page_quotient: "unat (x div PAGE_SIZE) < 2 ^ 52"
  using unsigned_less [of x, where ?'a = nat] by (simp add: unat_div PAGE_SIZE_def)

lemma bit_all_ones: "n < 8 \<Longrightarrow> bit (0xFF :: u8) n"
proof -
  assume "n < 8"
  then have "n \<in> {0, 1, 2, 3, 4, 5, 6, 7}" by auto
  then show ?thesis by auto
qed

text \<open>The state after the bitmap is filled: every page is in use.\<close>

lemma all_used_inv:
  assumes "total_pages s = n" and "used_pages s = n" and "unat n < 2 ^ 52"
    and "page_bitmap s = replicate (unat ((n + 7) div 8)) 0xFF"
  shows "pmm_inv s" and "used_set s = {p. p < n}"
proof -
  have u: "unat ((n + 7) div 8) = (unat n + 7) div 8"
    using assms(3) by (simp add: unat_div unat_word_ariths)
  have len: "unat n \<le> 8 * length (page_bitmap s)" by (simp add: assms(4) u)
  then have ok: "bitmap_ok s"
    using assms(1,3) by (simp add: bitmap_ok_def word_le_nat_alt)
  show us: "used_set s = {p. p < n}"
  proof -
    have "bitmap_test (page_bitmap s) p" if "p < n" for p
      using bitmap_ok_index [OF ok, of p] that assms(1) bit_all_ones [of "unat p mod 8"]
      by (simp add: bitmap_test_bit assms(4))
    then show ?thesis using assms(1) by (auto simp: used_set_def)
  qed
  show "pmm_inv s" using ok us assms(2) by (simp add: pmm_inv_def card_below)
qed

definition reserved_pages :: "pmm \<Rightarrow> u64 set" where
  "reserved_pages s =
     {p. 256 \<le> p \<and> p \<le> (page_bitmap_at s + bitmap_size s + PAGE_SIZE - 1) div PAGE_SIZE}"

lemma reserved_pages_nat:
  "reserved_pages s = {p. unat (0x100000 div PAGE_SIZE) \<le> unat p \<and>
     unat p < unat ((page_bitmap_at s + bitmap_size s + PAGE_SIZE - 1) div PAGE_SIZE + 1)}"
proof -
  let ?e = "(page_bitmap_at s + bitmap_size s + PAGE_SIZE - 1) div PAGE_SIZE"
  have "unat (?e + 1) = Suc (unat ?e)"
    using page_quotient [of "page_bitmap_at s + bitmap_size s + PAGE_SIZE - 1"]
    by (simp add: unat_word_ariths)
  then show ?thesis
    by (auto simp: reserved_pages_def PAGE_SIZE_def word_le_nat_alt less_Suc_eq_le)
qed

lemma use_reserved:
  assumes "bitmap_ok s"
  defines "t \<equiv> for_w (0x100000 div PAGE_SIZE)
      ((page_bitmap_at s + bitmap_size s + PAGE_SIZE - 1) div PAGE_SIZE + 1) mark_page_used s"
  shows "used_set t = used_set s \<union> (reserved_pages s \<inter> {p. p < total_pages s})"
    and "pmm_inv s \<Longrightarrow> pmm_inv t" and "same_layout s t" and "bitmap_ok t"
proof -
  let ?a = "0x100000 div PAGE_SIZE"
  let ?b = "(page_bitmap_at s + bitmap_size s + PAGE_SIZE - 1) div PAGE_SIZE + 1"
  have *: "used_set t = used_set s \<union> (reserved_pages s \<inter> {p. p < total_pages s}) \<and>
           (pmm_inv s \<longrightarrow> pmm_inv t) \<and> bitmap_ok t"
  proof (cases "unat ?a \<le> unat ?b")
    case True
    have "unat ?b < 2 ^ 64" using unsigned_less [of ?b, where ?'a = nat] by simp
    from use_pages_fold [OF assms(1) True this] show ?thesis
      unfolding t_def reserved_pages_nat for_w_fold by auto
  next
    case False
    then have "t = s" unfolding t_def by (intro for_w_empty) (simp add: word_less_nat_alt)
    moreover have "reserved_pages s = {}" using False unfolding reserved_pages_nat by auto
    ultimately show ?thesis using assms(1) by simp
  qed
  show "used_set t = used_set s \<union> (reserved_pages s \<inter> {p. p < total_pages s})"
    "pmm_inv s \<Longrightarrow> pmm_inv t" "bitmap_ok t" using * by auto
  show "same_layout s t" unfolding t_def by (rule same_layout_loop) (rule same_layout_page)
qed

lemma pmm_init_map_spec:
  fixes s :: pmm
  shows "disjoint_regions es \<Longrightarrow> pmm_inv (pmm_init_map ke m mb es s)"
    and "bitmap_ok (pmm_init_map ke m mb es s)"
    and "free_set (pmm_init_map ke m mb es s) =
      {p. p < total_pages (pmm_init_map ke m mb es s) \<and> p \<in> (\<Union>e \<in> set es. avail_pages e)
          \<and> p \<notin> reserved_pages (pmm_init_map ke m mb es s)}"
proof -
  obtain highest tot usable where st: "fold mmap_stats es (0, total_memory s, usable_memory s) = (highest, tot, usable)"
    by (metis prod_cases3)
  define pages where "pages = (if highest > usable * 2 then usable * 2 div PAGE_SIZE else highest div PAGE_SIZE)"
  define at where "at = ((if ke > mb + 8 + ucast (read32 m mb) then ke
      else mb + 8 + ucast (read32 m mb)) + PAGE_SIZE - 1) AND NOT (PAGE_SIZE - 1)"
  define s1 where "s1 = s\<lparr>total_memory := tot, usable_memory := usable, total_pages := pages,
                 bitmap_size := (pages + 7) div 8, page_bitmap_at := at,
                 page_bitmap := replicate (unat ((pages + 7) div 8)) 0xFF, used_pages := pages\<rparr>"
  define s2 where "s2 = fold mark_region es s1"
  have pages: "unat pages < 2 ^ 52" unfolding pages_def using page_quotient by simp
  have s1: "pmm_inv s1" "used_set s1 = {p. p < pages}"
    by (rule all_used_inv [of s1 pages]; use pages in \<open>simp add: s1_def\<close>)+
  have ok1: "bitmap_ok s1" using s1(1) by (simp add: pmm_inv_def)
  have l2: "same_layout s1 s2" unfolding s2_def by (rule same_layout_regions)
  have ok2: "bitmap_ok s2" and u2: "used_set s2 = used_set s1 - (\<Union>e \<in> set es. avail_pages e)"
    using mark_regions_spec [OF ok1, of es] by (simp_all add: s2_def)
  have eq: "pmm_init_map ke m mb es s = for_w (0x100000 div PAGE_SIZE)
      ((page_bitmap_at s2 + bitmap_size s2 + PAGE_SIZE - 1) div PAGE_SIZE + 1) mark_page_used s2"
    using l2 unfolding pmm_init_map_def st
    by (simp add: s1_def s2_def pages_def at_def Let_def same_layout_def cong: if_cong)
  note fin = use_reserved [OF ok2, folded eq]
  show "bitmap_ok (pmm_init_map ke m mb es s)" by (rule fin)
  have tp: "total_pages (pmm_init_map ke m mb es s) = pages"
    using fin(3) l2 by (simp add: same_layout_def s1_def)
  have rs: "reserved_pages (pmm_init_map ke m mb es s) = reserved_pages s2"
    using fin(3) by (simp add: same_layout_def reserved_pages_def)
  have tp2: "total_pages s2 = pages" using l2 by (simp add: same_layout_def s1_def)
  show "free_set (pmm_init_map ke m mb es s) =
      {p. p < total_pages (pmm_init_map ke m mb es s) \<and> p \<in> (\<Union>e \<in> set es. avail_pages e)
          \<and> p \<notin> reserved_pages (pmm_init_map ke m mb es s)}"
    unfolding set_eq_iff free_set_iff fin(1) u2 s1(2) tp rs tp2 by auto
  show "pmm_inv (pmm_init_map ke m mb es s)" if d: "disjoint_regions es"
  proof (rule fin(2), unfold s2_def, rule mark_regions_inv [OF s1(1) d])
    show "\<forall>e \<in> set es. {p. p < total_pages s1 \<and> p \<in> avail_pages e} \<subseteq> used_set s1"
      unfolding s1(2) by (auto simp: s1_def)
  qed
qed

section \<open>The page allocator is a block allocator\<close>

definition page_addrs :: "pmm \<Rightarrow> u64 set" where
  "page_addrs s = (\<lambda>p. p * PAGE_SIZE) ` used_set s"

definition page_extent :: "pmm \<Rightarrow> u64 \<Rightarrow> nat set" where
  "page_extent s a = span a 4096"

lemma page_addrs_disjoint:
  assumes "bitmap_ok s" and "a \<in> page_addrs s" and "b \<in> page_addrs s" and "a \<noteq> b"
  shows "page_extent s a \<inter> page_extent s b = {}"
proof -
  obtain i j where ij: "a = i * PAGE_SIZE" "b = j * PAGE_SIZE" "i < total_pages s" "j < total_pages s"
    using assms(2,3) by (auto simp: page_addrs_def used_set_def)
  then have "i \<noteq> j" using assms(4) by blast
  then have "unat i \<noteq> unat j" by (simp add: word_unat_eq_iff)
  then have "unat i + 1 \<le> unat j \<or> unat j + 1 \<le> unat i" by linarith
  moreover have "unat a = unat i * 4096" "unat b = unat j * 4096"
    using ij page_addr_lt [OF assms(1)] by simp_all
  ultimately show ?thesis by (auto simp: page_extent_def span_def)
qed

lemma page_addrs_insert:
  assumes "bitmap_ok s" and "i \<in> free_set s"
  shows "page_addrs (take_page i s) = insert (i * PAGE_SIZE) (page_addrs s)"
    and "i * PAGE_SIZE \<notin> page_addrs s"
proof -
  have i: "i < total_pages s" "i \<notin> used_set s" using assms(2) by (simp_all add: free_set_iff)
  show "page_addrs (take_page i s) = insert (i * PAGE_SIZE) (page_addrs s)"
    by (simp add: page_addrs_def take_page_used [OF assms(1) i(1)])
  show "i * PAGE_SIZE \<notin> page_addrs s"
    using i page_addr_inj [OF assms(1) i(1)] by (auto simp: page_addrs_def used_set_def)
qed

lemma page_addrs_remove:
  assumes "bitmap_ok s" and "a \<in> page_addrs s"
  shows "page_addrs (pmm_free_page a s) = page_addrs s - {a}"
proof -
  obtain i where i: "a = i * PAGE_SIZE" "i < total_pages s" "i \<in> used_set s"
    using assms(2) by (auto simp: page_addrs_def used_set_def)
  have "used_set (pmm_free_page a s) = used_set s - {i}"
    using pmm_free_page_used [OF assms(1), of a] page_addr_div [OF assms(1) i(2)] i(1) by simp
  moreover have "(\<lambda>p. p * PAGE_SIZE) ` (used_set s - {i}) = (\<lambda>p. p * PAGE_SIZE) ` used_set s - {a}"
    using page_addr_inj [OF assms(1) _ i(2)] i by (auto simp: used_set_def)
  ultimately show ?thesis by (simp add: page_addrs_def)
qed

interpretation pages: block_allocator "\<lambda>_ :: unit. pmm_alloc_page" pmm_free_page "\<lambda>_. 4096"
  pmm_inv page_addrs page_extent
proof
  fix s s' :: pmm and p q :: u64 and r :: unit
  assume I: "pmm_inv s"
  then have b: "bitmap_ok s" by (simp add: pmm_inv_def)
  show "pmm_inv s'" if "pmm_alloc_page s = (p, s')" using I that by (rule pmm_alloc_page_keeps_inv)
  show "s' = s" if "pmm_alloc_page s = (0, s')"
    using that by (rule pmm_alloc_page_cases)
      (use page_addr_zero [OF b] in \<open>auto simp: free_set_iff\<close>)
  show "p \<notin> page_addrs s" if "pmm_alloc_page s = (p, s')" "p \<noteq> 0"
    using that(1) by (rule pmm_alloc_page_cases) (use that page_addrs_insert [OF b] in auto)
  show "page_addrs s' = insert p (page_addrs s)" if "pmm_alloc_page s = (p, s')" "p \<noteq> 0"
    using that(1) by (rule pmm_alloc_page_cases) (use that page_addrs_insert [OF b] in auto)
  show "pmm_inv (pmm_free_page p s)" using I by (rule pmm_free_page_keeps_inv)
  show "page_addrs (pmm_free_page p s) = page_addrs s - {p}" if "p \<in> page_addrs s"
    using b that by (rule page_addrs_remove)
  show "page_extent s p \<inter> page_extent s q = {}"
    if "p \<in> page_addrs s" "q \<in> page_addrs s" "p \<noteq> q"
    using b that by (rule page_addrs_disjoint)
qed (simp_all add: page_extent_def)

section \<open>Properties\<close>

text \<open>
  A well-formed tag list, as the addresses of its tags up to the memory map or the end tag:
  on such a list the walk returns.
\<close>

fun tag_chain :: "mem \<Rightarrow> u64 list \<Rightarrow> bool" where
  "tag_chain m [] = False"
| "tag_chain m [a] = (read32 m a = 0 \<or> read32 m a = 6)"
| "tag_chain m (a # b # ts) =
     (read32 m a \<noteq> 0 \<and> read32 m a \<noteq> 6 \<and>
      b = a + ucast ((read32 m (a + 4) + 7) AND NOT 7) \<and> tag_chain m (b # ts))"

lemma find_mmap_tag_chain:
  "tag_chain m ts \<Longrightarrow>
     find_mmap_tag m (hd ts) = Some (if read32 m (last ts) = 0 then 0 else last ts)"
proof (induction m ts rule: tag_chain.induct)
  case (2 m a)
  then show ?case by (subst find_mmap_tag.simps) auto
next
  case (3 m a b ts)
  have "find_mmap_tag m a = find_mmap_tag m b"
    using "3.prems" by (subst find_mmap_tag.simps) simp
  moreover have "tag_chain m (b # ts)" using "3.prems" unfolding tag_chain.simps by blast
  ultimately show ?case using "3.IH" by simp
qed simp

definition pmm_demo :: pmm where
  "pmm_demo = pmm_free_page 0x5000 (pmm_free_page 0x4000 (pmm_free_page 0x2000
     \<lparr>page_bitmap_at = 0x200000, page_bitmap = [0xFF], total_pages = 8, used_pages = 8,
      bitmap_size = 1, total_memory = 0x8000, usable_memory = 0x8000\<rparr>))"

lemma pmm_demo_inv: "pmm_inv pmm_demo"
  unfolding pmm_demo_def
  by (intro pmm_free_page_keeps_inv all_used_inv(1) [of _ 8]) simp_all

definition mboot_demo :: mem where
  "mboot_demo a = (let bs = [64, 0, 0, 0, 0, 0, 0, 0,
     4, 0, 0, 0, 12, 0, 0, 0, 0, 0, 0, 0, 0, 0, 0, 0,
     6, 0, 0, 0, 40, 0, 0, 0, 24, 0, 0, 0, 0, 0, 0, 0,
     0, 0, 0, 0, 0, 0, 0, 0, 0, 0x80, 0, 0, 0, 0, 0, 0, 1, 0, 0, 0, 0, 0, 0, 0]
     in if a < 64 then bs ! unat a else 0)"



text \<open>
  C4. Whatever sequence of page requests and releases of its own pages a client makes, the
  pages it holds at one time never overlap, and the bitmap and its counter stay consistent.
\<close>

theorem pmm_client_pages_disjoint:
  assumes "pmm_inv s"
    and "client_run (\<lambda>_ :: unit. pmm_alloc_page) pmm_free_page (\<lambda>_. 4096) es (s, []) = (s', led)"
  shows "blocks_disjoint led \<and> pmm_inv s'"
  using assms by (rule pages.client_blocks_disjoint)

theorem pmm_client_pages_disjoint_witness:
  "\<exists>s'. client_run (\<lambda>_ :: unit. pmm_alloc_page) pmm_free_page (\<lambda>_. 4096)
       [Request (), Request (), Release 1, Request ()] (pmm_demo, [])
     = (s', [(0x2000, 4096), (0x4000, 4096)]) \<and> pmm_inv s'"
proof -
  let ?r = "client_run (\<lambda>_ :: unit. pmm_alloc_page) pmm_free_page (\<lambda>_. 4096)
       [Request (), Request (), Release 1, Request ()] (pmm_demo, [])"
  have r: "snd ?r = [(0x2000, 4096), (0x4000, 4096)]" by code_simp
  obtain s' led where e: "?r = (s', led)" by force
  then show ?thesis using r pmm_client_pages_disjoint [OF pmm_demo_inv e] by auto
qed

text \<open>
  A contiguous request takes the lowest run of \<open>n\<close> free pages (page 0 excepted), marks
  exactly these pages used, and fails, with the state unchanged, only if every stretch of
  \<open>n\<close> managed pages contains a used one.
\<close>

theorem pmm_alloc_contiguous_first_fit:
  assumes "pmm_inv s" and "n \<noteq> 0" and "pmm_alloc_contiguous n s = (a, s')"
  shows "pmm_inv s' \<and>
    (if \<exists>b. 1 \<le> unat b \<and> unat b + unat n \<le> unat (total_pages s) \<and> page_run b n \<subseteq> free_set s
     then \<exists>r. a = r * PAGE_SIZE \<and> a \<noteq> 0 \<and> page_run r n \<subseteq> free_set s \<and>
            used_set s' = used_set s \<union> page_run r n \<and>
            (\<forall>b. 1 \<le> unat b \<and> unat b < unat r \<longrightarrow> \<not> page_run b n \<subseteq> free_set s)
     else a = 0 \<and> s' = s)"
  using assms(3,2)
proof (cases rule: pmm_alloc_contiguous_cases)
  case none
  then show ?thesis
    using assms(1) by (fastforce simp: scan_none_def free_set_def)
next
  case (found r)
  have b: "bitmap_ok s" using assms(1) by (simp add: pmm_inv_def)
  have n: "0 < unat n" using assms(2) by (simp add: unat_gt_0)
  have r: "1 \<le> unat r" "unat r + unat n \<le> unat (total_pages s)"
    using found(3) by (simp_all add: scan_found_def)
  have "page_run r n \<subseteq> free_set s"
    using found(3) by (auto simp: scan_found_def page_run_def free_set_def word_less_nat_alt)
  moreover have "\<not> page_run b n \<subseteq> free_set s" if "1 \<le> unat b" "unat b < unat r" for b
    using found(3) that by (fastforce simp: scan_found_def free_set_def)
  moreover have "a \<noteq> 0"
    using page_addr_zero [OF b, of r] r n found(1) by (auto simp: word_less_nat_alt)
  ultimately show ?thesis
    using r found take_run [OF assms(1) found(3)] by (simp, blast)
qed

theorem pmm_alloc_contiguous_first_fit_witness:
  "\<exists>s'. pmm_alloc_contiguous 2 pmm_demo = (0x4000, s') \<and> pmm_inv s'"
proof -
  have "fst (pmm_alloc_contiguous 2 pmm_demo) = 0x4000" by code_simp
  moreover obtain a s' where e: "pmm_alloc_contiguous 2 pmm_demo = (a, s')" by force
  ultimately show ?thesis
    using pmm_alloc_contiguous_first_fit [OF pmm_demo_inv _ e] by simp
qed

text \<open>
  A page request hands out the lowest free page other than page 0; giving that page back
  restores the manager's state, bitmap bytes and counter included.
\<close>

theorem pmm_alloc_then_free:
  assumes "pmm_inv s" and "pmm_alloc_page s = (a, s')" and "a \<noteq> 0"
  shows "pmm_free_page a s' = s \<and> a div PAGE_SIZE \<in> free_set s \<and>
    (\<forall>p. 1 \<le> p \<longrightarrow> p < a div PAGE_SIZE \<longrightarrow> p \<notin> free_set s)"
  using assms(2)
proof (cases rule: pmm_alloc_page_cases)
  case (page i)
  have b: "bitmap_ok s" using assms(1) by (simp add: pmm_inv_def)
  have "i < total_pages s" using page by (simp add: free_set_iff)
  then show ?thesis
    using page free_after_take [OF b page(4)] page_addr_div [OF b] by simp
qed (use assms in simp)

theorem pmm_alloc_then_free_witness:
  "\<exists>s'. pmm_alloc_page pmm_demo = (0x2000, s') \<and> pmm_free_page 0x2000 s' = pmm_demo"
proof -
  have "pmm_alloc_page pmm_demo = (0x2000, take_page 2 pmm_demo)" by code_simp
  with pmm_alloc_then_free [OF pmm_demo_inv this] show ?thesis by simp
qed

text \<open>
  Where two available regions overlap, \<open>pmm_init\<close> counts the shared pages down twice: the
  counter of used pages wraps below zero.
\<close>

definition overlap_demo :: "mmap_entry list" where
  "overlap_demo = [\<lparr>me_base = 0, me_length = 0x3000, me_type = 1\<rparr>,
                   \<lparr>me_base = 0, me_length = 0x3000, me_type = 1\<rparr>]"

lemma overlap_stats:
  "fold mmap_stats overlap_demo (0, total_memory pmm_boot, usable_memory pmm_boot) = (0x3000, 0x6000, 0x6000)"
  by code_simp

lemma pmm_init_overlap_undercounts:
  "used_pages (pmm_init_map 0 (\<lambda>_. 0) 0 overlap_demo pmm_boot) = - 3"
  unfolding pmm_init_map_def overlap_stats Let_def prod.case by code_simp

end
