(* ===== verification/Paging.thy ===== *)
theory Paging
  imports Pmm
begin

text \<open>
  Four-level paging, \<^verbatim>\<open>src/kernel/paging.cpp\<close>. The tables lie in byte memory,
  512 little-endian entries of 8 bytes each, and new tables come from the page allocator.
  The state also records the addresses given to \<^verbatim>\<open>invlpg\<close>. The lemmas view
  the tables as a tree of paths of indices: under the invariant that no two paths lead to the
  same page and that no table is a free page, \<open>paging_map\<close> and \<open>paging_unmap\<close> change the
  translation of exactly one virtual page.
\<close>

section \<open>State and definitions\<close>

definition PAGE_PRESENT :: u64 where "PAGE_PRESENT = 1"
definition PAGE_WRITE :: u64 where "PAGE_WRITE = 2"

definition ADDR_MASK :: u64 where
  "ADDR_MASK = 0x000FFFFFFFFFF000"

definition PTE_ADDR :: "u64 \<Rightarrow> u64" where
  "PTE_ADDR pte = pte AND ADDR_MASK"

definition PML4_INDEX :: "u64 \<Rightarrow> u64" where
  "PML4_INDEX a = drop_bit 39 a AND 0x1FF"

definition PDPT_INDEX :: "u64 \<Rightarrow> u64" where
  "PDPT_INDEX a = drop_bit 30 a AND 0x1FF"

definition PD_INDEX :: "u64 \<Rightarrow> u64" where
  "PD_INDEX a = drop_bit 21 a AND 0x1FF"

definition PT_INDEX :: "u64 \<Rightarrow> u64" where
  "PT_INDEX a = drop_bit 12 a AND 0x1FF"

record paging =
  pt_mem :: mem
  pt_pmm :: pmm
  current_pml4 :: u64
  invalidated :: "u64 list"

text \<open>The entry \<^verbatim>\<open>(*t)[i]\<close> of the table at \<open>t\<close>.\<close>

definition slot :: "u64 \<Rightarrow> u64 \<Rightarrow> u64" where
  "slot t i = t + 8 * i"

definition entry :: "mem \<Rightarrow> u64 \<Rightarrow> u64 \<Rightarrow> u64" where
  "entry m t i = read64 m (slot t i)"

definition zero_table :: "u64 \<Rightarrow> mem \<Rightarrow> mem" where
  "zero_table t m = fold (\<lambda>i m. write64 m (slot t (of_nat i)) 0) [0..<512] m"

definition alloc_page_table :: "paging \<Rightarrow> u64 option \<times> paging" where
  "alloc_page_table s =
     (case pmm_alloc_page (pt_pmm s) of (page, p) \<Rightarrow>
        if page = 0 then (None, s\<lparr>pt_pmm := p\<rparr>)
        else (Some page, s\<lparr>pt_pmm := p, pt_mem := zero_table page (pt_mem s)\<rparr>))"

text \<open>
  One level of \<open>get_or_create_pte\<close>: the code repeats this block for the PML4, the PDPT and the
  page directory. The option is the pointer, \<open>None\<close> for the early return of a null pointer.
\<close>

definition next_table :: "bool \<Rightarrow> u64 \<Rightarrow> u64 \<Rightarrow> paging \<Rightarrow> u64 option \<times> paging" where
  "next_table create t i s =
     (let e = entry (pt_mem s) t i in
      if e AND PAGE_PRESENT = 0 then
        if \<not> create then (None, s)
        else case alloc_page_table s of
               (None, s1) \<Rightarrow> (None, s1)
             | (Some n, s1) \<Rightarrow>
                 (Some n, s1\<lparr>pt_mem := write64 (pt_mem s1) (slot t i) (n OR PAGE_PRESENT OR PAGE_WRITE)\<rparr>)
      else (Some (PTE_ADDR e), s))"

definition get_or_create_pte :: "u64 \<Rightarrow> bool \<Rightarrow> paging \<Rightarrow> u64 option \<times> paging" where
  "get_or_create_pte virt create s =
     (case next_table create (current_pml4 s) (PML4_INDEX virt) s of
        (None, s1) \<Rightarrow> (None, s1)
      | (Some pdpt, s1) \<Rightarrow>
          (case next_table create pdpt (PDPT_INDEX virt) s1 of
             (None, s2) \<Rightarrow> (None, s2)
           | (Some pd, s2) \<Rightarrow>
               (case next_table create pd (PD_INDEX virt) s2 of
                  (None, s3) \<Rightarrow> (None, s3)
                | (Some pt, s3) \<Rightarrow> (Some (slot pt (PT_INDEX virt)), s3))))"

definition paging_init :: "u64 \<Rightarrow> paging \<Rightarrow> paging" where
  "paging_init cr3 s = s\<lparr>current_pml4 := cr3\<rparr>"

definition paging_map :: "u64 \<Rightarrow> u64 \<Rightarrow> u64 \<Rightarrow> paging \<Rightarrow> bool \<times> paging" where
  "paging_map virt phys flags s =
     (case get_or_create_pte virt True s of
        (None, s1) \<Rightarrow> (False, s1)
      | (Some pte, s1) \<Rightarrow>
          (True, s1\<lparr>pt_mem := write64 (pt_mem s1) pte ((phys AND ADDR_MASK) OR flags),
                    invalidated := virt # invalidated s1\<rparr>))"

definition paging_unmap :: "u64 \<Rightarrow> paging \<Rightarrow> paging" where
  "paging_unmap virt s =
     (case get_or_create_pte virt False s of
        (None, s1) \<Rightarrow> s1
      | (Some pte, s1) \<Rightarrow>
          s1\<lparr>pt_mem := write64 (pt_mem s1) pte 0, invalidated := virt # invalidated s1\<rparr>)"

definition paging_get_physical :: "u64 \<Rightarrow> paging \<Rightarrow> u64" where
  "paging_get_physical virt s =
     (case get_or_create_pte virt False s of
        (None, s1) \<Rightarrow> 0
      | (Some pte, s1) \<Rightarrow>
          if read64 (pt_mem s1) pte AND PAGE_PRESENT = 0 then 0
          else PTE_ADDR (read64 (pt_mem s1) pte) OR (virt AND 0xFFF))"

partial_function (option) identity_loop :: "u64 \<Rightarrow> u64 \<Rightarrow> u64 \<Rightarrow> paging \<Rightarrow> paging option" where
  "identity_loop a e flags s =
     (if a < e then identity_loop (a + PAGE_SIZE) e flags (snd (paging_map a a flags s))
      else Some s)"

definition paging_identity_map_region :: "u64 \<Rightarrow> u64 \<Rightarrow> u64 \<Rightarrow> paging \<Rightarrow> paging option" where
  "paging_identity_map_region start sz flags s =
     identity_loop (start AND NOT 0xFFF) ((start + sz + 0xFFF) AND NOT 0xFFF) flags s"

section \<open>Addresses of tables and entries\<close>

lemma word_512: "i < (512 :: u64) \<longleftrightarrow> unat i < 512"
  by (simp add: word_less_nat_alt)

lemma unat_and_FFF: "unat (a AND 0xFFF :: u64) = unat a mod 4096"
  using unat_and_mask [of a 12] by (simp add: mask_numeral)

lemma aligned_iff: "a AND 0xFFF = (0 :: u64) \<longleftrightarrow> unat a mod 4096 = 0"
  by (metis unat_and_FFF unat_eq_zero)

lemma aligned_multiple: "a AND 0xFFF = (0 :: u64) \<Longrightarrow> \<exists>q < 2 ^ 52. unat a = 4096 * q"
proof -
  assume "a AND 0xFFF = 0"
  then have a: "unat a = 4096 * (unat a div 4096)"
    using div_mult_mod_eq [of "unat a" 4096] by (simp add: aligned_iff)
  then have "unat a div 4096 < 2 ^ 52" using unat_lt_64 [of a] by simp
  with a show ?thesis by blast
qed

lemma unat_slot:
  assumes "t AND 0xFFF = 0" and "i < 512"
  shows "unat (slot t i) = unat t + 8 * unat i"
proof -
  obtain q where q: "q < 2 ^ 52" "unat t = 4096 * q" using aligned_multiple [OF assms(1)] by blast
  have i: "unat i < 512" using assms(2) by (simp only: word_512)
  have "unat t + 8 * unat i < 2 ^ 64" using q i by simp
  then show ?thesis using i by (simp add: slot_def unat_word_ariths)
qed

lemma slot_inj:
  assumes "t AND 0xFFF = 0" "i < 512" "u AND 0xFFF = 0" "j < 512" "slot t i = slot u j"
  shows "t = u \<and> i = j"
proof -
  obtain q r where qr: "unat t = 4096 * q" "unat u = 4096 * r"
    using aligned_multiple [OF assms(1)] aligned_multiple [OF assms(3)] by blast
  have ij: "unat i < 512" "unat j < 512" using assms(2,4) by (simp_all only: word_512)
  have eq: "4096 * q + 8 * unat i = 4096 * r + 8 * unat j"
    using assms unat_slot qr by metis
  have "q = (4096 * q + 8 * unat i) div 4096" "r = (4096 * r + 8 * unat j) div 4096"
    using ij by simp_all
  then have "q = r" using eq by simp
  then have "unat t = unat u \<and> unat i = unat j" using qr eq by simp
  then show ?thesis by (simp add: word_unat_eq_iff)
qed

lemma slot_and_7:
  assumes "t AND 0xFFF = 0" and "i < 512"
  shows "slot t i AND 7 = 0"
proof -
  obtain q where "unat t = 4096 * q" using aligned_multiple [OF assms(1)] by blast
  then have "unat (slot t i) = 8 * (512 * q + unat i)" using unat_slot [OF assms] by simp
  then have "unat (slot t i) mod 8 = 0" by (simp only: mod_mult_self1_is_0)
  then show ?thesis by (metis unat_and_7 unat_eq_zero)
qed

lemma entry_write_same: "entry (write64 m (slot t i) v) t i = v"
  by (simp add: entry_def)

lemma entry_write_other:
  assumes "t AND 0xFFF = 0" "i < 512" "u AND 0xFFF = 0" "j < 512" "u \<noteq> t \<or> j \<noteq> i"
  shows "entry (write64 m (slot t i) v) u j = entry m u j"
  unfolding entry_def
proof (rule read64_write64_sep, rule aligned_sep8)
  show "slot u j \<noteq> slot t i" using assms slot_inj by blast
qed (use assms slot_and_7 in blast)+

lemma entry_zero:
  assumes n: "n AND 0xFFF = 0" and t: "t AND 0xFFF = 0" and j: "j < 512"
  shows "entry (zero_table n m) t j = (if t = n then 0 else entry m t j)"
proof -
  have "entry (fold (\<lambda>i m. write64 m (slot n (of_nat i)) 0) [0..<k] m) t j =
      (if t = n \<and> unat j < k then 0 else entry m t j)" if "k \<le> 512" for k
    using that
  proof (induction k)
    case (Suc k)
    have u: "unat (of_nat k :: u64) = k" using Suc.prems by (intro unat_of_nat_64) simp
    then have k: "(of_nat k :: u64) < 512" using Suc.prems by (simp add: word_512)
    show ?case
    proof (cases "t = n \<and> j = of_nat k")
      case True
      then show ?thesis using u by (simp add: entry_write_same)
    next
      case False
      then have "unat j \<noteq> k \<or> t \<noteq> n" by auto
      then show ?thesis using Suc entry_write_other [OF n k t j] False by auto
    qed
  qed simp
  from this [of 512] show ?thesis using j by (simp add: zero_table_def word_512)
qed

lemma index_lt: "drop_bit k a AND 0x1FF < (512 :: u64)"
proof -
  have "unat (drop_bit k a AND 0x1FF) = unat (drop_bit k a) mod 512"
    using unat_and_mask [of "drop_bit k a" 9] by (simp add: mask_numeral)
  then show ?thesis by (simp add: word_512)
qed

lemmas index_bounds = index_lt [of 39, folded PML4_INDEX_def] index_lt [of 30, folded PDPT_INDEX_def]
  index_lt [of 21, folded PD_INDEX_def] index_lt [of 12, folded PT_INDEX_def]

lemma ADDR_MASK_bits: "bit ADDR_MASK n \<longleftrightarrow> 12 \<le> n \<and> n < 52"
proof -
  have eq: "ADDR_MASK = push_bit 12 (mask 40)" by (simp add: ADDR_MASK_def mask_eq_exp_minus_1)
  show ?thesis unfolding eq by (auto simp: bit_push_bit_iff bit_mask_iff)
qed

lemma bits_FFF: "bit (0xFFF :: u64) n \<longleftrightarrow> n < 12"
proof -
  have eq: "(0xFFF :: u64) = mask 12" by (simp add: mask_eq_exp_minus_1)
  show ?thesis unfolding eq by (auto simp: bit_mask_iff)
qed

lemma aligned_bits: "t AND 0xFFF = (0 :: u64) \<Longrightarrow> n < 12 \<Longrightarrow> \<not> bit t n"
  by (metis bit_and_iff bits_FFF bit_0_eq bot_apply bot_bool_def)

lemma PTE_ADDR_aligned: "PTE_ADDR e AND 0xFFF = 0"
  by (rule bit_word_eqI) (unfold PTE_ADDR_def bit_and_iff bits_FFF ADDR_MASK_bits, auto)

lemma flag_bits: "bit PAGE_PRESENT k \<longleftrightarrow> k = 0" "bit PAGE_WRITE k \<longleftrightarrow> k = 1"
proof -
  have e: "PAGE_PRESENT = 2 ^ 0" "PAGE_WRITE = 2 ^ 1" by (simp_all add: PAGE_PRESENT_def PAGE_WRITE_def)
  show "bit PAGE_PRESENT k \<longleftrightarrow> k = 0"
    unfolding e bit_exp_iff by (auto simp: possible_bit_def)
  show "bit PAGE_WRITE k \<longleftrightarrow> k = 1"
    unfolding e bit_exp_iff by (auto simp: possible_bit_def)
qed

lemma PTE_ADDR_table:
  assumes "n AND 0xFFF = 0" and "unat n < 2 ^ 52"
  shows "PTE_ADDR (n OR PAGE_PRESENT OR PAGE_WRITE) = n"
    and "(n OR PAGE_PRESENT OR PAGE_WRITE) AND PAGE_PRESENT \<noteq> 0"
proof -
  have hi: "\<not> bit n k" if "52 \<le> k" for k
  proof -
    have "take_bit 52 n = n" using assms(2) by (simp add: take_bit_eq_mod word_unat_eq_iff unat_mod)
    then show ?thesis using that by (metis bit_take_bit_iff not_less)
  qed
  show "PTE_ADDR (n OR PAGE_PRESENT OR PAGE_WRITE) = n"
  proof (rule bit_word_eqI)
    fix k
    show "bit (PTE_ADDR (n OR PAGE_PRESENT OR PAGE_WRITE)) k = bit n k"
      unfolding PTE_ADDR_def bit_and_iff bit_or_iff ADDR_MASK_bits flag_bits
      using hi aligned_bits [OF assms(1), of k] by (cases "k < 12"; cases "k < 52") auto
  qed
  have "bit ((n OR PAGE_PRESENT OR PAGE_WRITE) AND PAGE_PRESENT) 0"
    unfolding bit_and_iff bit_or_iff flag_bits by simp
  then show "(n OR PAGE_PRESENT OR PAGE_WRITE) AND PAGE_PRESENT \<noteq> 0" by (metis bit_0_eq bot_apply bot_bool_def)
qed

section \<open>The tables as a tree\<close>

text \<open>
  \<open>walk m t p\<close> follows the indices \<open>p\<close> down from the table at \<open>t\<close> through present entries.
  A path of up to three indices leads to a table, a path of four to the page it maps.
\<close>

fun walk :: "mem \<Rightarrow> u64 \<Rightarrow> u64 list \<Rightarrow> u64 option" where
  "walk m t [] = Some t"
| "walk m t (i # p) =
     (if entry m t i AND PAGE_PRESENT = 0 then None else walk m (PTE_ADDR (entry m t i)) p)"

definition idx_ok :: "u64 list \<Rightarrow> bool" where
  "idx_ok p \<longleftrightarrow> (\<forall>i \<in> set p. i < 512)"

definition page_path :: "u64 \<Rightarrow> u64 list" where
  "page_path v = [PML4_INDEX v, PDPT_INDEX v, PD_INDEX v, PT_INDEX v]"

definition translate :: "paging \<Rightarrow> u64 list \<Rightarrow> u64 option" where
  "translate s p = walk (pt_mem s) (current_pml4 s) p"

definition paging_ok :: "paging \<Rightarrow> bool" where
  "paging_ok s \<longleftrightarrow> pmm_inv (pt_pmm s) \<and> total_pages (pt_pmm s) \<le> 2 ^ 40 \<and>
     (\<forall>p t. idx_ok p \<and> length p \<le> 3 \<and> translate s p = Some t \<longrightarrow>
        t AND 0xFFF = 0 \<and> t div PAGE_SIZE \<notin> free_set (pt_pmm s)) \<and>
     (\<forall>p q t. idx_ok p \<and> length p \<le> 3 \<and> translate s p = Some t \<and>
        idx_ok q \<and> length q \<le> 3 \<and> translate s q = Some t \<longrightarrow> p = q)"

lemma idx_ok_simps [simp]:
  "idx_ok []" "idx_ok (i # p) \<longleftrightarrow> i < 512 \<and> idx_ok p" "idx_ok (p @ q) \<longleftrightarrow> idx_ok p \<and> idx_ok q"
  by (auto simp: idx_ok_def)

lemma page_path_ok: "idx_ok (page_path v)" "length (page_path v) = 4"
  by (simp_all add: page_path_def index_bounds)

lemma walk_append:
  "walk m t (p @ q) = (case walk m t p of None \<Rightarrow> None | Some u \<Rightarrow> walk m u q)"
  by (induction p arbitrary: t) auto

lemma walk_agree:
  assumes "\<And>p j r u. q = p @ j # r \<Longrightarrow> walk m t p = Some u \<Longrightarrow> entry m' u j = entry m u j"
  shows "walk m' t q = walk m t q"
  using assms
proof (induction q rule: rev_induct)
  case (snoc j q)
  have IH: "walk m' t q = walk m t q"
  proof (rule snoc.IH)
    fix p k r u assume "q = p @ k # r" "walk m t p = Some u"
    then show "entry m' u k = entry m u k" using snoc.prems [of p k "r @ [j]" u] by simp
  qed
  show ?case
  proof (cases "walk m t q")
    case (Some u)
    then show ?thesis using snoc.prems [of q j "[]" u] IH by (simp add: walk_append)
  qed (simp add: walk_append IH)
qed simp

lemma ok_table:
  "paging_ok s \<Longrightarrow> idx_ok p \<Longrightarrow> length p \<le> 3 \<Longrightarrow> translate s p = Some t \<Longrightarrow>
     t AND 0xFFF = 0 \<and> t div PAGE_SIZE \<notin> free_set (pt_pmm s)"
  by (auto simp: paging_ok_def)

lemma ok_unique:
  "paging_ok s \<Longrightarrow> idx_ok p \<Longrightarrow> length p \<le> 3 \<Longrightarrow> translate s p = Some t \<Longrightarrow>
     idx_ok q \<Longrightarrow> length q \<le> 3 \<Longrightarrow> translate s q = Some t \<Longrightarrow> p = q"
  by (auto simp: paging_ok_def)

lemma paging_ok_same:
  assumes ok: "paging_ok s" and pmm: "pt_pmm s1 = pt_pmm s"
    and same: "\<And>q. idx_ok q \<Longrightarrow> length q \<le> 3 \<Longrightarrow> translate s1 q = translate s q"
  shows "paging_ok s1"
  unfolding paging_ok_def
proof (intro conjI allI impI; (elim conjE)?)
  show "pmm_inv (pt_pmm s1)" "total_pages (pt_pmm s1) \<le> 2 ^ 40"
    using ok pmm by (simp_all add: paging_ok_def)
  show "t AND 0xFFF = 0" "t div PAGE_SIZE \<notin> free_set (pt_pmm s1)"
    if "idx_ok p" "length p \<le> 3" "translate s1 p = Some t" for p t
    using ok_table [OF ok that(1,2)] same [OF that(1,2)] that(3) pmm by simp_all
  show "p = q" if "idx_ok p" "length p \<le> 3" "translate s1 p = Some t"
      "idx_ok q" "length q \<le> 3" "translate s1 q = Some t" for p q t
    by (rule ok_unique [OF ok that(1,2) trans [OF same [OF that(1,2), symmetric] that(3)] that(4,5)
          trans [OF same [OF that(4,5), symmetric] that(6)]])
qed

text \<open>Writing entry \<open>i\<close> of the table that path \<open>p\<close> leads to.\<close>

lemma write_entry_other:
  assumes ok: "paging_ok s" and p: "idx_ok p" "length p \<le> 3" "translate s p = Some t" and i: "i < 512"
    and q: "idx_ok q" "length q \<le> 4" "\<And>r. q \<noteq> p @ i # r"
  shows "walk (write64 (pt_mem s) (slot t i) v) (current_pml4 s) q = translate s q"
  unfolding translate_def
proof (rule walk_agree)
  fix p' j r u
  assume q': "q = p' @ j # r" and w: "walk (pt_mem s) (current_pml4 s) p' = Some u"
  have p': "idx_ok p'" "length p' \<le> 3" "translate s p' = Some u" "j < 512"
    using q' q w by (auto simp: translate_def)
  have "u \<noteq> t \<or> j \<noteq> i"
  proof (rule ccontr)
    assume "\<not> (u \<noteq> t \<or> j \<noteq> i)"
    then have "p' = p" using ok_unique [OF ok p'(1-3) p(1,2)] p(3) by blast
    then show False using \<open>\<not> (u \<noteq> t \<or> j \<noteq> i)\<close> q' q(3) [of r] by simp
  qed
  then show "entry (write64 (pt_mem s) (slot t i) v) u j = entry (pt_mem s) u j"
    using ok_table [OF ok p] ok_table [OF ok p'(1-3)] i p'(4) by (intro entry_write_other) auto
qed

lemma write_entry_same:
  assumes ok: "paging_ok s" and p: "idx_ok p" "length p \<le> 3" "translate s p = Some t" and i: "i < 512"
  shows "walk (write64 (pt_mem s) (slot t i) v) (current_pml4 s) (p @ [i]) =
           (if v AND PAGE_PRESENT = 0 then None else Some (PTE_ADDR v))"
proof -
  have "walk (write64 (pt_mem s) (slot t i) v) (current_pml4 s) p = Some t"
    using write_entry_other [OF ok p i p(1)] p by simp
  then show ?thesis by (simp add: walk_append entry_write_same)
qed

section \<open>One level of the walk\<close>

lemma zero_new_table:
  assumes ok: "paging_ok s" and n: "n AND 0xFFF = 0" "n div PAGE_SIZE \<in> free_set (pt_pmm s)"
    and q: "idx_ok q" "length q \<le> 4"
  shows "walk (zero_table n (pt_mem s)) (current_pml4 s) q = translate s q"
  unfolding translate_def
proof (rule walk_agree)
  fix p j r u
  assume q': "q = p @ j # r" and w: "walk (pt_mem s) (current_pml4 s) p = Some u"
  have "u AND 0xFFF = 0 \<and> u div PAGE_SIZE \<notin> free_set (pt_pmm s)"
    using q' q w by (intro ok_table [OF ok, of p]) (auto simp: translate_def)
  then show "entry (zero_table n (pt_mem s)) u j = entry (pt_mem s) u j"
    using entry_zero [OF n(1)] n(2) q q' by auto
qed

lemma new_page:
  assumes ok: "paging_ok s" and al: "pmm_alloc_page (pt_pmm s) = (n, P)" and "n \<noteq> 0"
  shows "n AND 0xFFF = 0" and "unat n < 2 ^ 52" and "n div PAGE_SIZE \<in> free_set (pt_pmm s)"
    and "pmm_inv P" and "total_pages P = total_pages (pt_pmm s)"
    and "free_set P = free_set (pt_pmm s) - {n div PAGE_SIZE}"
proof -
  have inv: "pmm_inv (pt_pmm s)" and b: "bitmap_ok (pt_pmm s)" and tot: "total_pages (pt_pmm s) \<le> 2 ^ 40"
    using ok by (simp_all add: paging_ok_def pmm_inv_def)
  obtain i where i: "n = i * PAGE_SIZE" "P = take_page i (pt_pmm s)" "i \<in> free_set (pt_pmm s)"
    using al \<open>n \<noteq> 0\<close> by (auto elim: pmm_alloc_page_cases)
  have lt: "i < total_pages (pt_pmm s)" using i(3) by (simp add: free_set_iff)
  have un: "unat n = unat i * 4096" unfolding i(1) by (rule page_addr_lt [OF b lt])
  have "unat i < 2 ^ 40" using lt tot by (simp add: word_less_nat_alt word_le_nat_alt)
  then show "n AND 0xFFF = 0" "unat n < 2 ^ 52" using un by (simp_all add: aligned_iff)
  show "n div PAGE_SIZE \<in> free_set (pt_pmm s)" "free_set P = free_set (pt_pmm s) - {n div PAGE_SIZE}"
    using i page_addr_div [OF b lt] take_page_used [OF b lt]
    by (auto simp: free_set_iff take_page_fields)
  show "pmm_inv P" unfolding i(2) by (rule take_page_inv [OF inv i(3)])
  show "total_pages P = total_pages (pt_pmm s)" by (simp add: i(2) take_page_fields)
qed

definition out_of_pages :: "paging \<Rightarrow> bool" where
  "out_of_pages s \<longleftrightarrow> (\<forall>p. 1 \<le> p \<longrightarrow> p \<notin> free_set (pt_pmm s))"

text \<open>What every step keeps: the invariant, the root, and the pages in use.\<close>

definition grows :: "paging \<Rightarrow> paging \<Rightarrow> bool" where
  "grows s s' \<longleftrightarrow> paging_ok s' \<and> current_pml4 s' = current_pml4 s \<and>
     free_set (pt_pmm s') \<subseteq> free_set (pt_pmm s)"

lemma grows_trans: "grows s s1 \<Longrightarrow> grows s1 s2 \<Longrightarrow> grows s s2"
  by (auto simp: grows_def)

lemma grows_ok: "grows s s' \<Longrightarrow> paging_ok s'"
  by (simp add: grows_def)

lemma grows_refl: "paging_ok s \<Longrightarrow> grows s s"
  by (simp add: grows_def)

lemma alloc_page_none:
  assumes "paging_ok s" and "pmm_alloc_page (pt_pmm s) = (0, P)"
  shows "P = pt_pmm s" and "out_of_pages s"
proof -
  have inv: "pmm_inv (pt_pmm s)" using assms(1) by (simp add: paging_ok_def)
  then have b: "bitmap_ok (pt_pmm s)" by (simp add: pmm_inv_def)
  show "P = pt_pmm s" using pages.alloc_fail [OF inv assms(2)] .
  from assms(2) show "out_of_pages s"
    by (rule pmm_alloc_page_cases)
      (use page_addr_zero [OF b] in \<open>auto simp: out_of_pages_def free_set_iff\<close>)
qed

lemma new_table:
  assumes ok: "paging_ok s" and p: "idx_ok p" "length p \<le> 2" "translate s p = Some t" and i: "i < 512"
    and absent: "translate s (p @ [i]) = None"
    and al: "pmm_alloc_page (pt_pmm s) = (n, P)" "n \<noteq> 0"
  defines "s' \<equiv> s\<lparr>pt_pmm := P,
      pt_mem := write64 (zero_table n (pt_mem s)) (slot t i) (n OR PAGE_PRESENT OR PAGE_WRITE)\<rparr>"
  shows "grows s s'" and "translate s' (p @ [i]) = Some n"
    and "\<And>q. idx_ok q \<Longrightarrow> length q \<le> 4 \<Longrightarrow> q \<noteq> p @ [i] \<Longrightarrow> translate s' q = translate s q"
proof -
  note n = new_page [OF ok al]
  define s1 where "s1 = s\<lparr>pt_mem := zero_table n (pt_mem s)\<rparr>"
  have eq1: "translate s1 q = translate s q" if "idx_ok q" "length q \<le> 4" for q
    using zero_new_table [OF ok n(1,3) that] by (simp add: s1_def translate_def)
  have ok1: "paging_ok s1"
    by (rule paging_ok_same [OF ok]) (use eq1 in \<open>simp_all add: s1_def\<close>)
  have p1: "translate s1 p = Some t" "length p \<le> 3" using eq1 [OF p(1)] p by simp_all
  have pte: "translate s' q = walk (write64 (pt_mem s1) (slot t i) (n OR PAGE_PRESENT OR PAGE_WRITE)) (current_pml4 s1) q"
    for q by (simp add: s'_def s1_def translate_def)
  show here: "translate s' (p @ [i]) = Some n"
    unfolding pte using write_entry_same [OF ok1 p(1) p1(2,1) i] PTE_ADDR_table [OF n(1,2)] by simp
  have tn: "t \<noteq> n" using ok_table [OF ok p(1) _ p(3)] p(2) n(3) by auto
  have t_al: "t AND 0xFFF = 0" using ok_table [OF ok p(1) _ p(3)] p(2) by auto
  have below: "translate s' (p @ i # j # r) = None" if "j < 512" for j r
  proof -
    have "entry (pt_mem s') n j = entry (zero_table n (pt_mem s)) n j"
      unfolding s'_def using tn that i n(1) t_al by (simp add: entry_write_other)
    then have "entry (pt_mem s') n j = 0" using entry_zero [OF n(1,1) that] by simp
    moreover have "translate s' (p @ i # j # r) = walk (pt_mem s') n (j # r)"
      using here walk_append [of "pt_mem s'" "current_pml4 s'" "p @ [i]" "j # r"]
      by (simp add: translate_def)
    ultimately show ?thesis by simp
  qed
  show other: "translate s' q = translate s q" if q: "idx_ok q" "length q \<le> 4" "q \<noteq> p @ [i]" for q
  proof (cases "\<exists>r. q = p @ i # r")
    case True
    then obtain j r where "q = p @ i # j # r" "j < 512" using q by (metis list.exhaust idx_ok_simps(2,3))
    moreover have "translate s (p @ i # j # r) = None"
      using absent walk_append [of "pt_mem s" "current_pml4 s" "p @ [i]" "j # r"]
      by (simp add: translate_def)
    ultimately show ?thesis using below by simp
  next
    case False
    then have "translate s' q = translate s1 q"
      unfolding pte by (intro write_entry_other [OF ok1 p(1) p1(2,1) i q(1,2)]) blast
    then show ?thesis using eq1 q by simp
  qed
  have tab: "t' AND 0xFFF = 0 \<and> t' div PAGE_SIZE \<notin> free_set P \<and> (q = p @ [i] \<longleftrightarrow> t' = n)"
    if q: "idx_ok q" "length q \<le> 3" "translate s' q = Some t'" for q t'
  proof (cases "q = p @ [i]")
    case True
    then show ?thesis using q here n(1,6) by auto
  next
    case False
    then have "translate s q = Some t'" using other q by auto
    then show ?thesis using ok_table [OF ok q(1,2)] n(3,6) False by auto
  qed
  have "q = q'" if "idx_ok q" "length q \<le> 3" "translate s' q = Some t'"
      "idx_ok q'" "length q' \<le> 3" "translate s' q' = Some t'" for q q' t'
  proof (cases "t' = n")
    case False
    then have "q \<noteq> p @ [i]" "q' \<noteq> p @ [i]" using tab that by blast+
    then have "translate s q = Some t'" "translate s q' = Some t'" using other that by auto
    then show ?thesis using ok_unique [OF ok] that by blast
  qed (use tab that in blast)
  then have "paging_ok s'"
    using n(4,5) tab ok unfolding paging_ok_def by (simp add: s'_def) blast
  then show "grows s s'" using n(6) by (auto simp: grows_def s'_def)
qed

lemma next_table_spec:
  assumes ok: "paging_ok s" and p: "idx_ok p" "length p \<le> 2" "translate s p = Some t" and i: "i < 512"
    and nt: "next_table create t i s = (r, s')"
  shows "grows s s' \<and> translate s' (p @ [i]) = r \<and> (\<not> create \<longrightarrow> s' = s) \<and>
    (create \<and> r = None \<longrightarrow> out_of_pages s') \<and>
    (\<forall>q. idx_ok q \<and> length q \<le> 4 \<and> q \<noteq> p @ [i] \<longrightarrow> translate s' q = translate s q)"
proof (cases "entry (pt_mem s) t i AND PAGE_PRESENT = 0")
  case False
  then have "r = Some (PTE_ADDR (entry (pt_mem s) t i))" "s' = s" using nt by (auto simp: next_table_def Let_def)
  then show ?thesis using False p(3) grows_refl [OF ok] by (simp add: translate_def walk_append)
next
  case True
  have absent: "translate s (p @ [i]) = None" using True p(3) by (simp add: translate_def walk_append)
  obtain n P where al: "pmm_alloc_page (pt_pmm s) = (n, P)" by force
  show ?thesis
  proof (cases "create \<and> n \<noteq> 0")
    case cr: True
    then have e: "r = Some n" "s' = s\<lparr>pt_pmm := P,
        pt_mem := write64 (zero_table n (pt_mem s)) (slot t i) (n OR PAGE_PRESENT OR PAGE_WRITE)\<rparr>"
      using nt True al by (auto simp: next_table_def alloc_page_table_def Let_def)
    show ?thesis using new_table [OF ok p i absent al] cr unfolding e by blast
  next
    case False
    then have "r = None \<and> s' = s \<and> (create \<longrightarrow> out_of_pages s)"
      using nt True al alloc_page_none [OF ok, of P]
      by (auto simp: next_table_def alloc_page_table_def Let_def split: if_splits)
    then show ?thesis using absent grows_refl [OF ok] by auto
  qed
qed

section \<open>The whole walk\<close>

text \<open>
  \<open>get_or_create_pte\<close> leaves every translation alone; its result is the address of the entry
  for the page, in the table that the first three indices lead to.
\<close>

definition table_path :: "u64 \<Rightarrow> u64 list" where
  "table_path v = [PML4_INDEX v, PDPT_INDEX v, PD_INDEX v]"

lemma table_path_ok: "idx_ok (table_path v)" "length (table_path v) = 3"
  by (simp_all add: table_path_def index_bounds)

lemma page_path_snoc: "page_path v = table_path v @ [PT_INDEX v]"
  by (simp add: page_path_def table_path_def)

definition extends :: "paging \<Rightarrow> paging \<Rightarrow> bool" where
  "extends s s' \<longleftrightarrow> grows s s' \<and> (\<forall>q. idx_ok q \<and> length q = 4 \<longrightarrow> translate s' q = translate s q)"

lemma extends_trans: "extends s s1 \<Longrightarrow> extends s1 s2 \<Longrightarrow> extends s s2"
  unfolding extends_def using grows_trans by metis

lemma next_table_extends:
  assumes "paging_ok s" and "idx_ok p" and "length p \<le> 2" and "translate s p = Some t" and "i < 512"
    and "next_table create t i s = (r, s')"
  shows "extends s s'" and "translate s' (p @ [i]) = r" and "\<not> create \<Longrightarrow> s' = s"
    and "create \<Longrightarrow> r = None \<Longrightarrow> out_of_pages s'" and "paging_ok s'"
proof -
  have "q \<noteq> p @ [i]" if "length q = 4" for q using that assms(3) by auto
  then show "extends s s'" using next_table_spec [OF assms] by (simp add: extends_def)
  show "translate s' (p @ [i]) = r" "\<not> create \<Longrightarrow> s' = s" "paging_ok s'"
    "create \<Longrightarrow> r = None \<Longrightarrow> out_of_pages s'"
    using next_table_spec [OF assms] by (auto dest: grows_ok)
qed

lemma translate_cut: "translate s p = None \<Longrightarrow> translate s (p @ q) = None"
  by (simp add: translate_def walk_append)

lemma get_or_create_pte_spec:
  assumes ok: "paging_ok s" and g: "get_or_create_pte v create s = (r, s')"
  shows "extends s s' \<and> (\<not> create \<longrightarrow> s' = s) \<and> (create \<and> r = None \<longrightarrow> out_of_pages s') \<and>
    (case r of None \<Rightarrow> translate s' (table_path v) = None
     | Some a \<Rightarrow> \<exists>t. translate s' (table_path v) = Some t \<and> a = slot t (PT_INDEX v))"
proof -
  let ?a = "PML4_INDEX v" and ?b = "PDPT_INDEX v" and ?c = "PD_INDEX v"
  obtain r1 s1 where n1: "next_table create (current_pml4 s) ?a s = (r1, s1)" by force
  have t0: "translate s [] = Some (current_pml4 s)" by (simp add: translate_def)
  note 1 = next_table_extends [OF ok _ _ t0 index_bounds(1) n1, simplified]
  show ?thesis
  proof (cases r1)
    case None
    then have "translate s1 (table_path v) = None"
      using translate_cut [of s1 "[?a]" "[?b, ?c]"] 1(2) by (simp add: table_path_def)
    then show ?thesis using g n1 None 1 by (auto simp: get_or_create_pte_def)
  next
    case (Some pdpt)
    obtain r2 s2 where n2: "next_table create pdpt ?b s1 = (r2, s2)" by force
    have t1: "translate s1 [?a] = Some pdpt" using 1(2) Some by simp
    note 2 = next_table_extends [OF 1(5) _ _ t1 index_bounds(2) n2, simplified, OF index_bounds(1)]
    note e2 = extends_trans [OF 1(1) 2(1)]
    show ?thesis
    proof (cases r2)
      case None
      then have "translate s2 (table_path v) = None"
        using translate_cut [of s2 "[?a, ?b]" "[?c]"] 2(2) by (simp add: table_path_def)
      then show ?thesis using g n1 n2 Some None 1(3) 2(3,4) e2 by (auto simp: get_or_create_pte_def)
    next
      case Some2: (Some pd)
      obtain r3 s3 where n3: "next_table create pd ?c s2 = (r3, s3)" by force
      have t2: "translate s2 [?a, ?b] = Some pd" using 2(2) Some2 by simp
      note 3 = next_table_extends [OF 2(5) _ _ t2 index_bounds(3) n3, simplified,
          OF conjI [OF index_bounds(1) index_bounds(2)]]
      have "translate s3 (table_path v) = r3" using 3(2) by (simp add: table_path_def)
      then show ?thesis
        using g n1 n2 n3 Some Some2 1(3) 2(3) 3(3,4) extends_trans [OF e2 3(1)]
        by (cases r3) (auto simp: get_or_create_pte_def)
    qed
  qed
qed

lemma get_physical_translate:
  assumes "paging_ok s"
  shows "paging_get_physical v s =
    (case translate s (page_path v) of None \<Rightarrow> 0 | Some a \<Rightarrow> a OR (v AND 0xFFF))"
proof -
  obtain r s1 where g: "get_or_create_pte v False s = (r, s1)" by force
  note S = get_or_create_pte_spec [OF assms g]
  have tr: "translate s (page_path v) = (case translate s (table_path v) of None \<Rightarrow> None
      | Some t \<Rightarrow> if entry (pt_mem s) t (PT_INDEX v) AND PAGE_PRESENT = 0 then None
                  else Some (PTE_ADDR (entry (pt_mem s) t (PT_INDEX v))))"
    by (simp add: translate_def page_path_snoc walk_append split: option.splits)
  show ?thesis
    using S g by (cases r) (auto simp: paging_get_physical_def tr entry_def)
qed

text \<open>Two addresses with the same indices are in the same page of the 48-bit address space.\<close>

lemma set_entry:
  fixes e :: u64 and fl :: "u64 list"
  assumes ok: "paging_ok s" and t: "translate s (table_path v) = Some t"
  defines "s' \<equiv> s\<lparr>pt_mem := write64 (pt_mem s) (slot t (PT_INDEX v)) e, invalidated := fl\<rparr>"
  shows "grows s s'"
    and "translate s' (page_path v) = (if e AND PAGE_PRESENT = 0 then None else Some (PTE_ADDR e))"
    and "page_path w \<noteq> page_path v \<Longrightarrow> translate s' (page_path w) = translate s (page_path w)"
proof -
  note tp = table_path_ok [of v]
  have other: "translate s' q = translate s q"
    if "idx_ok q" "length q \<le> 4" "q \<noteq> page_path v" "length q \<le> 3 \<or> length q = 4" for q
  proof -
    have "q \<noteq> table_path v @ PT_INDEX v # r" for r
    proof
      assume "q = table_path v @ PT_INDEX v # r"
      then have "r = []" using that(2) tp by auto
      then show False using \<open>q = _\<close> that(3) by (simp add: page_path_snoc)
    qed
    then show ?thesis
      using write_entry_other [OF ok tp(1) _ t index_bounds(4) that(1,2)] tp(2)
      by (simp add: s'_def translate_def)
  qed
  have "paging_ok s'"
  proof (rule paging_ok_same [OF ok])
    fix q assume q: "idx_ok q" "length q \<le> 3"
    then have "q \<noteq> page_path v" using page_path_ok [of v] by auto
    then show "translate s' q = translate s q" using other q by simp
  qed (simp add: s'_def)
  then show "grows s s'" by (simp add: grows_def s'_def)
  show "translate s' (page_path v) = (if e AND PAGE_PRESENT = 0 then None else Some (PTE_ADDR e))"
    using write_entry_same [OF ok tp(1) _ t index_bounds(4)] tp(2)
    by (simp add: s'_def translate_def page_path_snoc)
  show "translate s' (page_path w) = translate s (page_path w)" if "page_path w \<noteq> page_path v"
    using other page_path_ok [of w] that by simp
qed

lemma paging_map_spec:
  assumes ok: "paging_ok s" and m: "paging_map v p f s = (b, s')"
  shows "grows s s'" and "\<not> b \<Longrightarrow> out_of_pages s'"
    and "b \<Longrightarrow> translate s' (page_path v) =
           (if ((p AND ADDR_MASK) OR f) AND PAGE_PRESENT = 0 then None
            else Some (PTE_ADDR ((p AND ADDR_MASK) OR f)))"
    and "page_path w \<noteq> page_path v \<or> \<not> b \<Longrightarrow> translate s' (page_path w) = translate s (page_path w)"
proof -
  obtain r s1 where g: "get_or_create_pte v True s = (r, s1)" by force
  note S = get_or_create_pte_spec [OF ok g]
  have w: "translate s1 (page_path w) = translate s (page_path w)" for w
    using S page_path_ok [of w] by (auto simp: extends_def)
  have "grows s s' \<and> (\<not> b \<longrightarrow> out_of_pages s') \<and>
    (b \<longrightarrow> translate s' (page_path v) =
           (if ((p AND ADDR_MASK) OR f) AND PAGE_PRESENT = 0 then None
            else Some (PTE_ADDR ((p AND ADDR_MASK) OR f)))) \<and>
    (page_path w \<noteq> page_path v \<or> \<not> b \<longrightarrow> translate s' (page_path w) = translate s (page_path w))"
  proof (cases r)
    case None
    then show ?thesis using m g S w by (auto simp: paging_map_def extends_def)
  next
    case (Some a)
    then obtain t where t: "translate s1 (table_path v) = Some t" "a = slot t (PT_INDEX v)" using S by auto
    have ok1: "paging_ok s1" using S by (auto simp: extends_def grows_def)
    have "s' = s1\<lparr>pt_mem := write64 (pt_mem s1) (slot t (PT_INDEX v)) ((p AND ADDR_MASK) OR f),
                  invalidated := v # invalidated s1\<rparr>" "b"
      using m g Some t by (simp_all add: paging_map_def)
    then show ?thesis
      using set_entry [OF ok1 t(1), where e = "(p AND ADDR_MASK) OR f" and fl = "v # invalidated s1"]
        grows_trans [of s s1 s'] S w by (auto simp: extends_def)
  qed
  then show "grows s s'" "\<not> b \<Longrightarrow> out_of_pages s'"
    "b \<Longrightarrow> translate s' (page_path v) =
           (if ((p AND ADDR_MASK) OR f) AND PAGE_PRESENT = 0 then None
            else Some (PTE_ADDR ((p AND ADDR_MASK) OR f)))"
    "page_path w \<noteq> page_path v \<or> \<not> b \<Longrightarrow> translate s' (page_path w) = translate s (page_path w)"
    by blast+
qed

section \<open>Pages and their indices\<close>

lemma unat_index: "unat (drop_bit k a AND 0x1FF :: u64) = unat a div 2 ^ k mod 512"
  using unat_and_mask [of "drop_bit k a" 9] by (simp add: mask_numeral unat_drop_bit)

lemma page_path_digits:
  assumes "unat v < 2 ^ 48"
  defines "x \<equiv> unat v div 4096"
  shows "x = unat (PT_INDEX v) + 512 * (unat (PD_INDEX v) + 512 * (unat (PDPT_INDEX v) + 512 * unat (PML4_INDEX v)))"
proof -
  have d: "unat (PT_INDEX v) = x mod 512" "unat (PD_INDEX v) = x div 512 mod 512"
    "unat (PDPT_INDEX v) = x div 512 div 512 mod 512" "unat (PML4_INDEX v) = x div 512 div 512 div 512 mod 512"
    unfolding PT_INDEX_def PD_INDEX_def PDPT_INDEX_def PML4_INDEX_def unat_index x_def
    by (simp_all add: div_mult2_eq [symmetric])
  have "x div 512 div 512 div 512 < 512" using assms(1) by (simp add: x_def div_mult2_eq [symmetric])
  then have "x div 512 div 512 div 512 mod 512 = x div 512 div 512 div 512" by simp
  then show ?thesis unfolding d by (metis mod_mult_div_eq)
qed

lemma page_path_eq:
  assumes "unat v < 2 ^ 48" and "unat w < 2 ^ 48"
  shows "page_path v = page_path w \<longleftrightarrow> unat v div 4096 = unat w div 4096"
proof
  assume "page_path v = page_path w"
  then show "unat v div 4096 = unat w div 4096"
    unfolding page_path_digits [OF assms(1)] page_path_digits [OF assms(2)] by (simp add: page_path_def)
next
  assume eq: "unat v div 4096 = unat w div 4096"
  have "unat v div 2 ^ k = unat w div 2 ^ k" if "12 \<le> k" for k
  proof -
    have "(2 :: nat) ^ k = 4096 * 2 ^ (k - 12)"
      using that by (simp flip: power_add [of "2 :: nat" 12 "k - 12", simplified])
    then show ?thesis using eq by (simp add: div_mult2_eq)
  qed
  then have "drop_bit k v = drop_bit k w" if "12 \<le> k" for k
    using that by (simp add: word_unat_eq_iff unat_drop_bit)
  then show "page_path v = page_path w"
    by (simp add: page_path_def PML4_INDEX_def PDPT_INDEX_def PD_INDEX_def PT_INDEX_def)
qed

definition page_base :: "u64 \<Rightarrow> u64" where
  "page_base v = v AND NOT 0xFFF"

lemma page_base_bits: "bit (page_base v) n \<longleftrightarrow> bit v n \<and> 12 \<le> n \<and> n < 64"
  unfolding page_base_def bit_and_iff bit_not_iff bits_FFF
  by (auto simp: possible_bit_def dest: bit_imp_possible_bit)

lemma page_base_aligned: "page_base v AND 0xFFF = 0"
  by (rule bit_word_eqI) (unfold bit_and_iff bits_FFF page_base_bits, auto)

lemma page_base_or: "page_base v OR (v AND 0xFFF) = v"
  by (rule bit_word_eqI) (unfold bit_and_iff bit_or_iff bits_FFF page_base_bits, auto)

lemma unat_page_base: "unat (page_base v) = 4096 * (unat v div 4096)"
proof -
  have "page_base v = push_bit 12 (drop_bit 12 v)"
    by (rule bit_word_eqI) (unfold page_base_bits bit_push_bit_iff bit_drop_bit_eq, auto)
  also have "\<dots> = of_nat (4096 * unat (drop_bit 12 v))" by (simp add: push_bit_eq_mult)
  finally have "page_base v = of_nat (4096 * (unat v div 4096))" by (simp only: unat_drop_bit) simp
  moreover have "4096 * (unat v div 4096) < 2 ^ 64" using unat_lt_64 [of v] by simp
  ultimately show ?thesis by (simp only: unat_of_nat_64)
qed

lemma PTE_ADDR_flags:
  assumes "f AND ADDR_MASK = 0"
  shows "PTE_ADDR ((p AND ADDR_MASK) OR f) = p AND ADDR_MASK"
  unfolding PTE_ADDR_def bit.conj_disj_distrib2 assms by (simp add: and.assoc)

lemma present_or: "f AND PAGE_PRESENT \<noteq> 0 \<Longrightarrow> (x OR f) AND PAGE_PRESENT \<noteq> 0"
  by (metis bit.conj_disj_distrib2 or_eq_0_iff)

section \<open>Properties\<close>

lemma paging_empty_ok:
  assumes "pmm_inv P" and "total_pages P \<le> 2 ^ 40" and "c AND 0xFFF = 0" and "c div PAGE_SIZE \<notin> free_set P"
    and "\<And>i. entry m c i = 0"
  shows "paging_ok \<lparr>pt_mem = m, pt_pmm = P, current_pml4 = c, invalidated = []\<rparr>"
proof -
  have "translate \<lparr>pt_mem = m, pt_pmm = P, current_pml4 = c, invalidated = []\<rparr> p = Some t \<Longrightarrow> p = [] \<and> t = c"
    for p t using assms(5) by (cases p) (simp_all add: translate_def)
  then show ?thesis using assms(1-4) unfolding paging_ok_def by simp blast
qed

text \<open>A machine whose root table, at 1 MB, is empty, and whose allocator manages eight pages.\<close>

definition paging_demo :: paging where
  "paging_demo = paging_init 0x100000
     \<lparr>pt_mem = (\<lambda>_. 0), pt_pmm = pmm_demo, current_pml4 = 0, invalidated = []\<rparr>"

lemma paging_demo_ok: "paging_ok paging_demo"
proof -
  have t: "total_pages pmm_demo = 8" by (simp add: pmm_demo_def pmm_free_page_total)
  show ?thesis
    unfolding paging_demo_def paging_init_def
    by (simp, rule paging_empty_ok [OF pmm_demo_inv])
      (simp_all add: t free_set_iff PAGE_SIZE_def entry_def)
qed



text \<open>
  After \<open>paging_unmap\<close> the page has no translation, every other page translates as before,
  and the page tables stay well formed.
\<close>

theorem paging_unmap_clears_one_page:
  assumes "paging_ok s"
  shows "paging_ok (paging_unmap v s) \<and> paging_get_physical v (paging_unmap v s) = 0 \<and>
    (\<forall>w. page_path w \<noteq> page_path v \<longrightarrow>
       paging_get_physical w (paging_unmap v s) = paging_get_physical w s)"
proof -
  obtain r s1 where g: "get_or_create_pte v False s = (r, s1)" by force
  note S = get_or_create_pte_spec [OF assms g]
  show ?thesis
  proof (cases r)
    case None
    then have "translate s (table_path v) = None" "paging_unmap v s = s"
      using S g by (auto simp: paging_unmap_def)
    then have "translate s (page_path v) = None" "paging_unmap v s = s"
      unfolding page_path_snoc by (auto intro: translate_cut)
    then show ?thesis using assms get_physical_translate [OF assms] by simp
  next
    case (Some a)
    then obtain t where t: "translate s (table_path v) = Some t" "a = slot t (PT_INDEX v)" using S by auto
    have e: "paging_unmap v s = s\<lparr>pt_mem := write64 (pt_mem s) (slot t (PT_INDEX v)) 0,
        invalidated := v # invalidated s\<rparr>"
      using g Some t S by (simp add: paging_unmap_def)
    note W = set_entry [OF assms t(1), where e = 0 and fl = "v # invalidated s", folded e]
    have ok': "paging_ok (paging_unmap v s)" using W(1) by (rule grows_ok)
    show ?thesis
      using W(2,3) ok' by (simp add: get_physical_translate [OF ok'] get_physical_translate [OF assms])
  qed
qed

theorem paging_unmap_clears_one_page_witness:
  "paging_ok (paging_unmap 0x400000 paging_demo) \<and>
   paging_get_physical 0x400000 (paging_unmap 0x400000 paging_demo) = 0"
  using paging_unmap_clears_one_page [OF paging_demo_ok, of "0x400000"] by blast

section \<open>Identity mapping\<close>

lemma out_of_pages_grows: "grows s s' \<Longrightarrow> out_of_pages s \<Longrightarrow> out_of_pages s'"
  by (auto simp: grows_def out_of_pages_def)

lemma identity_step:
  assumes "paging_ok s" and "a AND 0xFFF = 0" and "unat a < 2 ^ 48"
    and "flags AND PAGE_PRESENT \<noteq> 0" and "flags AND ADDR_MASK = 0" and "paging_map a a flags s = (b, s1)"
  shows "grows s s1" and "out_of_pages s1 \<or> translate s1 (page_path a) = Some a"
    and "page_path w \<noteq> page_path a \<Longrightarrow> translate s1 (page_path w) = translate s (page_path w)"
proof -
  note S = paging_map_spec [OF assms(1,6)]
  have hi: "\<not> bit a n" if "48 \<le> n" for n
  proof -
    have "take_bit 48 a = a" using assms(3) by (simp add: take_bit_eq_mod word_unat_eq_iff unat_mod)
    then show ?thesis using that by (metis bit_take_bit_iff not_less)
  qed
  have "a AND ADDR_MASK = a"
  proof (rule bit_word_eqI)
    fix n
    show "bit (a AND ADDR_MASK) n = bit a n"
      unfolding bit_and_iff ADDR_MASK_bits
      using hi [of n] aligned_bits [OF assms(2), of n] by (cases "n < 12"; cases "n < 52") auto
  qed
  then have "PTE_ADDR ((a AND ADDR_MASK) OR flags) = a" using PTE_ADDR_flags [OF assms(5), of a] by argo
  then show "out_of_pages s1 \<or> translate s1 (page_path a) = Some a"
    using S(2,3) present_or [OF assms(4), of "a AND ADDR_MASK"] by (cases b) auto
  show "grows s s1" by (rule S(1))
  show "translate s1 (page_path w) = translate s (page_path w)" if "page_path w \<noteq> page_path a"
    using S(4) that by blast
qed

lemma identity_loop_spec:
  assumes "paging_ok s" and "unat a = 4096 * k" and "unat e = 4096 * (k + n)" and "unat e \<le> 2 ^ 48"
    and f: "flags AND PAGE_PRESENT \<noteq> 0" "flags AND ADDR_MASK = 0"
  shows "\<exists>s'. identity_loop a e flags s = Some s' \<and> grows s s' \<and>
    (out_of_pages s' \<or>
     (\<forall>x. x AND 0xFFF = 0 \<and> a \<le> x \<and> x < e \<longrightarrow> translate s' (page_path x) = Some x)) \<and>
    (\<forall>w. unat w < 2 ^ 48 \<and> (unat w div 4096 < k \<or> k + n \<le> unat w div 4096) \<longrightarrow>
       translate s' (page_path w) = translate s (page_path w))"
  using assms
proof (induction n arbitrary: a k s)
  case 0
  then have "\<not> a < e" "\<And>x. \<not> (a \<le> x \<and> x < e)" by (auto simp: word_less_nat_alt word_le_nat_alt)
  then show ?case using 0 grows_refl by (auto simp: identity_loop.simps)
next
  case (Suc n)
  obtain b s1 where m: "paging_map a a flags s = (b, s1)" by force
  have al: "a AND 0xFFF = 0" using Suc.prems(2) by (simp add: aligned_iff)
  have a48: "unat a < 2 ^ 48" using Suc.prems by simp
  note step = identity_step [OF Suc.prems(1) al a48 f m]
  have lt: "a < e" using Suc.prems by (simp add: word_less_nat_alt)
  have ua: "unat (a + PAGE_SIZE) = 4096 * (k + 1)"
    using Suc.prems a48 by (simp add: PAGE_SIZE_def unat_word_ariths)
  obtain s' where s': "identity_loop (a + PAGE_SIZE) e flags s1 = Some s'" "grows s1 s'"
    "out_of_pages s' \<or>
     (\<forall>x. x AND 0xFFF = 0 \<and> a + PAGE_SIZE \<le> x \<and> x < e \<longrightarrow> translate s' (page_path x) = Some x)"
    "\<forall>w. unat w < 2 ^ 48 \<and> (unat w div 4096 < k + 1 \<or> k + 1 + n \<le> unat w div 4096) \<longrightarrow>
       translate s' (page_path w) = translate s1 (page_path w)"
    using Suc.IH [OF grows_ok [OF step(1)] ua _ Suc.prems(4) f] Suc.prems(3) by auto
  have here: "translate s' (page_path a) = translate s1 (page_path a)"
    using s'(4) a48 Suc.prems(2) by simp
  have "identity_loop a e flags s = Some s'"
    using lt m s'(1) by (simp add: identity_loop.simps [of a])
  moreover have "grows s s'" using step(1) s'(2) by (rule grows_trans)
  moreover have "translate s' (page_path x) = Some x"
    if x: "\<not> out_of_pages s'" "x AND 0xFFF = 0" "a \<le> x" "x < e" for x
  proof (cases "x = a")
    case True
    have "\<not> out_of_pages s1" using x(1) out_of_pages_grows [OF s'(2)] by blast
    then show ?thesis using step(2) here True by simp
  next
    case False
    obtain q where q: "unat x = 4096 * q" using aligned_multiple [OF x(2)] by blast
    have "unat a < unat x" using x(3) False by (simp add: word_le_nat_alt word_unat_eq_iff)
    then have "a + PAGE_SIZE \<le> x" using q Suc.prems(2) ua by (simp add: word_le_nat_alt)
    then show ?thesis using s'(3) x by blast
  qed
  moreover have "translate s' (page_path w) = translate s (page_path w)"
    if w: "unat w < 2 ^ 48" "unat w div 4096 < k \<or> k + Suc n \<le> unat w div 4096" for w
  proof -
    have "page_path w \<noteq> page_path a" using page_path_eq [OF w(1) a48] w(2) Suc.prems(2) by auto
    then show ?thesis using step(3) s'(4) w by auto
  qed
  ultimately show ?case by blast
qed

text \<open>
  \<open>paging_identity_map_region\<close> always returns; if pages are left afterwards, every address of
  the region translates to itself, and every page below 2^48 outside the region translates
  as before. (The function reports nothing when it runs out of pages.)
\<close>

theorem identity_map_region_maps:
  assumes "paging_ok s" and "unat start + unat sz \<le> 2 ^ 48 - 4096"
    and "flags AND PAGE_PRESENT \<noteq> 0" and "flags AND ADDR_MASK = 0"
  shows "\<exists>s'. paging_identity_map_region start sz flags s = Some s' \<and> paging_ok s' \<and>
    (out_of_pages s' \<or>
     (\<forall>v. unat start \<le> unat v \<and> unat v < unat start + unat sz \<longrightarrow> paging_get_physical v s' = v)) \<and>
    (\<forall>w. unat w < 2 ^ 48 \<and> (unat w div 4096 < unat start div 4096 \<or>
           unat start + unat sz + 4095 < unat w) \<longrightarrow> paging_get_physical w s' = paging_get_physical w s)"
proof -
  let ?a = "page_base start" and ?e = "page_base (start + sz + 0xFFF)"
  define k where "k = unat start div 4096"
  define n where "n = (unat start + unat sz + 4095) div 4096 - k"
  have kn: "k + n = (unat start + unat sz + 4095) div 4096"
    unfolding k_def n_def by (simp add: div_le_mono)
  have ua: "unat ?a = 4096 * k" by (simp add: unat_page_base k_def)
  have "unat (start + sz + 0xFFF) = unat start + unat sz + 4095"
    using assms(2) by (simp add: unat_word_ariths)
  then have ue: "unat ?e = 4096 * (k + n)" by (simp add: unat_page_base kn)
  also have "\<dots> \<le> unat start + unat sz + 4095" unfolding kn by simp
  finally have e48: "unat ?e \<le> 2 ^ 48" using assms(2) by simp
  obtain s' where s': "identity_loop ?a ?e flags s = Some s'" "grows s s'"
    "out_of_pages s' \<or> (\<forall>x. x AND 0xFFF = 0 \<and> ?a \<le> x \<and> x < ?e \<longrightarrow> translate s' (page_path x) = Some x)"
    "\<forall>w. unat w < 2 ^ 48 \<and> (unat w div 4096 < k \<or> k + n \<le> unat w div 4096) \<longrightarrow>
       translate s' (page_path w) = translate s (page_path w)"
    using identity_loop_spec [OF assms(1) ua ue e48 assms(3,4)] by blast
  have ok': "paging_ok s'" using s'(2) by (rule grows_ok)
  have "paging_get_physical v s' = v"
    if v: "\<not> out_of_pages s'" "unat start \<le> unat v" "unat v < unat start + unat sz" for v
  proof -
    have ub: "unat (page_base v) = 4096 * (unat v div 4096)" by (rule unat_page_base)
    have "k \<le> unat v div 4096" using v(2) by (simp add: k_def div_le_mono)
    moreover have "unat v div 4096 < k + n" unfolding kn using v(3) by linarith
    ultimately have "?a \<le> page_base v" "page_base v < ?e"
      using ua ue ub by (simp_all add: word_le_nat_alt word_less_nat_alt)
    then have "translate s' (page_path (page_base v)) = Some (page_base v)"
      using s'(3) v(1) page_base_aligned by blast
    moreover have "unat v < 2 ^ 48" using v(3) assms(2) by simp
    then have "page_path (page_base v) = page_path v"
      using ub by (subst page_path_eq) simp_all
    ultimately show ?thesis by (simp add: get_physical_translate [OF ok'] page_base_or)
  qed
  moreover have "paging_get_physical w s' = paging_get_physical w s"
    if w: "unat w < 2 ^ 48" "unat w div 4096 < k \<or> unat start + unat sz + 4095 < unat w" for w
  proof -
    have "unat w div 4096 < k \<or> k + n \<le> unat w div 4096"
      using w(2) unfolding kn by (auto intro: div_le_mono)
    then have "translate s' (page_path w) = translate s (page_path w)" using s'(4) w(1) by blast
    then show ?thesis
      by (simp add: get_physical_translate [OF ok'] get_physical_translate [OF assms(1)])
  qed
  ultimately show ?thesis
    using s'(1) ok' unfolding paging_identity_map_region_def k_def page_base_def by blast
qed

theorem identity_map_region_maps_witness:
  "\<exists>s'. paging_identity_map_region 0x400000 0x3000 3 paging_demo = Some s' \<and> paging_ok s' \<and>
     (out_of_pages s' \<or> paging_get_physical 0x401234 s' = 0x401234)"
proof -
  have f: "3 AND PAGE_PRESENT \<noteq> 0" "3 AND ADDR_MASK = 0" by code_simp+
  have b: "unat (0x400000 :: u64) + unat (0x3000 :: u64) \<le> 2 ^ 48 - 4096" by simp
  show ?thesis using identity_map_region_maps [OF paging_demo_ok b f] by auto
qed

end
