(* ===== verification/Heap.thy ===== *)
theory Heap
  imports Pmm
begin

text \<open>
  The kernel heap, \<^verbatim>\<open>src/kernel/heap.cpp\<close>: a first-fit allocator whose block
  headers lie in the memory they describe. The headers are read from and written to byte
  memory, 17 bytes each (the struct is packed); the walks along \<open>next\<close> pointers are partial
  functions, so \<open>None\<close> says that a walk does not end. The lemmas relate a heap to the list
  of its blocks and show that \<open>kmalloc\<close> and \<open>kfree\<close> implement first fit and coalescing on
  that list, that the heap is a block allocator in the sense of theory Allocator, and that
  \<open>krealloc\<close> keeps the data.
\<close>

section \<open>Blocks in memory\<close>

record heap_block =
  hsize :: u64
  is_free :: bool
  hnext :: u64

abbreviation HDR :: u64 where
  "HDR \<equiv> 17"

definition get_block :: "mem \<Rightarrow> u64 \<Rightarrow> heap_block" where
  "get_block m b = \<lparr>hsize = read64 m b, is_free = (m (b + 8) \<noteq> 0), hnext = read64 m (b + 9)\<rparr>"

definition block_bytes :: "heap_block \<Rightarrow> u8 list" where
  "block_bytes h = bytes_of_word 8 (hsize h) @ [if is_free h then 1 else 0] @ bytes_of_word 8 (hnext h)"

definition put_block :: "u64 \<Rightarrow> heap_block \<Rightarrow> mem \<Rightarrow> mem" where
  "put_block b h m = write_bytes m b (block_bytes h)"

record heap =
  heap_start :: u64
  heap_size :: u64
  hmem :: mem

definition INITIAL_HEAP_PAGES :: u64 where
  "INITIAL_HEAP_PAGES = 4096"

section \<open>Initialisation\<close>

function heap_fallback :: "u64 \<Rightarrow> pmm \<Rightarrow> u64 \<times> u64 \<times> pmm" where
  "heap_fallback n p =
     (if n \<ge> 16 then
        (case pmm_alloc_contiguous n p of (base, p') \<Rightarrow>
           if base \<noteq> 0 then (base, n * PAGE_SIZE, p') else heap_fallback (n div 2) p')
      else (0, 0, p))"
  by pat_completeness auto
termination
  by (relation "measure (\<lambda>(n, p). unat n)") (auto simp: unat_div word_le_nat_alt)

declare heap_fallback.simps [simp del]

definition heap_init :: "pmm \<Rightarrow> heap \<Rightarrow> pmm \<times> heap" where
  "heap_init p s =
     (case pmm_alloc_contiguous INITIAL_HEAP_PAGES p of (base, p1) \<Rightarrow>
        (case (if base = 0 then heap_fallback (INITIAL_HEAP_PAGES div 2) p1
               else (base, INITIAL_HEAP_PAGES * PAGE_SIZE, p1)) of (base2, sz, p2) \<Rightarrow>
           if base2 = 0 then (p2, s)
           else (p2, s\<lparr>heap_start := base2, heap_size := sz,
                       hmem := put_block base2 \<lparr>hsize = sz - HDR, is_free = True, hnext = 0\<rparr> (hmem s)\<rparr>)))"

section \<open>Allocation and release\<close>

partial_function (option) first_fit :: "mem \<Rightarrow> u64 \<Rightarrow> u64 \<Rightarrow> u64 option" where
  "first_fit m sz c =
     (if c = 0 then Some 0
      else if is_free (get_block m c) \<and> hsize (get_block m c) \<ge> sz then Some c
      else first_fit m sz (hnext (get_block m c)))"

definition take_block :: "u64 \<Rightarrow> u64 \<Rightarrow> mem \<Rightarrow> mem" where
  "take_block sz c m =
     (let h = get_block m c in
      if hsize h \<ge> sz + HDR + 8 then
        (let nb = c + HDR + sz;
             m1 = put_block nb \<lparr>hsize = hsize h - sz - HDR, is_free = True, hnext = hnext h\<rparr> m
         in put_block c \<lparr>hsize = sz, is_free = False, hnext = nb\<rparr> m1)
      else put_block c (h\<lparr>is_free := False\<rparr>) m)"

definition round8 :: "u64 \<Rightarrow> u64" where
  "round8 sz = (sz + 7) AND NOT 7"

definition kmalloc :: "u64 \<Rightarrow> heap \<Rightarrow> (u64 \<times> heap) option" where
  "kmalloc size0 s =
     (if size0 = 0 then Some (0, s)
      else let sz = round8 size0
           in case first_fit (hmem s) sz (heap_start s) of
                None \<Rightarrow> None
              | Some c \<Rightarrow> if c = 0 then Some (0, s)
                          else Some (c + HDR, s\<lparr>hmem := take_block sz c (hmem s)\<rparr>))"

partial_function (option) find_prev :: "mem \<Rightarrow> u64 \<Rightarrow> u64 \<Rightarrow> u64 option" where
  "find_prev m b c =
     (if c = 0 then Some 0
      else if hnext (get_block m c) = b then Some c
      else find_prev m b (hnext (get_block m c)))"

definition merge_next :: "u64 \<Rightarrow> mem \<Rightarrow> mem" where
  "merge_next b m =
     (let h = get_block m b; n = get_block m (hnext h) in
      if hnext h \<noteq> 0 \<and> is_free n
      then put_block b (h\<lparr>hsize := hsize h + HDR + hsize n, hnext := hnext n\<rparr>) m
      else m)"

definition kfree :: "u64 \<Rightarrow> heap \<Rightarrow> heap option" where
  "kfree ptr s =
     (if ptr = 0 then Some s
      else let b = ptr - HDR;
               m1 = put_block b ((get_block (hmem s) b)\<lparr>is_free := True\<rparr>) (hmem s);
               m2 = merge_next b m1
           in case find_prev m2 b (heap_start s) of
                None \<Rightarrow> None
              | Some c \<Rightarrow>
                  if c \<noteq> 0 \<and> is_free (get_block m2 c)
                  then Some (s\<lparr>hmem := put_block c ((get_block m2 c)
                         \<lparr>hsize := hsize (get_block m2 c) + HDR + hsize (get_block m2 b),
                          hnext := hnext (get_block m2 b)\<rparr>) m2\<rparr>)
                  else Some (s\<lparr>hmem := m2\<rparr>))"

text \<open>The copy loop reads the bound from the header of the old block at every turn.\<close>

function copy_loop :: "u64 \<Rightarrow> u64 \<Rightarrow> u64 \<Rightarrow> u64 \<Rightarrow> mem \<Rightarrow> mem" where
  "copy_loop blk src dst i m =
     (if i < hsize (get_block m blk)
      then copy_loop blk src dst (i + 1) (m(dst + i := m (src + i)))
      else m)"
  by pat_completeness auto
termination
proof (relation "measure (\<lambda>(blk, src, dst, i, m). 2 ^ 64 - unat i)", goal_cases)
  case (2 blk src dst i m)
  then show ?case using unat_lt_64 [of i] by (simp add: unat_plus_one)
qed simp

declare copy_loop.simps [simp del]

definition krealloc :: "u64 \<Rightarrow> u64 \<Rightarrow> heap \<Rightarrow> (u64 \<times> heap) option" where
  "krealloc ptr new_size s =
     (if ptr = 0 then kmalloc new_size s
      else if new_size = 0 then map_option (Pair 0) (kfree ptr s)
      else let b = ptr - HDR
           in if hsize (get_block (hmem s) b) \<ge> new_size then Some (ptr, s)
              else case kmalloc new_size s of
                     None \<Rightarrow> None
                   | Some (new_ptr, s1) \<Rightarrow>
                       if new_ptr = 0 then Some (0, s1)
                       else map_option (Pair new_ptr)
                              (kfree ptr (s1\<lparr>hmem := copy_loop b ptr new_ptr 0 (hmem s1)\<rparr>)))"

section \<open>Reading and writing headers\<close>

lemma length_block_bytes [simp]: "length (block_bytes h) = 17"
  by (simp add: block_bytes_def)

lemma word_no_wrap:
  assumes "unat (a :: u64) + k < 2 ^ 64"
  shows "unat (a + of_nat k) = unat a + k"
  using assms by (simp add: unat_word_ariths unat_of_nat)

lemma get_block_bytes:
  "get_block m b =
     (let bs = read_bytes m b 17
      in \<lparr>hsize = word_of_bytes (take 8 bs), is_free = (bs ! 8 \<noteq> 0), hnext = word_of_bytes (drop 9 bs)\<rparr>)"
proof -
  have "read_bytes m b 17 = read_bytes m b 8 @ [m (b + 8)] @ read_bytes m (b + 9) 8"
    using read_bytes_append [of m b 8 9] read_bytes_append [of m "b + 8" 1 8]
    by (simp add: add.assoc)
  then show ?thesis by (simp add: get_block_def read64_def nth_append)
qed

lemma get_put_same [simp]: "get_block (put_block b h m) b = h"
proof -
  have "read_bytes (put_block b h m) b 17 = block_bytes h"
    using read_write_bytes [of "block_bytes h" m b] by (simp add: put_block_def)
  then show ?thesis
    by (simp add: get_block_bytes block_bytes_def nth_append bytes_word_roundtrip)
qed

lemma get_block_cong:
  assumes "\<And>i. i < 17 \<Longrightarrow> m (b + of_nat i) = m' (b + of_nat i)"
  shows "get_block m b = get_block m' b"
  using read_bytes_cong [of 17 m b m'] assms by (simp add: get_block_bytes)

lemma not_in_run_nat:
  assumes "a + n \<le> b \<or> b < a" and "a + n \<le> 2 ^ 64" and "b < 2 ^ 64"
  shows "\<not> in_run (of_nat b) (of_nat a) n"
proof
  assume "in_run (of_nat b :: u64) (of_nat a) n"
  then obtain j where j: "j < n" "(of_nat b :: u64) = of_nat (a + j)"
    by (auto simp: in_run_conv)
  then have "b = a + j"
    using assms by (metis add_less_cancel_left less_le_trans unat_of_nat_64)
  with j(1) assms(1) show False by simp
qed

lemma get_put_other:
  assumes "b + 17 \<le> c \<or> c + 17 \<le> b" and "b + 17 \<le> 2 ^ 64" and "c + 17 \<le> 2 ^ 64"
  shows "get_block (put_block (of_nat b) h m) (of_nat c) = get_block m (of_nat c)"
proof (rule get_block_cong)
  fix i :: nat assume "i < 17"
  then have "\<not> in_run (of_nat (c + i) :: u64) (of_nat b) 17"
    using assms by (intro not_in_run_nat) auto
  then show "put_block (of_nat b) h m (of_nat c + of_nat i) = m (of_nat c + of_nat i)"
    by (simp add: put_block_def write_bytes_outside)
qed

section \<open>The list of blocks\<close>

text \<open>
  A heap is a list of blocks, each its size and whether it is free, laid out one after the
  other from address \<open>a\<close>. \<open>lay m a bs z\<close> says that memory holds these blocks and that the
  last of them points to \<open>z\<close>.
\<close>

type_synonym blocks = "(u64 \<times> bool) list"

definition ntot :: "blocks \<Rightarrow> nat" where
  "ntot bs = (\<Sum>b \<leftarrow> bs. 17 + unat (fst b))"

fun lay :: "mem \<Rightarrow> nat \<Rightarrow> blocks \<Rightarrow> u64 \<Rightarrow> bool" where
  "lay m a [] z = True"
| "lay m a ((n, f) # bs) z =
     (get_block m (of_nat a) =
        \<lparr>hsize = n, is_free = f, hnext = (if bs = [] then z else of_nat (a + 17 + unat n))\<rparr> \<and>
      lay m (a + 17 + unat n) bs z)"

lemma ntot_simps [simp]:
  "ntot [] = 0" "ntot (b # bs) = 17 + unat (fst b) + ntot bs" "ntot (xs @ ys) = ntot xs + ntot ys"
  by (simp_all add: ntot_def)

lemma lay_append:
  "ys \<noteq> [] \<Longrightarrow>
     lay m a (xs @ ys) z \<longleftrightarrow> lay m a xs (of_nat (a + ntot xs)) \<and> lay m (a + ntot xs) ys z"
proof (induction xs arbitrary: a)
  case (Cons x xs)
  then show ?case by (cases x) (auto simp: add.assoc)
qed simp

lemma lay_put_other:
  assumes "b + 17 \<le> a \<or> a + ntot bs \<le> b" and "b + 17 \<le> 2 ^ 64" and "a + ntot bs \<le> 2 ^ 64"
  shows "lay (put_block (of_nat b) h m) a bs z \<longleftrightarrow> lay m a bs z"
  using assms
proof (induction bs arbitrary: a)
  case (Cons x bs)
  obtain n f where x: "x = (n, f)" by force
  have "get_block (put_block (of_nat b) h m) (of_nat a) = get_block m (of_nat a)"
    using Cons.prems x by (intro get_put_other) auto
  moreover have "lay (put_block (of_nat b) h m) (a + 17 + unat n) bs z \<longleftrightarrow> lay m (a + 17 + unat n) bs z"
    using Cons.prems x by (intro Cons.IH) auto
  ultimately show ?case by (simp add: x)
qed simp

fun fits :: "u64 \<Rightarrow> u64 \<times> bool \<Rightarrow> bool" where
  "fits sz (n, f) \<longleftrightarrow> f \<and> sz \<le> n"

lemma first_fit_none:
  assumes "lay m a bs 0" and "0 < a" and "a + ntot bs < 2 ^ 64" and "\<forall>b \<in> set bs. \<not> fits sz b"
  shows "first_fit m sz (if bs = [] then 0 else of_nat a) = Some 0"
  using assms
proof (induction bs arbitrary: a)
  case Nil
  then show ?case by (simp add: first_fit.simps [of m sz 0])
next
  case (Cons x bs)
  obtain n f where x: "x = (n, f)" by force
  have "unat (of_nat a :: u64) = a" using Cons.prems by (intro unat_of_nat_64) simp
  then have "(of_nat a :: u64) \<noteq> 0" using Cons.prems(2) by auto
  then show ?case
    using Cons.prems Cons.IH [of "a + 17 + unat n"] x
    by (simp add: first_fit.simps [of m sz "of_nat a"] split: if_splits)
qed

lemma first_fit_found:
  assumes "lay m a (xs @ (n, True) # ys) 0" and "0 < a" and "a + ntot xs < 2 ^ 64"
    and "\<forall>b \<in> set xs. \<not> fits sz b" and "sz \<le> n"
  shows "first_fit m sz (of_nat a) = Some (of_nat (a + ntot xs))"
  using assms
proof (induction xs arbitrary: a)
  case Nil
  have "unat (of_nat a :: u64) = a" using Nil.prems by (intro unat_of_nat_64) simp
  then have "(of_nat a :: u64) \<noteq> 0" using Nil.prems(2) by auto
  then show ?case using Nil.prems by (simp add: first_fit.simps [of m sz "of_nat a"])
next
  case (Cons x xs)
  obtain k f where x: "x = (k, f)" by force
  have "unat (of_nat a :: u64) = a" using Cons.prems by (intro unat_of_nat_64) simp
  then have "(of_nat a :: u64) \<noteq> 0" using Cons.prems(2) by auto
  then show ?case
    using Cons.prems Cons.IH [of "a + 17 + unat k"] x
    by (auto simp: first_fit.simps [of m sz "of_nat a"] add.assoc)
qed

lemma first_fit_split:
  obtains (none) "\<forall>b \<in> set bs. \<not> fits sz b"
  | (fit) xs n ys where "bs = xs @ (n, True) # ys" "sz \<le> n" "\<forall>b \<in> set xs. \<not> fits sz b"
proof (cases "\<exists>b \<in> set bs. fits sz b")
  case True
  then obtain xs b ys where "bs = xs @ b # ys" "fits sz b" "\<forall>b \<in> set xs. \<not> fits sz b"
    using split_list_first_prop [of bs "fits sz"] by blast
  then show ?thesis by (cases b) (auto intro: fit)
qed (use none in blast)

section \<open>Allocation on the list\<close>

definition cut :: "u64 \<Rightarrow> u64 \<Rightarrow> blocks" where
  "cut sz n = (if unat n \<ge> unat sz + 25 then [(sz, False), (n - sz - 17, True)] else [(n, False)])"

fun abs_malloc :: "u64 \<Rightarrow> blocks \<Rightarrow> blocks option" where
  "abs_malloc sz [] = None"
| "abs_malloc sz ((n, f) # bs) =
     (if f \<and> sz \<le> n then Some (cut sz n @ bs) else map_option (Cons (n, f)) (abs_malloc sz bs))"

lemma abs_malloc_none: "\<forall>b \<in> set bs. \<not> fits sz b \<Longrightarrow> abs_malloc sz bs = None"
  by (induction bs) auto

lemma abs_malloc_fit:
  "\<forall>b \<in> set xs. \<not> fits sz b \<Longrightarrow> sz \<le> n \<Longrightarrow>
     abs_malloc sz (xs @ (n, True) # ys) = Some (xs @ cut sz n @ ys)"
  by (induction xs) auto

lemma cut_rest: "unat sz + 25 \<le> unat n \<Longrightarrow> unat (n - sz - 17 :: u64) = unat n - unat sz - 17"
  by (simp add: unat_sub_if_size word_size unat_word_ariths)

lemma ntot_cut [simp]: "ntot (cut sz n) = 17 + unat n"
  by (simp add: cut_def cut_rest)

lemma cut_not_Nil [simp]: "cut sz n \<noteq> []"
  by (simp add: cut_def)

lemma take_block_lay:
  assumes L: "lay m a (xs @ (n, True) # ys) z"
    and fit: "sz \<le> n" and bound: "a + ntot (xs @ (n, True) # ys) < 2 ^ 63"
  shows "lay (take_block sz (of_nat (a + ntot xs)) m) a (xs @ cut sz n @ ys) z"
proof -
  define c where "c = a + ntot xs"
  define nx :: u64 where "nx = (if ys = [] then z else of_nat (c + 17 + unat n))"
  have b: "c + 17 + unat n + ntot ys < 2 ^ 63" using bound by (simp add: c_def)
  have Lx: "lay m a xs (of_nat c)" and h: "get_block m (of_nat c) = \<lparr>hsize = n, is_free = True, hnext = nx\<rparr>"
    and Ly: "lay m (c + 17 + unat n) ys z"
    using L by (simp_all add: lay_append c_def nx_def)
  have le: "unat sz \<le> unat n" using fit by (simp add: word_le_nat_alt)
  have "unat (sz + HDR + 8) = unat sz + 25" using b le by (simp add: unat_word_ariths)
  then have test: "sz + HDR + 8 \<le> n \<longleftrightarrow> unat sz + 25 \<le> unat n" by (simp only: word_le_nat_alt)
  have "lay (take_block sz (of_nat c) m) a (xs @ cut sz n @ ys) z"
  proof (cases "unat sz + 25 \<le> unat n")
    case False
    then have "take_block sz (of_nat c) m = put_block (of_nat c) \<lparr>hsize = n, is_free = False, hnext = nx\<rparr> m"
      by (simp only: take_block_def h test Let_def heap_block.simps if_False)
    then show ?thesis
      using False Lx Ly b by (simp add: cut_def lay_append lay_put_other c_def [symmetric] nx_def)
  next
    case True
    define nb where "nb = c + 17 + unat sz"
    have nb_le: "c \<le> nb" "nb + 17 \<le> 2 ^ 64" "nb + 17 \<le> c + 17 + unat n" using b True by (simp_all add: nb_def)
    have nb: "of_nat c + HDR + sz = of_nat nb" by (simp add: nb_def)
    have rest: "nb + 17 + unat (n - sz - 17) = c + 17 + unat n"
      using True by (simp add: cut_rest nb_def)
    define m1 where "m1 = put_block (of_nat nb) \<lparr>hsize = n - sz - HDR, is_free = True, hnext = nx\<rparr> m"
    have t: "take_block sz (of_nat c) m =
        put_block (of_nat c) \<lparr>hsize = sz, is_free = False, hnext = of_nat nb\<rparr> m1"
      using True by (simp only: take_block_def h test Let_def heap_block.simps nb m1_def if_True)
    have g: "get_block (take_block sz (of_nat c) m) (of_nat nb) =
        \<lparr>hsize = n - sz - 17, is_free = True, hnext = nx\<rparr>"
      unfolding t using b True by (subst get_put_other) (simp_all add: nb_def m1_def)
    have x: "lay (take_block sz (of_nat c) m) a xs (of_nat c)"
      unfolding t m1_def using b nb_le Lx by (simp add: lay_put_other c_def [symmetric])
    have y: "lay (take_block sz (of_nat c) m) (c + 17 + unat n) ys z"
      unfolding t m1_def using b nb_le Ly by (simp add: lay_put_other)
    have "lay (take_block sz (of_nat c) m) nb ((n - sz - 17, True) # ys) z"
      unfolding lay.simps rest using g y by (simp add: nx_def)
    then have "lay (take_block sz (of_nat c) m) c ((sz, False) # (n - sz - 17, True) # ys) z"
      by (simp only: lay.simps nb_def [symmetric]) (simp add: t)
    then show ?thesis
      using True x by (simp add: cut_def lay_append c_def [symmetric])
  qed
  then show ?thesis by (simp add: c_def)
qed

section \<open>Release on the list\<close>

definition join_next :: "u64 \<Rightarrow> blocks \<Rightarrow> blocks" where
  "join_next n ys = (case ys of (k, True) # zs \<Rightarrow> (n + 17 + k, True) # zs | _ \<Rightarrow> (n, True) # ys)"

definition join_prev :: "blocks \<Rightarrow> blocks \<Rightarrow> blocks" where
  "join_prev xs zs =
     (if xs \<noteq> [] \<and> snd (last xs)
      then butlast xs @ (fst (last xs) + 17 + fst (hd zs), True) # tl zs
      else xs @ zs)"

definition abs_free :: "blocks \<Rightarrow> u64 \<Rightarrow> blocks \<Rightarrow> blocks" where
  "abs_free xs n ys = join_prev xs (join_next n ys)"

lemma lay_replace:
  assumes L: "lay m a (xs @ mid @ ys) z" and "mid \<noteq> []" and size: "ntot mid = 17 + unat n"
    and bound: "a + ntot (xs @ mid @ ys) < 2 ^ 63"
    and nx: "nx = (if ys = [] then z else of_nat (a + ntot xs + ntot mid))"
  shows "lay (put_block (of_nat (a + ntot xs)) \<lparr>hsize = n, is_free = f, hnext = nx\<rparr> m) a
           (xs @ (n, f) # ys) z"
proof -
  define c where "c = a + ntot xs"
  have b: "c + ntot mid + ntot ys < 2 ^ 63" using bound by (simp add: c_def)
  have Lx: "lay m a xs (of_nat c)" and Lm: "lay m c (mid @ ys) z"
    using L \<open>mid \<noteq> []\<close> by (simp_all add: lay_append c_def)
  have Ly: "lay m (c + ntot mid) ys z" using Lm by (cases "ys = []") (simp_all add: lay_append)
  let ?m = "put_block (of_nat c) \<lparr>hsize = n, is_free = f, hnext = nx\<rparr> m"
  have "lay ?m a xs (of_nat c)" using Lx b size by (simp add: lay_put_other c_def [symmetric])
  moreover have "lay ?m (c + ntot mid) ys z" using Ly b size by (simp add: lay_put_other)
  ultimately have "lay ?m a (xs @ (n, f) # ys) z"
    using size by (simp add: lay_append c_def [symmetric] nx add.assoc)
  then show ?thesis by (simp add: c_def)
qed

lemma lay_get:
  assumes "lay m a (xs @ (n, f) # ys) z"
  shows "get_block m (of_nat (a + ntot xs)) =
    \<lparr>hsize = n, is_free = f, hnext = (if ys = [] then z else of_nat (a + ntot xs + 17 + unat n))\<rparr>"
  using assms by (simp add: lay_append)

lemma unat_join:
  assumes "unat (n :: u64) + 17 + unat k < 2 ^ 64"
  shows "unat (n + 17 + k) = unat n + 17 + unat k"
  using assms by (simp add: unat_word_ariths)

lemma join_next_hd: "\<exists>k zs. join_next n ys = (k, True) # zs"
  by (auto simp: join_next_def split: list.splits prod.splits bool.splits)

lemma ntot_join_next:
  assumes "unat n + 17 + ntot ys < 2 ^ 64"
  shows "ntot (join_next n ys) = 17 + unat n + ntot ys"
proof -
  have "unat (n + 17 + fst y) = unat n + 17 + unat (fst y)" if "ys = y # zs" for y zs
    using assms that by (intro unat_join) simp
  then show ?thesis by (auto simp: join_next_def split: list.splits prod.splits bool.splits)
qed

lemma merge_next_lay:
  assumes L: "lay m a (xs @ (n, True) # ys) 0" and bound: "a + ntot (xs @ (n, True) # ys) < 2 ^ 63"
    and "0 < a"
  shows "lay (merge_next (of_nat (a + ntot xs)) m) a (xs @ join_next n ys) 0"
proof (cases ys)
  case Nil
  then show ?thesis
    using L lay_get [OF L] by (simp add: merge_next_def join_next_def)
next
  case (Cons y zs)
  obtain k g where y: "y = (k, g)" by force
  define c where "c = a + ntot xs"
  have h: "get_block m (of_nat c) = \<lparr>hsize = n, is_free = True, hnext = of_nat (c + 17 + unat n)\<rparr>"
    using lay_get [OF L] by (simp add: Cons c_def)
  have L': "lay m a ((xs @ [(n, True)]) @ (k, g) # zs) 0" using L by (simp add: Cons y)
  have h': "get_block m (of_nat (c + 17 + unat n)) =
      \<lparr>hsize = k, is_free = g, hnext = (if zs = [] then 0 else of_nat (c + 17 + unat n + 17 + unat k))\<rparr>"
    using lay_get [OF L'] by (simp add: c_def add.assoc)
  have "unat (of_nat (c + 17 + unat n) :: u64) = c + 17 + unat n"
    using bound by (intro unat_of_nat_64) (simp add: c_def)
  then have nz: "(of_nat (c + 17 + unat n) :: u64) \<noteq> 0" using \<open>0 < a\<close> by (auto simp: c_def)
  show ?thesis
  proof (cases g)
    case False
    then show ?thesis using L h h' by (simp add: merge_next_def join_next_def Cons y c_def)
  next
    case True
    have sz: "ntot [(n, True), (k, True)] = 17 + unat (n + 17 + k)"
      using bound by (subst unat_join) (simp_all add: Cons y)
    have "merge_next (of_nat c) m = put_block (of_nat c)
      \<lparr>hsize = n + 17 + k, is_free = True,
        hnext = (if zs = [] then 0 else of_nat (c + ntot [(n, True), (k, True)]))\<rparr> m"
      using nz True by (simp only: merge_next_def h h' Let_def heap_block.simps) (simp add: add.assoc)
    moreover have "lay (put_block (of_nat (a + ntot xs)) \<lparr>hsize = n + 17 + k, is_free = True,
        hnext = (if zs = [] then 0 else of_nat (a + ntot xs + ntot [(n, True), (k, True)]))\<rparr> m)
        a (xs @ (n + 17 + k, True) # zs) 0"
      by (rule lay_replace [where mid = "[(n, True), (k, True)]"])
        (use L bound True sz in \<open>simp_all add: Cons y\<close>)
    ultimately show ?thesis
      using True by (simp only: c_def Cons y join_next_def list.case prod.case bool.case)
  qed
qed

lemma find_prev_none:
  assumes "lay m a bs 0" and "0 < b" and "b \<le> a" and "a + ntot bs < 2 ^ 64"
  shows "find_prev m (of_nat b) (if bs = [] then 0 else of_nat a) = Some 0"
  using assms
proof (induction bs arbitrary: a)
  case Nil
  then show ?case by (simp add: find_prev.simps [of m _ 0])
next
  case (Cons x bs)
  obtain n f where x: "x = (n, f)" by force
  have u: "unat (of_nat a :: u64) = a" "unat (of_nat b :: u64) = b"
      "unat (of_nat (a + 17 + unat n) :: u64) = a + 17 + unat n"
    using Cons.prems x by (intro unat_of_nat_64; simp)+
  then have "(of_nat a :: u64) \<noteq> 0" "of_nat b \<noteq> (0 :: u64)"
      "of_nat (a + 17 + unat n) \<noteq> (of_nat b :: u64)"
    using Cons.prems(2,3) by (auto simp: word_unat_eq_iff simp del: of_nat_add)
  moreover have "get_block m (of_nat a) =
      \<lparr>hsize = n, is_free = f, hnext = (if bs = [] then 0 else of_nat (a + 17 + unat n))\<rparr>"
    using Cons.prems x by simp
  moreover have "find_prev m (of_nat b) (if bs = [] then 0 else of_nat (a + 17 + unat n)) = Some 0"
    using Cons.prems x by (intro Cons.IH) auto
  ultimately show ?case
    by (simp add: find_prev.simps [of m "of_nat b" "of_nat a"] del: of_nat_add split: if_splits)
qed

lemma find_prev_found:
  assumes "lay m a (xs @ (p, g) # zs) 0" and "zs \<noteq> []" and "0 < a" and "a + ntot (xs @ (p, g) # zs) < 2 ^ 64"
  shows "find_prev m (of_nat (a + ntot xs + 17 + unat p)) (of_nat a) = Some (of_nat (a + ntot xs))"
  using assms
proof (induction xs arbitrary: a)
  case Nil
  have "unat (of_nat a :: u64) = a" using Nil.prems by (intro unat_of_nat_64) simp
  then have "(of_nat a :: u64) \<noteq> 0" using Nil.prems(3) by auto
  then show ?case using Nil.prems by (subst find_prev.simps) simp
next
  case (Cons x xs)
  obtain k f where x: "x = (k, f)" by force
  define t where "t = a + ntot (x # xs) + 17 + unat p"
  have u: "unat (of_nat a :: u64) = a" "unat (of_nat t :: u64) = t"
      "unat (of_nat (a + 17 + unat k) :: u64) = a + 17 + unat k"
    using Cons.prems x by (intro unat_of_nat_64; simp add: t_def)+
  then have "(of_nat a :: u64) \<noteq> 0" "of_nat (a + 17 + unat k) \<noteq> (of_nat t :: u64)"
    using Cons.prems(3) x by (auto simp: word_unat_eq_iff t_def simp del: of_nat_add)
  moreover have "get_block m (of_nat a) = \<lparr>hsize = k, is_free = f, hnext = of_nat (a + 17 + unat k)\<rparr>"
    using Cons.prems x by simp
  moreover have "find_prev m (of_nat t) (of_nat (a + 17 + unat k)) = Some (of_nat (a + ntot (x # xs)))"
    using Cons.prems x Cons.IH [of "a + 17 + unat k"]
    by (simp add: t_def add.assoc del: of_nat_add)
  ultimately have "find_prev m (of_nat t) (of_nat a) = Some (of_nat (a + ntot (x # xs)))"
    by (subst find_prev.simps) (simp del: of_nat_add)
  then show ?case by (simp add: t_def del: of_nat_add)
qed

section \<open>What the operations leave alone\<close>

lemma put_block_outside:
  assumes "unat x < b \<or> b + 17 \<le> unat x" and "b + 17 \<le> 2 ^ 64"
  shows "put_block (of_nat b) h m x = m x"
proof -
  have "\<not> in_run (of_nat (unat x) :: u64) (of_nat b) 17"
    using assms unat_lt_64 [of x] by (intro not_in_run_nat) auto
  then show ?thesis by (simp add: put_block_def write_bytes_outside)
qed

text \<open>The bytes that belong to the payload of some block.\<close>

fun pays :: "nat \<Rightarrow> blocks \<Rightarrow> nat set" where
  "pays a [] = {}"
| "pays a ((n, f) # bs) = {a + 17..<a + 17 + unat n} \<union> pays (a + 17 + unat n) bs"

lemma pays_bounds: "y \<in> pays a bs \<Longrightarrow> a + 17 \<le> y \<and> y < a + ntot bs"
  by (induction a bs rule: pays.induct) force+

lemma pays_append: "pays a (xs @ ys) = pays a xs \<union> pays (a + ntot xs) ys"
  by (induction a xs rule: pays.induct) (auto simp: add.assoc)

lemma pays_not_header:
  assumes "y \<in> pays a (xs @ (n, f) # ys)"
  shows "y < a + ntot xs \<or> a + ntot xs + 17 \<le> y"
  using assms pays_bounds [of y a xs] pays_bounds [of y "a + ntot xs + 17 + unat n" ys]
  by (auto simp: pays_append)

lemma put_header_frame:
  assumes "unat x \<in> pays a (xs @ (n, f) # ys)" and "a + ntot (xs @ (n, f) # ys) < 2 ^ 63"
  shows "put_block (of_nat (a + ntot xs)) h m x = m x"
  using pays_not_header [OF assms(1)] assms(2) by (intro put_block_outside) auto

lemma take_block_frame:
  assumes "get_block m (of_nat c) = \<lparr>hsize = n, is_free = True, hnext = nx\<rparr>"
    and "sz \<le> n" and "c + 17 + unat n < 2 ^ 63"
    and "unat x < c \<or> c + 17 + unat n \<le> unat x"
  shows "take_block sz (of_nat c) m x = m x"
proof -
  have le: "unat sz \<le> unat n" using assms(2) by (simp add: word_le_nat_alt)
  have "unat (sz + HDR + 8) = unat sz + 25" using assms(3) le by (simp add: unat_word_ariths)
  then have test: "sz + HDR + 8 \<le> n \<longleftrightarrow> unat sz + 25 \<le> unat n" by (simp only: word_le_nat_alt)
  have nb: "of_nat c + HDR + sz = of_nat (c + 17 + unat sz)" by simp
  have c: "put_block (of_nat c) h m' x = m' x" for h m'
    using assms(3,4) by (intro put_block_outside) auto
  have "put_block (of_nat (c + 17 + unat sz)) h m' x = m' x" if "unat sz + 25 \<le> unat n" for h m'
    using assms(3,4) that by (intro put_block_outside) auto
  then show ?thesis by (simp only: take_block_def Let_def assms(1) heap_block.simps test nb c split: if_split) blast
qed

section \<open>The heap as its list of blocks\<close>

definition coalesced :: "blocks \<Rightarrow> bool" where
  "coalesced bs = successively (\<lambda>x y. \<not> (snd x \<and> snd y)) bs"

definition heap_ok :: "heap \<Rightarrow> blocks \<Rightarrow> bool" where
  "heap_ok s bs \<longleftrightarrow> bs \<noteq> [] \<and> 0 < unat (heap_start s) \<and> unat (heap_start s) + ntot bs < 2 ^ 63 \<and>
     lay (hmem s) (unat (heap_start s)) bs 0 \<and> coalesced bs"

definition heap_inv :: "heap \<Rightarrow> bool" where
  "heap_inv s \<longleftrightarrow> (\<exists>bs. heap_ok s bs)"

lemma coalesced_cut: "coalesced (xs @ (n, True) # ys) \<Longrightarrow> coalesced (xs @ cut sz n @ ys)"
  by (auto simp: coalesced_def cut_def successively_append_iff successively_Cons)

lemma coalesced_join_next:
  "coalesced (xs @ (n, f) # ys) \<Longrightarrow> coalesced (join_next n ys) \<and> coalesced xs"
  by (cases ys)
    (auto simp: coalesced_def join_next_def successively_append_iff successively_Cons
      split: prod.splits bool.splits)

lemma coalesced_abs_free:
  assumes "coalesced (xs @ (n, f) # ys)"
  shows "coalesced (abs_free xs n ys)"
proof -
  obtain k zs where j: "join_next n ys = (k, True) # zs" using join_next_hd by blast
  have c: "coalesced ((k, True) # zs)" "coalesced xs"
    using coalesced_join_next [OF assms] by (simp_all add: j)
  show ?thesis
  proof (cases "xs \<noteq> [] \<and> snd (last xs)")
    case True
    then obtain p xs' where xs: "xs = xs' @ [(p, True)]" by (cases xs rule: rev_cases) auto
    then show ?thesis
      using c by (auto simp: abs_free_def join_prev_def j coalesced_def successively_append_iff
          successively_Cons)
  next
    case False
    then have "abs_free xs n ys = xs @ (k, True) # zs" by (auto simp: abs_free_def join_prev_def j)
    then show ?thesis
      using c False by (auto simp: coalesced_def successively_append_iff)
  qed
qed

lemma ntot_abs_free:
  assumes "ntot (xs @ (n, f) # ys) < 2 ^ 63"
  shows "ntot (abs_free xs n ys) = ntot (xs @ (n, f) # ys)"
proof -
  obtain k zs where j: "join_next n ys = (k, True) # zs" using join_next_hd by blast
  have t: "17 + unat k + ntot zs = 17 + unat n + ntot ys"
    using ntot_join_next [of n ys] assms by (simp add: j)
  show ?thesis
  proof (cases "xs \<noteq> [] \<and> snd (last xs)")
    case True
    then obtain p xs' where xs: "xs = xs' @ [(p, True)]" by (cases xs rule: rev_cases) auto
    have "unat (p + 17 + k) = unat p + 17 + unat k"
      using assms t by (intro unat_join) (simp add: xs)
    then show ?thesis using t by (simp add: abs_free_def join_prev_def j xs)
  next
    case False
    then have "abs_free xs n ys = xs @ (k, True) # zs" by (auto simp: abs_free_def join_prev_def j)
    then show ?thesis using t by simp
  qed
qed

section \<open>Release refines the list operation\<close>

lemma kfree_lay:
  assumes L: "lay (hmem s) a (xs @ (n, f) # ys) 0" and a: "a = unat (heap_start s)" "0 < a"
    and bound: "a + ntot (xs @ (n, f) # ys) < 2 ^ 63"
  shows "\<exists>m'. kfree (of_nat (a + ntot xs + 17)) s = Some (s\<lparr>hmem := m'\<rparr>) \<and>
      lay m' a (abs_free xs n ys) 0 \<and>
      (\<forall>x. unat x \<in> pays a (xs @ (n, f) # ys) \<longrightarrow> m' x = hmem s x)"
proof -
  define c where "c = a + ntot xs"
  have start: "heap_start s = of_nat a" using a by simp
  have b: "c + 17 + unat n + ntot ys < 2 ^ 63" using bound by (simp add: c_def)
  have "unat (of_nat (c + 17) :: u64) = c + 17" using b by (intro unat_of_nat_64) simp
  then have nz: "(of_nat (c + 17) :: u64) \<noteq> 0" by auto
  have ptr: "of_nat (c + 17) - HDR = of_nat c" by simp
  define m1 where "m1 = put_block (of_nat c) ((get_block (hmem s) (of_nat c))\<lparr>is_free := True\<rparr>) (hmem s)"
  define m2 where "m2 = merge_next (of_nat c) m1"
  have "lay (put_block (of_nat (a + ntot xs)) \<lparr>hsize = n, is_free = True,
      hnext = (if ys = [] then 0 else of_nat (a + ntot xs + ntot [(n, f)]))\<rparr> (hmem s))
      a (xs @ (n, True) # ys) 0"
    by (rule lay_replace [where mid = "[(n, f)]"]) (use L bound in simp_all)
  moreover have "(get_block (hmem s) (of_nat c))\<lparr>is_free := True\<rparr> = \<lparr>hsize = n, is_free = True,
      hnext = (if ys = [] then 0 else of_nat (a + ntot xs + ntot [(n, f)]))\<rparr>"
    using lay_get [OF L] by (simp only: c_def heap_block.simps) (simp add: add.assoc)
  ultimately have L1: "lay m1 a (xs @ (n, True) # ys) 0" by (simp only: m1_def c_def)
  have L2: "lay m2 a (xs @ join_next n ys) 0"
    unfolding m2_def c_def by (rule merge_next_lay [OF L1]) (use bound a in simp_all)
  have nt: "ntot (join_next n ys) = 17 + unat n + ntot ys" using bound by (intro ntot_join_next) simp
  obtain k zs where j: "join_next n ys = (k, True) # zs" using join_next_hd by blast
  have fr: "m2 x = hmem s x" if "unat x \<in> pays a (xs @ (n, f) # ys)" for x
    using put_header_frame [OF that bound] by (simp add: m2_def m1_def merge_next_def Let_def c_def)
  have un: "kfree (of_nat (c + 17)) s =
      (case find_prev m2 (of_nat c) (of_nat a) of
                None \<Rightarrow> None
              | Some p \<Rightarrow>
                  if p \<noteq> 0 \<and> is_free (get_block m2 p)
                  then Some (s\<lparr>hmem := put_block p ((get_block m2 p)
                         \<lparr>hsize := hsize (get_block m2 p) + HDR + hsize (get_block m2 (of_nat c)),
                          hnext := hnext (get_block m2 (of_nat c))\<rparr>) m2\<rparr>)
                  else Some (s\<lparr>hmem := m2\<rparr>))"
    using nz by (simp only: kfree_def ptr Let_def m1_def m2_def start if_False)
  show ?thesis
  proof (cases xs rule: rev_cases)
    case Nil
    then have "find_prev m2 (of_nat c) (of_nat a) = Some 0"
      using find_prev_none [OF L2, of c] a b nt by (simp add: c_def j)
    then have "kfree (of_nat (c + 17)) s = Some (s\<lparr>hmem := m2\<rparr>)" by (simp only: un) simp
    moreover have "abs_free xs n ys = join_next n ys" by (simp add: abs_free_def join_prev_def Nil)
    ultimately show ?thesis using L2 fr by (auto simp: Nil c_def)
  next
    case (snoc xs' p)
    obtain q g where p: "p = (q, g)" by force
    define d where "d = a + ntot xs'"
    have cd: "c = d + 17 + unat q" by (simp add: c_def d_def snoc p)
    have L2': "lay m2 a (xs' @ (q, g) # (k, True) # zs) 0" using L2 by (simp add: snoc p j)
    have fp: "find_prev m2 (of_nat c) (of_nat a) = Some (of_nat d)"
      unfolding cd d_def
      by (rule find_prev_found [OF L2']) (use a b nt in \<open>simp_all add: j c_def snoc p\<close>)
    have "unat (of_nat d :: u64) = d" using b by (intro unat_of_nat_64) (simp add: cd)
    then have dnz: "(of_nat d :: u64) \<noteq> 0" using a by (auto simp: d_def)
    have gd: "get_block m2 (of_nat d) = \<lparr>hsize = q, is_free = g, hnext = of_nat c\<rparr>"
      using lay_get [OF L2'] by (simp add: d_def cd)
    have "lay m2 a ((xs' @ [(q, g)]) @ (k, True) # zs) 0" using L2' by simp
    from lay_get [OF this]
    have gc: "get_block m2 (of_nat c) =
        \<lparr>hsize = k, is_free = True, hnext = (if zs = [] then 0 else of_nat (c + 17 + unat k))\<rparr>"
      by (simp add: d_def cd add.assoc)
    show ?thesis
    proof (cases g)
      case False
      then have "kfree (of_nat (c + 17)) s = Some (s\<lparr>hmem := m2\<rparr>)"
        by (simp only: un fp option.case gd heap_block.simps) simp
      moreover have "abs_free xs n ys = xs @ join_next n ys"
        using False by (simp add: abs_free_def join_prev_def snoc p)
      ultimately show ?thesis using L2 fr by (auto simp: c_def)
    next
      case True
      define nx :: u64 where "nx = (if zs = [] then 0 else of_nat (a + ntot xs' + ntot [(q, True), (k, True)]))"
      define m3 where "m3 = put_block (of_nat d) \<lparr>hsize = q + 17 + k, is_free = True, hnext = nx\<rparr> m2"
      have "(get_block m2 (of_nat d))\<lparr>hsize := q + HDR + k,
          hnext := (if zs = [] then 0 else of_nat (c + 17 + unat k))\<rparr> =
          \<lparr>hsize = q + 17 + k, is_free = True, hnext = nx\<rparr>"
        by (simp only: gd heap_block.simps True nx_def) (simp add: cd d_def add.assoc)
      then have "kfree (of_nat (c + 17)) s = Some (s\<lparr>hmem := m3\<rparr>)"
        using dnz True by (simp only: un fp option.case gc gd heap_block.simps m3_def) simp
      moreover have "lay m3 a (xs' @ (q + 17 + k, True) # zs) 0"
        unfolding m3_def d_def nx_def
      proof (rule lay_replace [where mid = "[(q, True), (k, True)]"])
        show "ntot [(q, True), (k, True)] = 17 + unat (q + 17 + k)"
          using b nt by (subst unat_join) (simp_all add: j cd)
      qed (use L2' True b nt in \<open>simp_all add: j cd d_def\<close>)
      moreover have "abs_free xs n ys = xs' @ (q + 17 + k, True) # zs"
        using True by (simp add: abs_free_def join_prev_def snoc p j)
      moreover have "m3 x = hmem s x" if "unat x \<in> pays a (xs @ (n, f) # ys)" for x
        using put_header_frame [of x a xs' q g "(n, f) # ys"] that bound fr [OF that]
        by (simp add: m3_def d_def snoc p)
      ultimately show ?thesis by (auto simp: c_def)
    qed
  qed
qed

lemma kfree_ok:
  assumes "heap_ok s (xs @ (n, f) # ys)"
  shows "\<exists>m'. kfree (heap_start s + of_nat (ntot xs) + HDR) s = Some (s\<lparr>hmem := m'\<rparr>) \<and>
      heap_ok (s\<lparr>hmem := m'\<rparr>) (abs_free xs n ys) \<and>
      (\<forall>x. unat x \<in> pays (unat (heap_start s)) (xs @ (n, f) # ys) \<longrightarrow> m' x = hmem s x)"
proof -
  have "abs_free xs n ys \<noteq> []"
    using join_next_hd [of n ys] by (auto simp: abs_free_def join_prev_def)
  then show ?thesis
    using kfree_lay [of s "unat (heap_start s)" xs n f ys] assms coalesced_abs_free [of xs n f ys]
      ntot_abs_free [of xs n f ys]
    by (auto simp: heap_ok_def add.assoc)
qed

section \<open>Allocation refines the list operation\<close>

lemma kmalloc_ok_none:
  assumes "heap_ok s bs" and "\<forall>b \<in> set bs. \<not> fits (round8 r) b"
  shows "kmalloc r s = Some (0, s)"
proof -
  have "first_fit (hmem s) (round8 r) (heap_start s) = Some 0"
    using first_fit_none [of "hmem s" "unat (heap_start s)" bs "round8 r"] assms
    by (simp add: heap_ok_def)
  then show ?thesis by (simp add: kmalloc_def)
qed

lemma kmalloc_ok_fit:
  assumes ok: "heap_ok s (xs @ (n, True) # ys)" and "r \<noteq> 0"
    and fit: "\<forall>b \<in> set xs. \<not> fits (round8 r) b" "round8 r \<le> n"
  defines "c \<equiv> unat (heap_start s) + ntot xs"
  shows "\<exists>m'. kmalloc r s = Some (of_nat (c + 17), s\<lparr>hmem := m'\<rparr>) \<and>
      heap_ok (s\<lparr>hmem := m'\<rparr>) (xs @ cut (round8 r) n @ ys) \<and>
      (\<forall>x. unat x < c \<or> c + 17 + unat n \<le> unat x \<longrightarrow> m' x = hmem s x)"
proof -
  let ?a = "unat (heap_start s)" and ?m = "take_block (round8 r) (of_nat c) (hmem s)"
  have L: "lay (hmem s) ?a (xs @ (n, True) # ys) 0" and a: "0 < ?a"
    and b: "?a + ntot (xs @ (n, True) # ys) < 2 ^ 63" and co: "coalesced (xs @ (n, True) # ys)"
    using ok by (simp_all add: heap_ok_def)
  have f: "first_fit (hmem s) (round8 r) (heap_start s) = Some (of_nat c)"
    using first_fit_found [OF L a _ fit] b by (simp add: c_def)
  have "unat (of_nat c :: u64) = c" using b by (intro unat_of_nat_64) (simp add: c_def)
  then have "(of_nat c :: u64) \<noteq> 0" using a by (auto simp: c_def)
  then have k: "kmalloc r s = Some (of_nat (c + 17), s\<lparr>hmem := ?m\<rparr>)"
    using \<open>r \<noteq> 0\<close> by (simp only: kmalloc_def f Let_def option.case if_False) simp
  have "lay ?m ?a (xs @ cut (round8 r) n @ ys) 0"
    unfolding c_def by (rule take_block_lay [OF L fit(2) b])
  then have "heap_ok (s\<lparr>hmem := ?m\<rparr>) (xs @ cut (round8 r) n @ ys)"
    using a b coalesced_cut [OF co] by (simp add: heap_ok_def)
  moreover have "?m x = hmem s x" if "unat x < c \<or> c + 17 + unat n \<le> unat x" for x
    using take_block_frame [OF lay_get [OF L] fit(2), folded c_def] that b by (simp add: c_def)
  ultimately show ?thesis using k by blast
qed

lemma and_not_7: "(x :: u64) AND NOT 7 = of_nat (unat x div 8 * 8)"
proof -
  have 7: "(7 :: u64) = mask 3" by (simp add: mask_eq_exp_minus_1)
  have "x AND NOT 7 = push_bit 3 (drop_bit 3 x)"
    unfolding 7 by (rule bit_word_eqI) (auto simp: bit_simps)
  also have "\<dots> = of_nat (unat (x div 8)) * 8"
    by (simp add: push_bit_eq_mult drop_bit_eq_div)
  finally show ?thesis by (simp only: unat_div) simp
qed

lemma round8_ge:
  assumes "unat r \<le> 2 ^ 64 - 8"
  shows "unat r \<le> unat (round8 r)"
proof -
  have u: "unat (r + 7) = unat r + 7" using assms by (simp add: unat_word_ariths)
  have "(unat r + 7) div 8 * 8 < 2 ^ 64" using assms by simp
  then have "unat (round8 r) = (unat r + 7) div 8 * 8"
    unfolding round8_def and_not_7 u by (rule unat_of_nat_64)
  then show ?thesis by simp
qed

section \<open>The heap is a block allocator\<close>

fun allocs :: "nat \<Rightarrow> blocks \<Rightarrow> (u64 \<times> u64) list" where
  "allocs a [] = []"
| "allocs a ((n, f) # bs) =
     (if f then [] else [(of_nat (a + 17), n)]) @ allocs (a + 17 + unat n) bs"

definition live_blocks :: "heap \<Rightarrow> u64 set" where
  "live_blocks s = {p. \<exists>bs n. heap_ok s bs \<and> (p, n) \<in> set (allocs (unat (heap_start s)) bs)}"

definition block_extent :: "heap \<Rightarrow> u64 \<Rightarrow> nat set" where
  "block_extent s p =
     {x. \<exists>bs n. heap_ok s bs \<and> (p, n) \<in> set (allocs (unat (heap_start s)) bs) \<and> x \<in> span p (unat n)}"

lemma allocs_append: "allocs a (xs @ ys) = allocs a xs @ allocs (a + ntot xs) ys"
  by (induction a xs rule: allocs.induct) (auto simp: add.assoc)

lemma allocs_split:
  assumes "(p, n) \<in> set (allocs a bs)"
  shows "\<exists>xs ys. bs = xs @ (n, False) # ys \<and> p = of_nat (a + ntot xs + 17)"
  using assms
proof (induction a bs rule: allocs.induct)
  case (2 a k f bs)
  show ?case
  proof (cases "(p, n) \<in> set (allocs (a + 17 + unat k) bs)")
    case True
    then obtain xs ys where "bs = xs @ (n, False) # ys" "p = of_nat (a + 17 + unat k + ntot xs + 17)"
      using "2.IH" by blast
    then show ?thesis by (intro exI [of _ "(k, f) # xs"] exI [of _ ys]) (simp add: add.assoc)
  next
    case False
    then show ?thesis using "2.prems" by (intro exI [of _ "[]"] exI [of _ bs]) (auto split: if_splits)
  qed
qed simp

lemma allocs_bounds:
  assumes "(p, n) \<in> set (allocs a bs)" and "a + ntot bs < 2 ^ 64"
  shows "a + 17 \<le> unat p \<and> unat p + unat n \<le> a + ntot bs"
proof -
  obtain xs ys where *: "bs = xs @ (n, False) # ys" "p = of_nat (a + ntot xs + 17)"
    using allocs_split [OF assms(1)] by blast
  then have "unat p = a + ntot xs + 17" using assms(2) by (simp only: *) (intro unat_of_nat_64, simp)
  with * show ?thesis by simp
qed

lemma allocs_pays:
  assumes "(p, n) \<in> set (allocs a bs)" and "a + ntot bs < 2 ^ 64"
  shows "span p (unat n) \<subseteq> pays a bs"
proof -
  obtain xs ys where *: "bs = xs @ (n, False) # ys" "p = of_nat (a + ntot xs + 17)"
    using allocs_split [OF assms(1)] by blast
  then have "unat p = a + ntot xs + 17" using assms(2) by (simp only: *) (intro unat_of_nat_64, simp)
  with * show ?thesis by (auto simp: pays_append span_def)
qed

lemma allocs_disjoint:
  assumes "(p, n) \<in> set (allocs a bs)" and "(q, k) \<in> set (allocs a bs)" and "a + ntot bs < 2 ^ 64"
    and "p \<noteq> q \<or> n \<noteq> k"
  shows "unat p + unat n + 17 \<le> unat q \<or> unat q + unat k + 17 \<le> unat p"
  using assms
proof (induction a bs rule: allocs.induct)
  case (2 a m f bs)
  have b: "a + 17 + unat m + ntot bs < 2 ^ 64" using "2.prems" by simp
  have u: "unat (of_nat (a + 17) :: u64) = a + 17" using b by (intro unat_of_nat_64) simp
  note bd = allocs_bounds [OF _ b]
  show ?case
  proof (cases "(p, n) \<in> set (allocs (a + 17 + unat m) bs) \<and> (q, k) \<in> set (allocs (a + 17 + unat m) bs)")
    case True
    then show ?thesis using "2.IH" "2.prems"(4) b by blast
  next
    case False
    then show ?thesis
      using "2.prems" bd [of p n] bd [of q k] u by (auto split: if_splits)
  qed
qed simp

lemma lay_unique:
  assumes "lay m a bs 0" and "lay m a bs' 0" and "0 < a" and "bs \<noteq> []" and "bs' \<noteq> []"
    and "a + ntot bs < 2 ^ 64" and "a + ntot bs' < 2 ^ 64"
  shows "bs = bs'"
  using assms
proof (induction bs arbitrary: a bs')
  case (Cons x bs)
  obtain n f where x: "x = (n, f)" by force
  obtain zs where bs': "bs' = (n, f) # zs" using Cons.prems x by (cases bs') auto
  have "unat (of_nat (a + 17 + unat n) :: u64) = a + 17 + unat n"
    using Cons.prems x by (intro unat_of_nat_64) simp
  then have "of_nat (a + 17 + unat n) \<noteq> (0 :: u64)" using Cons.prems(3) by auto
  then have "bs = [] \<longleftrightarrow> zs = []"
    using Cons.prems x bs' by (auto split: if_splits simp del: of_nat_add)
  moreover have "bs = zs" if "bs \<noteq> []" "zs \<noteq> []"
    using Cons.prems x bs' that by (intro Cons.IH [of "a + 17 + unat n"]) auto
  ultimately show ?case using x bs' by auto
qed simp

lemma heap_ok_unique: "heap_ok s bs \<Longrightarrow> heap_ok s bs' \<Longrightarrow> bs = bs'"
  by (rule lay_unique) (auto simp: heap_ok_def)

lemma live_blocks_eq:
  "heap_ok s bs \<Longrightarrow> live_blocks s = fst ` set (allocs (unat (heap_start s)) bs)"
  by (force simp: live_blocks_def dest: heap_ok_unique)

lemma block_extent_eq:
  assumes ok: "heap_ok s bs" and p: "(p, n) \<in> set (allocs (unat (heap_start s)) bs)"
  shows "block_extent s p = span p (unat n)"
proof -
  have "k = n" if "(p, k) \<in> set (allocs (unat (heap_start s)) bs)" for k
    using allocs_disjoint [OF p that] ok by (auto simp: heap_ok_def)
  then show ?thesis
    using ok p heap_ok_unique [OF ok] unfolding block_extent_def by blast
qed

definition given_size :: "u64 \<Rightarrow> u64 \<Rightarrow> u64" where
  "given_size sz n = (if unat n \<ge> unat sz + 25 then sz else n)"

lemma given_size_ge: "sz \<le> n \<Longrightarrow> unat sz \<le> unat (given_size sz n)"
  by (simp add: given_size_def word_le_nat_alt)

lemma allocs_cut:
  "allocs a (xs @ cut sz n @ ys) = allocs a xs @
     (of_nat (a + ntot xs + 17), given_size sz n) # allocs (a + ntot xs + 17 + unat n) ys"
  by (simp add: allocs_append cut_def given_size_def cut_rest add.assoc)

lemma allocs_abs_free:
  assumes "ntot (xs @ (n, f) # ys) < 2 ^ 63"
  shows "allocs a (abs_free xs n ys) = allocs a xs @ allocs (a + ntot xs + 17 + unat n) ys"
proof -
  obtain k zs where j: "join_next n ys = (k, True) # zs" using join_next_hd by blast
  have z: "allocs (b + 17 + unat k) zs = allocs (b + 17 + unat n) ys" for b
  proof (cases "\<exists>l zs'. ys = (l, True) # zs'")
    case True
    then obtain l where ys: "ys = (l, True) # zs" "k = n + 17 + l" using j by (auto simp: join_next_def)
    have "unat k = unat n + 17 + unat l" unfolding ys(2) using assms ys by (intro unat_join) simp
    then show ?thesis by (simp add: ys(1) add.assoc)
  next
    case False
    then have "k = n" "zs = ys"
      using j by (auto simp: join_next_def split: list.splits prod.splits bool.splits)
    then show ?thesis by simp
  qed
  have t: "17 + unat k + ntot zs = 17 + unat n + ntot ys"
    using ntot_join_next [of n ys] assms by (simp add: j)
  show ?thesis
  proof (cases "xs \<noteq> [] \<and> snd (last xs)")
    case True
    then obtain q xs' where xs: "xs = xs' @ [(q, True)]" by (cases xs rule: rev_cases) auto
    have "unat (q + 17 + k) = unat q + 17 + unat k"
      using assms t by (intro unat_join) (simp add: xs)
    then show ?thesis
      using z [of "a + ntot xs' + 17 + unat q"]
      by (simp add: abs_free_def join_prev_def j xs allocs_append add.assoc)
  next
    case False
    then have "abs_free xs n ys = xs @ (k, True) # zs" by (auto simp: abs_free_def join_prev_def j)
    then show ?thesis using z by (simp add: allocs_append)
  qed
qed

definition kmalloc_total :: "u64 \<Rightarrow> heap \<Rightarrow> u64 \<times> heap" where
  "kmalloc_total r s = (case kmalloc r s of Some x \<Rightarrow> x | None \<Rightarrow> (0, s))"

definition kfree_total :: "u64 \<Rightarrow> heap \<Rightarrow> heap" where
  "kfree_total p s = (case kfree p s of Some s' \<Rightarrow> s' | None \<Rightarrow> s)"

text \<open>
  What a request of \<open>r\<close> bytes is sure to get. The rounding wraps for the seven largest
  requests, which the code then takes for requests of zero bytes.
\<close>

definition heap_need :: "u64 \<Rightarrow> nat" where
  "heap_need r = (if unat r \<le> 2 ^ 64 - 8 then unat r else 0)"

lemma kmalloc_cases:
  assumes ok: "heap_ok s bs"
  obtains (fail) "kmalloc r s = Some (0, s)" "r = 0 \<or> abs_malloc (round8 r) bs = None"
  | (fit) m' bs' p n' where "kmalloc r s = Some (p, s\<lparr>hmem := m'\<rparr>)" "heap_ok (s\<lparr>hmem := m'\<rparr>) bs'"
      "abs_malloc (round8 r) bs = Some bs'" "r \<noteq> 0" "p \<noteq> 0"
      "set (allocs (unat (heap_start s)) bs') = insert (p, n') (set (allocs (unat (heap_start s)) bs))"
      "p \<notin> fst ` set (allocs (unat (heap_start s)) bs)" "heap_need r \<le> unat n'"
      "\<forall>x q k. (q, k) \<in> set (allocs (unat (heap_start s)) bs) \<and> unat x \<in> span q (unat k) \<longrightarrow> m' x = hmem s x"
proof (cases "r = 0")
  case True
  then show ?thesis by (intro fail) (simp_all add: kmalloc_def)
next
  case False
  show ?thesis
  proof (cases rule: first_fit_split [of bs "round8 r"])
    case none
    then show ?thesis using ok abs_malloc_none by (intro fail) (simp_all add: kmalloc_ok_none)
  next
    case fit': (fit xs n ys)
    let ?a = "unat (heap_start s)"
    have ok': "heap_ok s (xs @ (n, True) # ys)" using ok fit' by simp
    obtain m' where m': "kmalloc r s = Some (of_nat (?a + ntot xs + 17), s\<lparr>hmem := m'\<rparr>)"
      "heap_ok (s\<lparr>hmem := m'\<rparr>) (xs @ cut (round8 r) n @ ys)"
      "\<forall>x. unat x < ?a + ntot xs \<or> ?a + ntot xs + 17 + unat n \<le> unat x \<longrightarrow> m' x = hmem s x"
      using kmalloc_ok_fit [OF ok' False fit'(3,2)] by blast
    have b: "?a + ntot (xs @ (n, True) # ys) < 2 ^ 63" using ok' by (simp add: heap_ok_def)
    have up: "unat (of_nat (?a + ntot xs + 17) :: u64) = ?a + ntot xs + 17"
      using b by (intro unat_of_nat_64) simp
    have out: "unat q + unat k \<le> ?a + ntot xs \<or> ?a + ntot xs + 17 + unat n + 17 \<le> unat q"
      if "(q, k) \<in> set (allocs ?a bs)" for q k
      using that allocs_bounds [of q k ?a xs] allocs_bounds [of q k "?a + ntot xs + 17 + unat n" ys] b
      by (auto simp: fit'(1) allocs_append)
    show ?thesis
    proof (rule fit [OF m'(1,2)])
      show "abs_malloc (round8 r) bs = Some (xs @ cut (round8 r) n @ ys)"
        unfolding fit'(1) by (rule abs_malloc_fit [OF fit'(3,2)])
      show "r \<noteq> 0" by fact
      show "of_nat (?a + ntot xs + 17) \<noteq> (0 :: u64)" using up by auto
      show "set (allocs ?a (xs @ cut (round8 r) n @ ys)) =
          insert (of_nat (?a + ntot xs + 17), given_size (round8 r) n) (set (allocs ?a bs))"
        unfolding allocs_cut fit'(1) by (simp add: allocs_append)
      show "of_nat (?a + ntot xs + 17) \<notin> fst ` set (allocs ?a bs)"
        using out up by fastforce
      show "heap_need r \<le> unat (given_size (round8 r) n)"
        using given_size_ge [OF fit'(2)] round8_ge [of r] by (auto simp: heap_need_def)
      show "\<forall>x q k. (q, k) \<in> set (allocs ?a bs) \<and> unat x \<in> span q (unat k) \<longrightarrow> m' x = hmem s x"
        using out m'(3) by (fastforce simp: span_def)
    qed
  qed
qed

lemma kfree_cases:
  assumes ok: "heap_ok s bs" and p: "p \<in> live_blocks s"
  obtains m' bs' n xs ys where "kfree p s = Some (s\<lparr>hmem := m'\<rparr>)" "heap_ok (s\<lparr>hmem := m'\<rparr>) bs'"
    "bs = xs @ (n, False) # ys" "bs' = abs_free xs n ys"
    "set (allocs (unat (heap_start s)) bs') = set (allocs (unat (heap_start s)) bs) - {(p, n)}"
    "(p, n) \<in> set (allocs (unat (heap_start s)) bs)"
    "\<forall>x. unat x \<in> pays (unat (heap_start s)) bs \<longrightarrow> m' x = hmem s x"
proof -
  let ?a = "unat (heap_start s)"
  obtain n where pn: "(p, n) \<in> set (allocs ?a bs)" using p live_blocks_eq [OF ok] by auto
  then obtain xs ys where bs: "bs = xs @ (n, False) # ys" and pe: "p = of_nat (?a + ntot xs + 17)"
    using allocs_split by blast
  have b: "?a + ntot (xs @ (n, False) # ys) < 2 ^ 63" using ok bs by (simp add: heap_ok_def)
  have pe': "p = heap_start s + of_nat (ntot xs) + HDR" using pe by simp
  obtain m' where m': "kfree p s = Some (s\<lparr>hmem := m'\<rparr>)" "heap_ok (s\<lparr>hmem := m'\<rparr>) (abs_free xs n ys)"
    "\<forall>x. unat x \<in> pays ?a bs \<longrightarrow> m' x = hmem s x"
    using kfree_ok [of s xs n False ys] ok bs pe' by auto
  have up: "unat p = ?a + ntot xs + 17" unfolding pe using b by (intro unat_of_nat_64) simp
  have "(p, n) \<notin> set (allocs ?a xs)" "(p, n) \<notin> set (allocs (?a + ntot xs + 17 + unat n) ys)"
    using allocs_bounds [of p n ?a xs] allocs_bounds [of p n "?a + ntot xs + 17 + unat n" ys] b up by auto
  moreover have "set (allocs ?a (abs_free xs n ys)) =
      set (allocs ?a xs) \<union> set (allocs (?a + ntot xs + 17 + unat n) ys)"
    using allocs_abs_free [of xs n False ys ?a] b by simp
  moreover have "set (allocs ?a bs) = insert (p, n) (set (allocs ?a xs) \<union> set (allocs (?a + ntot xs + 17 + unat n) ys))"
    unfolding bs pe by (simp add: allocs_append)
  ultimately have "set (allocs ?a (abs_free xs n ys)) = set (allocs ?a bs) - {(p, n)}" by auto
  then show ?thesis using that [OF m'(1,2) bs refl _ pn m'(3)] by blast
qed

lemma live_unique_size:
  assumes "heap_ok s bs" and "(p, n) \<in> set (allocs (unat (heap_start s)) bs)"
    and "(p, k) \<in> set (allocs (unat (heap_start s)) bs)"
  shows "k = n"
  using allocs_disjoint [OF assms(2,3)] assms(1) by (auto simp: heap_ok_def)

interpretation kheap: block_allocator kmalloc_total kfree_total heap_need heap_inv live_blocks block_extent
proof
  fix s s' :: heap and p q r :: u64
  assume I: "heap_inv s"
  then obtain bs where ok: "heap_ok s bs" by (auto simp: heap_inv_def)
  note live = live_blocks_eq [OF ok] and ext = block_extent_eq [OF ok]
  let ?A = "set (allocs (unat (heap_start s)) bs)"
  have alloc: "(p = 0 \<and> s' = s) \<or> (\<exists>m' bs' n'. p \<noteq> 0 \<and> s' = s\<lparr>hmem := m'\<rparr> \<and> heap_ok s' bs' \<and>
        set (allocs (unat (heap_start s)) bs') = insert (p, n') ?A \<and> p \<notin> fst ` ?A \<and> heap_need r \<le> unat n')"
    if al: "kmalloc_total r s = (p, s')" for p
    using ok by (cases rule: kmalloc_cases [of s bs r]) (use al in \<open>auto simp: kmalloc_total_def\<close>)
  show "heap_inv s'" if "kmalloc_total r s = (p, s')"
    using alloc [OF that] I by (auto simp: heap_inv_def)
  show "s' = s" if "kmalloc_total r s = (0, s')"
    using alloc [OF that] by auto
  show "p \<notin> live_blocks s" if "kmalloc_total r s = (p, s')" "p \<noteq> 0"
    using alloc [OF that(1)] that(2) by (auto simp: live)
  show "live_blocks s' = insert p (live_blocks s)" if "kmalloc_total r s = (p, s')" "p \<noteq> 0"
    using alloc [OF that(1)] that(2) by (force simp: live live_blocks_eq)
  show "span p (heap_need r) \<subseteq> block_extent s' p" if "kmalloc_total r s = (p, s')" "p \<noteq> 0"
    using alloc [OF that(1)] that(2) block_extent_eq [of s' _ p] by (fastforce simp: span_def)
  show "block_extent s' q = block_extent s q" if al: "kmalloc_total r s = (p, s')" "q \<in> live_blocks s"
  proof -
    obtain k where q: "(q, k) \<in> ?A" using al(2) by (auto simp: live)
    then show ?thesis
      using alloc [OF al(1)] ext [OF q] block_extent_eq [of s' _ q k] by auto
  qed
  have free: "\<exists>m' bs' n. kfree_total p s = s\<lparr>hmem := m'\<rparr> \<and> heap_ok (s\<lparr>hmem := m'\<rparr>) bs' \<and>
        set (allocs (unat (heap_start s)) bs') = ?A - {(p, n)} \<and> (p, n) \<in> ?A"
    if p: "p \<in> live_blocks s"
    by (rule kfree_cases [OF ok p]) (auto simp: kfree_total_def)
  show "heap_inv (kfree_total p s)" if "p \<in> live_blocks s"
    using free [OF that] by (auto simp: heap_inv_def)
  show "live_blocks (kfree_total p s) = live_blocks s - {p}" if p: "p \<in> live_blocks s"
  proof -
    obtain m' bs' n where f: "kfree_total p s = s\<lparr>hmem := m'\<rparr>" "heap_ok (s\<lparr>hmem := m'\<rparr>) bs'"
        "set (allocs (unat (heap_start s)) bs') = ?A - {(p, n)}" "(p, n) \<in> ?A"
      using free [OF p] by blast
    have one: "k = n" if "(p, k) \<in> ?A" for k using live_unique_size [OF ok f(4) that] .
    have "live_blocks (kfree_total p s) = fst ` (?A - {(p, n)})"
      using live_blocks_eq [OF f(2)] f(1,3) by simp
    also have "\<dots> = fst ` ?A - {p}"
    proof
      show "fst ` (?A - {(p, n)}) \<subseteq> fst ` ?A - {p}" using one by auto
      show "fst ` ?A - {p} \<subseteq> fst ` (?A - {(p, n)})"
      proof
        fix x assume "x \<in> fst ` ?A - {p}"
        then obtain k where "(x, k) \<in> ?A" "x \<noteq> p" by auto
        then have "(x, k) \<in> ?A - {(p, n)}" by auto
        then show "x \<in> fst ` (?A - {(p, n)})" by (rule rev_image_eqI) simp
      qed
    qed
    finally show ?thesis by (simp only: live)
  qed
  show "block_extent (kfree_total p s) q = block_extent s q"
    if pq: "p \<in> live_blocks s" "q \<in> live_blocks s" "q \<noteq> p"
  proof -
    obtain k where q: "(q, k) \<in> ?A" using pq(2) by (auto simp: live)
    obtain m' bs' n where f: "kfree_total p s = s\<lparr>hmem := m'\<rparr>" "heap_ok (s\<lparr>hmem := m'\<rparr>) bs'"
        "set (allocs (unat (heap_start s)) bs') = ?A - {(p, n)}"
      using free [OF pq(1)] by blast
    have "(q, k) \<in> set (allocs (unat (heap_start (s\<lparr>hmem := m'\<rparr>))) bs')"
      using q f(3) pq(3) by simp
    then show ?thesis unfolding f(1) using block_extent_eq [OF f(2)] ext [OF q] by simp
  qed
  show "block_extent s p \<inter> block_extent s q = {}"
    if pq: "p \<in> live_blocks s" "q \<in> live_blocks s" "p \<noteq> q"
  proof -
    obtain n k where "(p, n) \<in> ?A" "(q, k) \<in> ?A" using pq by (auto simp: live)
    then show ?thesis
      using allocs_disjoint [of p n _ bs q k] ext pq(3) ok by (force simp: heap_ok_def span_def)
  qed
qed

section \<open>Payload writes and the copy loop\<close>

lemma lay_payload:
  assumes "\<And>x. a \<le> unat x \<Longrightarrow> unat x \<notin> pays a bs \<Longrightarrow> m' x = m x"
    and "a + ntot bs < 2 ^ 64" and "lay m a bs z"
  shows "lay m' a bs z"
  using assms
proof (induction bs arbitrary: a)
  case (Cons b bs)
  obtain n f where b: "b = (n, f)" by force
  have "get_block m' (of_nat a) = get_block m (of_nat a)"
  proof (rule get_block_cong)
    fix i :: nat assume i: "i < 17"
    then have u: "unat (of_nat (a + i) :: u64) = a + i" using Cons.prems(2) b by (intro unat_of_nat_64) simp
    have "unat (of_nat (a + i) :: u64) \<notin> pays a (b # bs)"
      unfolding u using i pays_bounds [of "a + i" "a + 17 + unat n" bs] b by auto
    then show "m' (of_nat a + of_nat i) = m (of_nat a + of_nat i)"
      using Cons.prems(1) [of "of_nat (a + i)"] u by simp
  qed
  moreover have "lay m' (a + 17 + unat n) bs z"
  proof (rule Cons.IH)
    show "m' x = m x" if "a + 17 + unat n \<le> unat x" "unat x \<notin> pays (a + 17 + unat n) bs" for x
      using Cons.prems(1) [of x] that b by auto
  qed (use Cons.prems b in auto)
  ultimately show ?case using Cons.prems(3) b by simp
qed simp

lemma heap_ok_payload:
  assumes ok: "heap_ok s bs" and "\<And>x. unat x \<notin> pays (unat (heap_start s)) bs \<Longrightarrow> m' x = hmem s x"
  shows "heap_ok (s\<lparr>hmem := m'\<rparr>) bs"
proof -
  have "lay m' (unat (heap_start s)) bs 0"
    by (rule lay_payload [where m = "hmem s"]) (use assms in \<open>auto simp: heap_ok_def\<close>)
  then show ?thesis using ok by (simp add: heap_ok_def)
qed

lemma header_outside_pays:
  assumes "(p, n) \<in> set (allocs a bs)" and "a + ntot bs < 2 ^ 64" and "i < 17"
  shows "unat (p - HDR + of_nat i) \<notin> pays a bs" and "unat (p - HDR + of_nat i) = unat p - 17 + i"
proof -
  obtain xs ys where *: "bs = xs @ (n, False) # ys" "p = of_nat (a + ntot xs + 17)"
    using allocs_split [OF assms(1)] by blast
  have "p - HDR + of_nat i = of_nat (a + ntot xs + i)" by (simp add: *(2))
  then have u: "unat (p - HDR + of_nat i) = a + ntot xs + i"
    using assms(2,3) *(1) by (simp only:) (intro unat_of_nat_64, simp)
  moreover have "unat p = a + ntot xs + 17"
    using assms(2) *(1) by (simp only: *(2)) (intro unat_of_nat_64, simp)
  ultimately show "unat (p - HDR + of_nat i) = unat p - 17 + i" by simp
  show "unat (p - HDR + of_nat i) \<notin> pays a bs"
    unfolding u using pays_not_header [of "a + ntot xs + i" a xs n False ys] assms(3) *(1) by auto
qed

lemma copy_loop_spec:
  assumes "\<And>j. j < 17 \<Longrightarrow> unat (blk + of_nat j) < unat dst \<or> unat dst + unat n \<le> unat (blk + of_nat j)"
    and "hsize (get_block m blk) = n" and "i \<le> n"
    and "unat dst + unat n < 2 ^ 64" and "unat src + unat n < 2 ^ 64"
    and "unat src + unat n \<le> unat dst \<or> unat dst + unat n \<le> unat src"
  shows "copy_loop blk src dst i m x =
    (if unat dst + unat i \<le> unat x \<and> unat x < unat dst + unat n then m (src + (x - dst)) else m x)"
  using assms
proof (induction blk src dst i m rule: copy_loop.induct)
  case (1 blk src dst i m)
  note sep = "1.prems"(1) and bnd = "1.prems"(4-6)
  note un = copy_loop.simps [of blk src dst i m]
  show ?case
  proof (cases "i < n")
    case False
    then have "copy_loop blk src dst i m = m" using "1.prems"(2) by (simp add: un)
    moreover have "i = n" using False "1.prems"(3) by simp
    ultimately show ?thesis by auto
  next
    case True
    let ?m = "m(dst + i := m (src + i))"
    have i1: "unat (i + 1) = Suc (unat i)" by (rule unat_plus_one [OF True])
    have lt: "unat i < unat n" using True by (simp add: word_less_nat_alt)
    have ud: "unat (dst + i) = unat dst + unat i"
      using lt bnd(1) by (simp add: unat_word_ariths)
    have "get_block ?m blk = get_block m blk"
    proof (rule get_block_cong)
      fix j :: nat assume "j < 17"
      then have "unat (blk + of_nat j) \<noteq> unat (dst + i)" using sep [of j] lt ud by auto
      then show "?m (blk + of_nat j) = m (blk + of_nat j)" by auto
    qed
    then have IH: "copy_loop blk src dst (i + 1) ?m x =
        (if unat dst + unat (i + 1) \<le> unat x \<and> unat x < unat dst + unat n
         then ?m (src + (x - dst)) else ?m x)"
      using True "1.prems" by (intro "1.IH") (auto simp: i1 word_le_nat_alt word_less_nat_alt simp del: fun_upd_apply)
    have far: "src + (x - dst) \<noteq> dst + i" if "unat dst \<le> unat x" "unat x < unat dst + unat n"
    proof -
      have "unat (x - dst) = unat x - unat dst" using that by (simp add: unat_sub_if_size)
      then have "unat (src + (x - dst)) = unat src + (unat x - unat dst)"
        using that bnd(2) by (simp add: unat_word_ariths)
      then have "unat (src + (x - dst)) \<noteq> unat (dst + i)" using bnd(3) ud that lt by auto
      then show ?thesis by metis
    qed
    have here: "x = dst + i \<longleftrightarrow> unat x = unat dst + unat i" using ud by (metis word_unat_eq_iff)
    have step: "copy_loop blk src dst i m = copy_loop blk src dst (i + 1) ?m"
      using True "1.prems"(2) by (simp add: un)
    show ?thesis
    proof (cases "x = dst + i")
      case True
      then show ?thesis using IH ud i1 lt by (simp add: step)
    next
      case False
      then show ?thesis using IH far here by (auto simp: step i1 Suc_le_eq order_less_le)
    qed
  qed
qed

section \<open>Properties\<close>

lemma allocs_less:
  "heap_ok s bs \<Longrightarrow> (p, n) \<in> set (allocs (unat (heap_start s)) bs) \<Longrightarrow> unat p + unat n < 2 ^ 63"
  using allocs_bounds [of p n "unat (heap_start s)" bs] by (fastforce simp: heap_ok_def)

lemma krealloc_moves:
  assumes ok: "heap_ok s bs" and p: "(p, k) \<in> set (allocs (unat (heap_start s)) bs)"
    and "new \<noteq> 0" and small: "k < new"
    and km: "kmalloc new s = Some (q, s\<lparr>hmem := m1\<rparr>)" and "q \<noteq> 0"
    and ok1: "heap_ok (s\<lparr>hmem := m1\<rparr>) bs1"
    and as: "set (allocs (unat (heap_start s)) bs1) = insert (q, k') (set (allocs (unat (heap_start s)) bs))"
    and fresh: "q \<notin> fst ` set (allocs (unat (heap_start s)) bs)" and room: "unat k \<le> unat k'"
    and keep: "\<And>x. unat x \<in> span p (unat k) \<Longrightarrow> m1 x = hmem s x"
  shows "\<exists>s'. krealloc p new s = Some (q, s') \<and> heap_inv s' \<and> q \<in> live_blocks s' \<and>
    (\<forall>i < unat k. hmem s' (q + of_nat i) = hmem s (p + of_nat i))"
proof -
  let ?a = "unat (heap_start s)"
  define m2 where "m2 = copy_loop (p - HDR) p q 0 m1"
  have b1: "?a + ntot bs1 < 2 ^ 64" using ok1 by (simp add: heap_ok_def)
  have p1: "(p, k) \<in> set (allocs ?a bs1)" and q1: "(q, k') \<in> set (allocs ?a bs1)" using p as by auto
  have "p \<noteq> q" using p fresh by force
  then have sep: "unat p + unat k + 17 \<le> unat q \<or> unat q + unat k' + 17 \<le> unat p"
    using allocs_disjoint [OF p1 q1 b1] by simp
  have bp: "unat p + unat k < 2 ^ 63" "unat q + unat k' < 2 ^ 63"
    using allocs_less [OF ok1, of p k] allocs_less [OF ok1, of q k'] p1 q1 by simp_all
  have hd: "hsize (get_block m k0) = n" if "lay m ?a cs 0" "(k0 + HDR, n) \<in> set (allocs ?a cs)" for m k0 n cs
    using that allocs_split [OF that(2)] lay_get [of m ?a _ n False _ 0] by fastforce
  have sz: "hsize (get_block (hmem s) (p - HDR)) = k" "hsize (get_block m1 (p - HDR)) = k"
    using hd [of "hmem s" bs "p - HDR" k] hd [of m1 bs1 "p - HDR" k] ok ok1 p p1
    by (simp_all add: heap_ok_def)
  have copied: "m2 x = (if unat q \<le> unat x \<and> unat x < unat q + unat k then m1 (p + (x - q)) else m1 x)" for x
    unfolding m2_def
  proof (subst copy_loop_spec [of _ q k])
    fix j :: nat assume "j < 17"
    then have "unat (p - HDR + of_nat j) = unat p - 17 + j" by (rule header_outside_pays(2) [OF p1 b1])
    then show "unat (p - HDR + of_nat j) < unat q \<or> unat q + unat k \<le> unat (p - HDR + of_nat j)"
      using sep \<open>j < 17\<close> room by auto
  qed (use sz sep bp room in auto)
  have in_q: "unat x \<in> pays ?a bs1" if "unat q \<le> unat x" "unat x < unat q + unat k" for x
    using allocs_pays [OF q1 b1] that room by (auto simp: span_def)
  have same: "m2 x = m1 x" if "unat x \<notin> pays ?a bs1" for x
    using that in_q [of x] copied [of x] by (auto split: if_splits)
  have ok2: "heap_ok (s\<lparr>hmem := m2\<rparr>) bs1"
    using heap_ok_payload [OF ok1, of m2] same by simp
  then have "p \<in> live_blocks (s\<lparr>hmem := m2\<rparr>)" using p1 by (force simp: live_blocks_eq)
  then obtain m3 bs3 n where f: "kfree p (s\<lparr>hmem := m2\<rparr>) = Some (s\<lparr>hmem := m3\<rparr>)"
      "heap_ok (s\<lparr>hmem := m3\<rparr>) bs3" "set (allocs ?a bs3) = set (allocs ?a bs1) - {(p, n)}"
      "\<forall>x. unat x \<in> pays ?a bs1 \<longrightarrow> m3 x = m2 x"
    by (rule kfree_cases [OF ok2]) auto
  have "p \<noteq> 0" using header_outside_pays(2) [OF p1 b1, of 0] allocs_bounds [OF p1 b1] by auto
  then have kr: "krealloc p new s = Some (q, s\<lparr>hmem := m3\<rparr>)"
    using \<open>new \<noteq> 0\<close> \<open>q \<noteq> 0\<close> not_le [THEN iffD2, OF small] sz f(1) by (simp add: krealloc_def km Let_def m2_def)
  have live: "q \<in> live_blocks (s\<lparr>hmem := m3\<rparr>)"
    using live_blocks_eq [OF f(2)] f(3) q1 \<open>p \<noteq> q\<close> by force
  have "m3 (q + of_nat i) = hmem s (p + of_nat i)" if "i < unat k" for i
  proof -
    have u: "unat (q + of_nat i) = unat q + i" "unat (p + of_nat i) = unat p + i"
      using that bp room by (intro word_no_wrap; simp)+
    then have "m3 (q + of_nat i) = m1 (p + of_nat i)"
      using f(4) in_q [of "q + of_nat i"] copied [of "q + of_nat i"] that by simp
    also have "\<dots> = hmem s (p + of_nat i)" using that u by (intro keep) (simp add: span_def)
    finally show ?thesis .
  qed
  then show ?thesis using kr f(2) live by (auto simp: heap_inv_def)
qed

definition heap_demo :: heap where
  "heap_demo = \<lparr>heap_start = 0x1000, heap_size = 0x1000,
     hmem = put_block 0x1000 \<lparr>hsize = 0xFEF, is_free = True, hnext = 0\<rparr> (\<lambda>_. 0)\<rparr>"

lemma heap_ok_single:
  assumes "heap_start s \<noteq> 0" and "unat (heap_start s) + 17 + unat n < 2 ^ 63"
    and "get_block (hmem s) (heap_start s) = \<lparr>hsize = n, is_free = True, hnext = 0\<rparr>"
  shows "heap_ok s [(n, True)]"
  using assms by (simp add: heap_ok_def unat_gt_0 coalesced_def)

lemma heap_demo_ok: "heap_ok heap_demo [(0xFEF, True)]"
  by (rule heap_ok_single) (simp_all add: heap_demo_def)



text \<open>
  C5. On a well-formed heap \<open>kmalloc\<close> always returns, and it implements first fit on the list of
  blocks: with no fitting block the result is null and nothing changes; otherwise the new
  heap is the list with the first fitting block cut, the result was not live before, and
  the bytes of every live block are unchanged.
\<close>

theorem kmalloc_refines_first_fit:
  assumes "heap_ok s bs"
  shows "\<exists>p s'. kmalloc r s = Some (p, s') \<and>
    (case (if r = 0 then None else abs_malloc (round8 r) bs) of
       None \<Rightarrow> p = 0 \<and> s' = s
     | Some bs' \<Rightarrow> p \<noteq> 0 \<and> heap_ok s' bs' \<and> p \<in> live_blocks s' \<and> p \<notin> live_blocks s \<and>
         (\<forall>q x. q \<in> live_blocks s \<and> unat x \<in> block_extent s q \<longrightarrow> hmem s' x = hmem s x))"
  using assms
proof (cases rule: kmalloc_cases [of s bs r])
  case fail
  then show ?thesis by auto
next
  case (fit m' bs' p n')
  have "p \<in> live_blocks (s\<lparr>hmem := m'\<rparr>)" "p \<notin> live_blocks s"
    using fit live_blocks_eq [OF assms] live_blocks_eq [OF fit(2)] by (force, simp)
  moreover have "m' x = hmem s x" if q: "q \<in> live_blocks s" "unat x \<in> block_extent s q" for q x
  proof -
    obtain k where "(q, k) \<in> set (allocs (unat (heap_start s)) bs)"
      using q(1) live_blocks_eq [OF assms] by auto
    then show ?thesis using fit(9) q(2) block_extent_eq [OF assms] by metis
  qed
  ultimately show ?thesis using fit by auto
qed

theorem kmalloc_refines_first_fit_witness:
  "\<exists>p s'. kmalloc 100 heap_demo = Some (p, s') \<and> heap_ok s' [(104, False), (0xF76, True)]"
proof -
  have "abs_malloc (round8 100) [(0xFEF, True)] = Some [(104, False), (0xF76, True)]" by code_simp
  then show ?thesis using kmalloc_refines_first_fit [OF heap_demo_ok, of 100] by auto
qed

text \<open>
  C6. On a well-formed heap \<open>kfree\<close> of a live block always returns; the new heap is the list with
  the block free and merged with its free neighbours on both sides, so that no two neighbours
  are free, and no payload byte of any block changes.
\<close>

theorem kfree_refines_coalescing:
  assumes "heap_ok s (xs @ (n, False) # ys)"
  shows "\<exists>s'. kfree (heap_start s + of_nat (ntot xs) + HDR) s = Some s' \<and>
    heap_ok s' (abs_free xs n ys) \<and> coalesced (abs_free xs n ys) \<and>
    (\<forall>x. unat x \<in> pays (unat (heap_start s)) (xs @ (n, False) # ys) \<longrightarrow> hmem s' x = hmem s x)"
  using kfree_ok [OF assms] by (fastforce simp: heap_ok_def)

theorem kfree_refines_coalescing_witness:
  "\<exists>s s'. heap_ok s [(104, False), (0xF76, True)] \<and> kfree 0x1011 s = Some s' \<and>
     heap_ok s' [(0xFEF, True)]"
proof -
  have r: "round8 100 = 104" by code_simp
  have c: "cut 104 0xFEF = [(104, False), (0xF76, True)]" by code_simp
  have j: "abs_free [] 104 [(0xF76, True)] = [(0xFEF, True)]" by code_simp
  obtain m where m: "heap_ok (heap_demo\<lparr>hmem := m\<rparr>) ([] @ (104, False) # [(0xF76, True)])"
    using kmalloc_ok_fit [of heap_demo "[]" "0xFEF" "[]" 100] heap_demo_ok by (auto simp: r c)
  have "heap_start (heap_demo\<lparr>hmem := m\<rparr>) = 0x1000" by (simp add: heap_demo_def)
  then show ?thesis using kfree_refines_coalescing [OF m] m by (auto simp: j)
qed

text \<open>
  \<open>krealloc\<close> of a live block to a size above zero always returns and keeps the heap well
  formed; it either fails, leaving the old block untouched, or returns a live block that
  holds all bytes of the old one.
\<close>

theorem krealloc_keeps_data:
  assumes "heap_ok s bs" and "(p, k) \<in> set (allocs (unat (heap_start s)) bs)" and "new \<noteq> 0"
    and "unat new \<le> 2 ^ 64 - 8"
  shows "\<exists>q s'. krealloc p new s = Some (q, s') \<and> heap_inv s' \<and>
    (if q = 0 then s' = s
     else q \<in> live_blocks s' \<and> (\<forall>i < unat k. hmem s' (q + of_nat i) = hmem s (p + of_nat i)))"
proof -
  let ?a = "unat (heap_start s)"
  have b: "?a + ntot bs < 2 ^ 64" using assms(1) by (simp add: heap_ok_def)
  obtain xs ys where *: "bs = xs @ (k, False) # ys" "p = of_nat (?a + ntot xs + 17)"
    using allocs_split [OF assms(2)] by blast
  then have sz: "hsize (get_block (hmem s) (p - HDR)) = k"
    using lay_get [of "hmem s" ?a xs k False ys 0] assms(1) by (simp add: heap_ok_def)
  have nz: "p \<noteq> 0" using allocs_bounds [OF assms(2) b] by auto
  have inv: "heap_inv s" using assms(1) by (auto simp: heap_inv_def)
  have pl: "p \<in> live_blocks s" using assms(1,2) by (force simp: live_blocks_eq)
  show ?thesis
  proof (cases "new \<le> k")
    case True
    then show ?thesis using sz nz assms(3) inv pl by (auto simp: krealloc_def Let_def)
  next
    case False
    then have small: "k < new" by simp
    from assms(1) show ?thesis
    proof (cases rule: kmalloc_cases [of s bs new])
      case fail
      then show ?thesis using sz nz assms(3) inv False by (auto simp: krealloc_def Let_def)
    next
      case (fit m' bs' q n')
      have "unat k \<le> unat n'"
        using fit(8) assms(4) small by (simp add: heap_need_def word_less_nat_alt)
      moreover have "m' x = hmem s x" if "unat x \<in> span p (unat k)" for x
        using fit(9) assms(2) that by blast
      ultimately show ?thesis
        using krealloc_moves [OF assms(1-3) small fit(1,5,2,6,7)] fit(5) by auto
    qed
  qed
qed

theorem krealloc_keeps_data_witness:
  "\<exists>s q s'. krealloc 0x1011 200 s = Some (q, s') \<and> heap_inv s' \<and>
     (q \<noteq> 0 \<longrightarrow> (\<forall>i < 104. hmem s' (q + of_nat i) = hmem s (0x1011 + of_nat i)))"
proof -
  have r: "round8 100 = 104" by code_simp
  have c: "cut 104 0xFEF = [(104, False), (0xF76, True)]" by code_simp
  obtain m where m: "heap_ok (heap_demo\<lparr>hmem := m\<rparr>) [(104, False), (0xF76, True)]"
    using kmalloc_ok_fit [of heap_demo "[]" "0xFEF" "[]" 100] heap_demo_ok by (auto simp: r c)
  have p: "(0x1011, 104) \<in> set (allocs (unat (heap_start (heap_demo\<lparr>hmem := m\<rparr>))) [(104, False), (0xF76, True)])"
    by (simp add: heap_demo_def)
  show ?thesis
    using krealloc_keeps_data [OF m p, of 200] by (fastforce split: if_splits)
qed

section \<open>Initialisation\<close>

lemma alloc_run:
  assumes "pmm_inv p" and "pmm_alloc_contiguous n p = (b, p')" and "n \<noteq> 0"
  obtains (none) "b = 0" "p' = p" "scan_none (page_bitmap p) (total_pages p) n"
  | (run) r where "b \<noteq> 0" "b = r * PAGE_SIZE" "pmm_inv p'" "unat b = unat r * 4096"
      "unat r + unat n \<le> unat (total_pages p)" "page_run r n \<subseteq> free_set p"
      "used_set p' = used_set p \<union> page_run r n"
  using assms(2,3)
proof (cases rule: pmm_alloc_contiguous_cases)
  case none
  then show ?thesis using that(1) by blast
next
  case (found r)
  have b: "bitmap_ok p" using assms(1) by (simp add: pmm_inv_def)
  have n: "0 < unat n" using assms(3) by (simp add: unat_gt_0)
  have r: "1 \<le> unat r" "unat r + unat n \<le> unat (total_pages p)"
    using found(3) by (simp_all add: scan_found_def)
  have "r < total_pages p" using r n by (simp add: word_less_nat_alt)
  then have u: "unat b = unat r * 4096" "b \<noteq> 0"
    using page_addr_lt [OF b] page_addr_zero [OF b] r found(1) by auto
  have "page_run r n \<subseteq> free_set p"
    using found(3) by (auto simp: scan_found_def page_run_def free_set_def word_less_nat_alt)
  then show ?thesis
    using that(2) [of r] u r found take_run [OF assms(1) found(3)] by simp
qed

lemma heap_fallback_spec:
  assumes "pmm_inv p" and "n = 16 * 2 ^ k" and "k \<le> 7" and "heap_fallback n p = (b, sz, p')"
  shows "(b = 0 \<and> p' = p \<and> scan_none (page_bitmap p) (total_pages p) 16) \<or>
    (\<exists>j \<le> k. b \<noteq> 0 \<and> sz = 16 * 2 ^ j * PAGE_SIZE \<and> pmm_alloc_contiguous (16 * 2 ^ j) p = (b, p'))"
  using assms
proof (induction k arbitrary: n)
  case 0
  obtain b1 p1 where a: "pmm_alloc_contiguous 16 p = (b1, p1)" by force
  have small: "heap_fallback 8 q = (0, 0, q)" for q by (simp add: heap_fallback.simps)
  from assms(1) a show ?case
    by (rule alloc_run) (use 0 a small in \<open>auto simp: heap_fallback.simps [of 16 p]\<close>)
next
  case (Suc k)
  obtain b1 p1 where a: "pmm_alloc_contiguous n p = (b1, p1)" by force
  have "k \<in> {0, 1, 2, 3, 4, 5, 6}" using Suc.prems(3) by auto
  then have n: "16 \<le> n" "n \<noteq> 0" "n div 2 = 16 * 2 ^ k" unfolding Suc.prems(2) by auto
  have step: "heap_fallback n p = (if b1 \<noteq> 0 then (b1, n * PAGE_SIZE, p1) else heap_fallback (n div 2) p1)"
    using n a by (simp add: heap_fallback.simps [of n p])
  show ?case
  proof (cases "b1 = 0")
    case True
    then have "p1 = p" using assms(1) a n(2) by (auto elim: alloc_run)
    then have "heap_fallback (16 * 2 ^ k) p = (b, sz, p')" using step True Suc.prems(4) n(3) by simp
    then show ?thesis using Suc.IH [of "16 * 2 ^ k"] Suc.prems(1,3) le_SucI by fastforce
  next
    case False
    then show ?thesis using step Suc.prems(2,4) a by auto
  qed
qed

definition heap_placed :: "pmm \<Rightarrow> u64 \<Rightarrow> pmm \<Rightarrow> heap \<Rightarrow> bool" where
  "heap_placed p n p' s \<longleftrightarrow> (\<exists>r. pmm_inv p' \<and> heap_start s = r * PAGE_SIZE \<and> heap_size s = n * PAGE_SIZE \<and>
     heap_ok s [(n * PAGE_SIZE - HDR, True)] \<and>
     page_run r n \<subseteq> free_set p \<and> used_set p' = used_set p \<union> page_run r n)"

lemma heap_placed_run:
  assumes I: "pmm_inv p" and mem: "unat (total_pages p) \<le> 2 ^ 50"
    and al: "pmm_alloc_contiguous n p = (b, p')" and "b \<noteq> 0" and n: "16 \<le> unat n" "unat n \<le> 4096"
  shows "heap_placed p n p' (s\<lparr>heap_start := b, heap_size := n * PAGE_SIZE,
    hmem := put_block b \<lparr>hsize = n * PAGE_SIZE - HDR, is_free = True, hnext = 0\<rparr> m\<rparr>)"
proof -
  have n0: "n \<noteq> 0" using n by auto
  show ?thesis
  proof (rule alloc_run [OF I al n0])
    fix r assume r: "b \<noteq> 0" "b = r * PAGE_SIZE" "pmm_inv p'" "unat b = unat r * 4096"
      "unat r + unat n \<le> unat (total_pages p)" "page_run r n \<subseteq> free_set p"
      "used_set p' = used_set p \<union> page_run r n"
    have u: "unat (n * PAGE_SIZE) = unat n * 4096" using n by (simp add: PAGE_SIZE_def unat_word_ariths)
    then have v: "unat (n * PAGE_SIZE - HDR) = unat n * 4096 - 17"
      using n by (simp add: unat_sub_if_size word_size)
    have "unat b + 17 + unat (n * PAGE_SIZE - HDR) = (unat r + unat n) * 4096"
      using n by (simp add: v r(4))
    also have "\<dots> \<le> 2 ^ 50 * 4096" using r(5) mem by (intro mult_right_mono) auto
    finally have "unat b + 17 + unat (n * PAGE_SIZE - HDR) < 2 ^ 63" by simp
    then show ?thesis
      using r heap_ok_single by (auto simp: heap_placed_def)
  qed (use \<open>b \<noteq> 0\<close> in simp)
qed

text \<open>
  \<open>heap_init\<close> makes the heap one free block over a run of free pages taken from the page
  allocator, 4096 pages or a power of two down to 16, and leaves everything unchanged only
  if there is no run of 16 free pages. The bound on \<open>total_pages\<close> says that the machine has
  less than 2^62 bytes of memory.
\<close>

theorem heap_init_one_free_block:
  assumes "pmm_inv p" and "unat (total_pages p) \<le> 2 ^ 50" and "heap_init p s = (p', s')"
  shows "(p' = p \<and> s' = s \<and> scan_none (page_bitmap p) (total_pages p) 16) \<or>
         (\<exists>n. 16 \<le> unat n \<and> unat n \<le> 4096 \<and> heap_placed p n p' s')"
proof -
  obtain b1 p1 where a: "pmm_alloc_contiguous 4096 p = (b1, p1)" by force
  show ?thesis
  proof (cases "b1 = 0")
    case False
    then have s': "p' = p1" "s' = s\<lparr>heap_start := b1, heap_size := 4096 * PAGE_SIZE,
        hmem := put_block b1 \<lparr>hsize = 4096 * PAGE_SIZE - HDR, is_free = True, hnext = 0\<rparr> (hmem s)\<rparr>"
      using assms(3) a by (auto simp: heap_init_def INITIAL_HEAP_PAGES_def)
    have "heap_placed p 4096 p' s'"
      unfolding s' by (rule heap_placed_run [OF assms(1,2) a False]) simp_all
    then show ?thesis by (intro disjI2 exI [of _ 4096]) simp
  next
    case True
    then have p1: "p1 = p" using assms(1) a by (auto elim: alloc_run)
    obtain b sz p2 where f: "heap_fallback 2048 p = (b, sz, p2)" by (metis prod_cases3)
    have init: "heap_init p s = (if b = 0 then (p2, s) else (p2, s\<lparr>heap_start := b, heap_size := sz,
        hmem := put_block b \<lparr>hsize = sz - HDR, is_free = True, hnext = 0\<rparr> (hmem s)\<rparr>))"
      using a True p1 f by (simp add: heap_init_def INITIAL_HEAP_PAGES_def)
    have "(b = 0 \<and> p2 = p \<and> scan_none (page_bitmap p) (total_pages p) 16) \<or>
      (\<exists>j \<le> 7. b \<noteq> 0 \<and> sz = 16 * 2 ^ j * PAGE_SIZE \<and> pmm_alloc_contiguous (16 * 2 ^ j) p = (b, p2))"
      using heap_fallback_spec [OF assms(1) _ _ f, of 7] by simp
    then show ?thesis
    proof (elim disjE exE conjE)
      fix j :: nat assume j: "j \<le> 7" "b \<noteq> 0" "sz = 16 * 2 ^ j * PAGE_SIZE"
        "pmm_alloc_contiguous (16 * 2 ^ j) p = (b, p2)"
      have "j \<in> {0, 1, 2, 3, 4, 5, 6, 7}" using j(1) by auto
      then have n: "16 \<le> unat (16 * 2 ^ j :: u64)" "unat (16 * 2 ^ j :: u64) \<le> 4096" by auto
      have s': "p' = p2" "s' = s\<lparr>heap_start := b, heap_size := 16 * 2 ^ j * PAGE_SIZE,
          hmem := put_block b \<lparr>hsize = 16 * 2 ^ j * PAGE_SIZE - HDR, is_free = True, hnext = 0\<rparr> (hmem s)\<rparr>"
        using assms(3) j(2,3) init by auto
      have "heap_placed p (16 * 2 ^ j) p' s'"
        unfolding s' by (rule heap_placed_run [OF assms(1,2) j(4,2) n])
      then show ?thesis using n by blast
    qed (use assms(3) init in auto)
  qed
qed

text \<open>A machine with 64 free pages: the request for 4096 pages fails and the heap gets 32.\<close>

definition pmm_free64 :: pmm where
  "pmm_free64 = pmm_init_map 0 (\<lambda>_. 0) 0 [\<lparr>me_base = 0, me_length = 0x40000, me_type = 1\<rparr>] pmm_boot"

theorem heap_init_one_free_block_witness:
  "pmm_inv pmm_free64 \<and> (\<exists>p' s'. heap_init pmm_free64 heap_demo = (p', s') \<and>
     (p' = pmm_free64 \<and> s' = heap_demo \<or> (\<exists>n. heap_placed pmm_free64 n p' s')))"
proof -
  have st: "fold mmap_stats [\<lparr>me_base = 0, me_length = 0x40000, me_type = 1\<rparr>]
      (0, total_memory pmm_boot, usable_memory pmm_boot) = (0x40000, 0x40000, 0x40000)" by code_simp
  have inv: "pmm_inv pmm_free64"
    unfolding pmm_free64_def by (rule pmm_init_map_spec(1)) simp
  have "total_pages pmm_free64 = 64"
    unfolding pmm_free64_def pmm_init_map_def st Let_def prod.case by code_simp
  then have mem: "unat (total_pages pmm_free64) \<le> 2 ^ 50" by simp
  obtain p' s' where e: "heap_init pmm_free64 heap_demo = (p', s')" by force
  show ?thesis using heap_init_one_free_block [OF inv mem e] inv e by blast
qed

text \<open>
  The rounding of the requested size wraps: a request for the largest size is served with a
  block of no bytes.
\<close>

lemma kmalloc_huge_gives_empty_block:
  "\<exists>p s'. kmalloc (- 1) heap_demo = Some (p, s') \<and> p \<noteq> 0 \<and> heap_ok s' [(0, False), (0xFDE, True)]"
proof -
  have "round8 (- 1) = 0" "cut 0 0xFEF = [(0, False), (0xFDE, True)]" by code_simp+
  then show ?thesis
    using kmalloc_ok_fit [of heap_demo "[]" "0xFEF" "[]" "- 1"] heap_demo_ok
    by (auto simp: heap_demo_def)
qed

end
