(* ===== verification/Heap_Client.thy ===== *)
theory Heap_Client
  imports Heap
begin

text \<open>
  The heap as the components on top of it use it: the live blocks of a well-formed heap with
  their sizes, and what \<open>kmalloc\<close>, \<open>kfree\<close> and a write into a live block do to them and to
  the bytes of the others. The file system and the process manager rest on these lemmas.
\<close>

definition heap_allocs :: "heap \<Rightarrow> blocks \<Rightarrow> (u64 \<times> u64) set" where
  "heap_allocs h bs = set (allocs (unat (heap_start h)) bs)"

lemma blocks_apart:
  assumes "heap_ok h bs" and "(p, n) \<in> heap_allocs h bs" and "(q, k) \<in> heap_allocs h bs" and "p \<noteq> q"
  shows "unat p + unat n + 17 \<le> unat q \<or> unat q + unat k + 17 \<le> unat p"
  using allocs_disjoint [of p n "unat (heap_start h)" bs q k] assms
  by (simp add: heap_allocs_def heap_ok_def)

lemma block_bound:
  "heap_ok h bs \<Longrightarrow> (p, n) \<in> heap_allocs h bs \<Longrightarrow> unat p + unat n < 2 ^ 63 \<and> 0 < unat p"
  using allocs_bounds [of p n "unat (heap_start h)" bs]
  by (fastforce simp: heap_allocs_def heap_ok_def)

lemma block_pays:
  assumes "heap_ok h bs" and "(p, n) \<in> heap_allocs h bs" and "unat p \<le> y" and "y < unat p + unat n"
  shows "y \<in> pays (unat (heap_start h)) bs"
  using allocs_pays [of p n "unat (heap_start h)" bs] assms
  by (auto simp: heap_allocs_def heap_ok_def span_def)

definition keeps_blocks :: "heap \<Rightarrow> heap \<Rightarrow> (u64 \<times> u64) set \<Rightarrow> bool" where
  "keeps_blocks h h' A \<longleftrightarrow>
     (\<forall>q k x. (q, k) \<in> A \<and> unat q \<le> unat x \<and> unat x < unat q + unat k \<longrightarrow> hmem h' x = hmem h x)"

lemma keeps_blocksD:
  "keeps_blocks h h' A \<Longrightarrow> (q, k) \<in> A \<Longrightarrow> unat q \<le> unat x \<Longrightarrow> unat x < unat q + unat k \<Longrightarrow>
     hmem h' x = hmem h x"
  by (auto simp: keeps_blocks_def)

lemma kmalloc_heap:
  assumes "heap_ok h bs"
  shows "kmalloc r h = Some (0, h) \<or>
    (\<exists>p h' bs' k. kmalloc r h = Some (p, h') \<and> p \<noteq> 0 \<and> heap_ok h' bs' \<and>
       heap_allocs h' bs' = insert (p, k) (heap_allocs h bs) \<and> p \<notin> fst ` heap_allocs h bs \<and>
       heap_need r \<le> unat k \<and> keeps_blocks h h' (heap_allocs h bs))"
  using assms
proof (cases rule: kmalloc_cases [of h bs r])
  case fail
  then show ?thesis by simp
next
  case (fit m' bs' p n')
  have "keeps_blocks h (h\<lparr>hmem := m'\<rparr>) (heap_allocs h bs)"
    using fit(9) by (auto simp: keeps_blocks_def heap_allocs_def span_def)
  then show ?thesis using fit(1,2,5-8) by (intro disjI2) (auto simp: heap_allocs_def)
qed

lemma kfree_heap:
  assumes ok: "heap_ok h bs" and p: "(p, n) \<in> heap_allocs h bs"
  shows "\<exists>h' bs'. kfree p h = Some h' \<and> heap_ok h' bs' \<and>
    heap_allocs h' bs' = heap_allocs h bs - {(p, n)} \<and> keeps_blocks h h' (heap_allocs h bs)"
proof -
  have "p \<in> live_blocks h" using p by (force simp: live_blocks_eq [OF ok] heap_allocs_def)
  then show ?thesis
  proof (rule kfree_cases [OF ok])
    fix m' bs' k xs ys
    assume *: "kfree p h = Some (h\<lparr>hmem := m'\<rparr>)" "heap_ok (h\<lparr>hmem := m'\<rparr>) bs'"
      "set (allocs (unat (heap_start h)) bs') = set (allocs (unat (heap_start h)) bs) - {(p, k)}"
      "(p, k) \<in> set (allocs (unat (heap_start h)) bs)"
      "\<forall>x. unat x \<in> pays (unat (heap_start h)) bs \<longrightarrow> m' x = hmem h x"
    have "k = n" using live_unique_size [OF ok] *(4) p by (auto simp: heap_allocs_def)
    moreover have "keeps_blocks h (h\<lparr>hmem := m'\<rparr>) (heap_allocs h bs)"
      using *(5) block_pays [OF ok] by (auto simp: keeps_blocks_def)
    ultimately show ?thesis using *(1-3) by (auto simp: heap_allocs_def)
  qed
qed

lemma write_heap:
  assumes ok: "heap_ok h bs" and p: "(p, n) \<in> heap_allocs h bs"
    and "\<And>x. unat x < unat p \<or> unat p + unat n \<le> unat x \<Longrightarrow> m' x = hmem h x"
  shows "heap_ok (h\<lparr>hmem := m'\<rparr>) bs" and "heap_allocs (h\<lparr>hmem := m'\<rparr>) bs = heap_allocs h bs"
proof -
  have "m' x = hmem h x" if "unat x \<notin> pays (unat (heap_start h)) bs" for x
    using that block_pays [OF ok p, of "unat x"] assms(3) [of x] by linarith
  then show "heap_ok (h\<lparr>hmem := m'\<rparr>) bs" by (rule heap_ok_payload [OF ok])
  show "heap_allocs (h\<lparr>hmem := m'\<rparr>) bs = heap_allocs h bs" by (simp add: heap_allocs_def)
qed

end
