(* ===== verification/Vfs.thy ===== *)
theory Vfs
  imports Heap_Client
begin

text \<open>
  The in-memory file system, \<^verbatim>\<open>src/kernel/vfs.cpp\<close>. Nodes are kept by
  address, with the addresses that \<open>kmalloc\<close> returned and the pointers the struct has
  (\<open>parent\<close>, \<open>first_child\<close>, \<open>next\<close>); file contents lie in heap memory behind the
  pointer \<open>content\<close>. Names and paths are the characters before the terminating NUL. Pointer
  walks are partial functions, so \<open>None\<close> says that a call does not return, and
  \<open>Some 0\<close> is a null result. The lemmas show that a well-formed store is a tree of
  nodes, that \<open>alloc_node\<close> extends it, that \<open>vfs_lookup\<close> follows the path and inverts
  \<open>vfs_path_of\<close>, and that writing a file changes the contents of that file only.
\<close>

section \<open>Nodes\<close>

datatype vfs_kind = VFS_DIR | VFS_FILE | VFS_EXEC

datatype vfs_exec_fn = cmd_hello | cmd_elf_hello | cmd_echo | cmd_cat | cmd_clear | cmd_uptime | cmd_meminfo

record vfs_node =
  nname :: string
  nkind :: vfs_kind
  nparent :: u64
  first_child :: u64
  nnext :: u64
  ncontent :: u64
  nlen :: u32
  ncap :: u32
  nexec :: "vfs_exec_fn option"
  ndescription :: string

record vfs =
  nodes :: "u64 \<Rightarrow> vfs_node"
  g_root :: u64
  vheap :: heap

definition SIZEOF_VFS_NODE :: u64 where
  "SIZEOF_VFS_NODE = 96"

definition NAME_CAP :: nat where
  "NAME_CAP = 32"

definition str_len :: "string \<Rightarrow> u32" where
  "str_len s = of_nat (length s)"

definition str_copy_n :: "string \<Rightarrow> nat \<Rightarrow> string" where
  "str_copy_n src cap = take (cap - 1) src"

fun str_eq :: "string \<Rightarrow> string \<Rightarrow> bool" where
  "str_eq (a # as) (b # bs) = (if a \<noteq> b then False else str_eq as bs)"
| "str_eq [] [] = True"
| "str_eq [] (b # bs) = False"
| "str_eq (a # as) [] = False"

definition upd_node :: "u64 \<Rightarrow> (vfs_node \<Rightarrow> vfs_node) \<Rightarrow> vfs \<Rightarrow> vfs" where
  "upd_node n f s = s\<lparr>nodes := (nodes s)(n := f (nodes s n))\<rparr>"

partial_function (option) last_sibling :: "(u64 \<Rightarrow> vfs_node) \<Rightarrow> u64 \<Rightarrow> u64 option" where
  "last_sibling nd p = (if nnext (nd p) = 0 then Some p else last_sibling nd (nnext (nd p)))"

definition new_node :: "string \<Rightarrow> vfs_kind \<Rightarrow> u64 \<Rightarrow> vfs_node" where
  "new_node nm k parent = \<lparr>nname = str_copy_n nm NAME_CAP, nkind = k, nparent = parent, first_child = 0,
     nnext = 0, ncontent = 0, nlen = 0, ncap = 0, nexec = None, ndescription = []\<rparr>"

definition append_child :: "u64 \<Rightarrow> u64 \<Rightarrow> vfs \<Rightarrow> vfs option" where
  "append_child parent n s =
     (if parent = 0 then Some s
      else if first_child (nodes s parent) = 0
           then Some (upd_node parent (\<lambda>x. x\<lparr>first_child := n\<rparr>) s)
      else case last_sibling (nodes s) (first_child (nodes s parent)) of
             None \<Rightarrow> None
           | Some p \<Rightarrow> Some (upd_node p (\<lambda>x. x\<lparr>nnext := n\<rparr>) s))"

definition alloc_node :: "string \<Rightarrow> vfs_kind \<Rightarrow> u64 \<Rightarrow> vfs \<Rightarrow> (u64 \<times> vfs) option" where
  "alloc_node nm k parent s =
     (case kmalloc SIZEOF_VFS_NODE (vheap s) of
        None \<Rightarrow> None
      | Some (n, h) \<Rightarrow>
          if n = 0 then Some (0, s\<lparr>vheap := h\<rparr>)
          else map_option (Pair n)
                 (append_child parent n (upd_node n (\<lambda>_. new_node nm k parent) (s\<lparr>vheap := h\<rparr>))))"

section \<open>Paths\<close>

fun read_comp :: "nat \<Rightarrow> string \<Rightarrow> string \<times> string" where
  "read_comp k [] = ([], [])"
| "read_comp 0 (c # p) = ([], c # p)"
| "read_comp (Suc k) (c # p) =
     (if c = CHR ''/'' then ([], c # p)
      else case read_comp k p of (cmp, rest) \<Rightarrow> (c # cmp, rest))"

fun skip_slash :: "string \<Rightarrow> string" where
  "skip_slash [] = []"
| "skip_slash (c # p) = (if c = CHR ''/'' then p else c # p)"

partial_function (option) find_child :: "(u64 \<Rightarrow> vfs_node) \<Rightarrow> string \<Rightarrow> u64 \<Rightarrow> u64 option" where
  "find_child nd cmp c =
     (if c = 0 \<or> str_eq (nname (nd c)) cmp then Some c else find_child nd cmp (nnext (nd c)))"

partial_function (option) lookup_loop :: "(u64 \<Rightarrow> vfs_node) \<Rightarrow> u64 \<Rightarrow> string \<Rightarrow> u64 option" where
  "lookup_loop nd cur p =
     (if p = [] then Some cur
      else if nkind (nd cur) \<noteq> VFS_DIR then Some 0
      else Option.bind (find_child nd (fst (read_comp 31 p)) (first_child (nd cur)))
             (\<lambda>child. if child = 0 then Some 0
                      else lookup_loop nd child (skip_slash (snd (read_comp 31 p)))))"

definition vfs_root :: "vfs \<Rightarrow> u64" where
  "vfs_root s = g_root s"

definition vfs_lookup :: "string \<Rightarrow> vfs \<Rightarrow> u64 option" where
  "vfs_lookup path s =
     (if g_root s = 0 then Some 0
      else case path of
             [] \<Rightarrow> Some 0
           | c # p \<Rightarrow> if c \<noteq> CHR ''/'' then Some 0
                      else if p = [] then Some (g_root s)
                      else lookup_loop (nodes s) (g_root s) p)"

text \<open>The stack of at most 16 nodes from \<open>n\<close> up to the root, \<open>n\<close> first.\<close>

fun climb :: "(u64 \<Rightarrow> vfs_node) \<Rightarrow> u64 \<Rightarrow> nat \<Rightarrow> u64 \<Rightarrow> u64 list" where
  "climb nd root 0 n = []"
| "climb nd root (Suc d) n =
     (if n = 0 \<or> n = root then [] else n # climb nd root d (nparent (nd n)))"

fun put_chars :: "nat \<Rightarrow> string \<Rightarrow> string \<Rightarrow> string" where
  "put_chars cap out [] = out"
| "put_chars cap out (c # cs) = (if length out + 1 < cap then put_chars cap (out @ [c]) cs else out)"

fun put_names :: "nat \<Rightarrow> string \<Rightarrow> string list \<Rightarrow> string" where
  "put_names cap out [] = out"
| "put_names cap out (nm # nms) =
     (if length out + 1 \<ge> cap then out
      else put_names cap (put_chars cap (out @ ''/'') nm) nms)"

definition vfs_path_of :: "u64 \<Rightarrow> nat \<Rightarrow> vfs \<Rightarrow> string" where
  "vfs_path_of n cap s =
     (if n = 0 \<or> cap = 0 then []
      else if n = g_root s then (if cap \<ge> 2 then ''/'' else [])
      else let out = put_names cap [] (map (\<lambda>x. nname (nodes s x)) (rev (climb (nodes s) (g_root s) 16 n)))
           in if out = [] \<and> cap \<ge> 2 then ''/'' else out)"

section \<open>File contents\<close>

partial_function (option) grow_cap :: "u32 \<Rightarrow> u32 \<Rightarrow> u32 option" where
  "grow_cap need newcap = (if newcap < need then grow_cap need (newcap * 2) else Some newcap)"

definition mem_copy :: "u64 \<Rightarrow> u64 \<Rightarrow> u32 \<Rightarrow> mem \<Rightarrow> mem" where
  "mem_copy dst src n m = for_w 0 n (\<lambda>i m. m(dst + ucast i := m (src + ucast i))) m"

definition ensure_cap :: "u64 \<Rightarrow> u32 \<Rightarrow> vfs \<Rightarrow> (bool \<times> vfs) option" where
  "ensure_cap f need s =
     (let n = nodes s f in
      if ncap n \<ge> need then Some (True, s)
      else case grow_cap need (if ncap n = 0 then 64 else ncap n) of
             None \<Rightarrow> None
           | Some newcap \<Rightarrow>
               (case kmalloc (ucast newcap) (vheap s) of
                  None \<Rightarrow> None
                | Some (nb, h) \<Rightarrow>
                    if nb = 0 then Some (False, s\<lparr>vheap := h\<rparr>)
                    else let done = upd_node f (\<lambda>x. x\<lparr>ncontent := nb, ncap := newcap\<rparr>) s
                         in if ncontent n \<noteq> 0
                            then map_option (\<lambda>h'. (True, done\<lparr>vheap := h'\<rparr>))
                                   (kfree (ncontent n)
                                      (h\<lparr>hmem := mem_copy nb (ncontent n) (nlen n) (hmem h)\<rparr>))
                            else Some (True, done\<lparr>vheap := h\<rparr>)))"

definition poke :: "u64 \<Rightarrow> u8 list \<Rightarrow> vfs \<Rightarrow> vfs" where
  "poke a bs s = s\<lparr>vheap := (vheap s)\<lparr>hmem := write_bytes (hmem (vheap s)) a bs\<rparr>\<rparr>"

definition vfs_write :: "u64 \<Rightarrow> u8 list \<Rightarrow> u32 \<Rightarrow> vfs \<Rightarrow> (bool \<times> vfs) option" where
  "vfs_write file data len s =
     (if file = 0 \<or> nkind (nodes s file) \<noteq> VFS_FILE then Some (False, s)
      else case ensure_cap file (len + 1) s of
             None \<Rightarrow> None
           | Some (ok, s1) \<Rightarrow>
               if \<not> ok then Some (False, s1)
               else Some (True, upd_node file (\<lambda>x. x\<lparr>nlen := len\<rparr>)
                      (poke (ncontent (nodes s1 file)) (take (unat len) data @ [0]) s1)))"

definition vfs_append_char :: "u64 \<Rightarrow> u8 \<Rightarrow> vfs \<Rightarrow> (bool \<times> vfs) option" where
  "vfs_append_char file c s =
     (if file = 0 \<or> nkind (nodes s file) \<noteq> VFS_FILE then Some (False, s)
      else case ensure_cap file (nlen (nodes s file) + 2) s of
             None \<Rightarrow> None
           | Some (ok, s1) \<Rightarrow>
               if \<not> ok then Some (False, s1)
               else let n = nodes s1 file in
                    Some (True, upd_node file (\<lambda>x. x\<lparr>nlen := nlen n + 1\<rparr>)
                      (poke (ncontent n + ucast (nlen n + 1)) [0]
                        (poke (ncontent n + ucast (nlen n)) [c] s1))))"

definition vfs_pop_char :: "u64 \<Rightarrow> vfs \<Rightarrow> bool \<times> vfs" where
  "vfs_pop_char file s =
     (let n = nodes s file in
      if file = 0 \<or> nkind n \<noteq> VFS_FILE \<or> nlen n = 0 then (False, s)
      else let s1 = upd_node file (\<lambda>x. x\<lparr>nlen := nlen n - 1\<rparr>) s
           in (True, if ncontent n \<noteq> 0 then poke (ncontent n + ucast (nlen n - 1)) [0] s1 else s1))"

text \<open>The command a run of a node starts, if it starts one.\<close>

definition vfs_run :: "u64 \<Rightarrow> vfs \<Rightarrow> vfs_exec_fn option" where
  "vfs_run n s = (if n = 0 \<or> nkind (nodes s n) \<noteq> VFS_EXEC then None else nexec (nodes s n))"

section \<open>Building the initial tree\<close>

definition mkdir_at :: "u64 \<Rightarrow> string \<Rightarrow> vfs \<Rightarrow> (u64 \<times> vfs) option" where
  "mkdir_at parent nm s = alloc_node nm VFS_DIR parent s"

definition mkfile_at :: "u64 \<Rightarrow> string \<Rightarrow> string \<Rightarrow> vfs \<Rightarrow> (u64 \<times> vfs) option" where
  "mkfile_at parent nm initial s =
     (case alloc_node nm VFS_FILE parent s of
        None \<Rightarrow> None
      | Some (n, s1) \<Rightarrow>
          if n = 0 then Some (0, s1)
          else if initial = [] then Some (n, s1)
          else map_option (\<lambda>(ok, s2). (n, s2))
                 (vfs_write n (bytes_of_string initial) (str_len initial) s1))"

definition mkexec_at :: "u64 \<Rightarrow> string \<Rightarrow> vfs_exec_fn \<Rightarrow> string \<Rightarrow> vfs \<Rightarrow> (u64 \<times> vfs) option" where
  "mkexec_at parent nm fn desc s =
     (case alloc_node nm VFS_EXEC parent s of
        None \<Rightarrow> None
      | Some (n, s1) \<Rightarrow>
          if n = 0 then Some (0, s1)
          else Some (n, upd_node n (\<lambda>x. x\<lparr>nexec := Some fn, ndescription := desc\<rparr>) s1))"

text \<open>The nodes that \<open>vfs_init\<close> makes, as a list of calls in the order of the code.\<close>

datatype init_call =
    Make_file string string string
  | Make_exec string vfs_exec_fn string

definition LF :: string where
  "LF = [CHR 0x0A]"

definition init_calls :: "init_call list" where
  "init_calls =
    [Make_file ''home'' ''welcome.txt''
       (''Welcome to ParadoxOS!'' @ LF @ LF @
        ''You're inside an in-memory filesystem. Click any file in the'' @ LF @
        ''left tree to select it, then use Open or Edit at the top of'' @ LF @
        ''the window. Edits persist until reboot.'' @ LF @ LF @
        ''Try opening /bin/hello and clicking Run.'' @ LF),
     Make_file ''home'' ''notes.txt''
       (''scratchpad'' @ LF @ ''=========='' @ LF @ LF @ ''type stuff here.'' @ LF),
     Make_file ''home'' ''demo.sh''
       (''# ParadoxOS demo script.'' @ LF @
        ''# Run with: sh /home/demo.sh   (in any Terminal window)'' @ LF @ LF @
        ''echo ParadoxOS shell script demo'' @ LF @
        ''echo ---------------------------'' @ LF @
        ''pwd'' @ LF @ ''ls /bin'' @ LF @ ''uptime'' @ LF @ ''memory'' @ LF @
        ''echo Now running a real ring-3 ELF from a script:'' @ LF @
        ''/bin/echo hello from a ring-3 program launched by sh'' @ LF @
        ''echo done.'' @ LF),
     Make_file ''docs'' ''about.md''
       (''# ParadoxOS'' @ LF @ LF @
        ''A graphical hobby kernel built up in tracks:'' @ LF @ LF @
        '' - Track A: framebuffer + compositor + desktop (done)'' @ LF @
        '' - Track B: ring-3 userspace + ELF loader (in progress)'' @ LF @
        '' - Track C: real disk + filesystem + network (in progress)'' @ LF),
     Make_file ''docs'' ''track-roadmap.txt''
       (''next steps:'' @ LF @
        ''  - load TSS, set user bits, jump to ring 3'' @ LF @
        ''  - tiny ELF loader'' @ LF @
        ''  - FAT32 read on top of ATA PIO'' @ LF),
     Make_exec ''hello'' cmd_hello ''ring 3 demo (raw bytes, no argv)'',
     Make_exec ''elf-hello'' cmd_elf_hello ''ring 3 ELF demo (prints argv it received)'',
     Make_exec ''echo'' cmd_echo ''echo args back to stdout'',
     Make_exec ''cat'' cmd_cat ''read a line from stdin and echo it'',
     Make_exec ''clear'' cmd_clear ''writes a clear banner into the terminal'',
     Make_exec ''uptime'' cmd_uptime ''prints kernel uptime into the terminal'',
     Make_exec ''meminfo'' cmd_meminfo ''prints free / total RAM into the terminal'']"

fun run_init_call :: "u64 \<Rightarrow> u64 \<Rightarrow> u64 \<Rightarrow> init_call \<Rightarrow> vfs \<Rightarrow> vfs option" where
  "run_init_call home docs bin (Make_file dir nm text) s =
     map_option snd (mkfile_at (if dir = ''home'' then home else docs) nm text s)"
| "run_init_call home docs bin (Make_exec nm fn desc) s = map_option snd (mkexec_at bin nm fn desc s)"

fun init_all :: "u64 \<Rightarrow> u64 \<Rightarrow> u64 \<Rightarrow> init_call list \<Rightarrow> vfs \<Rightarrow> vfs option" where
  "init_all home docs bin [] s = Some s"
| "init_all home docs bin (c # cs) s =
     (case run_init_call home docs bin c s of None \<Rightarrow> None | Some s1 \<Rightarrow> init_all home docs bin cs s1)"

definition vfs_init :: "vfs \<Rightarrow> vfs option" where
  "vfs_init s =
     (case alloc_node ''/'' VFS_DIR 0 s of
        None \<Rightarrow> None
      | Some (root, s0) \<Rightarrow>
          if root = 0 then Some (s0\<lparr>g_root := 0\<rparr>)
          else case mkdir_at root ''home'' (s0\<lparr>g_root := root\<rparr>) of
                 None \<Rightarrow> None
               | Some (home, s1) \<Rightarrow>
                   (case mkdir_at root ''docs'' s1 of
                      None \<Rightarrow> None
                    | Some (docs, s2) \<Rightarrow>
                        (case mkdir_at root ''bin'' s2 of
                           None \<Rightarrow> None
                         | Some (bin, s3) \<Rightarrow> init_all home docs bin init_calls s3)))"

section \<open>The tree\<close>

lemma str_eq_iff: "str_eq a b \<longleftrightarrow> a = b"
  by (induction a b rule: str_eq.induct) auto

fun chain :: "(u64 \<Rightarrow> vfs_node) \<Rightarrow> u64 \<Rightarrow> u64 list \<Rightarrow> bool" where
  "chain nd c [] \<longleftrightarrow> c = 0"
| "chain nd c (x # xs) \<longleftrightarrow> c = x \<and> x \<noteq> 0 \<and> chain nd (nnext (nd x)) xs"

text \<open>\<open>N\<close> is the set of node addresses and \<open>ch\<close> gives the children of each in order.\<close>

definition tree_ok :: "vfs \<Rightarrow> u64 set \<Rightarrow> (u64 \<Rightarrow> u64 list) \<Rightarrow> bool" where
  "tree_ok s N ch \<longleftrightarrow> g_root s \<in> N \<and> 0 \<notin> N \<and>
     (\<forall>d \<in> N. chain (nodes s) (first_child (nodes s d)) (ch d) \<and> set (ch d) \<subseteq> N \<and> distinct (ch d) \<and>
        (ch d \<noteq> [] \<longrightarrow> nkind (nodes s d) = VFS_DIR) \<and>
        (\<forall>c \<in> set (ch d). nparent (nodes s c) = d \<and> c \<noteq> g_root s) \<and>
        length (nname (nodes s d)) \<le> 31)"

lemma chain_cong:
  "(\<And>x. x \<in> set xs \<Longrightarrow> nnext (nd' x) = nnext (nd x)) \<Longrightarrow> chain nd' c xs \<longleftrightarrow> chain nd c xs"
  by (induction xs arbitrary: c) auto

lemma chain_hd: "chain nd c xs \<Longrightarrow> c = 0 \<longleftrightarrow> xs = []"
  by (cases xs) auto

lemma last_sibling_chain: "chain nd c xs \<Longrightarrow> xs \<noteq> [] \<Longrightarrow> last_sibling nd c = Some (last xs)"
proof (induction xs arbitrary: c)
  case (Cons x xs)
  show ?case
  proof (cases "xs = []")
    case True
    then show ?thesis using Cons.prems by (simp add: last_sibling.simps [of nd x])
  next
    case False
    then have "nnext (nd x) \<noteq> 0" using Cons.prems chain_hd [of nd "nnext (nd x)" xs] by simp
    then show ?thesis using Cons False by (simp add: last_sibling.simps [of nd x])
  qed
qed simp

lemma chain_snoc:
  assumes "chain nd c xs" and "distinct xs" and "xs \<noteq> []" and "p \<notin> set xs" and "p \<noteq> 0" and "nnext (nd p) = 0"
  shows "chain (nd(last xs := (nd (last xs))\<lparr>nnext := p\<rparr>)) c (xs @ [p])"
  using assms
proof (induction xs arbitrary: c)
  case (Cons x xs)
  show ?case
  proof (cases "xs = []")
    case False
    then have "x \<noteq> last xs" using Cons.prems by auto
    then show ?thesis using Cons False by simp
  qed (use Cons.prems in auto)
qed simp

lemma find_child_chain:
  "chain nd c xs \<Longrightarrow> find_child nd w c =
     Some (case find (\<lambda>x. nname (nd x) = w) xs of None \<Rightarrow> 0 | Some x \<Rightarrow> x)"
proof (induction xs arbitrary: c)
  case Nil
  then show ?case by (simp add: find_child.simps [of nd w 0])
next
  case (Cons x xs)
  then show ?case by (auto simp: find_child.simps [of nd w x] str_eq_iff)
qed

section \<open>Path lookup\<close>

lemma read_comp_length: "length (fst (read_comp k p)) + length (snd (read_comp k p)) = length p"
  by (induction k p rule: read_comp.induct) (auto split: prod.splits)

lemma read_comp_app:
  "CHR ''/'' \<notin> set w \<Longrightarrow> length w \<le> k \<Longrightarrow> rest = [] \<or> hd rest = CHR ''/'' \<Longrightarrow>
     read_comp k (w @ rest) = (w, rest)"
proof (induction w arbitrary: k)
  case Nil
  then show ?case by (cases rest; cases k) auto
next
  case (Cons c w)
  then show ?case by (cases k) auto
qed

lemma read_comp_fst_nil: "fst (read_comp (Suc k) (c # p)) = [] \<Longrightarrow> c = CHR ''/'' \<and> snd (read_comp (Suc k) (c # p)) = c # p"
  by (auto split: if_splits prod.splits)

lemma skip_slash_length: "length (skip_slash p) \<le> length p"
  by (cases p) auto

text \<open>The components that the lookup loop splits a path into.\<close>

function comps :: "string \<Rightarrow> string list" where
  "comps p = (if p = [] then [] else fst (read_comp 31 p) # comps (skip_slash (snd (read_comp 31 p))))"
  by pat_completeness auto
termination
proof (relation "measure length", goal_cases)
  case (2 p)
  then obtain c q where p: "p = c # q" by (cases p) auto
  have l: "length (fst (read_comp 31 p)) + length (snd (read_comp 31 p)) = length p" by (rule read_comp_length)
  show ?case
  proof (cases "fst (read_comp 31 p) = []")
    case True
    then have "snd (read_comp 31 p) = CHR ''/'' # q"
      using read_comp_fst_nil [of 30 c q] p by auto
    then have "skip_slash (snd (read_comp 31 p)) = q" by simp
    then show ?thesis using p by (metis in_measure length_Cons lessI)
  next
    case False
    then show ?thesis using l skip_slash_length [of "snd (read_comp 31 p)"]
      by (metis in_measure le_less_trans length_greater_0_conv less_add_same_cancel2)
  qed
qed simp

declare comps.simps [simp del]

fun resolve :: "(u64 \<Rightarrow> vfs_node) \<Rightarrow> (u64 \<Rightarrow> u64 list) \<Rightarrow> u64 \<Rightarrow> string list \<Rightarrow> u64" where
  "resolve nd ch d [] = d"
| "resolve nd ch d (w # ws) =
     (if nkind (nd d) \<noteq> VFS_DIR then 0
      else case find (\<lambda>x. nname (nd x) = w) (ch d) of None \<Rightarrow> 0 | Some c \<Rightarrow> resolve nd ch c ws)"

lemma lookup_loop_resolve:
  assumes "tree_ok s N ch" and "d \<in> N"
  shows "lookup_loop (nodes s) d p = Some (resolve (nodes s) ch d (comps p))"
  using assms(2)
proof (induction p arbitrary: d rule: comps.induct)
  case (1 p)
  let ?w = "fst (read_comp 31 p)" and ?r = "skip_slash (snd (read_comp 31 p))"
  have ch: "chain (nodes s) (first_child (nodes s d)) (ch d)" "set (ch d) \<subseteq> N" and z: "0 \<notin> N"
    using assms(1) "1.prems" by (auto simp: tree_ok_def)
  show ?case
  proof (cases "p = [] \<or> nkind (nodes s d) \<noteq> VFS_DIR")
    case True
    then show ?thesis by (auto simp: comps.simps [of p] lookup_loop.simps)
  next
    case False
    then have c: "comps p = ?w # comps ?r" by (simp add: comps.simps [of p])
    have un: "lookup_loop (nodes s) d p =
        (let x = (case find (\<lambda>x. nname (nodes s x) = ?w) (ch d) of None \<Rightarrow> 0 | Some x \<Rightarrow> x)
         in if x = 0 then Some 0 else lookup_loop (nodes s) x ?r)"
      using False by (simp add: lookup_loop.simps [of _ d p] find_child_chain [OF ch(1)])
    show ?thesis
    proof (cases "find (\<lambda>x. nname (nodes s x) = ?w) (ch d)")
      case None
      then show ?thesis using False by (simp add: un c)
    next
      case (Some x)
      then have "x \<in> set (ch d)" by (auto simp: find_Some_iff)
      then have "x \<in> N" "x \<noteq> 0" using ch(2) z by auto
      then show ?thesis using False Some "1.IH" by (simp add: un c)
    qed
  qed
qed

definition join_path :: "string list \<Rightarrow> string" where
  "join_path ws = concat (map (\<lambda>w. CHR ''/'' # w) ws)"

definition ok_name :: "string \<Rightarrow> bool" where
  "ok_name w \<longleftrightarrow> w \<noteq> [] \<and> CHR ''/'' \<notin> set w \<and> length w \<le> 31"

lemma comps_join:
  assumes "\<forall>w \<in> set ws. ok_name w" and "ws \<noteq> []"
  shows "comps (tl (join_path ws)) = ws"
  using assms
proof (induction ws)
  case (Cons w ws)
  define r where "r = join_path ws"
  have w: "w \<noteq> []" "CHR ''/'' \<notin> set w" "length w \<le> 31" using Cons.prems by (auto simp: ok_name_def)
  have r: "r = [] \<or> hd r = CHR ''/''" "skip_slash r = tl r" "r = [] \<longleftrightarrow> ws = []"
    by (cases ws; simp add: r_def join_path_def)+
  have "comps (w @ r) = w # comps (tl r)"
    using w r(2) read_comp_app [OF w(2,3) r(1)] by (simp add: comps.simps [of "w @ r"])
  moreover have "comps (tl r) = ws"
    using Cons r(3) by (cases "ws = []") (simp_all add: r_def comps.simps [of "[]"])
  ultimately show ?case by (simp add: join_path_def r_def)
qed simp

section \<open>Paths of nodes\<close>

fun path_nodes :: "(u64 \<Rightarrow> u64 list) \<Rightarrow> u64 \<Rightarrow> u64 list \<Rightarrow> bool" where
  "path_nodes ch d [] = True"
| "path_nodes ch d (n # ns) = (n \<in> set (ch d) \<and> path_nodes ch n ns)"

lemma path_nodes_snoc:
  "path_nodes ch d (ns @ [n]) \<longleftrightarrow> path_nodes ch d ns \<and> n \<in> set (ch (last (d # ns)))"
  by (induction ns arbitrary: d) auto

lemma path_nodes_in:
  assumes "tree_ok s N ch" and "d \<in> N" and "path_nodes ch d ns"
  shows "set ns \<subseteq> N \<and> last (d # ns) \<in> N"
  using assms(2,3)
proof (induction ns arbitrary: d)
  case (Cons n ns)
  then have "n \<in> N" using assms(1) by (auto simp: tree_ok_def)
  then show ?case using Cons by auto
qed simp

lemma climb_path:
  assumes T: "tree_ok s N ch" and "path_nodes ch (g_root s) ns" and "length ns \<le> k"
  shows "climb (nodes s) (g_root s) k (last (g_root s # ns)) = rev ns"
  using assms(2,3)
proof (induction ns arbitrary: k rule: rev_induct)
  case Nil
  then show ?case by (cases k) auto
next
  case (snoc n ns)
  obtain j where k: "k = Suc j" "length ns \<le> j" using snoc.prems by (cases k) auto
  let ?d = "last (g_root s # ns)"
  have r: "g_root s \<in> N" using T by (simp add: tree_ok_def)
  have d: "?d \<in> N" "n \<in> set (ch ?d)" and ns: "path_nodes ch (g_root s) ns"
    using path_nodes_in [OF T r, of ns] snoc.prems by (simp_all add: path_nodes_snoc del: last.simps)
  have n: "nparent (nodes s n) = ?d" "n \<noteq> g_root s" "n \<noteq> 0"
    using T d by (auto simp: tree_ok_def simp del: last.simps)
  have "climb (nodes s) (g_root s) j ?d = rev ns" by (rule snoc.IH [OF ns k(2)])
  then show ?case using n k by simp
qed

lemma put_chars_fit: "length out + length cs < cap \<Longrightarrow> put_chars cap out cs = out @ cs"
  by (induction cs arbitrary: out) auto

lemma put_names_fit:
  "length out + length (join_path ws) < cap \<Longrightarrow> put_names cap out ws = out @ join_path ws"
proof (induction ws arbitrary: out)
  case (Cons w ws)
  then have "put_chars cap (out @ ''/'') w = out @ ''/'' @ w"
    by (subst put_chars_fit) (auto simp: join_path_def)
  then show ?case using Cons by (simp add: join_path_def)
qed (simp add: join_path_def)

lemma path_of_join:
  assumes T: "tree_ok s N ch" and P: "path_nodes ch (g_root s) ns" and "ns \<noteq> []" and "length ns \<le> 16"
    and len: "length (join_path (map (\<lambda>n. nname (nodes s n)) ns)) < cap"
  shows "vfs_path_of (last ns) cap s = join_path (map (\<lambda>n. nname (nodes s n)) ns)"
proof -
  obtain n ms where ns: "ns = ms @ [n]" using \<open>ns \<noteq> []\<close> by (cases ns rule: rev_cases) auto
  have r: "g_root s \<in> N" using T by (simp add: tree_ok_def)
  have "last (g_root s # ms) \<in> N" "n \<in> set (ch (last (g_root s # ms)))"
    using path_nodes_in [OF T r, of ms] P by (simp_all add: ns path_nodes_snoc del: last.simps)
  then have n: "n \<noteq> g_root s" "n \<noteq> 0" using T by (auto simp: tree_ok_def simp del: last.simps)
  have "climb (nodes s) (g_root s) 16 n = rev ns"
    using climb_path [OF T P assms(4)] by (simp add: ns)
  moreover have "cap \<noteq> 0" using len by simp
  moreover have "join_path (map (\<lambda>n. nname (nodes s n)) ns) \<noteq> []" by (simp add: ns join_path_def)
  ultimately show ?thesis using n len
    by (simp add: vfs_path_of_def ns put_names_fit Let_def rev_map [symmetric])
qed

definition unique_names :: "vfs \<Rightarrow> u64 set \<Rightarrow> (u64 \<Rightarrow> u64 list) \<Rightarrow> bool" where
  "unique_names s N ch \<longleftrightarrow> (\<forall>d \<in> N. distinct (map (\<lambda>n. nname (nodes s n)) (ch d)))"

lemma find_unique:
  assumes "distinct (map f xs)" and "x \<in> set xs"
  shows "find (\<lambda>y. f y = f x) xs = Some x"
  using assms by (induction xs) auto

lemma resolve_path:
  assumes T: "tree_ok s N ch" and U: "unique_names s N ch"
    and "d \<in> N" and "path_nodes ch d ns"
  shows "resolve (nodes s) ch d (map (\<lambda>n. nname (nodes s n)) ns) = last (d # ns)"
  using assms(3,4)
proof (induction ns arbitrary: d)
  case (Cons n ns)
  have "nkind (nodes s d) = VFS_DIR" "n \<in> N" "n \<noteq> 0"
    using T Cons.prems by (auto simp: tree_ok_def)
  moreover have "find (\<lambda>x. nname (nodes s x) = nname (nodes s n)) (ch d) = Some n"
    using U Cons.prems by (intro find_unique) (auto simp: unique_names_def)
  ultimately show ?case using Cons by simp
qed simp

section \<open>Nodes and contents in the heap\<close>

definition node_mem_ok :: "vfs_node \<Rightarrow> u64 set \<Rightarrow> (u64 \<times> u64) set \<Rightarrow> bool" where
  "node_mem_ok x N A \<longleftrightarrow>
     (if ncontent x = 0 then ncap x = 0 \<and> nlen x = 0
      else nlen x < ncap x \<and> ncontent x \<notin> N \<and> (\<exists>k. (ncontent x, k) \<in> A \<and> unat (ncap x) \<le> unat k))"

text \<open>
  Every node and every content buffer is a live block of the heap of its own, large enough
  for the capacity the node records.
\<close>

definition mem_ok :: "vfs \<Rightarrow> u64 set \<Rightarrow> bool" where
  "mem_ok s N \<longleftrightarrow> (\<exists>bs. heap_ok (vheap s) bs \<and>
     (\<forall>n \<in> N. (\<exists>k. (n, k) \<in> heap_allocs (vheap s) bs) \<and>
        node_mem_ok (nodes s n) N (heap_allocs (vheap s) bs)) \<and>
     (\<forall>n \<in> N. \<forall>m \<in> N. n \<noteq> m \<and> ncontent (nodes s n) \<noteq> 0 \<longrightarrow> ncontent (nodes s n) \<noteq> ncontent (nodes s m)))"

definition vfs_ok :: "vfs \<Rightarrow> u64 set \<Rightarrow> (u64 \<Rightarrow> u64 list) \<Rightarrow> bool" where
  "vfs_ok s N ch \<longleftrightarrow> tree_ok s N ch \<and> mem_ok s N"

definition file_data :: "vfs \<Rightarrow> u64 \<Rightarrow> u8 list" where
  "file_data s f = read_bytes (hmem (vheap s)) (ncontent (nodes s f)) (unat (nlen (nodes s f)))"

text \<open>The fields of a node that make the tree.\<close>

definition same_tree :: "vfs \<Rightarrow> vfs \<Rightarrow> bool" where
  "same_tree s s' \<longleftrightarrow> g_root s' = g_root s \<and>
     (\<forall>n. nname (nodes s' n) = nname (nodes s n) \<and> nkind (nodes s' n) = nkind (nodes s n) \<and>
        nparent (nodes s' n) = nparent (nodes s n) \<and> first_child (nodes s' n) = first_child (nodes s n) \<and>
        nnext (nodes s' n) = nnext (nodes s n))"

lemma same_tree_ok: "same_tree s s' \<Longrightarrow> tree_ok s N ch \<Longrightarrow> tree_ok s' N ch"
  unfolding tree_ok_def same_tree_def by (simp add: chain_cong [of _ "nodes s'" "nodes s"])

lemma same_tree_refl [simp]: "same_tree s s"
  by (simp add: same_tree_def)

lemma same_tree_trans: "same_tree s s1 \<Longrightarrow> same_tree s1 s2 \<Longrightarrow> same_tree s s2"
  by (simp add: same_tree_def)

lemma file_data_cong:
  assumes "ncontent (nodes s' f) = ncontent (nodes s f)" and "nlen (nodes s' f) = nlen (nodes s f)"
    and "ncontent (nodes s f) = 0 \<Longrightarrow> nlen (nodes s f) = 0"
    and "unat (ncontent (nodes s f)) + unat (nlen (nodes s f)) < 2 ^ 64"
    and "\<And>x. ncontent (nodes s f) \<noteq> 0 \<Longrightarrow> unat (ncontent (nodes s f)) \<le> unat x \<Longrightarrow>
           unat x < unat (ncontent (nodes s f)) + unat (nlen (nodes s f)) \<Longrightarrow>
           hmem (vheap s') x = hmem (vheap s) x"
  shows "file_data s' f = file_data s f"
  unfolding file_data_def assms(1,2)
proof (rule read_bytes_cong)
  fix i assume i: "i < unat (nlen (nodes s f))"
  then have "ncontent (nodes s f) \<noteq> 0" using assms(3) by auto
  moreover have "unat (ncontent (nodes s f) + of_nat i) = unat (ncontent (nodes s f)) + i"
    using i assms(4) by (intro word_no_wrap) simp
  ultimately show "hmem (vheap s') (ncontent (nodes s f) + of_nat i) = hmem (vheap s) (ncontent (nodes s f) + of_nat i)"
    using i by (intro assms(5)) auto
qed

lemma ucast_of_nat_32: "k < 2 ^ 32 \<Longrightarrow> ucast (of_nat k :: u32) = (of_nat k :: u64)"
  by (simp add: word_unat_eq_iff unsigned_ucast_eq take_bit_eq_mod unat_of_nat)

lemma mem_copy_spec:
  assumes "unat dst + unat n < 2 ^ 64" and "unat src + unat n < 2 ^ 64"
    and "unat src + unat n \<le> unat dst \<or> unat dst + unat n \<le> unat src"
  shows "mem_copy dst src n m x =
    (if unat dst \<le> unat x \<and> unat x < unat dst + unat n then m (src + (x - dst)) else m x)"
proof -
  define F where "F k = fold (\<lambda>k m. m(dst + ucast (of_nat k :: u32) := m (src + ucast (of_nat k :: u32)))) [0..<k] m"
    for k
  have F: "F 0 = m" "F (Suc k) = (F k)(dst + ucast (of_nat k :: u32) := F k (src + ucast (of_nat k :: u32)))" for k
    by (simp_all add: F_def)
  have "F k x = (if unat dst \<le> unat x \<and> unat x < unat dst + k then m (src + (x - dst)) else m x)"
    if "k \<le> unat n" for k x
    using that
  proof (induction k arbitrary: x)
    case (Suc k)
    have k: "k < unat n" "k < 2 ^ 32" using Suc.prems unat_lt_32 [of n] by simp_all
    have ud: "unat (dst + of_nat k) = unat dst + k" and us: "unat (src + of_nat k) = unat src + k"
      using assms(1,2) k by (intro word_no_wrap; simp)+
    have here: "x = dst + of_nat k \<longleftrightarrow> unat x = unat dst + k" using ud by (metis word_unat_eq_iff)
    have "F k (src + of_nat k) = m (src + of_nat k)" using Suc assms(3) k us by auto
    then show ?case using Suc here F(2) [of k] by (auto simp: less_Suc_eq ucast_of_nat_32 [OF k(2)])
  qed (auto simp: F)
  from this [of "unat n" x] show ?thesis by (simp add: mem_copy_def for_w_fold F_def)
qed

lemma grow_cap_some:
  assumes "0 < unat c" and "unat need \<le> 2 ^ 31"
  shows "\<exists>r. grow_cap need c = Some r \<and> need \<le> r \<and> r \<noteq> 0"
  using assms(1)
proof (induction "unat need - unat c" arbitrary: c rule: less_induct)
  case less
  show ?case
  proof (cases "c < need")
    case True
    then have lt: "unat c < unat need" by (simp add: word_less_nat_alt)
    then have d: "unat (c * 2) = unat c * 2" using assms(2) by (simp add: unat_word_ariths)
    then have "\<exists>r. grow_cap need (c * 2) = Some r \<and> need \<le> r \<and> r \<noteq> 0"
      using lt less.prems by (intro less.hyps) auto
    then show ?thesis using True by (simp add: grow_cap.simps [of need c])
  next
    case False
    then show ?thesis using less.prems by (auto simp: grow_cap.simps [of need c])
  qed
qed

lemma heap_need_32: "heap_need (ucast (c :: u32)) = unat c"
  using unat_lt_32 [of c] by (simp add: heap_need_def unat_zext_64)

section \<open>Growing a buffer\<close>

text \<open>
  The heap part of \<open>ensure_cap\<close> for a file with content pointer \<open>q\<close> and length \<open>l\<close>: a new
  block \<open>p\<close> holds the bytes of the old one, and no other live block changes.
\<close>

definition moved :: "heap \<Rightarrow> (u64 \<times> u64) set \<Rightarrow> u64 \<Rightarrow> u32 \<Rightarrow> u32 \<Rightarrow> u64 \<Rightarrow> heap \<Rightarrow> bool" where
  "moved h A q l c p h' \<longleftrightarrow> (\<exists>bs' k. heap_ok h' bs' \<and> p \<noteq> 0 \<and> p \<notin> fst ` A \<and> unat c \<le> unat k \<and>
     (p, k) \<in> heap_allocs h' bs' \<and> (\<forall>r j. (r, j) \<in> A \<and> r \<noteq> q \<longrightarrow> (r, j) \<in> heap_allocs h' bs') \<and>
     (\<forall>r j x. (r, j) \<in> A \<and> r \<noteq> q \<and> unat r \<le> unat x \<and> unat x < unat r + unat j \<longrightarrow> hmem h' x = hmem h x) \<and>
     (\<forall>i < unat l. hmem h' (p + of_nat i) = hmem h (q + of_nat i)))"

lemma move_block:
  assumes ok: "heap_ok h bs" and q: "(q, kq) \<in> heap_allocs h bs" "unat l \<le> unat kq" and l: "unat l \<le> unat c"
    and km: "kmalloc (ucast c) h = Some (p, h1)" "p \<noteq> 0" "heap_ok h1 bs1"
      "heap_allocs h1 bs1 = insert (p, k) (heap_allocs h bs)" "p \<notin> fst ` heap_allocs h bs"
      "unat c \<le> unat k" "keeps_blocks h h1 (heap_allocs h bs)"
  shows "\<exists>h'. kfree q (h1\<lparr>hmem := mem_copy p q l (hmem h1)\<rparr>) = Some h' \<and>
    moved h (heap_allocs h bs) q l c p h'"
proof -
  let ?A = "heap_allocs h bs"
  define h2 where "h2 = h1\<lparr>hmem := mem_copy p q l (hmem h1)\<rparr>"
  have p1: "(p, k) \<in> heap_allocs h1 bs1" and q1: "(q, kq) \<in> heap_allocs h1 bs1" using km(4) q(1) by auto
  have "p \<noteq> q" using q(1) km(5) by force
  then have sep: "unat p + unat k + 17 \<le> unat q \<or> unat q + unat kq + 17 \<le> unat p"
    using blocks_apart [OF km(3) p1 q1] by simp
  have bd: "unat p + unat k < 2 ^ 63" "unat q + unat kq < 2 ^ 63"
    using block_bound [OF km(3) p1] block_bound [OF km(3) q1] by simp_all
  have cp: "hmem h2 x = (if unat p \<le> unat x \<and> unat x < unat p + unat l then hmem h1 (q + (x - p)) else hmem h1 x)" for x
  proof -
    have "unat q + unat l \<le> unat p \<or> unat p + unat l \<le> unat q" using sep l q(2) km(6) by linarith
    then show ?thesis
      using mem_copy_spec [of p l q "hmem h1" x] bd l q(2) km(6) by (simp add: h2_def)
  qed
  have out: "mem_copy p q l (hmem h1) x = hmem h1 x" if "unat x < unat p \<or> unat p + unat k \<le> unat x" for x
    using cp [of x] that l km(6) by (auto simp: h2_def)
  have ok2: "heap_ok h2 bs1" "heap_allocs h2 bs1 = heap_allocs h1 bs1"
    unfolding h2_def using write_heap [OF km(3) p1 out] by auto
  obtain h3 bs3 where f: "kfree q h2 = Some h3" "heap_ok h3 bs3"
    "heap_allocs h3 bs3 = heap_allocs h1 bs1 - {(q, kq)}" "keeps_blocks h2 h3 (heap_allocs h1 bs1)"
    using kfree_heap [OF ok2(1), of q kq] q1 unfolding ok2(2) by blast
  have other: "hmem h3 x = hmem h x"
    if r: "(r, j) \<in> ?A" "unat r \<le> unat x" "unat x < unat r + unat j" for r j x
  proof -
    have "r \<noteq> p" using r(1) km(5) by force
    then have "unat r + unat j + 17 \<le> unat p \<or> unat p + unat k + 17 \<le> unat r"
      using blocks_apart [OF km(3) _ p1, of r j] r(1) km(4) by auto
    then have "hmem h2 x = hmem h1 x" using cp [of x] r l km(6) by auto
    moreover have "hmem h3 x = hmem h2 x" using f(4) r km(4) unfolding keeps_blocks_def by blast
    moreover have "hmem h1 x = hmem h x" using km(7) r unfolding keeps_blocks_def by blast
    ultimately show ?thesis by simp
  qed
  have "hmem h3 (p + of_nat i) = hmem h (q + of_nat i)" if i: "i < unat l" for i
  proof -
    have u: "unat (p + of_nat i) = unat p + i" "unat (q + of_nat i) = unat q + i"
      using i bd l q(2) km(6) by (intro word_no_wrap; simp)+
    have "hmem h3 (p + of_nat i) = hmem h2 (p + of_nat i)"
      using keeps_blocksD [OF f(4) p1] u(1) i l km(6) by simp
    also have "\<dots> = hmem h1 (q + of_nat i)" using cp [of "p + of_nat i"] u(1) i by simp
    also have "\<dots> = hmem h (q + of_nat i)"
      using keeps_blocksD [OF km(7) q(1)] q(2) u(2) i by simp
    finally show ?thesis .
  qed
  moreover have "(p, k) \<in> heap_allocs h3 bs3" "\<forall>r j. (r, j) \<in> ?A \<and> r \<noteq> q \<longrightarrow> (r, j) \<in> heap_allocs h3 bs3"
    unfolding f(3) km(4) using \<open>p \<noteq> q\<close> by blast+
  ultimately have "moved h ?A q l c p h3"
    unfolding moved_def using f(2) km(2,5,6) other by blast
  then show ?thesis using f(1) unfolding h2_def by blast
qed

text \<open>The blocks \<open>bs\<close> of the heap witness \<open>mem_ok\<close>.\<close>

definition mem_blocks :: "vfs \<Rightarrow> u64 set \<Rightarrow> blocks \<Rightarrow> bool" where
  "mem_blocks s N bs \<longleftrightarrow> heap_ok (vheap s) bs \<and>
     (\<forall>n \<in> N. (\<exists>k. (n, k) \<in> heap_allocs (vheap s) bs) \<and>
        node_mem_ok (nodes s n) N (heap_allocs (vheap s) bs)) \<and>
     (\<forall>n \<in> N. \<forall>m \<in> N. n \<noteq> m \<and> ncontent (nodes s n) \<noteq> 0 \<longrightarrow> ncontent (nodes s n) \<noteq> ncontent (nodes s m))"

lemma mem_ok_blocks: "mem_ok s N \<longleftrightarrow> (\<exists>bs. mem_blocks s N bs)"
  by (simp add: mem_ok_def mem_blocks_def)

lemma content_block:
  assumes "mem_blocks s N bs" and "g \<in> N" and "ncontent (nodes s g) \<noteq> 0"
  obtains j where "(ncontent (nodes s g), j) \<in> heap_allocs (vheap s) bs"
    "unat (nlen (nodes s g)) < unat (ncap (nodes s g))" "unat (ncap (nodes s g)) \<le> unat j"
    "unat (ncontent (nodes s g)) + unat j < 2 ^ 63"
  using assms block_bound [of "vheap s" bs]
  by (fastforce simp: mem_blocks_def node_mem_ok_def word_less_nat_alt)

lemma no_content: "mem_blocks s N bs \<Longrightarrow> g \<in> N \<Longrightarrow> ncontent (nodes s g) = 0 \<Longrightarrow>
    nlen (nodes s g) = 0 \<and> ncap (nodes s g) = 0"
  by (auto simp: mem_blocks_def node_mem_ok_def)

text \<open>A file whose buffer bytes are kept has the same data.\<close>

lemma file_data_keep:
  assumes M: "mem_blocks s N bs" and g: "g \<in> N"
    and same: "ncontent (nodes s' g) = ncontent (nodes s g)" "nlen (nodes s' g) = nlen (nodes s g)"
    and keep: "\<And>j x. (ncontent (nodes s g), j) \<in> heap_allocs (vheap s) bs \<Longrightarrow>
      unat (ncontent (nodes s g)) \<le> unat x \<Longrightarrow>
      unat x < unat (ncontent (nodes s g)) + unat (nlen (nodes s g)) \<Longrightarrow>
      unat x < unat (ncontent (nodes s g)) + unat j \<Longrightarrow> hmem (vheap s') x = hmem (vheap s) x"
  shows "file_data s' g = file_data s g"
proof (cases "ncontent (nodes s g) = 0")
  case True
  then show ?thesis using no_content [OF M g] same by (simp add: file_data_def)
next
  case False
  show ?thesis
  proof (rule content_block [OF M g False], rule file_data_cong [OF same])
    fix j assume j: "(ncontent (nodes s g), j) \<in> heap_allocs (vheap s) bs"
      "unat (nlen (nodes s g)) < unat (ncap (nodes s g))" "unat (ncap (nodes s g)) \<le> unat j"
      "unat (ncontent (nodes s g)) + unat j < 2 ^ 63"
    show "hmem (vheap s') x = hmem (vheap s) x"
      if "unat (ncontent (nodes s g)) \<le> unat x"
        "unat x < unat (ncontent (nodes s g)) + unat (nlen (nodes s g))" for x
      using keep [OF j(1) that] that j(2,3) by linarith
    show "unat (ncontent (nodes s g)) + unat (nlen (nodes s g)) < 2 ^ 64" using j(2-4) by simp
  qed (use False in simp)
qed

lemma moved_ok:
  assumes M: "mem_blocks s N bs" and z: "0 \<notin> N" and f: "f \<in> N"
    and mv: "moved (vheap s) (heap_allocs (vheap s) bs) (ncontent (nodes s f)) (nlen (nodes s f)) c p h'"
    and fit: "nlen (nodes s f) < c"
  defines "s' \<equiv> (upd_node f (\<lambda>x. x\<lparr>ncontent := p, ncap := c\<rparr>) s)\<lparr>vheap := h'\<rparr>"
  shows "mem_ok s' N" and "\<And>g. g \<in> N \<Longrightarrow> file_data s' g = file_data s g"
proof -
  let ?A = "heap_allocs (vheap s) bs" and ?x = "nodes s f"
  obtain bs' k' where m: "heap_ok h' bs'" "p \<noteq> 0" "p \<notin> fst ` ?A" "unat c \<le> unat k'" "(p, k') \<in> heap_allocs h' bs'"
    "\<And>r j. (r, j) \<in> ?A \<Longrightarrow> r \<noteq> ncontent ?x \<Longrightarrow> (r, j) \<in> heap_allocs h' bs'"
    "\<And>r j x. (r, j) \<in> ?A \<Longrightarrow> r \<noteq> ncontent ?x \<Longrightarrow> unat r \<le> unat x \<Longrightarrow> unat x < unat r + unat j \<Longrightarrow>
       hmem h' x = hmem (vheap s) x"
    "\<And>i. i < unat (nlen ?x) \<Longrightarrow> hmem h' (p + of_nat i) = hmem (vheap s) (ncontent ?x + of_nat i)"
    using mv unfolding moved_def by blast
  have nf: "nodes s' g = (if g = f then ?x\<lparr>ncontent := p, ncap := c\<rparr> else nodes s g)" for g
    by (simp add: s'_def upd_node_def)
  have nd: "\<exists>k. (n, k) \<in> ?A" "node_mem_ok (nodes s n) N ?A" if "n \<in> N" for n
    using M that by (auto simp: mem_blocks_def)
  have dj: "ncontent (nodes s n) \<noteq> ncontent (nodes s m)"
    if "n \<in> N" "m \<in> N" "n \<noteq> m" "ncontent (nodes s n) \<noteq> 0" for n m
    using M that by (auto simp: mem_blocks_def)
  have cont: "ncontent (nodes s g) = 0 \<or> (\<exists>j. (ncontent (nodes s g), j) \<in> ?A) \<and> ncontent (nodes s g) \<notin> N"
    if "g \<in> N" for g using nd(2) [OF that] by (auto simp: node_mem_ok_def)
  have pN: "p \<notin> N" "\<And>g. g \<in> N \<Longrightarrow> ncontent (nodes s g) \<noteq> p"
    using nd(1) m(2,3) cont by (force, force)
  have keep: "\<exists>k. (n, k) \<in> heap_allocs h' bs'" if "n \<in> N" for n
  proof -
    have "n \<noteq> ncontent ?x" using cont [OF f] that z by auto
    then show ?thesis using nd(1) [OF that] m(6) by blast
  qed
  have "node_mem_ok (nodes s' n) N (heap_allocs h' bs')" if "n \<in> N" for n
  proof (cases "n = f")
    case True
    then show ?thesis using nf m(2,4,5) fit pN(1) by (auto simp: node_mem_ok_def)
  next
    case False
    then have d: "ncontent (nodes s n) \<noteq> 0 \<Longrightarrow> ncontent (nodes s n) \<noteq> ncontent ?x"
      using dj [OF that f] by blast
    show ?thesis using nd(2) [OF that] m(6) [OF _ d] False unfolding nf node_mem_ok_def
      by (simp split: if_splits) blast
  qed
  moreover have "ncontent (nodes s' n) \<noteq> ncontent (nodes s' m)"
    if "n \<in> N" "m \<in> N" "n \<noteq> m" "ncontent (nodes s' n) \<noteq> 0" for n m
    using dj [OF that(1-3)] pN(2) [OF that(1)] pN(2) [OF that(2)] that(3,4) unfolding nf
    by (auto split: if_splits)
  ultimately have "mem_blocks s' N bs'"
    unfolding mem_blocks_def using m(1) keep by (auto simp: s'_def)
  then show "mem_ok s' N" by (auto simp: mem_ok_blocks)
  show "file_data s' g = file_data s g" if g: "g \<in> N" for g
  proof (cases "g = f")
    case True
    then show ?thesis
      using m(8) nf [of f] by (simp add: file_data_def read_bytes_eq_map s'_def)
  next
    case False
    show ?thesis
    proof (rule file_data_keep [OF M g])
      fix j x :: u64
      assume x: "(ncontent (nodes s g), j) \<in> ?A" "unat (ncontent (nodes s g)) \<le> unat x"
        "unat x < unat (ncontent (nodes s g)) + unat j"
      have "ncontent (nodes s g) \<noteq> 0" using x(1) block_bound [of "vheap s" bs] M by (fastforce simp: mem_blocks_def)
      then show "hmem (vheap s') x = hmem (vheap s) x"
        using m(7) [OF x(1) _ x(2,3)] dj [OF g f False] by (simp add: s'_def)
    qed (use False nf in auto)
  qed
qed

lemma ensure_cap_spec:
  assumes ok: "vfs_ok s N ch" and f: "f \<in> N" and need: "0 < unat need" "unat need \<le> 2 ^ 31"
  shows "\<exists>b s'. ensure_cap f need s = Some (b, s') \<and> vfs_ok s' N ch \<and> same_tree s s' \<and>
    (\<forall>g \<in> N. file_data s' g = file_data s g \<and> nlen (nodes s' g) = nlen (nodes s g)) \<and>
    (if b then need \<le> ncap (nodes s' f) \<and> ncontent (nodes s' f) \<noteq> 0 else s' = s)"
proof -
  obtain bs where M: "mem_blocks s N bs" using ok by (auto simp: vfs_ok_def mem_ok_blocks)
  let ?A = "heap_allocs (vheap s) bs" and ?x = "nodes s f"
  have bs: "heap_ok (vheap s) bs" using M by (simp add: mem_blocks_def)
  have z: "0 \<notin> N" using ok by (simp add: vfs_ok_def tree_ok_def)
  show ?thesis
  proof (cases "need \<le> ncap ?x")
    case True
    then have "ncap ?x \<noteq> 0" using need(1) by (auto simp: word_le_nat_alt)
    then have "ncontent ?x \<noteq> 0" using no_content [OF M f] by auto
    then show ?thesis using True ok by (auto simp: ensure_cap_def)
  next
    case False
    have "0 < unat (if ncap ?x = 0 then 64 else ncap ?x)" by (auto simp: unat_gt_0)
    then obtain c where c: "grow_cap need (if ncap ?x = 0 then 64 else ncap ?x) = Some c" "need \<le> c" "c \<noteq> 0"
      using grow_cap_some [OF _ need(2)] by blast
    have fit: "nlen ?x < c"
    proof (cases "ncontent ?x = 0")
      case True
      then show ?thesis using no_content [OF M f] c(3) by (simp add: word_neq_0_conv)
    next
      case nz: False
      show ?thesis
        by (rule content_block [OF M f nz]) (use False c(2) in \<open>simp add: word_less_nat_alt word_le_nat_alt\<close>)
    qed
    from kmalloc_heap [OF bs, of "ucast c"] show ?thesis
    proof (elim disjE exE conjE)
      assume "kmalloc (ucast c) (vheap s) = Some (0, vheap s)"
      then have "ensure_cap f need s = Some (False, s)" using False c(1) by (simp add: ensure_cap_def)
      then show ?thesis using ok by auto
    next
      fix p h1 bs1 k
      assume km: "kmalloc (ucast c) (vheap s) = Some (p, h1)" "p \<noteq> 0" "heap_ok h1 bs1"
        "heap_allocs h1 bs1 = insert (p, k) ?A" "p \<notin> fst ` ?A" "heap_need (ucast c) \<le> unat k"
        "keeps_blocks (vheap s) h1 ?A"
      note ck = km(6) [unfolded heap_need_32]
      have "\<exists>h'. ensure_cap f need s =
          Some (True, (upd_node f (\<lambda>x. x\<lparr>ncontent := p, ncap := c\<rparr>) s)\<lparr>vheap := h'\<rparr>) \<and>
          moved (vheap s) ?A (ncontent ?x) (nlen ?x) c p h'"
      proof (cases "ncontent ?x = 0")
        case True
        then have "moved (vheap s) ?A (ncontent ?x) (nlen ?x) c p h1"
          unfolding moved_def using km(2-5,7) ck no_content [OF M f True]
          by (intro exI [of _ bs1] exI [of _ k]) (auto simp: keeps_blocks_def)
        then show ?thesis using False True c(1) km(1,2) by (auto simp: ensure_cap_def)
      next
        case nz: False
        then obtain kq where q: "(ncontent ?x, kq) \<in> ?A" "unat (nlen ?x) \<le> unat kq"
          by (rule content_block [OF M f]) simp
        have "unat (nlen ?x) \<le> unat c" using fit by (simp add: word_less_nat_alt)
        then show ?thesis
          using move_block [OF bs q _ km(1-5) ck km(7)] False nz c(1) km(1,2)
          by (auto simp: ensure_cap_def)
      qed
      then obtain h' where e: "ensure_cap f need s =
          Some (True, (upd_node f (\<lambda>x. x\<lparr>ncontent := p, ncap := c\<rparr>) s)\<lparr>vheap := h'\<rparr>)"
        and mv: "moved (vheap s) ?A (ncontent ?x) (nlen ?x) c p h'" by blast
      let ?s = "(upd_node f (\<lambda>x. x\<lparr>ncontent := p, ncap := c\<rparr>) s)\<lparr>vheap := h'\<rparr>"
      have st: "same_tree s ?s" by (simp add: same_tree_def upd_node_def)
      have "vfs_ok ?s N ch"
        using moved_ok(1) [OF M z f mv fit] same_tree_ok [OF st] ok by (simp add: vfs_ok_def)
      then show ?thesis
        using e st moved_ok(2) [OF M z f mv fit] c(2) km(2) by (auto simp: upd_node_def)
    qed
  qed
qed

section \<open>Writing into a buffer\<close>

lemma mem_blocks_bytes:
  assumes M: "mem_blocks s N bs" and f: "f \<in> N" and c: "ncontent (nodes s f) \<noteq> 0"
    and l: "l < ncap (nodes s f)"
    and out: "\<And>x. unat x < unat (ncontent (nodes s f)) \<or>
        unat (ncontent (nodes s f)) + unat (ncap (nodes s f)) \<le> unat x \<Longrightarrow> m' x = hmem (vheap s) x"
  defines "s' \<equiv> (upd_node f (\<lambda>x. x\<lparr>nlen := l\<rparr>) s)\<lparr>vheap := (vheap s)\<lparr>hmem := m'\<rparr>\<rparr>"
  shows "mem_ok s' N" and "\<And>g. g \<in> N \<Longrightarrow> g \<noteq> f \<Longrightarrow> file_data s' g = file_data s g"
    and "same_tree s s'"
proof -
  have bs: "heap_ok (vheap s) bs" using M by (simp add: mem_blocks_def)
  obtain j where j: "(ncontent (nodes s f), j) \<in> heap_allocs (vheap s) bs"
    "unat (ncap (nodes s f)) \<le> unat j" by (rule content_block [OF M f c]) simp
  have out2: "m' x = hmem (vheap s) x"
    if "unat x < unat (ncontent (nodes s f)) \<or> unat (ncontent (nodes s f)) + unat j \<le> unat x" for x
    using that j(2) by (intro out) linarith
  have H: "heap_ok ((vheap s)\<lparr>hmem := m'\<rparr>) bs"
    "heap_allocs ((vheap s)\<lparr>hmem := m'\<rparr>) bs = heap_allocs (vheap s) bs"
    using write_heap [OF bs j(1) out2] by blast+
  have nf: "nodes s' g = (if g = f then (nodes s f)\<lparr>nlen := l\<rparr> else nodes s g)" for g
    by (simp add: s'_def upd_node_def)
  show "same_tree s s'" by (simp add: same_tree_def nf) (simp add: s'_def upd_node_def)
  have "node_mem_ok (nodes s' n) N (heap_allocs (vheap s) bs)" if "n \<in> N" for n
    using M that l c by (auto simp: nf mem_blocks_def node_mem_ok_def)
  moreover have "ncontent (nodes s' n) = ncontent (nodes s n)" for n by (simp add: nf)
  ultimately have "mem_blocks s' N bs"
    using M H by (simp add: mem_blocks_def s'_def)
  then show "mem_ok s' N" by (auto simp: mem_ok_blocks)
  show "file_data s' g = file_data s g" if g: "g \<in> N" "g \<noteq> f" for g
  proof (rule file_data_keep [OF M g(1)])
    fix i and x :: u64
    assume x: "(ncontent (nodes s g), i) \<in> heap_allocs (vheap s) bs" "unat (ncontent (nodes s g)) \<le> unat x"
      "unat x < unat (ncontent (nodes s g)) + unat i"
    have "ncontent (nodes s g) \<noteq> ncontent (nodes s f)"
      using M f g c unfolding mem_blocks_def by metis
    then have "unat (ncontent (nodes s g)) + unat i + 17 \<le> unat (ncontent (nodes s f)) \<or>
        unat (ncontent (nodes s f)) + unat j + 17 \<le> unat (ncontent (nodes s g))"
      using blocks_apart [OF bs x(1) j(1)] by simp
    then have "m' x = hmem (vheap s) x" using x(2,3) j(2) by (intro out) linarith
    then show "hmem (vheap s') x = hmem (vheap s) x" by (simp add: s'_def)
  qed (simp_all add: nf g)
qed

lemma write_bytes_at:
  assumes "unat a + length bs < 2 ^ 64"
  shows "write_bytes m a bs x =
    (if unat a \<le> unat x \<and> unat x < unat a + length bs then bs ! (unat x - unat a) else m x)"
proof (cases "unat a \<le> unat x \<and> unat x < unat a + length bs")
  case True
  have "unat (a + of_nat (unat x - unat a)) = unat a + (unat x - unat a)"
    using True assms by (intro word_no_wrap) simp
  then have "x = a + of_nat (unat x - unat a)" using True by (simp add: word_unat_eq_iff)
  moreover have "unat x - unat a < length bs" using True by linarith
  ultimately show ?thesis
    using True assms write_bytes_inside [of "unat x - unat a" bs m a] by simp
next
  case False
  have "\<not> in_run x a (length bs)"
    using False not_in_run_nat [of "unat a" "length bs" "unat x"] assms unat_lt_64 [of x] by auto
  then have "write_bytes m a bs x = m x" using assms by (intro write_bytes_outside) auto
  then show ?thesis using False by auto
qed

lemma poke_spec:
  assumes ok: "vfs_ok s N ch" and f: "f \<in> N" and c: "ncontent (nodes s f) \<noteq> 0"
    and l: "l < ncap (nodes s f)" and fit: "off + length bs \<le> unat (ncap (nodes s f))"
  defines "s' \<equiv> upd_node f (\<lambda>x. x\<lparr>nlen := l\<rparr>) (poke (ncontent (nodes s f) + of_nat off) bs s)"
  shows "vfs_ok s' N ch \<and> same_tree s s' \<and> (\<forall>g \<in> N. g \<noteq> f \<longrightarrow> file_data s' g = file_data s g) \<and>
    (\<forall>i < unat (ncap (nodes s f)). hmem (vheap s') (ncontent (nodes s f) + of_nat i) =
       (if off \<le> i \<and> i < off + length bs then bs ! (i - off)
        else hmem (vheap s) (ncontent (nodes s f) + of_nat i)))"
proof -
  obtain bl where M: "mem_blocks s N bl" using ok by (auto simp: vfs_ok_def mem_ok_blocks)
  let ?c = "ncontent (nodes s f)" and ?k = "unat (ncap (nodes s f))"
  have b: "unat ?c + ?k < 2 ^ 63" by (rule content_block [OF M f c]) simp
  define m' where "m' = write_bytes (hmem (vheap s)) (?c + of_nat off) bs"
  have u: "unat (?c + of_nat off) = unat ?c + off" using fit b by (intro word_no_wrap) simp
  have w: "m' x = (if unat ?c + off \<le> unat x \<and> unat x < unat ?c + off + length bs
      then bs ! (unat x - (unat ?c + off)) else hmem (vheap s) x)" for x
    unfolding m'_def using fit b by (subst write_bytes_at) (simp_all add: u)
  have s': "s' = (upd_node f (\<lambda>x. x\<lparr>nlen := l\<rparr>) s)\<lparr>vheap := (vheap s)\<lparr>hmem := m'\<rparr>\<rparr>"
    by (simp add: s'_def poke_def upd_node_def m'_def)
  have out: "m' x = hmem (vheap s) x" if "unat x < unat ?c \<or> unat ?c + ?k \<le> unat x" for x
    using w [of x] that fit by auto
  note B = mem_blocks_bytes [OF M f c l out, folded s']
  have "vfs_ok s' N ch" using B(1) same_tree_ok [OF B(3)] ok by (simp add: vfs_ok_def)
  moreover have "hmem (vheap s') (?c + of_nat i) =
       (if off \<le> i \<and> i < off + length bs then bs ! (i - off) else hmem (vheap s) (?c + of_nat i))"
    if "i < ?k" for i
  proof -
    have "unat (?c + of_nat i) = unat ?c + i" using that b by (intro word_no_wrap) simp
    then show ?thesis using w [of "?c + of_nat i"] by (simp add: s')
  qed
  ultimately show ?thesis using B(2,3) by blast
qed

lemma file_data_bytes:
  "file_data s f = map (\<lambda>i. hmem (vheap s) (ncontent (nodes s f) + of_nat i)) [0..<unat (nlen (nodes s f))]"
  by (simp add: file_data_def read_bytes_eq_map)

lemma length_file_data [simp]: "length (file_data s f) = unat (nlen (nodes s f))"
  by (simp add: file_data_def)

lemma vfs_write_spec:
  assumes ok: "vfs_ok s N ch" and f: "f \<in> N" and k: "nkind (nodes s f) = VFS_FILE"
    and len: "unat len < 2 ^ 31" "unat len \<le> length data"
  shows "\<exists>b s'. vfs_write f data len s = Some (b, s') \<and> vfs_ok s' N ch \<and> same_tree s s' \<and>
    (\<forall>g \<in> N. g \<noteq> f \<longrightarrow> file_data s' g = file_data s g) \<and>
    (if b then file_data s' f = take (unat len) data else s' = s)"
proof -
  have f0: "f \<noteq> 0" using ok f by (auto simp: vfs_ok_def tree_ok_def)
  have u: "unat (len + 1) = unat len + 1" using len(1) by (simp add: unat_word_ariths)
  obtain b s1 where e: "ensure_cap f (len + 1) s = Some (b, s1)" "vfs_ok s1 N ch" "same_tree s s1"
    "\<forall>g \<in> N. file_data s1 g = file_data s g \<and> nlen (nodes s1 g) = nlen (nodes s g)"
    "if b then len + 1 \<le> ncap (nodes s1 f) \<and> ncontent (nodes s1 f) \<noteq> 0 else s1 = s"
    using ensure_cap_spec [OF ok f, of "len + 1"] len(1) u by auto
  show ?thesis
  proof (cases b)
    case False
    then show ?thesis using e f0 k ok by (auto simp: vfs_write_def)
  next
    case True
    then have c: "ncontent (nodes s1 f) \<noteq> 0" and cap: "unat len + 1 \<le> unat (ncap (nodes s1 f))"
      using e(5) u by (auto simp: word_le_nat_alt)
    have lc: "len < ncap (nodes s1 f)" using cap by (simp add: word_less_nat_alt)
    let ?d = "take (unat len) data @ [0]"
    define s' where "s' = upd_node f (\<lambda>x. x\<lparr>nlen := len\<rparr>) (poke (ncontent (nodes s1 f)) ?d s1)"
    have P: "vfs_ok s' N ch \<and> same_tree s1 s' \<and> (\<forall>g \<in> N. g \<noteq> f \<longrightarrow> file_data s' g = file_data s1 g) \<and>
      (\<forall>i < unat (ncap (nodes s1 f)). hmem (vheap s') (ncontent (nodes s1 f) + of_nat i) =
         (if i < length ?d then ?d ! i else hmem (vheap s1) (ncontent (nodes s1 f) + of_nat i)))"
      using poke_spec [OF e(2) f c lc, of 0 ?d] cap len(2) unfolding s'_def by simp
    have "ncontent (nodes s' f) = ncontent (nodes s1 f)" "nlen (nodes s' f) = len"
      by (simp_all add: s'_def upd_node_def poke_def)
    then have "file_data s' f = map (\<lambda>i. ?d ! i) [0..<unat len]"
      using P cap len(2) by (auto simp: file_data_bytes)
    also have "\<dots> = take (unat len) data"
      using len(2) by (intro nth_equalityI) (auto simp: nth_append)
    finally have "file_data s' f = take (unat len) data" .
    then show ?thesis
      using P True e f0 k same_tree_trans [OF e(3)] by (auto simp: vfs_write_def s'_def)
  qed
qed

lemma ucast_as_of_nat: "(ucast (x :: u32) :: u64) = of_nat (unat x)"
  using unat_lt_32 [of x] by (simp add: word_unat_eq_iff unat_zext_64 unat_of_nat)

lemma poke_two: "poke (a + 1) [y] (poke a [x] s) = poke a [x, y] s"
  by (simp add: poke_def)

lemma vfs_append_spec:
  assumes ok: "vfs_ok s N ch" and f: "f \<in> N" and k: "nkind (nodes s f) = VFS_FILE"
    and len: "unat (nlen (nodes s f)) < 2 ^ 31 - 1"
  shows "\<exists>b s'. vfs_append_char f c s = Some (b, s') \<and> vfs_ok s' N ch \<and> same_tree s s' \<and>
    (\<forall>g \<in> N. g \<noteq> f \<longrightarrow> file_data s' g = file_data s g) \<and>
    (if b then file_data s' f = file_data s f @ [c] else s' = s)"
proof -
  let ?l = "nlen (nodes s f)"
  have f0: "f \<noteq> 0" using ok f by (auto simp: vfs_ok_def tree_ok_def)
  have u: "unat (?l + 2) = unat ?l + 2" "unat (?l + 1) = unat ?l + 1" using len by (simp_all add: unat_word_ariths)
  obtain b s1 where e: "ensure_cap f (?l + 2) s = Some (b, s1)" "vfs_ok s1 N ch" "same_tree s s1"
    "\<forall>g \<in> N. file_data s1 g = file_data s g \<and> nlen (nodes s1 g) = nlen (nodes s g)"
    "if b then ?l + 2 \<le> ncap (nodes s1 f) \<and> ncontent (nodes s1 f) \<noteq> 0 else s1 = s"
    using ensure_cap_spec [OF ok f, of "?l + 2"] len u by auto
  show ?thesis
  proof (cases b)
    case False
    then show ?thesis using e f0 k ok by (auto simp: vfs_append_char_def)
  next
    case True
    let ?p = "ncontent (nodes s1 f)"
    have c: "?p \<noteq> 0" and cap: "unat ?l + 2 \<le> unat (ncap (nodes s1 f))" and l1: "nlen (nodes s1 f) = ?l"
      using e(4,5) True u f by (auto simp: word_le_nat_alt)
    have lc: "?l + 1 < ncap (nodes s1 f)" using cap u by (simp add: word_less_nat_alt)
    have a0: "?p + ucast ?l = ?p + of_nat (unat ?l)" by (simp only: ucast_as_of_nat)
    have a1: "?p + ucast (?l + 1) = ?p + of_nat (unat ?l) + 1"
      unfolding ucast_as_of_nat u(2) by (simp only: of_nat_add of_nat_1 add.assoc)
    define s' where "s' = upd_node f (\<lambda>x. x\<lparr>nlen := ?l + 1\<rparr>) (poke (?p + of_nat (unat ?l)) [c, 0] s1)"
    have r: "vfs_append_char f c s = Some (True, s')"
      unfolding s'_def poke_two [symmetric] a0 [symmetric] a1 [symmetric, unfolded a0 [symmetric]]
      using e(1) True f0 k l1 by (simp add: vfs_append_char_def Let_def)
    have P: "vfs_ok s' N ch \<and> same_tree s1 s' \<and> (\<forall>g \<in> N. g \<noteq> f \<longrightarrow> file_data s' g = file_data s1 g) \<and>
      (\<forall>i < unat (ncap (nodes s1 f)). hmem (vheap s') (?p + of_nat i) =
         (if unat ?l \<le> i \<and> i < unat ?l + length [c, 0] then [c, 0] ! (i - unat ?l)
          else hmem (vheap s1) (?p + of_nat i)))"
      using poke_spec [OF e(2) f c lc, of "unat ?l" "[c, 0]"] cap unfolding s'_def by simp
    have "ncontent (nodes s' f) = ?p" "nlen (nodes s' f) = ?l + 1" by (simp_all add: s'_def upd_node_def poke_def)
    moreover have "hmem (vheap s') (?p + of_nat i) = (if i = unat ?l then c else hmem (vheap s1) (?p + of_nat i))"
      if "i < Suc (unat ?l)" for i using P cap that by auto
    ultimately have "file_data s' f = map (\<lambda>i. if i = unat ?l then c else hmem (vheap s1) (?p + of_nat i)) [0..<Suc (unat ?l)]"
      by (simp add: file_data_bytes u(2) del: of_nat_unat upt_Suc)
    then have "file_data s' f = file_data s1 f @ [c]" by (simp add: file_data_bytes l1)
    then show ?thesis
      using P r e(4) f same_tree_trans [OF e(3)] by auto
  qed
qed

lemma vfs_pop_spec:
  assumes ok: "vfs_ok s N ch" and f: "f \<in> N" and k: "nkind (nodes s f) = VFS_FILE"
    and r: "vfs_pop_char f s = (b, s')"
  shows "vfs_ok s' N ch \<and> same_tree s s' \<and> (\<forall>g \<in> N. g \<noteq> f \<longrightarrow> file_data s' g = file_data s g) \<and>
    b = (file_data s f \<noteq> []) \<and> file_data s' f = butlast (file_data s f)"
proof -
  let ?l = "nlen (nodes s f)" and ?p = "ncontent (nodes s f)"
  have f0: "f \<noteq> 0" using ok f by (auto simp: vfs_ok_def tree_ok_def)
  obtain bl where M: "mem_blocks s N bl" using ok by (auto simp: vfs_ok_def mem_ok_blocks)
  show ?thesis
  proof (cases "?l = 0")
    case True
    then have "file_data s f = []" by (simp add: file_data_def)
    then show ?thesis using True r k ok by (auto simp: vfs_pop_char_def)
  next
    case False
    then have c: "?p \<noteq> 0" using no_content [OF M f] by auto
    have u: "unat (?l - 1) = unat ?l - 1" "0 < unat ?l" using False by (simp_all add: unat_minus_one unat_gt_0)
    have cap: "unat ?l < unat (ncap (nodes s f))" by (rule content_block [OF M f c]) simp
    have lc: "?l - 1 < ncap (nodes s f)" using cap u by (simp add: word_less_nat_alt)
    have "s' = upd_node f (\<lambda>x. x\<lparr>nlen := ?l - 1\<rparr>) (poke (?p + ucast (?l - 1)) [0] s)" and "b"
      using r f0 k False c by (cases s; simp add: vfs_pop_char_def Let_def poke_def upd_node_def)+
    then have s': "s' = upd_node f (\<lambda>x. x\<lparr>nlen := ?l - 1\<rparr>) (poke (?p + of_nat (unat (?l - 1))) [0] s)"
      by (simp only: ucast_as_of_nat)
    have P: "vfs_ok s' N ch \<and> same_tree s s' \<and> (\<forall>g \<in> N. g \<noteq> f \<longrightarrow> file_data s' g = file_data s g) \<and>
      (\<forall>i < unat (ncap (nodes s f)). hmem (vheap s') (?p + of_nat i) =
         (if unat (?l - 1) \<le> i \<and> i < unat (?l - 1) + length [0 :: u8] then [0] ! (i - unat (?l - 1))
          else hmem (vheap s) (?p + of_nat i)))"
      unfolding s' by (rule poke_spec [OF ok f c lc]) (use cap u in simp)
    have "ncontent (nodes s' f) = ?p" "nlen (nodes s' f) = ?l - 1"
      by (simp_all add: s' upd_node_def poke_def)
    then have "file_data s' f = map (\<lambda>i. hmem (vheap s) (?p + of_nat i)) [0..<unat ?l - 1]"
      using P cap u by (auto simp: file_data_bytes)
    also have "\<dots> = butlast (file_data s f)"
      using u(2) by (cases "unat ?l") (simp_all add: file_data_bytes)
    finally have d: "file_data s' f = butlast (file_data s f)" .
    have "file_data s f \<noteq> []" using u(2) by (simp flip: length_greater_0_conv)
    then show ?thesis using P d \<open>b\<close> by auto
  qed
qed

section \<open>New nodes\<close>

definition child_fields :: "u64 \<Rightarrow> vfs \<Rightarrow> vfs \<Rightarrow> bool" where
  "child_fields n s s' \<longleftrightarrow> g_root s' = g_root s \<and> vheap s' = vheap s \<and>
     (\<forall>m. nname (nodes s' m) = nname (nodes s m) \<and> nkind (nodes s' m) = nkind (nodes s m) \<and>
        nparent (nodes s' m) = nparent (nodes s m) \<and> ncontent (nodes s' m) = ncontent (nodes s m) \<and>
        nlen (nodes s' m) = nlen (nodes s m) \<and> ncap (nodes s' m) = ncap (nodes s m) \<and>
        nexec (nodes s' m) = nexec (nodes s m))"

lemma append_child_chain:
  assumes c: "chain (nodes s) (first_child (nodes s d)) xs" and "distinct xs" and "n \<notin> set xs"
    and "n \<noteq> 0" and "d \<noteq> 0" and "nnext (nodes s n) = 0"
  shows "\<exists>s'. append_child d n s = Some s' \<and> child_fields n s s' \<and>
    chain (nodes s') (first_child (nodes s' d)) (xs @ [n]) \<and>
    (\<forall>m. m \<noteq> d \<longrightarrow> first_child (nodes s' m) = first_child (nodes s m)) \<and>
    (\<forall>m. m \<notin> set xs \<longrightarrow> nnext (nodes s' m) = nnext (nodes s m))"
proof (cases "xs = []")
  case True
  then have "append_child d n s = Some (upd_node d (\<lambda>x. x\<lparr>first_child := n\<rparr>) s)"
    using c \<open>d \<noteq> 0\<close> by (simp add: append_child_def)
  then show ?thesis using True assms(4,6) by (auto simp: upd_node_def child_fields_def)
next
  case False
  let ?l = "last xs"
  have "first_child (nodes s d) \<noteq> 0" using chain_hd [OF c] False by simp
  then have e: "append_child d n s = Some (upd_node ?l (\<lambda>x. x\<lparr>nnext := n\<rparr>) s)"
    using last_sibling_chain [OF c False] \<open>d \<noteq> 0\<close> by (simp add: append_child_def)
  have l: "?l \<in> set xs" using False by simp
  have "chain (nodes (upd_node ?l (\<lambda>x. x\<lparr>nnext := n\<rparr>) s)) (first_child (nodes s d)) (xs @ [n])"
    using chain_snoc [OF c assms(2) False assms(3,4,6)] by (simp add: upd_node_def)
  then show ?thesis using e l False by (auto simp: upd_node_def child_fields_def)
qed

lemma tree_ok_append:
  assumes T: "tree_ok s N ch" and d: "d \<in> N" "nkind (nodes s d) = VFS_DIR" and n: "n \<notin> N" "n \<noteq> 0"
    and x: "nodes s n = new_node nm k d"
  shows "\<exists>s'. append_child d n s = Some s' \<and> child_fields n s s' \<and>
    tree_ok s' (insert n N) (ch(d := ch d @ [n], n := []))"
proof -
  have ch: "chain (nodes s) (first_child (nodes s e)) (ch e)" "set (ch e) \<subseteq> N" "distinct (ch e)"
    "ch e \<noteq> [] \<longrightarrow> nkind (nodes s e) = VFS_DIR" "length (nname (nodes s e)) \<le> 31"
    "\<And>c. c \<in> set (ch e) \<Longrightarrow> nparent (nodes s c) = e \<and> c \<noteq> g_root s" if "e \<in> N" for e
    using T that by (auto simp: tree_ok_def)
  have r: "g_root s \<in> N" "0 \<notin> N" using T by (simp_all add: tree_ok_def)
  have x': "nnext (nodes s n) = 0" "first_child (nodes s n) = 0" "nparent (nodes s n) = d"
    "length (nname (nodes s n)) \<le> 31"
    using x by (simp_all add: new_node_def str_copy_n_def NAME_CAP_def)
  have dn: "d \<noteq> 0" "n \<notin> set (ch d)" using d(1) r ch(2) [OF d(1)] n by auto
  obtain s' where s': "append_child d n s = Some s'" "child_fields n s s'"
    "chain (nodes s') (first_child (nodes s' d)) (ch d @ [n])"
    "\<forall>m. m \<noteq> d \<longrightarrow> first_child (nodes s' m) = first_child (nodes s m)"
    "\<forall>m. m \<notin> set (ch d) \<longrightarrow> nnext (nodes s' m) = nnext (nodes s m)"
    using append_child_chain [OF ch(1) [OF d(1)] ch(3) [OF d(1)] dn(2) n(2) dn(1) x'(1)] by blast
  have f: "nname (nodes s' m) = nname (nodes s m)" "nkind (nodes s' m) = nkind (nodes s m)"
    "nparent (nodes s' m) = nparent (nodes s m)" "g_root s' = g_root s" for m
    using s'(2) by (simp_all add: child_fields_def)
  let ?ch = "ch(d := ch d @ [n], n := [])"
  have nd: "n \<noteq> d" using n(1) d(1) by auto
  have chain: "chain (nodes s') (first_child (nodes s' e)) (?ch e)" if e: "e \<in> insert n N" for e
  proof (cases "e = n \<or> e = d")
    case True
    then show ?thesis using s'(3,4) nd x'(2) by auto
  next
    case False
    then have eN: "e \<in> N" using e by auto
    have "m \<notin> set (ch d)" if "m \<in> set (ch e)" for m
      using that ch(6) [OF eN that] ch(6) [OF d(1)] False by auto
    then have "chain (nodes s') (first_child (nodes s e)) (ch e)"
      using ch(1) [OF eN] s'(5) chain_cong [of "ch e" "nodes s'" "nodes s"] by auto
    then show ?thesis using False s'(4) by simp
  qed
  have node: "set (?ch e) \<subseteq> insert n N" "distinct (?ch e)"
    "?ch e \<noteq> [] \<longrightarrow> nkind (nodes s' e) = VFS_DIR" "length (nname (nodes s' e)) \<le> 31"
    if "e \<in> insert n N" for e
    using that ch(2-5) [of e] d dn(2) x'(4) by (auto simp: f)
  have kids: "nparent (nodes s' c) = e \<and> c \<noteq> g_root s'" if e: "e \<in> insert n N" and c: "c \<in> set (?ch e)" for e c
  proof (cases "c = n")
    case True
    then have "e = d" using e c n(1) ch(2) [of e] by (auto split: if_splits)
    then show ?thesis using True x'(3) r(1) n(1) by (auto simp: f)
  next
    case False
    then have "c \<in> set (ch e)" "e \<in> N" using e c by (auto split: if_splits)
    then show ?thesis using ch(6) [of e c] by (simp add: f)
  qed
  have "tree_ok s' (insert n N) ?ch"
    unfolding tree_ok_def using chain node kids r n(2) f(4) by simp
  then show ?thesis using s' by blast
qed

text \<open>A fresh block for a node, before the node is linked into the tree.\<close>

lemma mem_ok_new:
  assumes M: "mem_blocks s N bs" and al: "heap_ok h bs'" "heap_allocs h bs' = insert (n, k) (heap_allocs (vheap s) bs)"
    "n \<notin> fst ` heap_allocs (vheap s) bs" "keeps_blocks (vheap s) h (heap_allocs (vheap s) bs)"
    and x: "ncontent x = 0" "ncap x = 0" "nlen x = 0"
    and s': "vheap s' = h" "nodes s' n = x"
      "\<And>m. m \<noteq> n \<Longrightarrow> ncontent (nodes s' m) = ncontent (nodes s m) \<and> nlen (nodes s' m) = nlen (nodes s m) \<and>
         ncap (nodes s' m) = ncap (nodes s m)"
  shows "mem_ok s' (insert n N)" and "mem_ok s' N" and "n \<notin> N"
    and "\<And>g. g \<in> N \<Longrightarrow> file_data s' g = file_data s g"
proof -
  let ?A = "heap_allocs (vheap s) bs"
  have nd: "\<exists>k. (m, k) \<in> ?A" "node_mem_ok (nodes s m) N ?A" if "m \<in> N" for m
    using M that by (auto simp: mem_blocks_def)
  show nN: "n \<notin> N" using nd(1) al(3) by force
  have dj: "ncontent (nodes s m) \<noteq> ncontent (nodes s m')"
    if "m \<in> N" "m' \<in> N" "m \<noteq> m'" "ncontent (nodes s m) \<noteq> 0" for m m'
    using M that by (auto simp: mem_blocks_def)
  have cont: "ncontent (nodes s m) \<noteq> n \<or> ncontent (nodes s m) = 0" if "m \<in> N" for m
    using nd(2) [OF that] al(3) by (force simp: node_mem_ok_def)
  have same: "ncontent (nodes s' m) = ncontent (nodes s m)" "nlen (nodes s' m) = nlen (nodes s m)"
    "ncap (nodes s' m) = ncap (nodes s m)" if "m \<in> N" for m
    using s'(3) [of m] that nN by auto
  have A: "heap_allocs (vheap s') bs' = insert (n, k) ?A" by (simp add: s'(1) al(2))
  have old: "node_mem_ok (nodes s' m) (insert n N) (insert (n, k) ?A)" if "m \<in> N" for m
    using nd(2) [OF that] cont [OF that] by (auto simp: node_mem_ok_def same [OF that])
  have old': "node_mem_ok (nodes s' m) N (insert (n, k) ?A)" if "m \<in> N" for m
    using nd(2) [OF that] by (auto simp: node_mem_ok_def same [OF that])
  have blk: "\<exists>j. (m, j) \<in> insert (n, k) ?A" if "m \<in> insert n N" for m
    using nd(1) [of m] that by blast
  have new: "node_mem_ok (nodes s' n) (insert n N) (insert (n, k) ?A)"
    using x by (simp add: node_mem_ok_def s'(2))
  have dj': "ncontent (nodes s' m) \<noteq> ncontent (nodes s' m')"
    if "m \<in> insert n N" "m' \<in> insert n N" "m \<noteq> m'" "ncontent (nodes s' m) \<noteq> 0" for m m'
    using that dj [of m m'] same x(1) s'(2) by (cases "m = n"; cases "m' = n") auto
  have "heap_ok (vheap s') bs'" using al(1) by (simp add: s'(1))
  then have "mem_blocks s' (insert n N) bs'" and "mem_blocks s' N bs'"
    unfolding mem_blocks_def A using blk old old' new dj' by (blast, blast)
  then show "mem_ok s' (insert n N)" "mem_ok s' N" by (auto simp: mem_ok_blocks)
  show "file_data s' g = file_data s g" if g: "g \<in> N" for g
    by (rule file_data_keep [OF M g]) (use same [OF g] keeps_blocksD [OF al(4)] s'(1) in auto)
qed


lemma tree_ok_frame:
  assumes "tree_ok s N ch" and "\<And>m. m \<in> N \<Longrightarrow> nodes s' m = nodes s m" and "g_root s' = g_root s"
  shows "tree_ok s' N ch"
proof -
  have "chain (nodes s') (first_child (nodes s' d)) (ch d)" if "d \<in> N" for d
    using assms(1,2) that chain_cong [of "ch d" "nodes s'" "nodes s"] by (auto simp: tree_ok_def subset_iff)
  then show ?thesis using assms unfolding tree_ok_def by (auto simp: subset_iff)
qed

lemma tree_ok_orphan:
  assumes T: "tree_ok s N ch" and n: "n \<notin> N" "n \<noteq> 0" and x: "nodes s n = new_node nm k 0"
  shows "tree_ok s (insert n N) (ch(n := []))"
  using assms unfolding tree_ok_def
  by (auto simp: new_node_def str_copy_n_def NAME_CAP_def)

text \<open>The children of the store after \<open>alloc_node\<close> made node \<open>n\<close> under \<open>d\<close> (no parent if 0).\<close>

definition add_child :: "u64 \<Rightarrow> u64 \<Rightarrow> (u64 \<Rightarrow> u64 list) \<Rightarrow> u64 \<Rightarrow> u64 list" where
  "add_child d n ch = (if d = 0 then ch(n := []) else ch(d := ch d @ [n], n := []))"

definition fresh_node :: "vfs \<Rightarrow> u64 set \<Rightarrow> vfs \<Rightarrow> u64 \<Rightarrow> string \<Rightarrow> vfs_kind \<Rightarrow> bool" where
  "fresh_node s N s' n nm k \<longleftrightarrow> n \<noteq> 0 \<and> n \<notin> N \<and> g_root s' = g_root s \<and>
     nname (nodes s' n) = take 31 nm \<and> nkind (nodes s' n) = k \<and> file_data s' n = [] \<and>
     (\<forall>m \<in> N. nname (nodes s' m) = nname (nodes s m) \<and> nkind (nodes s' m) = nkind (nodes s m) \<and>
        nexec (nodes s' m) = nexec (nodes s m) \<and> file_data s' m = file_data s m)"

lemma mem_ok_cong:
  assumes "mem_ok s N" and "vheap s' = vheap s"
    and "\<And>m. ncontent (nodes s' m) = ncontent (nodes s m) \<and> nlen (nodes s' m) = nlen (nodes s m) \<and>
           ncap (nodes s' m) = ncap (nodes s m)"
  shows "mem_ok s' N"
proof -
  have "node_mem_ok (nodes s' m) N A = node_mem_ok (nodes s m) N A" for m A
    using assms(3) [of m] by (simp add: node_mem_ok_def)
  then show ?thesis using assms by (simp add: mem_ok_def)
qed

lemma alloc_node_spec:
  assumes ok: "vfs_ok s N ch" and d: "d = 0 \<or> d \<in> N \<and> nkind (nodes s d) = VFS_DIR"
  shows "alloc_node nm k d s = Some (0, s) \<or>
    (\<exists>n s'. alloc_node nm k d s = Some (n, s') \<and> fresh_node s N s' n nm k \<and>
       vfs_ok s' (insert n N) (add_child d n ch))"
proof -
  obtain bs where M: "mem_blocks s N bs" using ok by (auto simp: vfs_ok_def mem_ok_blocks)
  have T: "tree_ok s N ch" using ok by (simp add: vfs_ok_def)
  have bs: "heap_ok (vheap s) bs" using M by (simp add: mem_blocks_def)
  from kmalloc_heap [OF bs, of SIZEOF_VFS_NODE] show ?thesis
  proof (elim disjE exE conjE)
    fix n h bs1 j
    assume km: "kmalloc SIZEOF_VFS_NODE (vheap s) = Some (n, h)" "n \<noteq> 0" "heap_ok h bs1"
      "heap_allocs h bs1 = insert (n, j) (heap_allocs (vheap s) bs)"
      "n \<notin> fst ` heap_allocs (vheap s) bs" "keeps_blocks (vheap s) h (heap_allocs (vheap s) bs)"
    define s1 where "s1 = upd_node n (\<lambda>_. new_node nm k d) (s\<lparr>vheap := h\<rparr>)"
    have s1: "nodes s1 n = new_node nm k d" "\<And>m. m \<noteq> n \<Longrightarrow> nodes s1 m = nodes s m" "g_root s1 = g_root s"
      "vheap s1 = h" by (simp_all add: s1_def upd_node_def)
    have al: "alloc_node nm k d s = map_option (Pair n) (append_child d n s1)"
      using km(1,2) by (simp add: alloc_node_def s1_def)
    note new = mem_ok_new [OF M km(3,4,5,6), of "new_node nm k d" s1]
    have m1: "mem_ok s1 (insert n N)" "n \<notin> N" and fd: "\<And>g. g \<in> N \<Longrightarrow> file_data s1 g = file_data s g"
      using new s1 by (simp_all add: new_node_def)
    have old: "nodes s1 m = nodes s m" if "m \<in> N" for m using s1(2) [of m] m1(2) that by metis
    have T1: "tree_ok s1 N ch" by (rule tree_ok_frame [OF T old s1(3)])
    have "\<exists>s'. append_child d n s1 = Some s' \<and> child_fields n s1 s' \<and> tree_ok s' (insert n N) (add_child d n ch)"
    proof (cases "d = 0")
      case True
      then show ?thesis using tree_ok_orphan [OF T1 m1(2) km(2), of nm k] s1(1)
        by (simp add: append_child_def add_child_def child_fields_def)
    next
      case False
      then have dN: "d \<in> N" "nkind (nodes s d) = VFS_DIR" using d by auto
      then have "d \<in> N" "nkind (nodes s1 d) = VFS_DIR" using old [OF dN(1)] by simp_all
      then show ?thesis using tree_ok_append [OF T1 _ _ m1(2) km(2) s1(1)] False by (simp add: add_child_def)
    qed
    then obtain s' where s': "append_child d n s1 = Some s'" "child_fields n s1 s'"
      "tree_ok s' (insert n N) (add_child d n ch)" by blast
    have mem: "mem_ok s' (insert n N)"
      by (rule mem_ok_cong [OF m1(1)]) (use s'(2) in \<open>auto simp: child_fields_def\<close>)
    have fd': "file_data s' m = file_data s1 m" for m
      using s'(2) by (simp add: child_fields_def file_data_def)
    have "file_data s1 n = []" by (simp add: s1(1) new_node_def file_data_def)
    then have "fresh_node s N s' n nm k"
      using s'(2) s1(1,3) m1(2) km(2) fd old by (simp add: fresh_node_def child_fields_def fd' new_node_def str_copy_n_def NAME_CAP_def)
    then show ?thesis using al s'(1,3) mem by (auto simp: vfs_ok_def)
  next
    assume "kmalloc SIZEOF_VFS_NODE (vheap s) = Some (0, vheap s)"
    then show ?thesis by (simp add: alloc_node_def)
  qed
qed

text \<open>The first node of a store is the root.\<close>

lemma alloc_root:
  assumes bs: "heap_ok (vheap s) bs"
  shows "alloc_node nm VFS_DIR 0 s = Some (0, s) \<or>
    (\<exists>n s'. alloc_node nm VFS_DIR 0 s = Some (n, s') \<and> n \<noteq> 0 \<and> nname (nodes s' n) = take 31 nm \<and>
       nkind (nodes s' n) = VFS_DIR \<and> vfs_ok (s'\<lparr>g_root := n\<rparr>) {n} (\<lambda>_. []))"
  using kmalloc_heap [OF bs, of SIZEOF_VFS_NODE]
proof (elim disjE exE conjE)
  fix n h bs1 j
  assume km: "kmalloc SIZEOF_VFS_NODE (vheap s) = Some (n, h)" "n \<noteq> 0" "heap_ok h bs1"
    "heap_allocs h bs1 = insert (n, j) (heap_allocs (vheap s) bs)"
  define s' where "s' = upd_node n (\<lambda>_. new_node nm VFS_DIR 0) (s\<lparr>vheap := h\<rparr>)"
  have n: "nodes s' n = new_node nm VFS_DIR 0" by (simp add: s'_def upd_node_def)
  have "tree_ok (s'\<lparr>g_root := n\<rparr>) {n} (\<lambda>_. [])"
    using km(2) by (simp add: tree_ok_def n new_node_def str_copy_n_def NAME_CAP_def)
  moreover have "mem_blocks (s'\<lparr>g_root := n\<rparr>) {n} bs1"
    using km(3,4) by (auto simp: mem_blocks_def n new_node_def node_mem_ok_def s'_def upd_node_def)
  moreover have "alloc_node nm VFS_DIR 0 s = Some (n, s')"
    using km(1,2) by (simp add: alloc_node_def append_child_def s'_def)
  ultimately show ?thesis using km(2) n
    by (auto simp: vfs_ok_def mem_ok_blocks new_node_def str_copy_n_def NAME_CAP_def)
qed (simp add: alloc_node_def)

section \<open>The initial tree\<close>

text \<open>The names that the calls still to come put under directory \<open>d\<close>.\<close>

fun pending :: "u64 \<Rightarrow> u64 \<Rightarrow> u64 \<Rightarrow> init_call list \<Rightarrow> u64 \<Rightarrow> string list" where
  "pending home docs bin [] d = []"
| "pending home docs bin (Make_file dir nm text # cs) d =
     (if d = (if dir = ''home'' then home else docs) then nm # pending home docs bin cs d
      else pending home docs bin cs d)"
| "pending home docs bin (Make_exec nm fn desc # cs) d =
     (if d = bin then nm # pending home docs bin cs d else pending home docs bin cs d)"

definition dir_or_null :: "vfs \<Rightarrow> u64 set \<Rightarrow> u64 \<Rightarrow> bool" where
  "dir_or_null s N d \<longleftrightarrow> d = 0 \<or> d \<in> N \<and> nkind (nodes s d) = VFS_DIR"

text \<open>The store is sound, and no directory gets two nodes of one name, pending ones included.\<close>

definition names_ok :: "vfs \<Rightarrow> u64 set \<Rightarrow> (u64 \<Rightarrow> u64 list) \<Rightarrow> (u64 \<Rightarrow> string list) \<Rightarrow> bool" where
  "names_ok s N ch P \<longleftrightarrow> (\<forall>d \<in> N. distinct (map (\<lambda>n. nname (nodes s n)) (ch d) @ P d) \<and>
     (\<forall>n \<in> set (ch d). ok_name (nname (nodes s n))))"

definition init_ok :: "vfs \<Rightarrow> u64 set \<Rightarrow> (u64 \<Rightarrow> u64 list) \<Rightarrow> (u64 \<Rightarrow> string list) \<Rightarrow> u64 set \<Rightarrow> bool" where
  "init_ok s N ch P D \<longleftrightarrow> vfs_ok s N ch \<and> names_ok s N ch P \<and> (\<forall>d \<in> D. dir_or_null s N d) \<and>
     nkind (nodes s (g_root s)) = VFS_DIR"

lemma init_add:
  assumes I: "init_ok s N ch P D" and d: "d \<in> D" and nm: "ok_name nm" and P: "P d = nm # P' d"
    "\<And>e. e \<noteq> d \<Longrightarrow> P' e = P e" and n0: "\<And>n. n \<notin> N \<Longrightarrow> n \<noteq> 0 \<Longrightarrow> P' n = []"
  shows "alloc_node nm k d s = Some (0, s) \<and> init_ok s N ch P' D \<or>
    (\<exists>n s'. alloc_node nm k d s = Some (n, s') \<and> n \<noteq> 0 \<and> n \<notin> N \<and>
       nkind (nodes s' n) = k \<and> init_ok s' (insert n N) (add_child d n ch) P' D)"
proof -
  have ok: "vfs_ok s N ch" and nok: "names_ok s N ch P" and r: "nkind (nodes s (g_root s)) = VFS_DIR"
    and D: "\<And>e. e \<in> D \<Longrightarrow> dir_or_null s N e" using I by (simp_all add: init_ok_def)
  have gr: "g_root s \<in> N" "0 \<notin> N" and kid: "\<And>e c. e \<in> N \<Longrightarrow> c \<in> set (ch e) \<Longrightarrow> c \<in> N"
    using ok by (auto simp: vfs_ok_def tree_ok_def)
  have dd: "d = 0 \<or> d \<in> N \<and> nkind (nodes s d) = VFS_DIR" using D [OF d] by (simp add: dir_or_null_def)
  have nm31: "take 31 nm = nm" using nm by (simp add: ok_name_def)
  from alloc_node_spec [OF ok dd, of nm k] show ?thesis
  proof (elim disjE exE conjE)
    assume "alloc_node nm k d s = Some (0, s)"
    moreover have "distinct (map (\<lambda>n. nname (nodes s n)) (ch e) @ P' e)" if "e \<in> N" for e
    proof -
      have b: "distinct (map (\<lambda>n. nname (nodes s n)) (ch e) @ P e)" using nok that by (simp add: names_ok_def)
      show ?thesis using b P by (cases "e = d") simp_all
    qed
    ultimately show ?thesis using I by (auto simp: init_ok_def names_ok_def)
  next
    fix n s'
    assume a: "alloc_node nm k d s = Some (n, s')" "fresh_node s N s' n nm k"
      "vfs_ok s' (insert n N) (add_child d n ch)"
    have n: "n \<noteq> 0" "n \<notin> N" "nname (nodes s' n) = nm" "nkind (nodes s' n) = k" "g_root s' = g_root s"
      and old: "\<And>m. m \<in> N \<Longrightarrow> nname (nodes s' m) = nname (nodes s m) \<and> nkind (nodes s' m) = nkind (nodes s m)"
      using a(2) nm31 by (simp_all add: fresh_node_def)
    let ?ch = "add_child d n ch"
    have c: "?ch e = (if e = n then [] else if e = d \<and> d \<noteq> 0 then ch d @ [n] else ch e)" for e
      by (simp add: add_child_def)
    have nms: "map (\<lambda>m. nname (nodes s' m)) (ch e) = map (\<lambda>m. nname (nodes s m)) (ch e)" if "e \<in> N" for e
      using kid [OF that] old by simp
    have "distinct (map (\<lambda>m. nname (nodes s' m)) (?ch e) @ P' e) \<and>
        (\<forall>m \<in> set (?ch e). ok_name (nname (nodes s' m)))" if e: "e \<in> insert n N" for e
    proof (cases "e = n")
      case True
      then show ?thesis using c n0 [OF n(2,1)] n(2) nok P by (auto simp: names_ok_def)
    next
      case False
      then have eN: "e \<in> N" using e by simp
      then have b: "distinct (map (\<lambda>m. nname (nodes s m)) (ch e) @ P e)"
        "\<forall>m \<in> set (ch e). ok_name (nname (nodes s' m))"
        using nok kid old by (auto simp: names_ok_def)
      show ?thesis
      proof (cases "e = d")
        case True
        then have che: "?ch e = ch e @ [n]" using c [of e] False eN gr(2) by auto
        have "map (\<lambda>m. nname (nodes s' m)) (ch e) @ nm # P' e = map (\<lambda>m. nname (nodes s m)) (ch e) @ P e"
          using nms [OF eN] True P(1) by simp
        then have "distinct (map (\<lambda>m. nname (nodes s' m)) (ch e) @ nm # P' e)" using b(1) by metis
        then have "distinct (map (\<lambda>m. nname (nodes s' m)) (?ch e) @ P' e)" using che n(3) by simp
        moreover have "\<forall>m \<in> set (?ch e). ok_name (nname (nodes s' m))"
          using b(2) n(3) nm che by simp
        ultimately show ?thesis by simp
      next
        case ne: False
        then have "map (\<lambda>m. nname (nodes s' m)) (?ch e) @ P' e = map (\<lambda>m. nname (nodes s m)) (ch e) @ P e"
          using nms [OF eN] c [of e] False P(2) [OF ne] by simp
        moreover have "?ch e = ch e" using c [of e] False ne by simp
        ultimately show ?thesis using b by metis
      qed
    qed
    then have "names_ok s' (insert n N) ?ch P'" by (simp add: names_ok_def)
    moreover have "dir_or_null s' (insert n N) e" if "e \<in> D" for e
      using D [OF that] old by (auto simp: dir_or_null_def)
    moreover have "nkind (nodes s' (g_root s')) = VFS_DIR" using n(5) old [OF gr(1)] r by simp
    ultimately have "init_ok s' (insert n N) ?ch P' D" using a(3) by (simp add: init_ok_def)
    then show ?thesis using a(1) n by blast
  qed
qed

lemma init_ok_step:
  assumes I: "init_ok s N ch P D" and "vfs_ok s' N ch" and "same_tree s s'"
  shows "init_ok s' N ch P D"
  using assms unfolding init_ok_def names_ok_def dir_or_null_def same_tree_def by simp

definition init_text :: "init_call \<Rightarrow> string" where
  "init_text c = (case c of Make_file dir nm text \<Rightarrow> text | Make_exec nm fn desc \<Rightarrow> [])"

definition init_name :: "init_call \<Rightarrow> string" where
  "init_name c = (case c of Make_file dir nm text \<Rightarrow> nm | Make_exec nm fn desc \<Rightarrow> nm)"

lemma run_init_call_ok:
  assumes I: "init_ok s N ch (pending home docs bin (c # cs)) {home, docs, bin}"
    and c: "ok_name (init_name c)" "length (init_text c) < 2 ^ 31"
    and n0: "\<And>n. n \<notin> N \<Longrightarrow> n \<noteq> 0 \<Longrightarrow> n \<noteq> home \<and> n \<noteq> docs \<and> n \<noteq> bin"
  shows "\<exists>s' N' ch'. run_init_call home docs bin c s = Some s' \<and> N \<subseteq> N' \<and>
    init_ok s' N' ch' (pending home docs bin cs) {home, docs, bin}"
proof (cases c)
  case (Make_file dir nm body)
  let ?d = "if dir = ''home'' then home else docs"
  have p0: "pending home docs bin cs n = []" if "n \<notin> N" "n \<noteq> 0" for n
  proof -
    have "pending home docs bin xs n = []" for xs
      using n0 [OF that] by (induction home docs bin xs n rule: pending.induct) auto
    then show ?thesis .
  qed
  have "alloc_node nm VFS_FILE ?d s = Some (0, s) \<and> init_ok s N ch (pending home docs bin cs) {home, docs, bin} \<or>
    (\<exists>n s'. alloc_node nm VFS_FILE ?d s = Some (n, s') \<and> n \<noteq> 0 \<and> n \<notin> N \<and>
       nkind (nodes s' n) = VFS_FILE \<and> init_ok s' (insert n N) (add_child ?d n ch) (pending home docs bin cs) {home, docs, bin})"
    by (rule init_add [OF I]) (use c Make_file p0 in \<open>auto simp: init_name_def\<close>)
  then show ?thesis
  proof (elim disjE exE conjE)
    fix n s1
    let ?N = "insert n N" and ?ch = "add_child ?d n ch"
    assume a: "alloc_node nm VFS_FILE ?d s = Some (n, s1)" "n \<noteq> 0" "n \<notin> N"
      "nkind (nodes s1 n) = VFS_FILE" "init_ok s1 ?N ?ch (pending home docs bin cs) {home, docs, bin}"
    have nN: "n \<in> ?N" by simp
    have ok: "vfs_ok s1 ?N ?ch" using a(5) by (simp add: init_ok_def)
    have l: "unat (str_len body) = length body"
      using c(2) Make_file by (simp add: str_len_def init_text_def unat_of_nat)
    obtain b s2 where w: "vfs_write n (bytes_of_string body) (str_len body) s1 = Some (b, s2)"
      "vfs_ok s2 ?N ?ch" "same_tree s1 s2"
      using vfs_write_spec [OF ok nN a(4), of "str_len body" "bytes_of_string body"] c(2) l Make_file
      by (auto simp: init_text_def bytes_of_string_def)
    show ?thesis
    proof (cases "body = []")
      case True
      then show ?thesis using a Make_file by (auto simp: mkfile_at_def)
    next
      case False
      then have "run_init_call home docs bin c s = Some s2"
        using a(1,2) Make_file w(1) by (simp add: mkfile_at_def)
      then show ?thesis using init_ok_step [OF a(5) w(2,3)] by blast
    qed
  qed (use Make_file in \<open>auto simp: mkfile_at_def\<close>)
next
  case (Make_exec nm fn desc)
  have p0: "pending home docs bin cs n = []" if "n \<notin> N" "n \<noteq> 0" for n
  proof -
    have "pending home docs bin xs n = []" for xs
      using n0 [OF that] by (induction home docs bin xs n rule: pending.induct) auto
    then show ?thesis .
  qed
  have "alloc_node nm VFS_EXEC bin s = Some (0, s) \<and> init_ok s N ch (pending home docs bin cs) {home, docs, bin} \<or>
    (\<exists>n s'. alloc_node nm VFS_EXEC bin s = Some (n, s') \<and> n \<noteq> 0 \<and> n \<notin> N \<and>
       nkind (nodes s' n) = VFS_EXEC \<and> init_ok s' (insert n N) (add_child bin n ch) (pending home docs bin cs) {home, docs, bin})"
    by (rule init_add [OF I]) (use c Make_exec p0 in \<open>auto simp: init_name_def\<close>)
  then show ?thesis
  proof (elim disjE exE conjE)
    fix n s1
    let ?N = "insert n N" and ?ch = "add_child bin n ch"
    assume a: "alloc_node nm VFS_EXEC bin s = Some (n, s1)" "n \<noteq> 0" "n \<notin> N"
      "init_ok s1 ?N ?ch (pending home docs bin cs) {home, docs, bin}"
    define s2 where "s2 = upd_node n (\<lambda>x. x\<lparr>nexec := Some fn, ndescription := desc\<rparr>) s1"
    have st: "same_tree s1 s2" by (simp add: same_tree_def s2_def upd_node_def)
    have "mem_ok s2 ?N"
      by (rule mem_ok_cong [of s1]) (use a(4) in \<open>auto simp: init_ok_def vfs_ok_def s2_def upd_node_def\<close>)
    then have "vfs_ok s2 ?N ?ch"
      using a(4) same_tree_ok [OF st] by (auto simp: init_ok_def vfs_ok_def)
    then show ?thesis using a(1,2) Make_exec init_ok_step [OF a(4) _ st] by (auto simp: mkexec_at_def s2_def)
  qed (use Make_exec in \<open>auto simp: mkexec_at_def\<close>)
qed

lemma init_all_ok:
  assumes "init_ok s N ch (pending home docs bin cs) {home, docs, bin}"
    and "\<forall>c \<in> set cs. ok_name (init_name c) \<and> length (init_text c) < 2 ^ 31"
    and "\<And>n. n \<notin> N \<Longrightarrow> n \<noteq> 0 \<Longrightarrow> n \<noteq> home \<and> n \<noteq> docs \<and> n \<noteq> bin"
  shows "\<exists>s' N' ch'. init_all home docs bin cs s = Some s' \<and> N \<subseteq> N' \<and>
    init_ok s' N' ch' (\<lambda>_. []) {home, docs, bin}"
  using assms
proof (induction cs arbitrary: s N ch)
  case Nil
  then have "init_ok s N ch (\<lambda>_. []) {home, docs, bin}" by (simp add: init_ok_def names_ok_def)
  then show ?case by auto
next
  case (Cons c cs)
  obtain s1 N1 ch1 where 1: "run_init_call home docs bin c s = Some s1" "N \<subseteq> N1"
    "init_ok s1 N1 ch1 (pending home docs bin cs) {home, docs, bin}"
    using run_init_call_ok [OF Cons.prems(1)] Cons.prems(2,3) by auto
  have "\<And>n. n \<notin> N1 \<Longrightarrow> n \<noteq> 0 \<Longrightarrow> n \<noteq> home \<and> n \<noteq> docs \<and> n \<noteq> bin" using Cons.prems(3) 1(2) by blast
  from Cons.IH [OF 1(3) _ this] Cons.prems(2) obtain s' N' ch' where 2:
    "init_all home docs bin cs s1 = Some s'" "N1 \<subseteq> N'" "init_ok s' N' ch' (\<lambda>_. []) {home, docs, bin}"
    by auto
  have "N \<subseteq> N'" using 1(2) 2(2) by blast
  then show ?case using 1(1) 2(1,3) by auto
qed

lemma init_calls_ok: "\<forall>c \<in> set init_calls. ok_name (init_name c) \<and> length (init_text c) < 2 ^ 31"
  by (simp add: init_calls_def ok_name_def init_name_def init_text_def LF_def)

lemma mkdir_ok:
  assumes I: "init_ok s N ch P D" and d: "d \<in> D" and nm: "ok_name nm" and P: "P d = nm # P' d"
    "\<And>e. e \<noteq> d \<Longrightarrow> P' e = P e" "\<And>n. n \<notin> N \<Longrightarrow> n \<noteq> 0 \<Longrightarrow> P' n = []"
  obtains n s' N' ch' where "mkdir_at d nm s = Some (n, s')"
    "n = 0 \<and> N' = N \<and> ch' = ch \<or> n \<noteq> 0 \<and> n \<notin> N \<and> N' = insert n N \<and> ch' = add_child d n ch"
    "init_ok s' N' ch' P' (insert n D)"
proof -
  have "alloc_node nm VFS_DIR d s = Some (0, s) \<and> init_ok s N ch P' D \<or>
    (\<exists>n s'. alloc_node nm VFS_DIR d s = Some (n, s') \<and> n \<noteq> 0 \<and> n \<notin> N \<and>
       nkind (nodes s' n) = VFS_DIR \<and> init_ok s' (insert n N) (add_child d n ch) P' D)"
    by (rule init_add [OF I d nm, where P' = P']) (use P in auto)
  then show ?thesis
  proof (elim disjE exE conjE)
    assume "alloc_node nm VFS_DIR d s = Some (0, s)" "init_ok s N ch P' D"
    then show ?thesis using that [of 0 s N ch] by (simp add: mkdir_at_def init_ok_def dir_or_null_def)
  next
    fix n s'
    assume "alloc_node nm VFS_DIR d s = Some (n, s')" "n \<noteq> 0" "n \<notin> N"
      "nkind (nodes s' n) = VFS_DIR" "init_ok s' (insert n N) (add_child d n ch) P' D"
    then show ?thesis using that [of n s' "insert n N" "add_child d n ch"]
      by (simp add: mkdir_at_def init_ok_def dir_or_null_def)
  qed
qed

lemma init_ok_more:
  assumes "init_ok s N ch P D" and "\<And>d. d \<in> N \<Longrightarrow> P' d = P d \<or> P d = [] \<and> ch d = [] \<and> distinct (P' d)"
    and "D' \<subseteq> D"
  shows "init_ok s N ch P' D'"
proof -
  have "distinct (map (\<lambda>n. nname (nodes s n)) (ch d) @ P' d)" if "d \<in> N" for d
    using assms(1,2) that by (fastforce simp: init_ok_def names_ok_def)
  then show ?thesis using assms(1,3) unfolding init_ok_def names_ok_def by auto
qed

lemma vfs_init_ok:
  assumes bs: "heap_ok (vheap s) bs"
  shows "\<exists>s'. vfs_init s = Some s' \<and> (g_root s' = 0 \<or>
    (\<exists>N ch. vfs_ok s' N ch \<and> unique_names s' N ch \<and> nkind (nodes s' (g_root s')) = VFS_DIR \<and>
       (\<forall>d \<in> N. \<forall>n \<in> set (ch d). ok_name (nname (nodes s' n)))))"
proof -
  from alloc_root [OF bs, of "''/''"] show ?thesis
  proof (elim disjE exE conjE)
    assume "alloc_node ''/'' VFS_DIR 0 s = Some (0, s)"
    then show ?thesis by (simp add: vfs_init_def)
  next
    fix r s0
    assume a: "alloc_node ''/'' VFS_DIR 0 s = Some (r, s0)" "r \<noteq> 0" "nkind (nodes s0 r) = VFS_DIR"
      "vfs_ok (s0\<lparr>g_root := r\<rparr>) {r} (\<lambda>_. [])"
    define Q where "Q ws e = (if e = r then ws else [])" for ws :: "string list" and e
    have "init_ok (s0\<lparr>g_root := r\<rparr>) {r} (\<lambda>_. []) (Q [''home'', ''docs'', ''bin'']) {r}"
      using a by (simp add: init_ok_def names_ok_def dir_or_null_def Q_def)
    then obtain home s1 N1 ch1 where h: "mkdir_at r ''home'' (s0\<lparr>g_root := r\<rparr>) = Some (home, s1)"
      "home = 0 \<and> N1 = {r} \<and> ch1 = (\<lambda>_. []) \<or> home \<noteq> 0 \<and> home \<notin> {r} \<and> N1 = insert home {r} \<and>
         ch1 = add_child r home (\<lambda>_. [])"
      "init_ok s1 N1 ch1 (Q [''docs'', ''bin'']) (insert home {r})"
      by (rule mkdir_ok [where P' = "Q [''docs'', ''bin'']"]) (auto simp: Q_def ok_name_def)
    have r1: "r \<in> N1" using h(2) by auto
    obtain docs s2 N2 ch2 where d: "mkdir_at r ''docs'' s1 = Some (docs, s2)"
      "docs = 0 \<and> N2 = N1 \<and> ch2 = ch1 \<or> docs \<noteq> 0 \<and> docs \<notin> N1 \<and> N2 = insert docs N1 \<and>
         ch2 = add_child r docs ch1"
      "init_ok s2 N2 ch2 (Q [''bin'']) (insert docs (insert home {r}))"
      using h(3) by (rule mkdir_ok [where P' = "Q [''bin'']"]) (use r1 in \<open>auto simp: Q_def ok_name_def\<close>)
    have r2: "r \<in> N2" using d(2) r1 by auto
    obtain bin s3 N3 ch3 where b: "mkdir_at r ''bin'' s2 = Some (bin, s3)"
      "bin = 0 \<and> N3 = N2 \<and> ch3 = ch2 \<or> bin \<noteq> 0 \<and> bin \<notin> N2 \<and> N3 = insert bin N2 \<and>
         ch3 = add_child r bin ch2"
      "init_ok s3 N3 ch3 (Q []) (insert bin (insert docs (insert home {r})))"
      using d(3) by (rule mkdir_ok [where P' = "Q []"]) (use r2 in \<open>auto simp: Q_def ok_name_def\<close>)
    have r0: "0 \<notin> N3" using b(3) by (simp add: init_ok_def vfs_ok_def tree_ok_def)
    have mem: "x = 0 \<or> x \<in> N3 \<and> ch3 x = [] \<and> x \<noteq> r" if "x = home \<or> x = docs \<or> x = bin" for x
      using that h(2) d(2) b(2) a(2) r1 r2 by (auto simp: add_child_def split: if_splits)
    have ne: "home = 0 \<or> home \<noteq> docs \<and> home \<noteq> bin" "docs = 0 \<or> docs \<noteq> bin"
      using h(2) d(2) b(2) by auto
    have pend: "distinct (pending home docs bin init_calls e)" if "e \<noteq> 0" for e
      using ne that by (auto simp: init_calls_def)
    have none: "pending home docs bin xs e = []" if "e \<noteq> home" "e \<noteq> docs" "e \<noteq> bin" for e xs
      using that by (induction home docs bin xs e rule: pending.induct) auto
    have "init_ok s3 N3 ch3 (pending home docs bin init_calls) {home, docs, bin}"
    proof (rule init_ok_more [OF b(3)])
      fix e assume "e \<in> N3"
      then show "pending home docs bin init_calls e = Q [] e \<or>
          Q [] e = [] \<and> ch3 e = [] \<and> distinct (pending home docs bin init_calls e)"
        using mem [of e] none [of e init_calls] pend [of e] r0 by (cases "e = home \<or> e = docs \<or> e = bin") (auto simp: Q_def)
    qed auto
    then obtain s' N' ch' where e: "init_all home docs bin init_calls s3 = Some s'"
      "init_ok s' N' ch' (\<lambda>_. []) {home, docs, bin}"
      using init_all_ok [OF _ init_calls_ok] mem by blast
    have "vfs_init s = Some s'" using a(1,2) h(1) d(1) b(1) e(1) by (simp add: vfs_init_def)
    moreover have "vfs_ok s' N' ch' \<and> unique_names s' N' ch' \<and> nkind (nodes s' (g_root s')) = VFS_DIR \<and>
       (\<forall>d \<in> N'. \<forall>n \<in> set (ch' d). ok_name (nname (nodes s' n)))"
      using e(2) by (simp add: init_ok_def names_ok_def unique_names_def)
    ultimately show ?thesis by blast
  qed
qed

section \<open>A concrete store\<close>

fun lay_mem :: "nat \<Rightarrow> blocks \<Rightarrow> mem \<Rightarrow> mem" where
  "lay_mem a [] m = m"
| "lay_mem a ((n, f) # bs) m =
     put_block (of_nat a) \<lparr>hsize = n, is_free = f, hnext = (if bs = [] then 0 else of_nat (a + 17 + unat n))\<rparr>
       (lay_mem (a + 17 + unat n) bs m)"

lemma lay_lay_mem: "a + ntot bs \<le> 2 ^ 64 \<Longrightarrow> lay (lay_mem a bs m) a bs 0"
proof (induction bs arbitrary: a)
  case (Cons b bs)
  obtain n f where b: "b = (n, f)" by force
  have "lay (lay_mem (a + 17 + unat n) bs m) (a + 17 + unat n) bs 0"
    using Cons b by (intro Cons.IH) simp
  then show ?case using Cons.prems b by (simp add: lay_put_other)
qed simp

text \<open>
  Root, the directory \<^verbatim>\<open>home\<close> and its file \<^verbatim>\<open>notes.txt\<close>, which holds two
  bytes in a buffer of 64.
\<close>

definition demo_blocks :: blocks where
  "demo_blocks = [(96, False), (96, False), (96, False), (64, False), (2000, True)]"

definition vfs_demo :: vfs where
  "vfs_demo = \<lparr>nodes = (\<lambda>_. new_node [] VFS_FILE 0)
       (4113 := (new_node ''/'' VFS_DIR 0)\<lparr>first_child := 4226\<rparr>,
        4226 := (new_node ''home'' VFS_DIR 4113)\<lparr>first_child := 4339\<rparr>,
        4339 := (new_node ''notes.txt'' VFS_FILE 4226)\<lparr>ncontent := 4452, nlen := 2, ncap := 64\<rparr>),
     g_root = 4113,
     vheap = \<lparr>heap_start = 4096, heap_size = 0x1000, hmem = lay_mem 4096 demo_blocks (\<lambda>_. 0)\<rparr>\<rparr>"

definition demo_nodes :: "u64 set" where
  "demo_nodes = {4113, 4226, 4339}"

definition demo_children :: "u64 \<Rightarrow> u64 list" where
  "demo_children = (\<lambda>_. [])(4113 := [4226], 4226 := [4339])"

lemma demo_node_simps [simp]:
  "nodes vfs_demo 4113 = (new_node ''/'' VFS_DIR 0)\<lparr>first_child := 4226\<rparr>"
  "nodes vfs_demo 4226 = (new_node ''home'' VFS_DIR 4113)\<lparr>first_child := 4339\<rparr>"
  "nodes vfs_demo 4339 = (new_node ''notes.txt'' VFS_FILE 4226)\<lparr>ncontent := 4452, nlen := 2, ncap := 64\<rparr>"
  "g_root vfs_demo = 4113"
  by (simp_all add: vfs_demo_def)

lemma demo_tree: "tree_ok vfs_demo demo_nodes demo_children"
  by (simp add: tree_ok_def demo_nodes_def demo_children_def new_node_def str_copy_n_def NAME_CAP_def)

lemma demo_heap: "heap_ok (vheap vfs_demo) demo_blocks"
proof -
  have "ntot demo_blocks = 2437" by (simp add: demo_blocks_def)
  then show ?thesis using lay_lay_mem [of 4096 demo_blocks "\<lambda>_. 0"]
    by (simp add: heap_ok_def vfs_demo_def coalesced_def) (simp add: demo_blocks_def)
qed

lemma demo_ok: "vfs_ok vfs_demo demo_nodes demo_children"
proof -
  have A: "heap_allocs (vheap vfs_demo) demo_blocks = {(4113, 96), (4226, 96), (4339, 96), (4452, 64)}"
    by (simp add: heap_allocs_def vfs_demo_def demo_blocks_def)
  have "mem_blocks vfs_demo demo_nodes demo_blocks"
    unfolding mem_blocks_def A using demo_heap
    by (simp add: demo_nodes_def node_mem_ok_def new_node_def)
  then show ?thesis using demo_tree by (auto simp: vfs_ok_def mem_ok_blocks)
qed

section \<open>What the file system does\<close>

lemma lookup_resolve:
  assumes T: "tree_ok s N ch"
  shows "vfs_lookup path s =
    Some (if path = [] \<or> hd path \<noteq> CHR ''/'' then 0 else resolve (nodes s) ch (g_root s) (comps (tl path)))"
proof -
  have r: "g_root s \<in> N" "g_root s \<noteq> 0" using T by (auto simp: tree_ok_def)
  show ?thesis
    using lookup_loop_resolve [OF T r(1)] r(2)
    by (cases path) (auto simp: vfs_lookup_def comps.simps [of "[]"])
qed

lemma resolve_same_tree:
  "same_tree s s' \<Longrightarrow> resolve (nodes s') ch d ws = resolve (nodes s) ch d ws"
  by (induction ws arbitrary: d) (auto simp: same_tree_def split: option.splits)

lemma lookup_same_tree:
  "same_tree s s' \<Longrightarrow> tree_ok s N ch \<Longrightarrow> vfs_lookup p s' = vfs_lookup p s"
  using lookup_resolve [of s N ch p] lookup_resolve [of s' N ch p] same_tree_ok [of s s' N ch]
    resolve_same_tree [of s s'] by (simp add: same_tree_def)



text \<open>
  C8. \<open>vfs_lookup\<close> inverts \<open>vfs_path_of\<close>: in a tree with legal names that are unique within
  each directory, the path written for a node at most 16 levels deep, into a buffer that it
  fits, looks up that node again.
\<close>

theorem vfs_lookup_of_path:
  assumes "tree_ok s N ch" and "unique_names s N ch" and "\<forall>n \<in> set ns. ok_name (nname (nodes s n))"
    and "path_nodes ch (g_root s) ns" and "ns \<noteq> []" and "length ns \<le> 16"
    and "length (join_path (map (\<lambda>n. nname (nodes s n)) ns)) < cap"
  shows "vfs_lookup (vfs_path_of (last ns) cap s) s = Some (last ns)"
proof -
  let ?ws = "map (\<lambda>n. nname (nodes s n)) ns"
  have r: "g_root s \<in> N" using assms(1) by (simp add: tree_ok_def)
  have "comps (tl (join_path ?ws)) = ?ws" using assms(3,5) by (intro comps_join) auto
  moreover have "join_path ?ws \<noteq> []" "hd (join_path ?ws) = CHR ''/''"
    using assms(5) by (cases ns; simp add: join_path_def)+
  ultimately show ?thesis
    using path_of_join [OF assms(1,4,5,6,7)] resolve_path [OF assms(1,2) r assms(4)] assms(5)
    by (simp add: lookup_resolve [OF assms(1)])
qed

theorem vfs_lookup_of_path_witness:
  "vfs_lookup (vfs_path_of 4339 64 vfs_demo) vfs_demo = Some 4339"
  using vfs_lookup_of_path [OF demo_tree, of "[4226, 4339]" 64]
  by (simp add: demo_children_def demo_nodes_def unique_names_def new_node_def str_copy_n_def NAME_CAP_def
      ok_name_def join_path_def)



text \<open>
  \<open>vfs_append_char\<close> adds one byte at the end of a file below \<open>2 ^ 31 - 1\<close> bytes, or fails and
  leaves the store as it was, and \<open>vfs_pop_char\<close> then takes that byte off again; both keep
  the store well formed and the contents of every other file.
\<close>

theorem vfs_append_pop:
  assumes "vfs_ok s N ch" and "f \<in> N" and "nkind (nodes s f) = VFS_FILE"
    and "unat (nlen (nodes s f)) < 2 ^ 31 - 1"
  shows "vfs_append_char f c s = Some (False, s) \<or>
    (\<exists>s1 s2. vfs_append_char f c s = Some (True, s1) \<and> vfs_pop_char f s1 = (True, s2) \<and>
       vfs_ok s1 N ch \<and> vfs_ok s2 N ch \<and> file_data s1 f = file_data s f @ [c] \<and>
       file_data s2 f = file_data s f \<and>
       (\<forall>g \<in> N. g \<noteq> f \<longrightarrow> file_data s1 g = file_data s g \<and> file_data s2 g = file_data s g))"
proof -
  obtain b s1 where a: "vfs_append_char f c s = Some (b, s1)" "vfs_ok s1 N ch" "same_tree s s1"
    "\<forall>g \<in> N. g \<noteq> f \<longrightarrow> file_data s1 g = file_data s g"
    "if b then file_data s1 f = file_data s f @ [c] else s1 = s"
    using vfs_append_spec [OF assms] by blast
  show ?thesis
  proof (cases b)
    case True
    obtain b2 s2 where p: "vfs_pop_char f s1 = (b2, s2)" by force
    have k: "nkind (nodes s1 f) = VFS_FILE" using a(3) assms(3) by (simp add: same_tree_def)
    show ?thesis using vfs_pop_spec [OF a(2) assms(2) k p] a p True by auto
  qed (use a in auto)
qed

theorem vfs_append_pop_witness:
  "vfs_append_char 4339 33 vfs_demo = Some (False, vfs_demo) \<or>
   (\<exists>s1. vfs_append_char 4339 33 vfs_demo = Some (True, s1) \<and>
      file_data s1 4339 = file_data vfs_demo 4339 @ [33])"
  using vfs_append_pop [OF demo_ok, of 4339 33] by (auto simp: demo_nodes_def new_node_def)

text \<open>
  \<open>alloc_node\<close> under a directory always returns: either there is no memory and the store is
  as before, or the result is a new node, last among the children of the directory, with the
  name cut to 31 characters, the kind asked for and no contents; the store stays well formed
  and all other nodes keep name, kind and contents.
\<close>

theorem alloc_node_appends_child:
  assumes "vfs_ok s N ch" and "d \<in> N" and "nkind (nodes s d) = VFS_DIR"
  shows "alloc_node nm k d s = Some (0, s) \<or>
    (\<exists>n s'. alloc_node nm k d s = Some (n, s') \<and> fresh_node s N s' n nm k \<and>
       vfs_ok s' (insert n N) (ch(d := ch d @ [n], n := [])))"
proof -
  have "d \<noteq> 0" using assms by (auto simp: vfs_ok_def tree_ok_def)
  then show ?thesis using alloc_node_spec [OF assms(1), of d nm k] assms(2,3) by (simp add: add_child_def)
qed

theorem alloc_node_appends_child_witness:
  "alloc_node ''todo'' VFS_FILE 4226 vfs_demo = Some (0, vfs_demo) \<or>
   (\<exists>n s'. alloc_node ''todo'' VFS_FILE 4226 vfs_demo = Some (n, s') \<and> n \<notin> demo_nodes \<and>
      vfs_ok s' (insert n demo_nodes) (demo_children(4226 := [4339, n], n := [])))"
  using alloc_node_appends_child [OF demo_ok, of 4226 "''todo''" VFS_FILE]
  by (auto simp: demo_nodes_def demo_children_def new_node_def fresh_node_def)

text \<open>
  C14. \<open>vfs_init\<close> on a well-formed heap always returns, also when memory runs out on the way. It
  leaves no root, or a well-formed store whose root is a directory and whose names are legal
  and unique within each directory, so that paths and nodes determine each other.
\<close>

theorem vfs_init_builds_tree:
  assumes "heap_ok (vheap s) bs"
  shows "\<exists>s'. vfs_init s = Some s' \<and> (g_root s' = 0 \<or>
    (\<exists>N ch. vfs_ok s' N ch \<and> unique_names s' N ch \<and> nkind (nodes s' (g_root s')) = VFS_DIR \<and>
       (\<forall>d \<in> N. \<forall>n \<in> set (ch d). ok_name (nname (nodes s' n)))))"
  using assms by (rule vfs_init_ok)

theorem vfs_init_builds_tree_witness:
  "\<exists>s'. vfs_init (vfs_demo\<lparr>g_root := 0\<rparr>) = Some s' \<and>
     (g_root s' = 0 \<or> (\<exists>N ch. vfs_ok s' N ch \<and> unique_names s' N ch))"
  using vfs_init_builds_tree [of "vfs_demo\<lparr>g_root := 0\<rparr>" demo_blocks] demo_heap by auto

text \<open>
  Two limits of the code: a path component of more than 31 characters is read as two
  components, and growing a buffer beyond \<open>2 ^ 31\<close> bytes never ends, since the doubled
  capacity wraps to 0.
\<close>

lemma long_component_splits:
  assumes "CHR ''/'' \<notin> set w" and "length w = 31" and "CHR ''/'' \<notin> set v" and "v \<noteq> []" and "length v \<le> 31"
  shows "comps (w @ v) = [w, v]"
proof -
  have r: "read_comp k (w @ v) = (w, v)" if "length w = k" "CHR ''/'' \<notin> set w" for k and w :: string
    using that by (induction w arbitrary: k) (use assms(4) in \<open>cases v; auto\<close>)+
  have "hd v \<noteq> CHR ''/''" using assms(3,4) by (cases v) auto
  then have s: "skip_slash v = v" by (cases v) auto
  have "comps v = [v]"
    using assms(4) read_comp_app [OF assms(3,5), of "[]"] by (simp add: comps.simps [of v] comps.simps [of "[]"])
  moreover have "w @ v \<noteq> []" using assms(4) by simp
  ultimately show ?thesis using r [OF assms(2,1)] s by (simp add: comps.simps [of "w @ v"])
qed

lemma grow_cap_diverges:
  assumes "2 ^ 31 < unat need" and "c = 0 \<or> (\<exists>k \<le> 31. unat c = 2 ^ k)"
  shows "grow_cap need c = None"
proof -
  let ?C = "\<lambda>c :: u32. c = 0 \<or> (\<exists>k \<le> 31. unat c = 2 ^ k)"
  have step: "c < need \<and> ?C (c * 2)" if n: "2 ^ 31 < unat need" and c: "?C c" for need c :: u32
  proof
    have "(2 :: nat) ^ k \<le> 2 ^ 31" if "k \<le> 31" for k using that by (rule power_increasing) simp
    then have "unat c \<le> 2 ^ 31" using c by auto
    then show "c < need" using n by (simp add: word_less_nat_alt)
    show "?C (c * 2)"
    proof (cases "c = 0 \<or> unat c = 2 ^ 31")
      case True
      then have "unat (c * 2) = 0" by (auto simp: unat_word_ariths)
      then show ?thesis by (simp add: unat_eq_zero)
    next
      case False
      then obtain k where k: "k \<le> 31" "unat c = 2 ^ k" "k \<noteq> 31" using c by metis
      then have "Suc k \<le> 31" by simp
      moreover have "(2 :: nat) ^ Suc k \<le> 2 ^ 31" using \<open>Suc k \<le> 31\<close> by (rule power_increasing) simp
      then have "unat (c * 2) = 2 ^ Suc k" using k(2) by (simp add: unat_word_ariths)
      ultimately show ?thesis by blast
    qed
  qed
  have "2 ^ 31 < unat need \<longrightarrow> ?C c \<longrightarrow> False" if "grow_cap need c = Some r" for r
    using that
  proof (rule grow_cap.raw_induct [where P = "\<lambda>need c r. 2 ^ 31 < unat need \<longrightarrow> ?C c \<longrightarrow> False", rotated])
    fix f and need c r :: u32
    assume IH: "\<And>need c r. f need c = Some r \<Longrightarrow> 2 ^ 31 < unat need \<longrightarrow> ?C c \<longrightarrow> False"
      and r: "(if c < need then f need (c * 2) else Some c) = Some r"
    then show "2 ^ 31 < unat need \<longrightarrow> ?C c \<longrightarrow> False" using step by (metis (no_types))
  qed
  then show ?thesis using assms by (cases "grow_cap need c") blast+
qed

end
