(* ===== verification/Fifo.thy ===== *)
theory Fifo
  imports Prelude
begin

text \<open>
  What a queue promises its clients: items leave in the order in which they came. The locale
  \<open>fifo\<close> has the operations and the laws under which an item may be added, \<open>bounded_fifo\<close>
  adds that a queue drops an item it cannot take. The ready queue of the scheduler and the
  ring buffer of the keyboard interpret them. \<open>linked\<close> describes a list threaded through
  pointers, as the scheduler has it.
\<close>

datatype 'a queue_op = Put 'a | Get

text \<open>A run collects the items that were taken in and those that came out.\<close>

fun queue_step ::
  "('a \<Rightarrow> 's \<Rightarrow> 's) \<Rightarrow> ('s \<Rightarrow> 'a option \<times> 's) \<Rightarrow> ('a \<Rightarrow> 's \<Rightarrow> bool) \<Rightarrow> 'a queue_op \<Rightarrow>
     's \<times> 'a list \<times> 'a list \<Rightarrow> 's \<times> 'a list \<times> 'a list" where
  "queue_step put get fits (Put x) (s, ins, outs) =
     (put x s, if fits x s then ins @ [x] else ins, outs)"
| "queue_step put get fits Get (s, ins, outs) =
     (case get s of (None, s') \<Rightarrow> (s', ins, outs) | (Some x, s') \<Rightarrow> (s', ins, outs @ [x]))"

fun queue_run ::
  "('a \<Rightarrow> 's \<Rightarrow> 's) \<Rightarrow> ('s \<Rightarrow> 'a option \<times> 's) \<Rightarrow> ('a \<Rightarrow> 's \<Rightarrow> bool) \<Rightarrow> 'a queue_op list \<Rightarrow>
     's \<times> 'a list \<times> 'a list \<Rightarrow> 's \<times> 'a list \<times> 'a list" where
  "queue_run put get fits [] x = x"
| "queue_run put get fits (e # es) x = queue_run put get fits es (queue_step put get fits e x)"

fun all_fit ::
  "('a \<Rightarrow> 's \<Rightarrow> 's) \<Rightarrow> ('s \<Rightarrow> 'a option \<times> 's) \<Rightarrow> ('a \<Rightarrow> 's \<Rightarrow> bool) \<Rightarrow> 'a queue_op list \<Rightarrow> 's \<Rightarrow> bool" where
  "all_fit put get fits [] s = True"
| "all_fit put get fits (Put x # es) s = (fits x s \<and> all_fit put get fits es (put x s))"
| "all_fit put get fits (Get # es) s = all_fit put get fits es (snd (get s))"

locale fifo =
  fixes put :: "'a \<Rightarrow> 's \<Rightarrow> 's"
    and get :: "'s \<Rightarrow> 'a option \<times> 's"
    and fits :: "'a \<Rightarrow> 's \<Rightarrow> bool"
    and wf :: "'s \<Rightarrow> bool"
    and items :: "'s \<Rightarrow> 'a list"
  assumes put_items: "wf s \<Longrightarrow> fits x s \<Longrightarrow> items (put x s) = items s @ [x]"
    and put_wf: "wf s \<Longrightarrow> fits x s \<Longrightarrow> wf (put x s)"
    and get_empty: "wf s \<Longrightarrow> items s = [] \<Longrightarrow> get s = (None, s)"
    and get_first: "wf s \<Longrightarrow> items s = x # xs \<Longrightarrow> \<exists>s'. get s = (Some x, s') \<and> wf s' \<and> items s' = xs"
begin

definition ordered :: "'a list \<Rightarrow> 's \<times> 'a list \<times> 'a list \<Rightarrow> bool" where
  "ordered start x \<longleftrightarrow> (case x of (s, ins, outs) \<Rightarrow> wf s \<and> start @ ins = outs @ items s)"

lemma get_step: "ordered start (s, ins, outs) \<Longrightarrow> ordered start (queue_step put get fits Get (s, ins, outs))"
proof (cases "items s")
  case Nil
  assume "ordered start (s, ins, outs)"
  then show ?thesis using Nil get_empty [of s] by (simp add: ordered_def)
next
  case (Cons x xs)
  assume o: "ordered start (s, ins, outs)"
  then obtain s' where "get s = (Some x, s')" "wf s'" "items s' = xs"
    using get_first [of s x xs] Cons by (auto simp: ordered_def)
  then show ?thesis using o Cons by (simp add: ordered_def)
qed

lemma put_step: "ordered start (s, ins, outs) \<Longrightarrow> fits x s \<Longrightarrow>
    ordered start (queue_step put get fits (Put x) (s, ins, outs))"
  using put_items [of s x] put_wf [of s x] by (simp add: ordered_def)

lemma get_wf: "wf s \<Longrightarrow> wf (snd (get s))"
proof (cases "items s")
  case (Cons x xs)
  assume "wf s"
  then show ?thesis using get_first [of s x xs] Cons by auto
qed (use get_empty [of s] in simp)

lemma run_ordered:
  "ordered start (s, ins, outs) \<Longrightarrow> all_fit put get fits es s \<Longrightarrow>
     ordered start (queue_run put get fits es (s, ins, outs))"
proof (induction es arbitrary: s ins outs)
  case (Cons e es)
  show ?case
  proof (cases e)
    case (Put x)
    then show ?thesis using Cons put_step [of start s ins outs x] by simp
  next
    case Get
    obtain s' ins' outs' where q: "queue_step put get fits Get (s, ins, outs) = (s', ins', outs')"
      by (cases "queue_step put get fits Get (s, ins, outs)") auto
    then have "s' = snd (get s)" by (auto split: prod.splits option.splits)
    then show ?thesis using Cons get_step [of start s ins outs] Get q by simp
  qed
qed simp

end

locale bounded_fifo = fifo +
  assumes put_full: "wf s \<Longrightarrow> \<not> fits x s \<Longrightarrow> put x s = s"
begin

text \<open>No run loses the order, whatever a client asks; what does not fit is left out.\<close>

lemma any_step_ordered: "ordered start x \<Longrightarrow> ordered start (queue_step put get fits e x)"
proof (cases x)
  case (fields s ins outs)
  assume o: "ordered start x"
  show ?thesis
  proof (cases e)
    case (Put y)
    then show ?thesis
      using o put_step [of start s ins outs y] put_full [of s y] fields by (cases "fits y s") (auto simp: ordered_def)
  next
    case Get
    then show ?thesis using o get_step [of start s ins outs] fields by simp
  qed
qed

lemma any_run_ordered: "ordered start x \<Longrightarrow> ordered start (queue_run put get fits es x)"
  by (induction es arbitrary: x) (simp_all add: any_step_ordered)

lemma run_in_order:
  assumes "wf s" and "queue_run put get fits es (s, [], []) = (s', ins, outs)"
  shows "wf s' \<and> items s @ ins = outs @ items s'"
  using any_run_ordered [of "items s" "(s, [], [])" es] assms by (simp add: ordered_def)

end

section \<open>Linked lists\<close>

fun linked :: "(u64 \<Rightarrow> u64) \<Rightarrow> u64 \<Rightarrow> u64 list \<Rightarrow> bool" where
  "linked nxt p [] \<longleftrightarrow> p = 0"
| "linked nxt p (x # xs) \<longleftrightarrow> p = x \<and> x \<noteq> 0 \<and> linked nxt (nxt x) xs"

lemma linked_cong: "(\<And>x. x \<in> set xs \<Longrightarrow> nxt' x = nxt x) \<Longrightarrow> linked nxt' p xs \<longleftrightarrow> linked nxt p xs"
  by (induction xs arbitrary: p) auto

lemma linked_agree:
  "linked nxt p xs \<Longrightarrow> (\<And>x. x \<in> set xs \<Longrightarrow> nxt' x = nxt x) \<Longrightarrow> linked nxt' p xs"
  using linked_cong by metis

lemma linked_hd: "linked nxt p xs \<Longrightarrow> p = (if xs = [] then 0 else hd xs)"
  by (cases xs) auto

lemma linked_null_iff: "linked nxt p xs \<Longrightarrow> p = 0 \<longleftrightarrow> xs = []"
  by (cases xs) auto

lemma linked_not_null: "linked nxt p xs \<Longrightarrow> 0 \<notin> set xs"
  by (induction xs arbitrary: p) auto

lemma linked_fun: "linked nxt p xs \<Longrightarrow> linked nxt p ys \<Longrightarrow> xs = ys"
proof (induction xs arbitrary: p ys)
  case Nil
  then show ?case by (cases ys) auto
next
  case (Cons x xs)
  then show ?case by (cases ys) auto
qed

lemma linked_snoc:
  assumes "linked nxt p xs" and "distinct xs" and "xs \<noteq> []" and "y \<notin> set xs" and "y \<noteq> 0" and "nxt y = 0"
  shows "linked (nxt(last xs := y)) p (xs @ [y])"
  using assms
proof (induction xs arbitrary: p)
  case (Cons x xs)
  show ?case
  proof (cases "xs = []")
    case False
    then have "x \<noteq> last xs" using Cons.prems by auto
    then show ?thesis using Cons False by simp
  qed (use Cons.prems in auto)
qed simp

lemma linked_append:
  "linked nxt p (xs @ y # ys) \<Longrightarrow> linked nxt y (y # ys)"
  by (induction xs arbitrary: p) auto

text \<open>Unlinking \<open>y\<close>, when \<open>x\<close> is its predecessor.\<close>

lemma linked_unlink:
  assumes "linked nxt p (xs @ x # y # ys)" and "distinct (xs @ x # y # ys)"
  shows "linked (nxt(x := nxt y)) p (xs @ x # ys)"
  using assms
proof (induction xs arbitrary: p)
  case Nil
  have "linked (nxt(x := nxt y)) (nxt y) ys \<longleftrightarrow> linked nxt (nxt y) ys"
    by (rule linked_cong) (use Nil.prems in auto)
  then show ?case using Nil.prems by (auto simp: fun_upd_same simp del: fun_upd_apply)
next
  case (Cons a xs)
  then have "linked (nxt(x := nxt y)) (nxt a) (xs @ x # ys)" by (intro Cons.IH) auto
  then show ?case using Cons.prems by (auto simp: fun_upd_other simp del: fun_upd_apply)
qed

end
