(* ===== verification/Process.thy ===== *)
theory Process
  imports Heap_Client Fifo
begin

text \<open>
  Processes and the round-robin scheduler, \<^verbatim>\<open>src/kernel/process.cpp\<close>. Process
  control blocks are kept by address, with the \<open>next\<close> pointer that threads the ready queue;
  the addresses come from \<open>kmalloc\<close> and the stacks from the page allocator. A context switch
  is recorded in the state as the pair of processes handed to \<^verbatim>\<open>switch_context\<close>,
  which is assembly code. The lemmas show that the ready queue is a queue in the sense of
  theory Fifo, that \<open>scheduler_schedule\<close> rotates the processes, and that creating a process
  leaks nothing when it fails.
\<close>

section \<open>State\<close>

datatype process_state = PROCESS_READY | PROCESS_RUNNING | PROCESS_BLOCKED | PROCESS_TERMINATED

record cpu_context =
  c_rax :: u64  c_rbx :: u64  c_rcx :: u64  c_rdx :: u64
  c_rsi :: u64  c_rdi :: u64  c_rbp :: u64  c_rsp :: u64
  c_r8 :: u64  c_r9 :: u64  c_r10 :: u64  c_r11 :: u64
  c_r12 :: u64  c_r13 :: u64  c_r14 :: u64  c_r15 :: u64
  c_rip :: u64
  c_rflags :: u64
  c_cr3 :: u64

record process =
  pid :: u32
  pname :: string
  pstate :: process_state
  pcontext :: cpu_context
  kernel_stack :: u64
  user_stack :: u64
  priority :: u32
  time_slice :: u64
  pnext :: u64

record procs =
  pcbs :: "u64 \<Rightarrow> process"
  process_table :: "u64 list"
  next_pid :: u32
  current_process :: u64
  ready_queue_head :: u64
  ready_queue_tail :: u64
  kheap_of :: heap
  pages_of :: pmm
  switches :: "(u64 \<times> u64) list"

definition MAX_PROCESSES :: nat where
  "MAX_PROCESSES = 64"

definition SIZEOF_PROCESS :: u64 where
  "SIZEOF_PROCESS = 232"

definition upd_pcb :: "u64 \<Rightarrow> (process \<Rightarrow> process) \<Rightarrow> procs \<Rightarrow> procs" where
  "upd_pcb p f s = s\<lparr>pcbs := (pcbs s)(p := f (pcbs s p))\<rparr>"

section \<open>Process management\<close>

definition process_init :: "procs \<Rightarrow> procs option" where
  "process_init s =
     (case kmalloc SIZEOF_PROCESS (kheap_of s) of
        None \<Rightarrow> None
      | Some (p, h) \<Rightarrow>
          let s1 = s\<lparr>process_table := replicate MAX_PROCESSES 0, kheap_of := h, current_process := p\<rparr>
          in if p = 0 then Some s1
             else Some ((upd_pcb p (\<lambda>x. x\<lparr>pid := 0, pname := ''idle'', pstate := PROCESS_RUNNING,
                           priority := 0, time_slice := 0, pnext := 0\<rparr>) s1)
                        \<lparr>process_table := (replicate MAX_PROCESSES 0)[0 := p]\<rparr>))"

text \<open>The first free slot, or the length of the table.\<close>

fun free_slot :: "u64 list \<Rightarrow> nat" where
  "free_slot [] = 0"
| "free_slot (p # ps) = (if p = 0 then 0 else Suc (free_slot ps))"

definition zero_gprs :: "cpu_context \<Rightarrow> cpu_context" where
  "zero_gprs c = c\<lparr>c_rax := 0, c_rbx := 0, c_rcx := 0, c_rdx := 0, c_rsi := 0, c_rdi := 0, c_rbp := 0,
     c_rsp := 0, c_r8 := 0, c_r9 := 0, c_r10 := 0, c_r11 := 0, c_r12 := 0, c_r13 := 0, c_r14 := 0, c_r15 := 0\<rparr>"

text \<open>The last steps of \<open>process_create\<close>: the context and the entry of the table.\<close>

definition install_process :: "nat \<Rightarrow> u64 \<Rightarrow> u64 \<Rightarrow> u64 \<Rightarrow> procs \<Rightarrow> procs" where
  "install_process slot p entry_point cr3 s =
     (upd_pcb p (\<lambda>x. x\<lparr>pcontext := (zero_gprs (pcontext x))
        \<lparr>c_rip := entry_point, c_rsp := user_stack x, c_rflags := 0x202, c_cr3 := cr3\<rparr>\<rparr>) s)
     \<lparr>process_table := (process_table s)[slot := p]\<rparr>"

definition process_create :: "string \<Rightarrow> u64 \<Rightarrow> u64 \<Rightarrow> procs \<Rightarrow> (u64 \<times> procs) option" where
  "process_create nm entry_point cr3 s =
     (let slot = free_slot (process_table s) in
      if slot \<ge> MAX_PROCESSES then Some (0, s)
      else case kmalloc SIZEOF_PROCESS (kheap_of s) of
        None \<Rightarrow> None
      | Some (p, h) \<Rightarrow>
          if p = 0 then Some (0, s\<lparr>kheap_of := h\<rparr>)
          else let s1 = (upd_pcb p (\<lambda>x. x\<lparr>pid := next_pid s, pname := take 31 nm, pstate := PROCESS_READY,
                            priority := 1, time_slice := 10, pnext := 0\<rparr>) s)
                         \<lparr>next_pid := next_pid s + 1, kheap_of := h\<rparr>
               in (case pmm_alloc_page (pages_of s1) of (ks, p1) \<Rightarrow>
                     if ks = 0 then map_option (\<lambda>h'. (0, s1\<lparr>pages_of := p1, kheap_of := h'\<rparr>)) (kfree p h)
                     else (case pmm_alloc_page p1 of (us, p2) \<Rightarrow>
                       if us = 0
                       then map_option (\<lambda>h'. (0, s1\<lparr>pages_of := pmm_free_page (ks + PAGE_SIZE - PAGE_SIZE) p2,
                                                   kheap_of := h'\<rparr>)) (kfree p h)
                       else Some (p, install_process slot p entry_point cr3
                              (upd_pcb p (\<lambda>x. x\<lparr>kernel_stack := ks + PAGE_SIZE, user_stack := us + PAGE_SIZE\<rparr>)
                                 (s1\<lparr>pages_of := p2\<rparr>))))))"

fun clear_slot :: "u64 \<Rightarrow> u64 list \<Rightarrow> u64 list" where
  "clear_slot p [] = []"
| "clear_slot p (q # qs) = (if q = p then 0 # qs else q # clear_slot p qs)"

definition process_destroy :: "u64 \<Rightarrow> procs \<Rightarrow> procs option" where
  "process_destroy p s =
     (if p = 0 then Some s
      else let x = pcbs s p;
               m1 = (if kernel_stack x \<noteq> 0 then pmm_free_page (kernel_stack x - PAGE_SIZE) (pages_of s) else pages_of s);
               m2 = (if user_stack x \<noteq> 0 then pmm_free_page (user_stack x - PAGE_SIZE) m1 else m1)
           in map_option (\<lambda>h. s\<lparr>process_table := clear_slot p (process_table s), pages_of := m2, kheap_of := h\<rparr>)
                (kfree p (kheap_of s)))"

definition process_get_current :: "procs \<Rightarrow> u64" where
  "process_get_current s = current_process s"

fun find_pid :: "(u64 \<Rightarrow> process) \<Rightarrow> u32 \<Rightarrow> u64 list \<Rightarrow> u64" where
  "find_pid m n [] = 0"
| "find_pid m n (p # ps) = (if p \<noteq> 0 \<and> pid (m p) = n then p else find_pid m n ps)"

definition process_get_by_pid :: "u32 \<Rightarrow> procs \<Rightarrow> u64" where
  "process_get_by_pid n s = find_pid (pcbs s) n (process_table s)"

definition process_create_test :: "u64 \<Rightarrow> u64 \<Rightarrow> procs \<Rightarrow> (u64 \<times> procs) option" where
  "process_create_test test_process_func cr3 s = process_create ''test'' test_process_func cr3 s"

section \<open>The scheduler\<close>

definition scheduler_add :: "u64 \<Rightarrow> procs \<Rightarrow> procs" where
  "scheduler_add p s =
     (if p = 0 then s
      else let s1 = upd_pcb p (\<lambda>x. x\<lparr>pstate := PROCESS_READY, pnext := 0\<rparr>) s
           in if ready_queue_head s1 = 0 then s1\<lparr>ready_queue_head := p, ready_queue_tail := p\<rparr>
              else (upd_pcb (ready_queue_tail s1) (\<lambda>x. x\<lparr>pnext := p\<rparr>) s1)\<lparr>ready_queue_tail := p\<rparr>)"

text \<open>The walk of \<open>scheduler_remove\<close> from \<open>c\<close>: the node before \<open>p\<close>, or null.\<close>

partial_function (option) pred_of :: "(u64 \<Rightarrow> process) \<Rightarrow> u64 \<Rightarrow> u64 \<Rightarrow> u64 option" where
  "pred_of m p c =
     (if pnext (m c) = 0 then Some 0
      else if pnext (m c) = p then Some c
      else pred_of m p (pnext (m c)))"

definition scheduler_remove :: "u64 \<Rightarrow> procs \<Rightarrow> procs option" where
  "scheduler_remove p s =
     (if p = 0 \<or> ready_queue_head s = 0 then Some s
      else if ready_queue_head s = p
      then Some (s\<lparr>ready_queue_head := pnext (pcbs s p),
                   ready_queue_tail := (if ready_queue_tail s = p then 0 else ready_queue_tail s)\<rparr>)
      else case pred_of (pcbs s) p (ready_queue_head s) of
             None \<Rightarrow> None
           | Some c \<Rightarrow>
               if c = 0 then Some s
               else Some ((upd_pcb c (\<lambda>x. x\<lparr>pnext := pnext (pcbs s p)\<rparr>) s)
                      \<lparr>ready_queue_tail := (if ready_queue_tail s = p then c else ready_queue_tail s)\<rparr>))"

definition scheduler_next :: "procs \<Rightarrow> u64 \<times> procs" where
  "scheduler_next s =
     (if ready_queue_head s = 0 then (process_table s ! 0, s)
      else let nx = ready_queue_head s;
               hd' = pnext (pcbs s nx)
           in (nx, s\<lparr>ready_queue_head := hd',
                     ready_queue_tail := (if hd' = 0 then 0 else ready_queue_tail s)\<rparr>))"

definition scheduler_schedule :: "procs \<Rightarrow> procs" where
  "scheduler_schedule s =
     (let old = current_process s;
          s1 = (if old \<noteq> 0 \<and> pstate (pcbs s old) = PROCESS_RUNNING
                then scheduler_add old (upd_pcb old (\<lambda>x. x\<lparr>pstate := PROCESS_READY\<rparr>) s) else s)
      in case scheduler_next s1 of (n, s2) \<Rightarrow>
           let new = (if n = 0 then process_table s2 ! 0 else n)
           in if new = old then s2
              else let s3 = (upd_pcb new (\<lambda>x. x\<lparr>pstate := PROCESS_RUNNING\<rparr>) s2)\<lparr>current_process := new\<rparr>
                   in if old \<noteq> 0 then s3\<lparr>switches := switches s3 @ [(old, new)]\<rparr> else s3)"

definition process_yield :: "procs \<Rightarrow> procs" where
  "process_yield s = scheduler_schedule s"

section \<open>The ready queue\<close>

definition ready_ok :: "procs \<Rightarrow> u64 list \<Rightarrow> bool" where
  "ready_ok s q \<longleftrightarrow> linked (\<lambda>p. pnext (pcbs s p)) (ready_queue_head s) q \<and> distinct q \<and>
     (q \<noteq> [] \<longrightarrow> ready_queue_tail s = last q)"

lemma ready_ok_head: "ready_ok s q \<Longrightarrow> ready_queue_head s = (if q = [] then 0 else hd q)"
  unfolding ready_ok_def using linked_hd by blast

lemma ready_ok_null: "ready_ok s q \<Longrightarrow> ready_queue_head s = 0 \<longleftrightarrow> q = []"
  unfolding ready_ok_def using linked_null_iff by blast

lemma ready_ok_unique: "ready_ok s q \<Longrightarrow> ready_ok s q' \<Longrightarrow> q = q'"
  by (auto simp: ready_ok_def intro: linked_fun)

lemma ready_ok_not_null: "ready_ok s q \<Longrightarrow> 0 \<notin> set q"
  by (auto simp: ready_ok_def dest: linked_not_null)

lemma ready_ok_cong:
  assumes "ready_ok s q" and "ready_queue_head s' = ready_queue_head s" and "ready_queue_tail s' = ready_queue_tail s"
    and "\<And>p. p \<in> set q \<Longrightarrow> pnext (pcbs s' p) = pnext (pcbs s p)"
  shows "ready_ok s' q"
  using assms by (auto simp: ready_ok_def intro: linked_agree)

lemma scheduler_add_ok:
  assumes q: "ready_ok s q" and p: "p \<noteq> 0" "p \<notin> set q"
  shows "ready_ok (scheduler_add p s) (q @ [p])"
proof (cases "q = []")
  case True
  then show ?thesis using q p by (simp add: scheduler_add_def upd_pcb_def ready_ok_def)
next
  case False
  define m where "m = (\<lambda>x. pnext (pcbs s x))(p := 0)"
  have "linked m (ready_queue_head s) q"
    by (rule linked_agree [of "\<lambda>x. pnext (pcbs s x)"]) (use q p in \<open>auto simp: ready_ok_def m_def\<close>)
  then have "linked (m(last q := p)) (ready_queue_head s) (q @ [p])"
    using q p False by (intro linked_snoc) (auto simp: ready_ok_def m_def)
  moreover have "(\<lambda>x. pnext (pcbs (scheduler_add p s) x)) = m(last q := p)"
    using q p False ready_ok_null [OF q]
    by (auto simp: scheduler_add_def upd_pcb_def m_def ready_ok_def fun_eq_iff Let_def)
  moreover have "ready_queue_head (scheduler_add p s) = ready_queue_head s" "ready_queue_tail (scheduler_add p s) = p"
    using p False ready_ok_null [OF q] by (auto simp: scheduler_add_def upd_pcb_def Let_def)
  ultimately show ?thesis using q p by (simp add: ready_ok_def)
qed

lemma scheduler_next_ok:
  assumes "ready_ok s (p # q)"
  shows "fst (scheduler_next s) = p" and "ready_ok (snd (scheduler_next s)) q"
    and "pcbs (snd (scheduler_next s)) = pcbs s"
proof -
  have h: "ready_queue_head s = p" "p \<noteq> 0" "linked (\<lambda>p. pnext (pcbs s p)) (pnext (pcbs s p)) q"
    using assms by (auto simp: ready_ok_def)
  have "pnext (pcbs s p) = 0 \<longleftrightarrow> q = []" by (rule linked_null_iff [OF h(3)])
  then show "fst (scheduler_next s) = p" "ready_ok (snd (scheduler_next s)) q"
    "pcbs (snd (scheduler_next s)) = pcbs s"
    using assms h by (auto simp: scheduler_next_def ready_ok_def Let_def)
qed

lemma scheduler_next_empty: "ready_ok s [] \<Longrightarrow> scheduler_next s = (process_table s ! 0, s)"
  by (simp add: scheduler_next_def ready_ok_def)

lemma pred_of_chain:
  assumes "linked (\<lambda>p. pnext (m p)) c (c # q)"
  shows "pred_of m p c =
    Some (if p \<in> set q then last (c # takeWhile (\<lambda>x. x \<noteq> p) q) else 0)"
  using assms
proof (induction q arbitrary: c)
  case Nil
  then show ?case by (simp add: pred_of.simps [of m p c])
next
  case (Cons a q)
  then have a: "pnext (m c) = a" "a \<noteq> 0" "linked (\<lambda>p. pnext (m p)) a (a # q)" by auto
  show ?case
  proof (cases "a = p")
    case True
    then show ?thesis using a by (simp add: pred_of.simps [of m p c])
  next
    case False
    then show ?thesis using a Cons.IH [OF a(3)] by (simp add: pred_of.simps [of m p c])
  qed
qed

lemma takeWhile_split:
  "p \<in> set q \<Longrightarrow> \<exists>xs ys. q = xs @ p # ys \<and> takeWhile (\<lambda>x. x \<noteq> p) q = xs \<and> p \<notin> set xs"
proof (induction q)
  case (Cons a q)
  show ?case
  proof (cases "a = p")
    case True
    then show ?thesis by (intro exI [of _ "[]"] exI [of _ q]) simp
  next
    case False
    then obtain xs ys where "q = xs @ p # ys" "takeWhile (\<lambda>x. x \<noteq> p) q = xs" "p \<notin> set xs"
      using Cons by auto
    then show ?thesis using False by (intro exI [of _ "a # xs"] exI [of _ ys]) simp
  qed
qed simp

lemma scheduler_remove_ok:
  assumes q: "ready_ok s q" and p: "p \<noteq> 0"
  shows "\<exists>s'. scheduler_remove p s = Some s' \<and> ready_ok s' (remove1 p q)"
proof (cases q)
  case Nil
  then show ?thesis using q ready_ok_null [OF q] by (simp add: scheduler_remove_def)
next
  case (Cons c r)
  have h: "ready_queue_head s = c" "c \<noteq> 0" "linked (\<lambda>p. pnext (pcbs s p)) c (c # r)" "distinct (c # r)"
    "ready_queue_tail s = last (c # r)"
    using q Cons ready_ok_head [OF q] by (simp_all add: ready_ok_def)
  show ?thesis
  proof (cases "c = p")
    case True
    have "linked (\<lambda>p. pnext (pcbs s p)) (pnext (pcbs s p)) r" using h(3) True by simp
    moreover have "r = [] \<or> last r \<noteq> p" using h(4) True by (cases r rule: rev_cases) auto
    ultimately show ?thesis
      using True h p Cons by (auto simp: scheduler_remove_def ready_ok_def)
  next
    case False
    show ?thesis
    proof (cases "p \<in> set r")
      case True
      then obtain xs ys where xy: "r = xs @ p # ys" "takeWhile (\<lambda>x. x \<noteq> p) r = xs" "p \<notin> set xs"
        using takeWhile_split [OF True] by (elim exE conjE)
      let ?d = "last (c # xs)"
      have "?d \<in> set (c # xs)" by (rule last_in_set) simp
      moreover have "0 \<notin> set (c # xs)" using linked_not_null [OF h(3)] xy by simp
      ultimately have d: "?d \<noteq> 0" "?d \<in> set (c # xs)" by metis+
      obtain zs where zs: "c # xs = zs @ [?d]" by (metis append_butlast_last_id list.discI)
      have cr: "c # r = zs @ ?d # p # ys" using xy zs by (metis append.assoc append_Cons append_Nil)
      have l: "linked ((\<lambda>x. pnext (pcbs s x))(?d := pnext (pcbs s p))) c (zs @ ?d # ys)"
        using h(3,4) unfolding cr by (rule linked_unlink)
      have rm: "remove1 p (c # r) = zs @ ?d # ys"
        using cr xy False zs by (metis append.assoc append_Cons append_Nil remove1.simps(2) remove1_append)
      define s' where "s' = (upd_pcb ?d (\<lambda>x. x\<lparr>pnext := pnext (pcbs s p)\<rparr>) s)
        \<lparr>ready_queue_tail := (if ready_queue_tail s = p then ?d else ready_queue_tail s)\<rparr>"
      have "pred_of (pcbs s) p c = Some ?d" using pred_of_chain [OF h(3), of p] True xy(2) by simp
      then have r: "scheduler_remove p s = Some s'"
        using h(1,2) p False d(1) unfolding scheduler_remove_def s'_def by simp
      have "(\<lambda>x. pnext (pcbs s' x)) = (\<lambda>x. pnext (pcbs s x))(?d := pnext (pcbs s p))"
        by (auto simp: s'_def upd_pcb_def)
      moreover have "ready_queue_head s' = c" using h(1) by (simp add: s'_def upd_pcb_def)
      moreover have "ready_queue_tail s' = last (zs @ ?d # ys)"
      proof (cases "ys = []")
        case True
        then have "last (c # r) = p" unfolding cr by simp
        then show ?thesis using True h(5) by (simp add: s'_def)
      next
        case False
        then have "last (c # r) = last ys" unfolding cr by simp
        moreover have "p \<notin> set ys" using h(4) unfolding cr by auto
        moreover have "last ys \<in> set ys" using False by simp
        ultimately have "ready_queue_tail s = last ys" "last ys \<noteq> p" using h(5) by auto
        then show ?thesis using False by (simp add: s'_def upd_pcb_def)
      qed
      moreover have "distinct (zs @ ?d # ys)" using h(4) unfolding cr by auto
      ultimately have "ready_ok s' (remove1 p q)" using l Cons rm unfolding ready_ok_def by simp
      then show ?thesis using r by blast
    next
      case notin: False
      have "pred_of (pcbs s) p c = Some 0" using pred_of_chain [OF h(3), of p] notin by simp
      then show ?thesis using h(1,2) p False notin q Cons by (simp add: scheduler_remove_def remove1_idem)
    qed
  qed
qed

definition ready_list :: "procs \<Rightarrow> u64 list" where
  "ready_list s = (SOME q. ready_ok s q)"

lemma ready_list_eq: "ready_ok s q \<Longrightarrow> ready_list s = q"
  unfolding ready_list_def by (rule some_equality) (auto intro: ready_ok_unique)

definition ready_wf :: "procs \<Rightarrow> bool" where
  "ready_wf s \<longleftrightarrow> (\<exists>q. ready_ok s q)"

definition ready_fits :: "u64 \<Rightarrow> procs \<Rightarrow> bool" where
  "ready_fits p s \<longleftrightarrow> p \<noteq> 0 \<and> p \<notin> set (ready_list s)"

text \<open>\<open>scheduler_next\<close> without its default, the idle process.\<close>

definition ready_take :: "procs \<Rightarrow> u64 option \<times> procs" where
  "ready_take s = (if ready_queue_head s = 0 then (None, s)
     else case scheduler_next s of (p, s') \<Rightarrow> (Some p, s'))"

interpretation readyq: fifo scheduler_add ready_take ready_fits ready_wf ready_list
proof (unfold_locales, goal_cases)
  case (1 s x)
  then obtain q where q: "ready_ok s q" by (auto simp: ready_wf_def)
  then show ?case
    using 1 ready_list_eq [OF q] ready_list_eq [OF scheduler_add_ok [OF q, of x]] by (simp add: ready_fits_def)
next
  case (2 s x)
  then obtain q where q: "ready_ok s q" by (auto simp: ready_wf_def)
  then show ?case using 2 ready_list_eq [OF q] scheduler_add_ok [OF q, of x]
    by (auto simp: ready_fits_def ready_wf_def)
next
  case (3 s)
  then obtain q where q: "ready_ok s q" by (auto simp: ready_wf_def)
  then show ?case using 3 ready_list_eq [OF q] ready_ok_null [OF q] by (simp add: ready_take_def)
next
  case (4 s x xs)
  then obtain q where "ready_ok s q" by (auto simp: ready_wf_def)
  then have q: "ready_ok s (x # xs)" using 4 ready_list_eq [of s q] by simp
  have "ready_queue_head s \<noteq> 0" using ready_ok_null [OF q] by simp
  then show ?case
    using scheduler_next_ok [OF q] ready_list_eq [OF scheduler_next_ok(2) [OF q]]
    by (cases "scheduler_next s") (auto simp: ready_take_def ready_wf_def)
qed

lemma ready_queue_in_order:
  assumes "ready_ok s q" and "all_fit scheduler_add ready_take ready_fits es s"
    and "queue_run scheduler_add ready_take ready_fits es (s, [], []) = (s', ins, outs)"
  shows "\<exists>q'. ready_ok s' q' \<and> q @ ins = outs @ q'"
proof -
  have "readyq.ordered q (s, [], [])"
    using assms(1) ready_list_eq [OF assms(1)] by (auto simp: readyq.ordered_def ready_wf_def)
  then have "readyq.ordered q (s', ins, outs)" using readyq.run_ordered [OF _ assms(2)] assms(3) by fastforce
  then show ?thesis by (auto simp: readyq.ordered_def ready_wf_def ready_list_eq)
qed

section \<open>Round robin\<close>

definition sched_ok :: "procs \<Rightarrow> u64 \<Rightarrow> u64 list \<Rightarrow> bool" where
  "sched_ok s c q \<longleftrightarrow> ready_ok s q \<and> current_process s = c \<and> c \<noteq> 0 \<and> c \<notin> set q \<and>
     pstate (pcbs s c) = PROCESS_RUNNING \<and> (\<forall>p \<in> set q. pstate (pcbs s p) = PROCESS_READY)"

lemma scheduler_add_frame:
  "process_table (scheduler_add p s) = process_table s" "current_process (scheduler_add p s) = current_process s"
  "switches (scheduler_add p s) = switches s"
  "pstate (pcbs (scheduler_add p s) x) = (if x = p \<and> p \<noteq> 0 then PROCESS_READY else pstate (pcbs s x))"
  by (simp_all add: scheduler_add_def upd_pcb_def Let_def)

lemma scheduler_next_frame:
  "process_table (snd (scheduler_next s)) = process_table s"
  "current_process (snd (scheduler_next s)) = current_process s"
  "switches (snd (scheduler_next s)) = switches s" "pcbs (snd (scheduler_next s)) = pcbs s"
  by (simp_all add: scheduler_next_def Let_def)

lemma ready_ok_upd_state: "ready_ok (upd_pcb p (\<lambda>x. x\<lparr>pstate := st\<rparr>) s) q \<longleftrightarrow> ready_ok s q"
proof -
  have "(\<lambda>x. pnext (pcbs (upd_pcb p (\<lambda>x. x\<lparr>pstate := st\<rparr>) s) x)) = (\<lambda>x. pnext (pcbs s x))"
    by (auto simp: upd_pcb_def)
  then show ?thesis by (simp add: ready_ok_def) (simp add: upd_pcb_def)
qed

text \<open>The state in which \<open>scheduler_schedule\<close> asks for the next process.\<close>

lemma requeue_current:
  assumes "sched_ok s c q"
  defines "s1 \<equiv> scheduler_add c (upd_pcb c (\<lambda>x. x\<lparr>pstate := PROCESS_READY\<rparr>) s)"
  shows "ready_ok s1 (q @ [c])" and "\<forall>p \<in> set (c # q). pstate (pcbs s1 p) = PROCESS_READY"
    and "process_table s1 = process_table s" and "current_process s1 = c" and "switches s1 = switches s"
proof -
  show "ready_ok s1 (q @ [c])"
    unfolding s1_def by (rule scheduler_add_ok) (use assms in \<open>auto simp: sched_ok_def ready_ok_upd_state\<close>)
  show "\<forall>p \<in> set (c # q). pstate (pcbs s1 p) = PROCESS_READY" "process_table s1 = process_table s"
    "current_process s1 = c" "switches s1 = switches s"
    using assms(1) by (auto simp: s1_def scheduler_add_frame sched_ok_def upd_pcb_def)
qed

lemma schedule_rotates:
  assumes ok: "sched_ok s c (p # q)"
  shows "sched_ok (scheduler_schedule s) p (q @ [c])"
    and "switches (scheduler_schedule s) = switches s @ [(c, p)]"
    and "process_table (scheduler_schedule s) = process_table s"
proof -
  define s1 where "s1 = scheduler_add c (upd_pcb c (\<lambda>x. x\<lparr>pstate := PROCESS_READY\<rparr>) s)"
  note s1 = requeue_current [OF ok, folded s1_def]
  define s2 where "s2 = snd (scheduler_next s1)"
  have r1: "ready_ok s1 (p # (q @ [c]))" using s1(1) by simp
  have n: "scheduler_next s1 = (p, s2)"
    using scheduler_next_ok(1) [OF r1] by (simp add: s2_def prod_eq_iff)
  have s2: "ready_ok s2 (q @ [c])" "pcbs s2 = pcbs s1" "process_table s2 = process_table s"
    "current_process s2 = c" "switches s2 = switches s"
    using scheduler_next_ok [OF r1] scheduler_next_frame [of s1] s1(3-5) by (simp_all add: s2_def)
  have c: "c \<noteq> 0" "p \<noteq> 0" "p \<noteq> c" "current_process s = c" "pstate (pcbs s c) = PROCESS_RUNNING" "p \<notin> set q"
    using ok ready_ok_not_null [of s "p # q"] by (auto simp: sched_ok_def ready_ok_def)
  have e: "scheduler_schedule s =
      ((upd_pcb p (\<lambda>x. x\<lparr>pstate := PROCESS_RUNNING\<rparr>) s2)\<lparr>current_process := p\<rparr>)\<lparr>switches := switches s @ [(c, p)]\<rparr>"
    using c n s2(5) unfolding scheduler_schedule_def Let_def c(4) s1_def [symmetric]
    by (simp add: upd_pcb_def)
  show "switches (scheduler_schedule s) = switches s @ [(c, p)]"
    "process_table (scheduler_schedule s) = process_table s"
    by (simp_all add: e upd_pcb_def s2(3))
  have "ready_ok (scheduler_schedule s) (q @ [c])"
    by (rule ready_ok_cong [OF s2(1)]) (auto simp: e upd_pcb_def)
  moreover have "pstate (pcbs (scheduler_schedule s) x) = PROCESS_READY" if "x \<in> set (q @ [c])" for x
    using that s1(2) c(3,6) by (auto simp: e upd_pcb_def s2(2))
  moreover have "current_process (scheduler_schedule s) = p" "pstate (pcbs (scheduler_schedule s) p) = PROCESS_RUNNING"
    by (simp_all add: e upd_pcb_def)
  ultimately show "sched_ok (scheduler_schedule s) p (q @ [c])" using c by (simp add: sched_ok_def)
qed

lemma schedule_turns:
  assumes "sched_ok s c q" and "q \<noteq> []"
  shows "sched_ok ((scheduler_schedule ^^ k) s) (hd (rotate k (c # q))) (tl (rotate k (c # q)))"
proof (induction k)
  case 0
  then show ?case using assms by simp
next
  case (Suc k)
  obtain d r where r: "rotate k (c # q) = d # r" by (metis length_rotate length_greater_0_conv list.exhaust list.size(4) zero_less_Suc)
  have "length (d # r) = length (c # q)" using r by (metis length_rotate)
  then obtain p t where t: "r = p # t" using assms(2) by (cases r) auto
  have "sched_ok ((scheduler_schedule ^^ k) s) d (p # t)" using Suc r t by simp
  then have "sched_ok ((scheduler_schedule ^^ Suc k) s) p (t @ [d])" using schedule_rotates(1) by simp
  moreover have "rotate (Suc k) (c # q) = p # t @ [d]" by (simp add: r t)
  ultimately show ?case by simp
qed

text \<open>With nothing else ready, the running process leaves the queue again but stays marked ready.\<close>

lemma schedule_alone:
  assumes ok: "sched_ok s c []"
  shows "ready_ok (scheduler_schedule s) []" and "current_process (scheduler_schedule s) = c"
    and "pstate (pcbs (scheduler_schedule s) c) = PROCESS_READY"
    and "process_table (scheduler_schedule s) = process_table s" and "switches (scheduler_schedule s) = switches s"
proof -
  define s1 where "s1 = scheduler_add c (upd_pcb c (\<lambda>x. x\<lparr>pstate := PROCESS_READY\<rparr>) s)"
  note s1 = requeue_current [OF ok, folded s1_def]
  have r1: "ready_ok s1 [c]" using s1(1) by simp
  have n: "scheduler_next s1 = (c, snd (scheduler_next s1))"
    using scheduler_next_ok(1) [OF r1] by (simp add: prod_eq_iff)
  have c: "c \<noteq> 0" "current_process s = c" "pstate (pcbs s c) = PROCESS_RUNNING"
    using ok by (auto simp: sched_ok_def)
  have "scheduler_schedule s =
      (case scheduler_next s1 of (n, s2) \<Rightarrow>
         let new = (if n = 0 then process_table s2 ! 0 else n)
         in if new = c then s2
            else let s3 = (upd_pcb new (\<lambda>x. x\<lparr>pstate := PROCESS_RUNNING\<rparr>) s2)\<lparr>current_process := new\<rparr>
                 in if c \<noteq> 0 then s3\<lparr>switches := switches s3 @ [(c, new)]\<rparr> else s3)"
    using c by (simp add: scheduler_schedule_def s1_def)
  also have "\<dots> = snd (scheduler_next s1)" using c(1) by (subst n) simp
  finally have "scheduler_schedule s = snd (scheduler_next s1)" .
  then show "ready_ok (scheduler_schedule s) []" "current_process (scheduler_schedule s) = c"
    "pstate (pcbs (scheduler_schedule s) c) = PROCESS_READY"
    "process_table (scheduler_schedule s) = process_table s" "switches (scheduler_schedule s) = switches s"
    using scheduler_next_ok [OF r1] scheduler_next_frame [of s1] s1 by auto
qed

section \<open>Creating and destroying processes\<close>

text \<open>What a process holds of the memory: its control block in the heap, and two pages.\<close>

definition mem_inv :: "procs \<Rightarrow> blocks \<Rightarrow> bool" where
  "mem_inv s bs \<longleftrightarrow> heap_ok (kheap_of s) bs \<and> pmm_inv (pages_of s)"

definition held_blocks :: "procs \<Rightarrow> u64 set" where
  "held_blocks s = live_blocks (kheap_of s)"

definition free_pages :: "procs \<Rightarrow> u64 set" where
  "free_pages s = free_set (pages_of s)"

lemma held_blocks_eq: "heap_ok (kheap_of s) bs \<Longrightarrow> held_blocks s = fst ` heap_allocs (kheap_of s) bs"
  by (simp add: held_blocks_def live_blocks_eq heap_allocs_def)

lemma free_slot_spec:
  "free_slot ps \<le> length ps \<and> (free_slot ps < length ps \<longrightarrow> ps ! free_slot ps = 0) \<and>
     (\<forall>i < free_slot ps. ps ! i \<noteq> 0)"
proof (induction ps)
  case (Cons p ps)
  then show ?case by (auto simp: nth_Cons split: nat.splits)
qed simp

lemma alloc_page_set:
  assumes "pmm_inv m" and "pmm_alloc_page m = (a, m')"
  shows "pmm_inv m'" and "a = 0 \<Longrightarrow> m' = m"
    and "a \<noteq> 0 \<Longrightarrow> a div PAGE_SIZE \<in> free_set m \<and> free_set m' = free_set m - {a div PAGE_SIZE} \<and>
      pmm_free_page a m' = m \<and> (total_pages m < 2 ^ 52 \<longrightarrow> a + PAGE_SIZE \<noteq> 0)"
proof -
  have b: "bitmap_ok m" using assms(1) by (simp add: pmm_inv_def)
  show "pmm_inv m'" by (rule pmm_alloc_page_keeps_inv [OF assms])
  show "m' = m" if "a = 0" using assms(2)
  proof (cases rule: pmm_alloc_page_cases)
    case (page i)
    then have "i < total_pages m" by (simp add: free_set_iff)
    then show ?thesis using page page_addr_zero [OF b] that by auto
  qed
  show "a div PAGE_SIZE \<in> free_set m \<and> free_set m' = free_set m - {a div PAGE_SIZE} \<and>
      pmm_free_page a m' = m \<and> (total_pages m < 2 ^ 52 \<longrightarrow> a + PAGE_SIZE \<noteq> 0)" if "a \<noteq> 0" using assms(2)
  proof (cases rule: pmm_alloc_page_cases)
    case (page i)
    have i: "i < total_pages m" using page by (simp add: free_set_iff)
    have "a + PAGE_SIZE \<noteq> 0" if "total_pages m < 2 ^ 52"
    proof -
      have "unat i + 1 < 2 ^ 52" using i that by (simp add: word_less_nat_alt)
      then have "unat (a + PAGE_SIZE) = unat a + 4096"
        using page_addr_lt [OF b i] page(1) by (simp add: PAGE_SIZE_def unat_word_ariths)
      then show ?thesis by auto
    qed
    then show ?thesis
      using page i page_addr_div [OF b i] free_after_take [OF b page(4)] take_page_used [OF b i]
      by (auto simp: free_set_iff take_page_fields)
  qed (use that in simp)
qed

text \<open>
  \<open>created s p s'\<close>: \<open>s'\<close> is \<open>s\<close> with a new process \<open>p\<close>, its control block and two pages of its own.
\<close>

definition created :: "procs \<Rightarrow> string \<Rightarrow> u64 \<Rightarrow> u64 \<Rightarrow> u64 \<Rightarrow> procs \<Rightarrow> bool" where
  "created s nm entry_point cr3 p s' \<longleftrightarrow>
     p \<notin> held_blocks s \<and> held_blocks s' = insert p (held_blocks s) \<and>
     (let x = pcbs s' p; k = (kernel_stack x - PAGE_SIZE) div PAGE_SIZE; u = (user_stack x - PAGE_SIZE) div PAGE_SIZE in
        k \<noteq> u \<and> k \<in> free_pages s \<and> u \<in> free_pages s \<and> free_pages s' = free_pages s - {k, u} \<and>
        pid x = next_pid s \<and> pname x = take 31 nm \<and> pstate x = PROCESS_READY \<and> pnext x = 0 \<and>
        c_rip (pcontext x) = entry_point \<and> c_rsp (pcontext x) = user_stack x \<and>
        c_rflags (pcontext x) = 0x202 \<and> c_cr3 (pcontext x) = cr3) \<and>
     free_slot (process_table s) < MAX_PROCESSES \<and>
     process_table s' = (process_table s)[free_slot (process_table s) := p] \<and>
     next_pid s' = next_pid s + 1 \<and> (\<forall>q. q \<noteq> p \<longrightarrow> pcbs s' q = pcbs s q)"

definition not_created :: "procs \<Rightarrow> procs \<Rightarrow> bool" where
  "not_created s s' \<longleftrightarrow> held_blocks s' = held_blocks s \<and> free_pages s' = free_pages s \<and>
     process_table s' = process_table s \<and> (\<forall>q. q \<in> held_blocks s \<longrightarrow> pcbs s' q = pcbs s q)"

lemma kmalloc_then_kfree:
  assumes "heap_ok h bs" and "kmalloc r h = Some (p, h1)" and "p \<noteq> 0"
  obtains bs1 h2 bs2 where "heap_ok h1 bs1" "fst ` heap_allocs h1 bs1 = insert p (fst ` heap_allocs h bs)"
    "p \<notin> fst ` heap_allocs h bs"
    "kfree p h1 = Some h2" "heap_ok h2 bs2" "fst ` heap_allocs h2 bs2 = fst ` heap_allocs h bs"
proof -
  from kmalloc_heap [OF assms(1), of r] assms(2,3) obtain bs1 k where
    1: "heap_ok h1 bs1" "heap_allocs h1 bs1 = insert (p, k) (heap_allocs h bs)" "p \<notin> fst ` heap_allocs h bs"
    by auto
  obtain h2 bs2 where 2: "kfree p h1 = Some h2" "heap_ok h2 bs2"
    "heap_allocs h2 bs2 = heap_allocs h1 bs1 - {(p, k)}"
    using kfree_heap [OF 1(1), of p k] 1(2) by auto
  have "heap_allocs h2 bs2 = heap_allocs h bs" using 1(2,3) 2(3) by force
  then show ?thesis using that [OF 1(1) _ 1(3) 2(1,2)] 1(2) by simp
qed

lemma process_create_cases:
  assumes inv: "mem_inv s bs" and len: "length (process_table s) = MAX_PROCESSES"
  shows "\<exists>p s' bs'. process_create nm entry_point cr3 s = Some (p, s') \<and> mem_inv s' bs' \<and>
    (if p = 0 then not_created s s' else created s nm entry_point cr3 p s')"
proof (cases "free_slot (process_table s) \<ge> MAX_PROCESSES")
  case True
  then show ?thesis using inv by (auto simp: process_create_def Let_def not_created_def)
next
  case False
  have h: "heap_ok (kheap_of s) bs" and m: "pmm_inv (pages_of s)" using inv by (simp_all add: mem_inv_def)
  obtain p h1 where km: "kmalloc SIZEOF_PROCESS (kheap_of s) = Some (p, h1)"
    using kmalloc_heap [OF h, of SIZEOF_PROCESS] by auto
  show ?thesis
  proof (cases "p = 0")
    case True
    then have "h1 = kheap_of s" using kmalloc_heap [OF h, of SIZEOF_PROCESS] km by auto
    then show ?thesis using True False km inv
      by (auto simp: process_create_def Let_def not_created_def mem_inv_def held_blocks_def free_pages_def)
  next
    case p0: False
    obtain bs1 h2 bs2 where a: "heap_ok h1 bs1" "fst ` heap_allocs h1 bs1 = insert p (fst ` heap_allocs (kheap_of s) bs)"
      "p \<notin> fst ` heap_allocs (kheap_of s) bs"
      and f: "kfree p h1 = Some h2" "heap_ok h2 bs2" "fst ` heap_allocs h2 bs2 = fst ` heap_allocs (kheap_of s) bs"
      by (rule kmalloc_then_kfree [OF h km p0])
    note live = live_blocks_eq [folded heap_allocs_def]
    have lv: "live_blocks h1 = insert p (live_blocks (kheap_of s))" "live_blocks h2 = live_blocks (kheap_of s)"
      "p \<notin> live_blocks (kheap_of s)"
      using live [OF h] live [OF a(1)] live [OF f(2)] a f by simp_all
    define s1 where "s1 = (upd_pcb p (\<lambda>x. x\<lparr>pid := next_pid s, pname := take 31 nm, pstate := PROCESS_READY,
        priority := 1, time_slice := 10, pnext := 0\<rparr>) s)\<lparr>next_pid := next_pid s + 1, kheap_of := h1\<rparr>"
    have s1: "pages_of s1 = pages_of s" "process_table s1 = process_table s" "kheap_of s1 = h1"
      "\<And>q. q \<noteq> p \<Longrightarrow> pcbs s1 q = pcbs s q" by (simp_all add: s1_def upd_pcb_def)
    obtain ks p1 where k: "pmm_alloc_page (pages_of s) = (ks, p1)" by force
    note K = alloc_page_set [OF m k]
    obtain us p2 where u: "pmm_alloc_page p1 = (us, p2)" by force
    note U = alloc_page_set [OF K(1) u]
    have ret: "ks + PAGE_SIZE - PAGE_SIZE = ks" "us + PAGE_SIZE - PAGE_SIZE = us" by simp_all
    have start: "process_create nm entry_point cr3 s =
        (if ks = 0 then map_option (\<lambda>h'. (0, s1\<lparr>pages_of := p1, kheap_of := h'\<rparr>)) (kfree p h1)
         else if us = 0
           then map_option (\<lambda>h'. (0, s1\<lparr>pages_of := pmm_free_page ks p2, kheap_of := h'\<rparr>)) (kfree p h1)
         else Some (p, install_process (free_slot (process_table s)) p entry_point cr3
                (upd_pcb p (\<lambda>x. x\<lparr>kernel_stack := ks + PAGE_SIZE, user_stack := us + PAGE_SIZE\<rparr>)
                   (s1\<lparr>pages_of := p2\<rparr>))))"
    proof -
      have "process_create nm entry_point cr3 s =
        (case pmm_alloc_page (pages_of s1) of (ks, p1) \<Rightarrow>
           if ks = 0 then map_option (\<lambda>h'. (0, s1\<lparr>pages_of := p1, kheap_of := h'\<rparr>)) (kfree p h1)
           else (case pmm_alloc_page p1 of (us, p2) \<Rightarrow>
             if us = 0
             then map_option (\<lambda>h'. (0, s1\<lparr>pages_of := pmm_free_page (ks + PAGE_SIZE - PAGE_SIZE) p2,
                                         kheap_of := h'\<rparr>)) (kfree p h1)
             else Some (p, install_process (free_slot (process_table s)) p entry_point cr3
                    (upd_pcb p (\<lambda>x. x\<lparr>kernel_stack := ks + PAGE_SIZE, user_stack := us + PAGE_SIZE\<rparr>)
                       (s1\<lparr>pages_of := p2\<rparr>)))))"
        unfolding process_create_def Let_def s1_def using False km p0 by simp
      then show ?thesis unfolding s1(1) k u prod.case ret .
    qed
    show ?thesis
    proof (cases "ks = 0 \<or> us = 0")
      case True
      define m' where "m' = (if ks = 0 then p1 else pmm_free_page ks p2)"
      have m': "m' = pages_of s" using True K(2,3) U(2) by (auto simp: m'_def)
      have "process_create nm entry_point cr3 s = Some (0, s1\<lparr>pages_of := m', kheap_of := h2\<rparr>)"
        using start True f(1) by (auto simp: m'_def)
      moreover have "mem_inv (s1\<lparr>pages_of := m', kheap_of := h2\<rparr>) bs2" using m m' f(2) by (simp add: mem_inv_def)
      moreover have "pcbs s1 q = pcbs s q" if "q \<in> live_blocks (kheap_of s)" for q
        using lv(3) that s1(4) [of q] by metis
      then have "not_created s (s1\<lparr>pages_of := m', kheap_of := h2\<rparr>)"
        using s1(2) lv m' by (simp add: not_created_def held_blocks_def free_pages_def)
      ultimately show ?thesis by auto
    next
      case False
      define s' where "s' = install_process (free_slot (process_table s)) p entry_point cr3
                (upd_pcb p (\<lambda>x. x\<lparr>kernel_stack := ks + PAGE_SIZE, user_stack := us + PAGE_SIZE\<rparr>)
                   (s1\<lparr>pages_of := p2\<rparr>))"
      have "mem_inv s' bs1" using U(1) a(1) by (simp add: mem_inv_def s'_def install_process_def upd_pcb_def s1(3))
      moreover have "created s nm entry_point cr3 p s'"
        using K(3) U(3) False lv \<open>\<not> MAX_PROCESSES \<le> _\<close>
        by (simp add: created_def s'_def install_process_def upd_pcb_def s1_def held_blocks_def free_pages_def Let_def)
          (auto simp: insert_commute)
      ultimately show ?thesis using start False p0 unfolding s'_def by auto
    qed
  qed
qed

section \<open>A concrete state\<close>

definition idle_pcb :: process where
  "idle_pcb = \<lparr>pid = 0, pname = ''idle'', pstate = PROCESS_RUNNING,
     pcontext = \<lparr>c_rax = 0, c_rbx = 0, c_rcx = 0, c_rdx = 0, c_rsi = 0, c_rdi = 0, c_rbp = 0, c_rsp = 0,
       c_r8 = 0, c_r9 = 0, c_r10 = 0, c_r11 = 0, c_r12 = 0, c_r13 = 0, c_r14 = 0, c_r15 = 0,
       c_rip = 0, c_rflags = 0, c_cr3 = 0\<rparr>,
     kernel_stack = 0, user_stack = 0, priority = 0, time_slice = 0, pnext = 0\<rparr>"

definition procs_demo :: procs where
  "procs_demo = \<lparr>pcbs = (\<lambda>_. idle_pcb), process_table = 0x9000 # replicate 63 0, next_pid = 1,
     current_process = 0x9000, ready_queue_head = 0, ready_queue_tail = 0,
     kheap_of = heap_demo, pages_of = pmm_demo, switches = []\<rparr>"

lemma procs_demo_ok: "sched_ok procs_demo 0x9000 []" "ready_ok procs_demo []"
  "mem_inv procs_demo [(0xFEF, True)]" "length (process_table procs_demo) = MAX_PROCESSES"
  using heap_demo_ok pmm_demo_inv
  by (simp_all add: sched_ok_def ready_ok_def procs_demo_def idle_pcb_def mem_inv_def MAX_PROCESSES_def)

text \<open>Two processes wait behind the running one.\<close>

definition busy_demo :: procs where
  "busy_demo = scheduler_add 0xB000 (scheduler_add 0xA000 procs_demo)"

lemma busy_demo_ok: "sched_ok busy_demo 0x9000 [0xA000, 0xB000]"
proof -
  have a: "ready_ok (scheduler_add 0xA000 procs_demo) [0xA000]"
    using scheduler_add_ok [OF procs_demo_ok(2), of "0xA000"] by simp
  have "ready_ok busy_demo [0xA000, 0xB000]"
    using scheduler_add_ok [OF a, of "0xB000"] by (simp add: busy_demo_def)
  then show ?thesis using procs_demo_ok(1) by (simp add: sched_ok_def busy_demo_def scheduler_add_frame)
qed

section \<open>What the process manager does\<close>

text \<open>
  C18. With \<open>c\<close> running and the processes \<open>q\<close> ready, the scheduler is round robin: after any
  number \<open>k\<close> of calls of \<open>scheduler_schedule\<close> the process that runs, and the queue behind it, are
  the list \<open>c # q\<close> rotated \<open>k\<close> times, it is the only running one and all others are ready. So
  every ready process gets the processor: the \<open>i\<close>-th of the queue after \<open>i + 1\<close> calls.
\<close>

theorem scheduler_round_robin:
  assumes "sched_ok s c q" and "q \<noteq> []"
  shows "sched_ok ((scheduler_schedule ^^ k) s) (hd (rotate k (c # q))) (tl (rotate k (c # q))) \<and>
    (\<forall>i < length q. current_process ((scheduler_schedule ^^ Suc i) s) = q ! i)"
proof -
  have "current_process ((scheduler_schedule ^^ Suc i) s) = q ! i" if "i < length q" for i
  proof -
    have "hd (rotate (Suc i) (c # q)) = q ! i"
      using that by (simp only: hd_rotate_conv_nth list.distinct simp_thms) simp
    then show ?thesis
      using schedule_turns [OF assms, of "Suc i"] by (simp add: sched_ok_def del: funpow.simps rotate_Suc)
  qed
  then show ?thesis using schedule_turns [OF assms] by blast
qed

theorem scheduler_round_robin_witness:
  "current_process ((scheduler_schedule ^^ 5) busy_demo) = 0xB000 \<and>
   current_process ((scheduler_schedule ^^ Suc 0) busy_demo) = 0xA000"
proof -
  have "hd (rotate 5 [0x9000, 0xA000, 0xB000 :: u64]) = 0xB000" by code_simp
  moreover have "\<forall>i < 2. current_process ((scheduler_schedule ^^ Suc i) busy_demo) = [0xA000, 0xB000] ! i"
    and r: "sched_ok ((scheduler_schedule ^^ 5) busy_demo) (hd (rotate 5 [0x9000, 0xA000, 0xB000]))
      (tl (rotate 5 [0x9000, 0xA000, 0xB000]))"
    using scheduler_round_robin [OF busy_demo_ok, of 5] by simp_all
  then have "current_process ((scheduler_schedule ^^ Suc 0) busy_demo) = [0xA000, 0xB000] ! 0"
    by (metis zero_less_numeral)
  ultimately show ?thesis using r unfolding sched_ok_def by simp
qed

text \<open>
  A process that runs alone is lost: when \<open>scheduler_schedule\<close> picks the running process
  again it returns early and leaves it marked ready and off the queue, so from the second
  call on the idle process runs, and the lost process never again.
\<close>

theorem lone_process_is_lost:
  assumes "sched_ok s c []" and "process_table s ! 0 = i" and "i \<noteq> 0" and "i \<noteq> c"
  shows "current_process ((scheduler_schedule ^^ (k + 2)) s) = i \<and> ready_ok ((scheduler_schedule ^^ (k + 2)) s) []"
proof -
  let ?I = "\<lambda>s. current_process s = i \<and> ready_ok s [] \<and> process_table s ! 0 = i"
  have first: "?I (scheduler_schedule (scheduler_schedule s))"
  proof -
    note a = schedule_alone [OF assms(1)]
    have c: "c \<noteq> 0" using assms(1) by (simp add: sched_ok_def)
    have "scheduler_schedule (scheduler_schedule s) =
        ((upd_pcb i (\<lambda>x. x\<lparr>pstate := PROCESS_RUNNING\<rparr>) (scheduler_schedule s))\<lparr>current_process := i\<rparr>)
          \<lparr>switches := switches (scheduler_schedule s) @ [(c, i)]\<rparr>"
      using a c assms(2-4) scheduler_next_empty [OF a(1)]
      unfolding scheduler_schedule_def [of "scheduler_schedule s"] by (simp add: Let_def upd_pcb_def)
    then show ?thesis using a(1,4) assms(2) by (simp add: upd_pcb_def ready_ok_def)
  qed
  have step: "?I (scheduler_schedule t)" if t: "?I t" for t
  proof (cases "pstate (pcbs t i) = PROCESS_RUNNING")
    case True
    then have "sched_ok t i []" using t assms(3) by (simp add: sched_ok_def)
    then show ?thesis using schedule_alone [of t i] t by simp
  next
    case False
    then show ?thesis using t scheduler_next_empty [of t] assms(3) by (simp add: scheduler_schedule_def)
  qed
  have "?I ((scheduler_schedule ^^ (k + 2)) s)"
    by (induction k) (use first step in \<open>simp_all add: numeral_2_eq_2\<close>)
  then show ?thesis by simp
qed

theorem lone_process_is_lost_witness:
  "current_process ((scheduler_schedule ^^ 7) (procs_demo\<lparr>process_table := [0x8000]\<rparr>)) = 0x8000"
  using lone_process_is_lost [of "procs_demo\<lparr>process_table := [0x8000]\<rparr>" "0x9000" "0x8000" 5] procs_demo_ok(1)
  by (simp add: sched_ok_def ready_ok_def)

text \<open>
  C19. \<open>process_create\<close> always returns. On success the control block is a new heap block, the
  stacks are two distinct pages that were free, the first free slot of the table holds the
  process, and its context starts at the entry point on its own stack. On every failure, of
  the table, the heap or either stack, the heap blocks and pages held are those held before.
\<close>

theorem process_create_all_or_nothing:
  assumes "mem_inv s bs" and "length (process_table s) = MAX_PROCESSES"
  shows "\<exists>p s' bs'. process_create nm entry_point cr3 s = Some (p, s') \<and> mem_inv s' bs' \<and>
    (if p = 0 then not_created s s' else created s nm entry_point cr3 p s')"
  using assms by (rule process_create_cases)

theorem process_create_all_or_nothing_witness:
  "\<exists>p s' bs'. process_create ''sh'' 0x1234 0 procs_demo = Some (p, s') \<and> mem_inv s' bs' \<and>
     (p \<noteq> 0 \<longrightarrow> pname (pcbs s' p) = ''sh'' \<and> process_table s' ! 1 = p)"
proof -
  have fs: "process_table procs_demo = 0x9000 # replicate 63 0" "free_slot (0x9000 # replicate 63 0) = 1"
    by (simp only: procs_demo_def procs.simps, code_simp)
  obtain p s' bs' where r: "process_create ''sh'' 0x1234 0 procs_demo = Some (p, s')" "mem_inv s' bs'"
    "if p = 0 then not_created procs_demo s' else created procs_demo ''sh'' 0x1234 0 p s'"
    using process_create_all_or_nothing [OF procs_demo_ok(3,4)] by blast
  have "pname (pcbs s' p) = ''sh'' \<and> process_table s' ! 1 = p" if "p \<noteq> 0"
  proof -
    have "created procs_demo ''sh'' 0x1234 0 p s'" using r(3) that by simp
    then have "pname (pcbs s' p) = take 31 ''sh''"
      "process_table s' = (process_table procs_demo)[free_slot (process_table procs_demo) := p]"
      unfolding created_def Let_def by blast+
    then show ?thesis unfolding fs by (simp del: free_slot.simps)
  qed
  then show ?thesis using r(1,2) by blast
qed

end
