(* ===== verification/Port.thy ===== *)
theory Port
  imports Prelude
begin

text \<open>
  Port input and output. What the drivers do to the hardware is the list of their accesses, in
  order; what the hardware answers is a parameter \<open>dev\<close>, any function of the accesses so far
  and of the port that is read. A lemma that needs a device to behave as its data sheet says
  states so as a hypothesis on \<open>dev\<close>.
\<close>

datatype io_event =
    Out8 u16 u8 | Out16 u16 u16 | Out32 u16 u32
  | In8 u16 u8 | In16 u16 u16 | In32 u16 u32

type_synonym history = "io_event list"

type_synonym device = "history \<Rightarrow> u16 \<Rightarrow> u32"

definition outb :: "u16 \<Rightarrow> u8 \<Rightarrow> history \<Rightarrow> history" where
  "outb p v h = h @ [Out8 p v]"

definition outw :: "u16 \<Rightarrow> u16 \<Rightarrow> history \<Rightarrow> history" where
  "outw p v h = h @ [Out16 p v]"

definition outl :: "u16 \<Rightarrow> u32 \<Rightarrow> history \<Rightarrow> history" where
  "outl p v h = h @ [Out32 p v]"

definition inb :: "device \<Rightarrow> u16 \<Rightarrow> history \<Rightarrow> u8 \<times> history" where
  "inb dev p h = (let v = ucast (dev h p) in (v, h @ [In8 p v]))"

definition inw :: "device \<Rightarrow> u16 \<Rightarrow> history \<Rightarrow> u16 \<times> history" where
  "inw dev p h = (let v = ucast (dev h p) in (v, h @ [In16 p v]))"

definition inl :: "device \<Rightarrow> u16 \<Rightarrow> history \<Rightarrow> u32 \<times> history" where
  "inl dev p h = (let v = dev h p in (v, h @ [In32 p v]))"

text \<open>The bytes a driver has written to a port.\<close>

fun written8 :: "u16 \<Rightarrow> history \<Rightarrow> u8 list" where
  "written8 p [] = []"
| "written8 p (Out8 q v # h) = (if q = p then v # written8 p h else written8 p h)"
| "written8 p (e # h) = written8 p h"

lemma written8_append [simp]: "written8 p (h @ h') = written8 p h @ written8 p h'"
  by (induction p h rule: written8.induct) auto

end
