(* ===== verification/Pic.thy ===== *)
theory Pic
  imports Port
begin

text \<open>
  The two 8259 interrupt controllers, \<^verbatim>\<open>src/kernel/pic.cpp\<close>. The lemmas show
  that masking and unmasking change the mask bit of one interrupt line of one controller, on
  any device whose mask register reads back what was last written.
\<close>

definition PIC1_COMMAND :: u16 where "PIC1_COMMAND = 0x20"
definition PIC1_DATA :: u16 where "PIC1_DATA = 0x21"
definition PIC2_COMMAND :: u16 where "PIC2_COMMAND = 0xA0"
definition PIC2_DATA :: u16 where "PIC2_DATA = 0xA1"
definition PIC_EOI :: u8 where "PIC_EOI = 0x20"
definition ICW1_ICW4 :: u8 where "ICW1_ICW4 = 0x01"
definition ICW1_INIT :: u8 where "ICW1_INIT = 0x10"
definition ICW4_8086 :: u8 where "ICW4_8086 = 0x01"

definition pic_io_wait :: "history \<Rightarrow> history" where
  "pic_io_wait h = outb 0x80 0 h"

definition pic_init :: "history \<Rightarrow> history" where
  "pic_init h =
     (let step = (\<lambda>p v h. pic_io_wait (outb p v h));
          h1 = step PIC2_COMMAND (ICW1_INIT OR ICW1_ICW4) (step PIC1_COMMAND (ICW1_INIT OR ICW1_ICW4) h);
          h2 = step PIC2_DATA 0x28 (step PIC1_DATA 0x20 h1);
          h3 = step PIC2_DATA 0x02 (step PIC1_DATA 0x04 h2);
          h4 = step PIC2_DATA ICW4_8086 (step PIC1_DATA ICW4_8086 h3)
      in outb PIC2_DATA 0xFF (outb PIC1_DATA 0xFF h4))"

definition pic_send_eoi :: "u8 \<Rightarrow> history \<Rightarrow> history" where
  "pic_send_eoi irq h =
     outb PIC1_COMMAND PIC_EOI (if irq \<ge> 8 then outb PIC2_COMMAND PIC_EOI h else h)"

definition pic_disable_all :: "history \<Rightarrow> history" where
  "pic_disable_all h = outb PIC2_DATA 0xFF (outb PIC1_DATA 0xFF h)"

text \<open>The port and line of an interrupt number; the shift is an \<^verbatim>\<open>int\<close> shift cut to a byte.\<close>

definition pic_line :: "u8 \<Rightarrow> u16 \<times> nat" where
  "pic_line irq = (if irq < 8 then (PIC1_DATA, unat irq) else (PIC2_DATA, unat (irq - 8)))"

definition pic_set_mask :: "device \<Rightarrow> u8 \<Rightarrow> history \<Rightarrow> history" where
  "pic_set_mask dev irq h =
     (case pic_line irq of (port, n) \<Rightarrow>
        (case inb dev port h of (v, h1) \<Rightarrow> outb port (v OR push_bit n 1) h1))"

definition pic_clear_mask :: "device \<Rightarrow> u8 \<Rightarrow> history \<Rightarrow> history" where
  "pic_clear_mask dev irq h =
     (case pic_line irq of (port, n) \<Rightarrow>
        (case inb dev port h of (v, h1) \<Rightarrow> outb port (v AND NOT (push_bit n 1)) h1))"

section \<open>Masks\<close>

text \<open>
  After the initialisation sequence, and as long as the command ports only see end-of-interrupt,
  a data port of the 8259 is its mask register: a read gives what was last written to it.
\<close>

definition set_up :: "history \<Rightarrow> bool" where
  "set_up h \<longleftrightarrow> (\<exists>h0 es. h = pic_init h0 @ es \<and>
     (\<forall>v. Out8 PIC1_COMMAND v \<in> set es \<or> Out8 PIC2_COMMAND v \<in> set es \<longrightarrow> v = PIC_EOI))"

definition mask_reg :: "u16 \<Rightarrow> history \<Rightarrow> u8" where
  "mask_reg p h = (if written8 p h = [] then 0 else last (written8 p h))"

definition reads_mask :: "device \<Rightarrow> bool" where
  "reads_mask dev \<longleftrightarrow> (\<forall>h p. set_up h \<and> (p = PIC1_DATA \<or> p = PIC2_DATA) \<longrightarrow> ucast (dev h p) = mask_reg p h)"

text \<open>Line \<open>irq\<close> (0 to 15) is masked.\<close>

definition masked :: "history \<Rightarrow> u8 \<Rightarrow> bool" where
  "masked h irq = (case pic_line irq of (p, n) \<Rightarrow> bit (mask_reg p h) n)"

lemma pic_ports: "PIC1_DATA \<noteq> PIC2_DATA"
  by (simp add: PIC1_DATA_def PIC2_DATA_def)

lemma mask_reg_out: "mask_reg p (h @ [Out8 q v]) = (if p = q then v else mask_reg p h)"
  "mask_reg p (h @ [In8 q w]) = mask_reg p h"
  by (simp_all add: mask_reg_def)

lemma pic_line_bound: "irq < 16 \<Longrightarrow> pic_line irq = (p, n) \<Longrightarrow> n < 8 \<and> (p = PIC1_DATA \<or> p = PIC2_DATA)"
  by (auto simp: pic_line_def word_less_nat_alt split: if_splits) unat_arith

lemma pic_line_inj:
  assumes "irq < 16" and "j < 16" and "pic_line irq = pic_line j"
  shows "irq = j"
proof -
  have "unat (irq - 8) = unat irq - 8" if "\<not> irq < 8" for irq :: u8
    using that by (simp add: unat_sub word_le_nat_alt word_less_nat_alt)
  then show ?thesis using assms pic_ports
    by (auto simp: pic_line_def word_unat_eq_iff word_less_nat_alt split: if_splits)
qed

lemma set_clear_reg:
  assumes "reads_mask dev" and "set_up h" and l: "pic_line irq = (p, n)" "p = PIC1_DATA \<or> p = PIC2_DATA"
  shows "mask_reg q (pic_set_mask dev irq h) = (if q = p then mask_reg p h OR push_bit n 1 else mask_reg q h)"
    and "mask_reg q (pic_clear_mask dev irq h) = (if q = p then mask_reg p h AND NOT (push_bit n 1) else mask_reg q h)"
proof -
  have "ucast (dev h p) = mask_reg p h" using assms by (auto simp: reads_mask_def)
  then show "mask_reg q (pic_set_mask dev irq h) = (if q = p then mask_reg p h OR push_bit n 1 else mask_reg q h)"
    "mask_reg q (pic_clear_mask dev irq h) = (if q = p then mask_reg p h AND NOT (push_bit n 1) else mask_reg q h)"
    by (simp_all add: pic_set_mask_def pic_clear_mask_def l inb_def outb_def mask_reg_def Let_def)
qed

lemma bit_push_one: "n < 8 \<Longrightarrow> bit (push_bit n 1 :: u8) k \<longleftrightarrow> k = n"
  by (auto simp: bit_simps)

text \<open>
  On controllers whose mask registers read back what was written, \<open>pic_clear_mask\<close> unmasks
  and \<open>pic_set_mask\<close> masks exactly the line it is given, of either controller; the masks of the
  other fifteen lines stay.
\<close>

theorem pic_masks_one_line:
  assumes "reads_mask dev" and "set_up h" and "irq < 16" and "j < 16"
  shows "masked (pic_set_mask dev irq h) j = (j = irq \<or> masked h j) \<and>
    masked (pic_clear_mask dev irq h) j = (j \<noteq> irq \<and> masked h j)"
proof -
  obtain p n where l: "pic_line irq = (p, n)" by force
  obtain q k where m: "pic_line j = (q, k)" by force
  have b: "n < 8" "p = PIC1_DATA \<or> p = PIC2_DATA" using pic_line_bound [OF assms(3) l] by auto
  have k: "k < 8" using pic_line_bound [OF assms(4) m] by simp
  have "irq = j \<longleftrightarrow> p = q \<and> n = k" using pic_line_inj [OF assms(3,4)] l m by auto
  then show ?thesis
    using set_clear_reg [OF assms(1,2) l b(2)] bit_push_one [OF b(1)] k
    by (auto simp: masked_def m bit_or_iff bit_and_iff bit_not_iff)
qed

definition pic_demo :: device where
  "pic_demo h p = ucast (mask_reg p h)"

theorem pic_masks_one_line_witness:
  "masked (pic_clear_mask pic_demo 1 (pic_init [])) 12 \<and> \<not> masked (pic_clear_mask pic_demo 1 (pic_init [])) 1"
proof -
  have d: "reads_mask pic_demo"
    by (simp add: reads_mask_def pic_demo_def ucast_down_ucast_id is_down_def target_size_def source_size_def)
  have s: "set_up (pic_init [])" unfolding set_up_def by (intro exI [of _ "[]"]) simp
  have "masked (pic_init []) 12" by code_simp
  then show ?thesis
    using pic_masks_one_line [OF d s, of 1 12] pic_masks_one_line [OF d s, of 1 1] by simp
qed

end
