(* ===== verification/Timer.thy ===== *)
theory Timer
  imports Pic Process
begin

text \<open>
  The PIT timer, \<^verbatim>\<open>src/kernel/timer.cpp\<close>. The tick count and the frequency are
  the driver's state; each interrupt counts, and every tenth one calls the scheduler of theory
  Process. The lemmas show the divisor that is programmed, how ticks drive the scheduler, and
  how long \<open>timer_sleep\<close> waits.
\<close>

definition PIT_CHANNEL0 :: u16 where "PIT_CHANNEL0 = 0x40"
definition PIT_COMMAND :: u16 where "PIT_COMMAND = 0x43"
definition PIT_FREQUENCY :: u32 where "PIT_FREQUENCY = 1193182"
definition PIT_BINARY :: u8 where "PIT_BINARY = 0x00"
definition PIT_MODE2 :: u8 where "PIT_MODE2 = 0x04"
definition PIT_LOHI :: u8 where "PIT_LOHI = 0x30"
definition PIT_CHANNEL0_SEL :: u8 where "PIT_CHANNEL0_SEL = 0x00"

record timer =
  timer_ticks :: u64
  timer_frequency :: u32

definition pit_divisor :: "u32 \<Rightarrow> u32" where
  "pit_divisor freq = (let d = PIT_FREQUENCY div freq in if d > 65535 then 65535 else d)"

text \<open>
  \<open>None\<close> is the divide fault: of \<open>PIT_FREQUENCY\<close> by the frequency, or by the divisor in the
  line that prints the actual frequency, after the PIT is programmed.
\<close>

definition timer_init :: "device \<Rightarrow> u32 \<Rightarrow> timer \<Rightarrow> history \<Rightarrow> (timer \<times> history) option" where
  "timer_init dev frequency t h =
     (if frequency = 0 then None
      else let divisor = pit_divisor frequency;
               h1 = outb PIT_COMMAND (PIT_CHANNEL0_SEL OR PIT_LOHI OR PIT_MODE2 OR PIT_BINARY) h;
               h2 = outb PIT_CHANNEL0 (ucast (divisor AND 0xFF)) h1;
               h3 = outb PIT_CHANNEL0 (ucast (drop_bit 8 divisor AND 0xFF)) h2
           in if divisor = 0 then None
              else Some (t\<lparr>timer_frequency := frequency\<rparr>, pic_clear_mask dev 0 h3))"

definition timer_handler :: "timer \<times> procs \<Rightarrow> timer \<times> procs" where
  "timer_handler x =
     (let t = (fst x)\<lparr>timer_ticks := timer_ticks (fst x) + 1\<rparr>
      in (t, if timer_ticks t mod 10 = 0 then scheduler_schedule (snd x) else snd x))"

definition timer_get_ticks :: "timer \<Rightarrow> u64" where
  "timer_get_ticks t = timer_ticks t"

definition sleep_target :: "u32 \<Rightarrow> timer \<Rightarrow> u64" where
  "sleep_target milliseconds t = timer_ticks t + ucast (milliseconds * timer_frequency t div 1000)"

text \<open>The wait of \<open>timer_sleep\<close>: each \<^verbatim>\<open>hlt\<close> lasts until the next timer interrupt.\<close>

function sleep_until :: "u64 \<Rightarrow> timer \<times> procs \<Rightarrow> timer \<times> procs" where
  "sleep_until target x = (if timer_ticks (fst x) < target then sleep_until target (timer_handler x) else x)"
  by pat_completeness auto
termination
  by (relation "measure (\<lambda>(target, x). unat target - unat (timer_ticks (fst x)))")
    (auto simp: timer_handler_def Let_def word_less_nat_alt unat_plus_one)

declare sleep_until.simps [simp del]

definition timer_sleep :: "u32 \<Rightarrow> timer \<times> procs \<Rightarrow> timer \<times> procs" where
  "timer_sleep milliseconds x = sleep_until (sleep_target milliseconds (fst x)) x"

section \<open>What the timer does\<close>

lemma handler_ticks: "timer_ticks (fst ((timer_handler ^^ n) x)) = timer_ticks (fst x) + of_nat n"
  by (induction n) (simp_all add: timer_handler_def Let_def add.commute)

lemma handler_frequency: "timer_frequency (fst ((timer_handler ^^ n) x)) = timer_frequency (fst x)"
  by (induction n) (simp_all add: timer_handler_def Let_def)

lemma div_mod_step: "(n :: nat) div 10 + (if Suc n mod 10 = 0 then 1 else 0) = Suc n div 10"
  by presburger

lemma handler_schedules:
  assumes "unat (timer_ticks (fst x)) + n < 2 ^ 64"
  shows "snd ((timer_handler ^^ n) x) =
    (scheduler_schedule ^^ ((unat (timer_ticks (fst x)) + n) div 10 - unat (timer_ticks (fst x)) div 10)) (snd x)"
  using assms
proof (induction n)
  case (Suc n)
  let ?t = "unat (timer_ticks (fst x))"
  define k where "k = (?t + n) div 10 - ?t div 10"
  have IH: "snd ((timer_handler ^^ n) x) = (scheduler_schedule ^^ k) (snd x)"
    using Suc by (simp add: k_def)
  have "unat (timer_ticks (fst x) + of_nat n + 1) = ?t + Suc n"
    using Suc.prems word_no_wrap [of "timer_ticks (fst x)" "Suc n"] by (simp add: ac_simps)
  then have m: "(timer_ticks (fst x) + of_nat n + 1) mod 10 = 0 \<longleftrightarrow> (?t + Suc n) mod 10 = 0"
    by (simp add: word_unat_eq_iff unat_mod)
  have s: "snd ((timer_handler ^^ Suc n) x) =
      (if (?t + Suc n) mod 10 = 0 then (scheduler_schedule ^^ Suc k) (snd x) else (scheduler_schedule ^^ k) (snd x))"
    using m by (simp add: timer_handler_def [of "(timer_handler ^^ n) x"] Let_def handler_ticks IH)
  have "?t div 10 \<le> (?t + n) div 10" by (rule div_le_mono) simp
  then have "(?t + Suc n) div 10 - ?t div 10 = k + (if (?t + Suc n) mod 10 = 0 then 1 else 0)"
    using div_mod_step [of "?t + n"] unfolding k_def by simp
  then show ?case unfolding s by simp
qed simp

lemma sleep_until_ticks:
  "sleep_until target x = (timer_handler ^^ (unat target - unat (timer_ticks (fst x)))) x"
proof (induction target x rule: sleep_until.induct)
  case (1 target x)
  show ?case
  proof (cases "timer_ticks (fst x) < target")
    case True
    have "unat (timer_ticks (fst (timer_handler x))) = Suc (unat (timer_ticks (fst x)))"
      using True by (simp add: timer_handler_def Let_def unat_plus_one)
    moreover have lt: "unat (timer_ticks (fst x)) < unat target" using True by (simp add: word_less_nat_alt)
    ultimately have "unat target - unat (timer_ticks (fst x)) =
        Suc (unat target - unat (timer_ticks (fst (timer_handler x))))" by simp
    then show ?thesis
      using 1 True by (simp add: sleep_until.simps [of target x] funpow_swap1)
  next
    case False
    then show ?thesis by (simp add: sleep_until.simps [of target x] word_less_nat_alt)
  qed
qed

text \<open>
  For every frequency from 1 Hz to the frequency of the PIT, \<open>timer_init\<close> returns, and the two
  bytes it writes to channel 0 are, low byte first, a divisor between 1 and 65535: the PIT
  frequency divided by the frequency asked for, or 65535 where that is too large.
\<close>

theorem timer_init_divisor:
  assumes "1 \<le> frequency" and "frequency \<le> PIT_FREQUENCY"
  shows "\<exists>t' h' lo hi. timer_init dev frequency t h = Some (t', h') \<and> timer_frequency t' = frequency \<and>
    written8 PIT_CHANNEL0 h' = written8 PIT_CHANNEL0 h @ [lo, hi] \<and>
    unat lo + 256 * unat hi = min 65535 (1193182 div unat frequency) \<and> unat lo + 256 * unat hi \<ge> 1"
proof -
  let ?d = "pit_divisor frequency"
  have f: "1 \<le> unat frequency" "unat frequency \<le> 1193182"
    using assms by (simp_all add: word_le_nat_alt PIT_FREQUENCY_def)
  have d: "unat ?d = min 65535 (1193182 div unat frequency)"
    by (auto simp: pit_divisor_def PIT_FREQUENCY_def Let_def word_less_nat_alt unat_div)
  have "1 \<le> (1193182 :: nat) div unat frequency" using f by (simp add: div_greater_zero_iff Suc_le_eq)
  then have d1: "1 \<le> unat ?d" "unat ?d < 2 ^ 16" by (simp_all add: d)
  then have d0: "?d \<noteq> 0" "frequency \<noteq> 0" using f by auto
  let ?lo = "ucast (?d AND 0xFF) :: u8" and ?hi = "ucast (drop_bit 8 ?d AND 0xFF) :: u8"
  have "unat ?lo = unat ?d mod 256" "unat ?hi = unat ?d div 256 mod 256"
    using unat_and_mask [of ?d 8] unat_and_mask [of "drop_bit 8 ?d" 8]
    by (simp_all add: mask_numeral unsigned_ucast_eq take_bit_eq_mod drop_bit_eq_div unat_div)
  then have "unat ?lo + 256 * unat ?hi = unat ?d" using d1(2) by simp
  moreover have "PIT_CHANNEL0 \<noteq> PIT_COMMAND" "PIT_CHANNEL0 \<noteq> PIC1_DATA"
    by (simp_all add: PIT_CHANNEL0_def PIT_COMMAND_def PIC1_DATA_def)
  ultimately show ?thesis
    using d0 d d1 by (simp add: timer_init_def Let_def outb_def pic_clear_mask_def pic_line_def inb_def)
qed

theorem timer_init_divisor_witness:
  "\<exists>t' h' lo hi. timer_init pic_demo 100 \<lparr>timer_ticks = 0, timer_frequency = 0\<rparr> [] = Some (t', h') \<and>
     written8 PIT_CHANNEL0 h' = [lo, hi] \<and> unat lo + 256 * unat hi = 11931"
  using timer_init_divisor [of 100 pic_demo "\<lparr>timer_ticks = 0, timer_frequency = 0\<rparr>" "[]"]
  by (auto simp: PIT_FREQUENCY_def)

text \<open>
  Preemption: \<open>n\<close> timer interrupts add \<open>n\<close> to the tick count and call the scheduler once for
  every multiple of ten that the count passes.
\<close>

theorem ticks_drive_scheduler:
  assumes "unat (timer_ticks t) + n < 2 ^ 64"
  shows "(timer_handler ^^ n) (t, p) = (t\<lparr>timer_ticks := timer_ticks t + of_nat n\<rparr>,
    (scheduler_schedule ^^ ((unat (timer_ticks t) + n) div 10 - unat (timer_ticks t) div 10)) p)"
  using handler_ticks [of n "(t, p)"] handler_frequency [of n "(t, p)"] handler_schedules [of "(t, p)" n] assms
  by (simp add: prod_eq_iff)

theorem ticks_drive_scheduler_witness:
  "snd ((timer_handler ^^ 25) (\<lparr>timer_ticks = 8, timer_frequency = 100\<rparr>, busy_demo))
     = (scheduler_schedule ^^ 3) busy_demo"
  using ticks_drive_scheduler [of "\<lparr>timer_ticks = 8, timer_frequency = 100\<rparr>" 25 busy_demo] by simp

text \<open>
  \<open>timer_sleep\<close> returns, and where neither the 32-bit product nor the tick count overflows it
  returns after exactly \<open>milliseconds * frequency / 1000\<close> timer interrupts.
\<close>

theorem timer_sleep_waits:
  assumes "unat milliseconds * unat (timer_frequency t) < 2 ^ 32"
    and "unat (timer_ticks t) + unat milliseconds * unat (timer_frequency t) div 1000 < 2 ^ 64"
  shows "timer_sleep milliseconds (t, p) =
    (timer_handler ^^ (unat milliseconds * unat (timer_frequency t) div 1000)) (t, p)"
proof -
  let ?n = "unat milliseconds * unat (timer_frequency t) div 1000"
  have "unat (milliseconds * timer_frequency t div 1000) = ?n"
    using assms(1) by (simp add: unat_div unat_word_ariths)
  then have u: "unat (ucast (milliseconds * timer_frequency t div 1000) :: u64) = ?n"
    using unsigned_less [of "milliseconds * timer_frequency t div 1000", where ?'a = nat]
    by (simp add: unsigned_ucast_eq take_bit_eq_mod)
  have "(ucast (milliseconds * timer_frequency t div 1000) :: u64) = of_nat ?n"
    using u by (metis of_nat_unat ucast_id)
  then have "unat (sleep_target milliseconds t) = unat (timer_ticks t) + ?n"
    using assms(2) word_no_wrap [of "timer_ticks t" ?n] by (simp add: sleep_target_def)
  then show ?thesis by (simp add: timer_sleep_def sleep_until_ticks)
qed

theorem timer_sleep_waits_witness:
  "timer_sleep 50 (\<lparr>timer_ticks = 7, timer_frequency = 100\<rparr>, busy_demo)
     = (timer_handler ^^ 5) (\<lparr>timer_ticks = 7, timer_frequency = 100\<rparr>, busy_demo)"
  using timer_sleep_waits [of 50 "\<lparr>timer_ticks = 7, timer_frequency = 100\<rparr>"] by simp

text \<open>The product is computed in 32 bits: about 12 hours at 100 Hz wrap to almost no wait.\<close>

lemma timer_sleep_overflow:
  "sleep_target 42949673 \<lparr>timer_ticks = 0, timer_frequency = 100\<rparr> = 0"
  by (simp add: sleep_target_def)

end
