(* ===== verification/Gdt.thy ===== *)
theory Gdt
  imports Pmm
begin

text \<open>
  Segment descriptors and the task state segment, \<^verbatim>\<open>src/kernel/gdt.cpp\<close> and
  \<^verbatim>\<open>src/kernel/tss.cpp\<close>. The processor reads base and limit back from fields that
  the code scatters over a descriptor; \<open>seg_base\<close>, \<open>seg_limit\<close> and \<open>tss_base_of\<close> are that
  reading, and the lemmas show that it gives what the code was asked to encode.
\<close>

record gdt_entry =
  limit_low :: u16
  base_low :: u16
  base_middle :: u8
  access :: u8
  granularity :: u8
  base_high :: u8

definition GDT_ENTRIES :: nat where "GDT_ENTRIES = 7"
definition SIZEOF_GDT_ENTRY :: nat where "SIZEOF_GDT_ENTRY = 8"

definition GDT_ACCESS_PRESENT :: u8 where "GDT_ACCESS_PRESENT = 0x80"
definition GDT_ACCESS_PRIV_RING0 :: u8 where "GDT_ACCESS_PRIV_RING0 = 0x00"
definition GDT_ACCESS_PRIV_RING3 :: u8 where "GDT_ACCESS_PRIV_RING3 = 0x60"
definition GDT_ACCESS_NONSYS :: u8 where "GDT_ACCESS_NONSYS = 0x10"
definition GDT_ACCESS_EXECUTABLE :: u8 where "GDT_ACCESS_EXECUTABLE = 0x08"
definition GDT_ACCESS_RW :: u8 where "GDT_ACCESS_RW = 0x02"
definition GDT_GRAN_4K :: u8 where "GDT_GRAN_4K = 0x80"
definition GDT_GRAN_64BIT :: u8 where "GDT_GRAN_64BIT = 0x20"

record gdt =
  gdt_table :: "gdt_entry list"
  gdt_ptr_limit :: u16
  gdt_ptr_base :: u64
  gdt_flushed :: "u64 list"

definition gdt_set_gate :: "nat \<Rightarrow> u32 \<Rightarrow> u32 \<Rightarrow> u8 \<Rightarrow> u8 \<Rightarrow> gdt_entry list \<Rightarrow> gdt_entry list" where
  "gdt_set_gate num base limit acc gran g =
     g[num := \<lparr>limit_low = ucast (limit AND 0xFFFF), base_low = ucast (base AND 0xFFFF),
               base_middle = ucast (drop_bit 16 base AND 0xFF), access = acc,
               granularity = ucast (drop_bit 16 limit AND 0x0F) OR (gran AND 0xF0),
               base_high = ucast (drop_bit 24 base AND 0xFF)\<rparr>]"

text \<open>\<open>table_at\<close> and \<open>ptr_at\<close> are the addresses the linker gives the table and its pointer.\<close>

definition gdt_init :: "u64 \<Rightarrow> u64 \<Rightarrow> gdt \<Rightarrow> gdt" where
  "gdt_init table_at ptr_at s =
     (let flags = GDT_GRAN_64BIT OR GDT_GRAN_4K;
          k = GDT_ACCESS_PRESENT OR GDT_ACCESS_PRIV_RING0 OR GDT_ACCESS_NONSYS;
          u = GDT_ACCESS_PRESENT OR GDT_ACCESS_PRIV_RING3 OR GDT_ACCESS_NONSYS;
          g0 = gdt_set_gate 0 0 0 0 0 (gdt_table s);
          g1 = gdt_set_gate 1 0 0xFFFFFFFF (k OR GDT_ACCESS_EXECUTABLE OR GDT_ACCESS_RW) flags g0;
          g2 = gdt_set_gate 2 0 0xFFFFFFFF (k OR GDT_ACCESS_RW) flags g1;
          g3 = gdt_set_gate 3 0 0xFFFFFFFF (u OR GDT_ACCESS_EXECUTABLE OR GDT_ACCESS_RW) flags g2;
          g4 = gdt_set_gate 4 0 0xFFFFFFFF (u OR GDT_ACCESS_RW) flags g3;
          g6 = gdt_set_gate 6 0 0 0 0 (gdt_set_gate 5 0 0 0 0 g4)
      in s\<lparr>gdt_table := g6, gdt_ptr_limit := of_nat (SIZEOF_GDT_ENTRY * GDT_ENTRIES - 1),
           gdt_ptr_base := table_at, gdt_flushed := gdt_flushed s @ [ptr_at]\<rparr>)"

definition gdt_set_tss :: "u64 \<Rightarrow> u64 \<Rightarrow> u32 \<Rightarrow> gdt \<Rightarrow> gdt" where
  "gdt_set_tss ptr_at tss_base tss_limit s =
     s\<lparr>gdt_table := (gdt_table s)
         [5 := \<lparr>limit_low = ucast (tss_limit AND 0xFFFF), base_low = ucast (tss_base AND 0xFFFF),
                base_middle = ucast (drop_bit 16 tss_base AND 0xFF), access = 0x89,
                granularity = ucast (drop_bit 16 tss_limit AND 0x0F),
                base_high = ucast (drop_bit 24 tss_base AND 0xFF)\<rparr>,
          6 := \<lparr>limit_low = ucast (drop_bit 32 tss_base AND 0xFFFF),
                base_low = ucast (drop_bit 48 tss_base AND 0xFFFF), base_middle = 0, access = 0,
                granularity = 0, base_high = 0\<rparr>],
       gdt_flushed := gdt_flushed s @ [ptr_at]\<rparr>"

section \<open>The task state segment\<close>

record tss_entry =
  reserved0 :: u32
  rsp0 :: u64
  rsp1 :: u64
  rsp2 :: u64
  reserved1 :: u64
  ist :: "u64 list"
  reserved2 :: u64
  reserved3 :: u16
  iomap_base :: u16

definition SIZEOF_TSS_ENTRY :: nat where "SIZEOF_TSS_ENTRY = 104"

definition tss_init :: "pmm \<Rightarrow> tss_entry \<times> pmm" where
  "tss_init p =
     (let t = \<lparr>reserved0 = 0, rsp0 = 0, rsp1 = 0, rsp2 = 0, reserved1 = 0, ist = replicate 7 0,
                reserved2 = 0, reserved3 = 0, iomap_base = of_nat SIZEOF_TSS_ENTRY\<rparr>
      in case pmm_alloc_page p of (stack, p') \<Rightarrow>
           if stack = 0 then (t, p') else (t\<lparr>rsp0 := stack + PAGE_SIZE\<rparr>, p'))"

definition tss_set_kernel_stack :: "u64 \<Rightarrow> tss_entry \<Rightarrow> tss_entry" where
  "tss_set_kernel_stack stack t = t\<lparr>rsp0 := stack\<rparr>"

section \<open>What the processor reads\<close>

definition seg_base :: "gdt_entry \<Rightarrow> u32" where
  "seg_base e = ucast (base_low e) OR push_bit 16 (ucast (base_middle e)) OR push_bit 24 (ucast (base_high e))"

definition seg_limit :: "gdt_entry \<Rightarrow> u32" where
  "seg_limit e = ucast (limit_low e) OR push_bit 16 (ucast (granularity e AND 0x0F))"

definition seg_flags :: "gdt_entry \<Rightarrow> u8" where
  "seg_flags e = granularity e AND 0xF0"

definition tss_base_of :: "gdt_entry \<Rightarrow> gdt_entry \<Rightarrow> u64" where
  "tss_base_of lo hi = ucast (seg_base lo) OR push_bit 32 (ucast (limit_low hi)) OR push_bit 48 (ucast (base_low hi))"

lemma low_masks:
  "ucast (b AND 0xFFFF :: u32) = (ucast b :: u16)" "ucast (b AND 0xFF :: u32) = (ucast b :: u8)"
  "ucast (c AND 0xFFFF :: u64) = (ucast c :: u16)" "ucast (c AND 0xFF :: u64) = (ucast c :: u8)"
proof -
  have m: "(0xFFFF :: u32) = mask 16" "(0xFF :: u32) = mask 8" "(0xFFFF :: u64) = mask 16" "(0xFF :: u64) = mask 8"
    by (simp_all add: mask_numeral)
  show "ucast (b AND 0xFFFF :: u32) = (ucast b :: u16)" "ucast (b AND 0xFF :: u32) = (ucast b :: u8)"
    "ucast (c AND 0xFFFF :: u64) = (ucast c :: u16)" "ucast (c AND 0xFF :: u64) = (ucast c :: u8)"
    unfolding m by (rule bit_word_eqI; auto simp: bit_simps)+
qed

lemma nibble_masks:
  "(x :: u8) AND 0x0F = take_bit 4 x" "(x :: u8) AND 0xF0 = push_bit 4 (take_bit 4 (drop_bit 4 x))"
  "(y :: u32) AND 0x0F = take_bit 4 y"
proof -
  have m: "(0x0F :: u8) = mask 4" "(0x0F :: u32) = mask 4" "(0xF0 :: u8) = push_bit 4 (mask 4)"
    by (simp_all add: mask_numeral)
  show "(x :: u8) AND 0x0F = take_bit 4 x" "(y :: u32) AND 0x0F = take_bit 4 y"
    unfolding m by (simp_all add: take_bit_eq_mask)
  show "(x :: u8) AND 0xF0 = push_bit 4 (take_bit 4 (drop_bit 4 x))"
    unfolding m by (rule bit_word_eqI) (auto simp: bit_simps)
qed

lemma gate_fields:
  fixes base limit :: u32 and gran acc :: u8
  defines "e \<equiv> \<lparr>limit_low = ucast (limit AND 0xFFFF), base_low = ucast (base AND 0xFFFF),
     base_middle = ucast (drop_bit 16 base AND 0xFF), access = acc,
     granularity = ucast (drop_bit 16 limit AND 0x0F) OR (gran AND 0xF0),
     base_high = ucast (drop_bit 24 base AND 0xFF)\<rparr>"
  shows "seg_base e = base" and "seg_limit e = take_bit 20 limit" and "seg_flags e = gran AND 0xF0"
proof -
  show "seg_base e = base"
    unfolding seg_base_def e_def gdt_entry.simps low_masks
  proof (rule bit_word_eqI)
    fix n assume "n < LENGTH(32)"
    then consider "n < 16" | "16 \<le> n \<and> n < 24" | "24 \<le> n \<and> n < 32" by force
    then show "bit (ucast (ucast base :: u16) OR push_bit 16 (ucast (ucast (drop_bit 16 base) :: u8)) OR
        push_bit 24 (ucast (ucast (drop_bit 24 base) :: u8)) :: u32) n = bit base n"
      by cases (auto simp: bit_simps)
  qed
  show "seg_limit e = take_bit 20 limit"
    unfolding seg_limit_def e_def gdt_entry.simps low_masks nibble_masks
    by (rule bit_word_eqI) (auto simp: bit_simps)
  show "seg_flags e = gran AND 0xF0"
    unfolding seg_flags_def e_def gdt_entry.simps nibble_masks
    by (rule bit_word_eqI) (auto simp: bit_simps)
qed

lemma tss_fields:
  fixes b :: u64 and l :: u32
  defines "lo \<equiv> \<lparr>limit_low = ucast (l AND 0xFFFF), base_low = ucast (b AND 0xFFFF),
      base_middle = ucast (drop_bit 16 b AND 0xFF), access = 0x89,
      granularity = ucast (drop_bit 16 l AND 0x0F), base_high = ucast (drop_bit 24 b AND 0xFF)\<rparr>"
    and "hi \<equiv> \<lparr>limit_low = ucast (drop_bit 32 b AND 0xFFFF), base_low = ucast (drop_bit 48 b AND 0xFFFF),
      base_middle = 0, access = 0, granularity = 0, base_high = 0\<rparr>"
  shows "tss_base_of lo hi = b" and "seg_limit lo = take_bit 20 l"
proof -
  show "tss_base_of lo hi = b"
    unfolding tss_base_of_def seg_base_def lo_def hi_def gdt_entry.simps low_masks
  proof (rule bit_word_eqI)
    fix n assume "n < LENGTH(64)"
    then consider "n < 16" | "16 \<le> n \<and> n < 24" | "24 \<le> n \<and> n < 32" | "32 \<le> n \<and> n < 48" | "48 \<le> n \<and> n < 64"
      by force
    then show "bit (ucast (ucast (ucast b :: u16) OR push_bit 16 (ucast (ucast (drop_bit 16 b) :: u8)) OR
          push_bit 24 (ucast (ucast (drop_bit 24 b) :: u8)) :: u32) OR
        push_bit 32 (ucast (ucast (drop_bit 32 b) :: u16)) OR push_bit 48 (ucast (ucast (drop_bit 48 b) :: u16)) :: u64) n
      = bit b n"
      by cases (auto simp: bit_simps)
  qed
  show "seg_limit lo = take_bit 20 l"
    unfolding seg_limit_def lo_def gdt_entry.simps low_masks nibble_masks
    by (rule bit_word_eqI) (auto simp: bit_simps)
qed

text \<open>
  What \<open>gdt_set_gate\<close> and \<open>gdt_set_tss\<close> encode is what the processor decodes: the 32-bit base,
  the low 20 bits of the limit, the access byte and the flag nibble of a segment, and the
  64-bit base of the task state segment over two entries; no other entry changes.
\<close>

theorem descriptors_decode:
  assumes "length g = GDT_ENTRIES" and "num < GDT_ENTRIES"
  shows "(let e = gdt_set_gate num base limit acc gran g ! num in
      seg_base e = base \<and> seg_limit e = take_bit 20 limit \<and> access e = acc \<and> seg_flags e = gran AND 0xF0) \<and>
    (\<forall>i. i \<noteq> num \<longrightarrow> gdt_set_gate num base limit acc gran g ! i = g ! i) \<and>
    (let t = gdt_table (gdt_set_tss ptr_at tb tlim (s\<lparr>gdt_table := g\<rparr>)) in
      tss_base_of (t ! 5) (t ! 6) = tb \<and> seg_limit (t ! 5) = take_bit 20 tlim \<and> access (t ! 5) = 0x89 \<and>
      (\<forall>i < 5. t ! i = g ! i))"
  using assms gate_fields [of limit base acc gran] tss_fields [of tlim tb]
  by (simp add: gdt_set_gate_def gdt_set_tss_def GDT_ENTRIES_def Let_def)

definition gdt_demo :: gdt where
  "gdt_demo = \<lparr>gdt_table = replicate 7 \<lparr>limit_low = 0, base_low = 0, base_middle = 0, access = 0,
     granularity = 0, base_high = 0\<rparr>, gdt_ptr_limit = 0, gdt_ptr_base = 0, gdt_flushed = []\<rparr>"

theorem descriptors_decode_witness:
  "let t = gdt_table (gdt_set_tss 0 0xFFFF800012345678 103 gdt_demo)
   in tss_base_of (t ! 5) (t ! 6) = 0xFFFF800012345678"
proof -
  have l: "length (gdt_table gdt_demo) = GDT_ENTRIES" by (simp add: gdt_demo_def GDT_ENTRIES_def)
  have "0 < GDT_ENTRIES" by (simp add: GDT_ENTRIES_def)
  then show ?thesis
    using descriptors_decode [OF l, of 0 0 0 0 0 0 "0xFFFF800012345678" 103 gdt_demo]
    by (simp add: Let_def gdt_demo_def)
qed

text \<open>The segments of \<open>gdt_init\<close>: flat, present, with the ring the selector stands for.\<close>

lemma gdt_init_segments:
  assumes "length (gdt_table s) = GDT_ENTRIES"
  shows "map (\<lambda>e. (seg_base e, seg_limit e, access e, seg_flags e)) (gdt_table (gdt_init a p s)) =
    [(0, 0, 0, 0), (0, 0xFFFFF, 0x9A, 0xA0), (0, 0xFFFFF, 0x92, 0xA0), (0, 0xFFFFF, 0xFA, 0xA0),
     (0, 0xFFFFF, 0xF2, 0xA0), (0, 0, 0, 0), (0, 0, 0, 0)]"
proof -
  obtain a0 a1 a2 a3 a4 a5 a6 where "gdt_table s = [a0, a1, a2, a3, a4, a5, a6]"
    using assms by (auto simp: GDT_ENTRIES_def length_Suc_conv numeral_eq_Suc)
  then show ?thesis
    by (simp add: gdt_init_def gdt_set_gate_def Let_def seg_base_def seg_limit_def seg_flags_def
        GDT_ACCESS_PRESENT_def GDT_ACCESS_PRIV_RING0_def GDT_ACCESS_PRIV_RING3_def GDT_ACCESS_NONSYS_def
        GDT_ACCESS_EXECUTABLE_def GDT_ACCESS_RW_def GDT_GRAN_4K_def GDT_GRAN_64BIT_def)
qed

end
