(* ===== verification/Vga.thy ===== *)
theory Vga
  imports Prelude
begin

text \<open>
  The text console, \<^verbatim>\<open>src/kernel/vga.cpp\<close>: the 80 by 25 cells at 0xB8000, the
  cursor and the colour. Once the desktop runs, characters are forwarded to its terminal; they
  are collected in \<open>forwarded\<close>. Other components give their output as a list of \<open>con_op\<close>, which
  \<open>console_run\<close> performs on this state. The lemmas show that every character is written inside
  the screen, that scrolling is dropping the first row, and that numbers print as what they are.
\<close>

section \<open>State and operations\<close>

record vga =
  vga_buffer :: "u16 list"
  vga_row :: u32
  vga_col :: u32
  vga_color :: u8
  redirect_to_gui :: bool
  forwarded :: string

definition VGA_WIDTH :: u32 where "VGA_WIDTH = 80"
definition VGA_HEIGHT :: u32 where "VGA_HEIGHT = 25"

definition VGA_BLACK :: u8 where "VGA_BLACK = 0"
definition VGA_RED :: u8 where "VGA_RED = 4"
definition VGA_LIGHT_GREY :: u8 where "VGA_LIGHT_GREY = 7"
definition VGA_LIGHT_GREEN :: u8 where "VGA_LIGHT_GREEN = 10"
definition VGA_LIGHT_CYAN :: u8 where "VGA_LIGHT_CYAN = 11"
definition VGA_LIGHT_RED :: u8 where "VGA_LIGHT_RED = 12"
definition VGA_YELLOW :: u8 where "VGA_YELLOW = 14"
definition VGA_WHITE :: u8 where "VGA_WHITE = 15"

definition vga_set_gui_redirect :: "bool \<Rightarrow> vga \<Rightarrow> vga" where
  "vga_set_gui_redirect on v = v\<lparr>redirect_to_gui := on\<rparr>"

text \<open>\<^verbatim>\<open>c | (vga_color << 8)\<close>: a \<^verbatim>\<open>char\<close> is signed and is widened to an int first.\<close>

definition vga_cell :: "u8 \<Rightarrow> u8 \<Rightarrow> u16" where
  "vga_cell c color = scast c OR push_bit 8 (ucast color)"

definition blank :: "vga \<Rightarrow> u16" where
  "blank v = vga_cell 0x20 (vga_color v)"

definition cell_at :: "u32 \<Rightarrow> u32 \<Rightarrow> nat" where
  "cell_at y x = unat (y * VGA_WIDTH + x)"

definition vga_clear :: "vga \<Rightarrow> vga" where
  "vga_clear v =
     v\<lparr>vga_buffer := for_w 0 VGA_HEIGHT (\<lambda>y b. for_w 0 VGA_WIDTH (\<lambda>x b. b[cell_at y x := blank v]) b) (vga_buffer v),
       vga_row := 0, vga_col := 0\<rparr>"

definition vga_init :: "vga \<Rightarrow> vga" where
  "vga_init v = vga_clear (v\<lparr>vga_row := 0, vga_col := 0, vga_color := VGA_WHITE OR push_bit 4 VGA_BLACK\<rparr>)"

definition vga_setcolor :: "u8 \<Rightarrow> u8 \<Rightarrow> vga \<Rightarrow> vga" where
  "vga_setcolor fg bg v = v\<lparr>vga_color := fg OR push_bit 4 bg\<rparr>"

definition vga_scroll :: "vga \<Rightarrow> vga" where
  "vga_scroll v =
     (let b1 = for_w 0 (VGA_HEIGHT - 1) (\<lambda>y b. for_w 0 VGA_WIDTH
                 (\<lambda>x b. b[cell_at y x := b ! cell_at (y + 1) x]) b) (vga_buffer v);
          b2 = for_w 0 VGA_WIDTH (\<lambda>x b. b[cell_at (VGA_HEIGHT - 1) x := blank v]) b1
      in v\<lparr>vga_buffer := b2, vga_row := VGA_HEIGHT - 1\<rparr>)"

text \<open>The first half of \<open>vga_putchar\<close>: the effect of the character before wrapping.\<close>

definition vga_advance :: "char \<Rightarrow> vga \<Rightarrow> vga" where
  "vga_advance c v =
     (if c = CHR 0x0A then v\<lparr>vga_col := 0, vga_row := vga_row v + 1\<rparr>
      else if c = CHR 0x09 then v\<lparr>vga_col := (vga_col v + 8) AND NOT 7\<rparr>
      else if c = CHR 0x0D then v\<lparr>vga_col := 0\<rparr>
      else if c = CHR 0x08 then (if vga_col v > 0 then v\<lparr>vga_col := vga_col v - 1\<rparr> else v)
      else v\<lparr>vga_buffer := (vga_buffer v)[cell_at (vga_row v) (vga_col v) := vga_cell (of_char c) (vga_color v)],
             vga_col := vga_col v + 1\<rparr>)"

definition vga_putchar :: "char \<Rightarrow> vga \<Rightarrow> vga" where
  "vga_putchar c v =
     (if redirect_to_gui v then v\<lparr>forwarded := forwarded v @ [c]\<rparr>
      else let v1 = vga_advance c v;
               v2 = (if vga_col v1 \<ge> VGA_WIDTH then v1\<lparr>vga_col := 0, vga_row := vga_row v1 + 1\<rparr> else v1)
           in if vga_row v2 \<ge> VGA_HEIGHT then vga_scroll v2 else v2)"

definition vga_print :: "string \<Rightarrow> vga \<Rightarrow> vga" where
  "vga_print s v = (if redirect_to_gui v then v\<lparr>forwarded := forwarded v @ s\<rparr> else fold vga_putchar s v)"

definition hex_char :: "nat \<Rightarrow> char" where
  "hex_char n = ''0123456789ABCDEF'' ! n"

text \<open>The loops that fill the buffers of \<open>vga_print_hex\<close> and \<open>vga_print_dec\<close> from the right.\<close>

fun hex_loop :: "nat \<Rightarrow> u32 \<Rightarrow> string \<Rightarrow> string" where
  "hex_loop 0 v acc = acc"
| "hex_loop (Suc i) v acc = hex_loop i (drop_bit 4 v) (hex_char (unat (v AND 0xF)) # acc)"

fun dec_loop :: "nat \<Rightarrow> u64 \<Rightarrow> string \<Rightarrow> string" where
  "dec_loop 0 v acc = acc"
| "dec_loop (Suc i) v acc =
     (if v > 0 then dec_loop i (v div 10) (char_of (48 + unat (v mod 10)) # acc) else acc)"

definition hex_string :: "u32 \<Rightarrow> string" where
  "hex_string v = hex_loop 8 v []"

definition dec_string :: "u64 \<Rightarrow> string" where
  "dec_string v = (if v = 0 then ''0'' else dec_loop 20 v [])"

definition vga_print_hex :: "u32 \<Rightarrow> vga \<Rightarrow> vga" where
  "vga_print_hex value v = vga_print (hex_string value) v"

definition vga_print_dec :: "u64 \<Rightarrow> vga \<Rightarrow> vga" where
  "vga_print_dec value v =
     (if value = 0 then vga_putchar (CHR ''0'') v else vga_print (dec_string value) v)"

definition hex_byte_string :: "u8 \<Rightarrow> string" where
  "hex_byte_string n = [hex_char (unat (drop_bit 4 n AND 0xF)), hex_char (unat (n AND 0xF))]"

definition hex_word_string :: "u16 \<Rightarrow> string" where
  "hex_word_string n = [hex_char (unat (drop_bit 12 n AND 0xF)), hex_char (unat (drop_bit 8 n AND 0xF)),
     hex_char (unat (drop_bit 4 n AND 0xF)), hex_char (unat (n AND 0xF))]"

definition vga_print_hex_byte :: "u8 \<Rightarrow> vga \<Rightarrow> vga" where
  "vga_print_hex_byte n v = fold vga_putchar (hex_byte_string n) v"

definition vga_print_hex_word :: "u16 \<Rightarrow> vga \<Rightarrow> vga" where
  "vga_print_hex_word n v = fold vga_putchar (hex_word_string n) v"

section \<open>Output of other components\<close>

datatype con_op = Con_char char | Con_color u8 u8 | Con_clear

definition puts :: "string \<Rightarrow> con_op list" where
  "puts s = map Con_char s"

definition text_of :: "con_op list \<Rightarrow> string" where
  "text_of os = concat (map (\<lambda>c. case c of Con_char c \<Rightarrow> [c] | _ \<Rightarrow> []) os)"

fun console_step :: "con_op \<Rightarrow> vga \<Rightarrow> vga" where
  "console_step (Con_char c) v = vga_putchar c v"
| "console_step (Con_color fg bg) v = vga_setcolor fg bg v"
| "console_step Con_clear v = vga_clear v"

definition console_run :: "con_op list \<Rightarrow> vga \<Rightarrow> vga" where
  "console_run os v = fold console_step os v"

lemma text_of_simps [simp]:
  "text_of [] = []" "text_of (Con_char c # os) = c # text_of os" "text_of (Con_color f b # os) = text_of os"
  "text_of (Con_clear # os) = text_of os" "text_of (xs @ ys) = text_of xs @ text_of ys" "text_of (puts s) = s"
  by (simp_all add: text_of_def puts_def comp_def)

section \<open>The screen\<close>

definition vga_ok :: "vga \<Rightarrow> bool" where
  "vga_ok v \<longleftrightarrow> length (vga_buffer v) = 2000 \<and> vga_row v < VGA_HEIGHT \<and> vga_col v < VGA_WIDTH"

lemma length_for_upd [simp]:
  assumes "\<And>k b. length (f k b) = length b"
  shows "length (for_w i n f b) = length b"
  by (rule for_w_invariant [where P = "\<lambda>b'. length b' = length b"]) (simp_all add: assms)

lemma cell_at_nat: "unat y < 100 \<Longrightarrow> unat x < 100 \<Longrightarrow> cell_at y x = unat y * 80 + unat x"
  by (simp add: cell_at_def VGA_WIDTH_def unat_word_ariths)

lemma length_scroll [simp]: "length (vga_buffer (vga_scroll v)) = length (vga_buffer v)"
  by (simp add: vga_scroll_def Let_def)

lemma length_clear [simp]: "length (vga_buffer (vga_clear v)) = length (vga_buffer v)"
  by (simp add: vga_clear_def)

lemma length_advance [simp]: "length (vga_buffer (vga_advance c v)) = length (vga_buffer v)"
  by (simp add: vga_advance_def)

lemma vga_ok_clear: "length (vga_buffer v) = 2000 \<Longrightarrow> vga_ok (vga_clear v)"
  by (simp add: vga_ok_def vga_clear_def VGA_HEIGHT_def VGA_WIDTH_def)

lemma tab_stop: "unat ((x :: u32) AND NOT 7) = unat x div 8 * 8"
  using unat_and_not_mask [of x 3] by (simp add: mask_numeral)

lemma advance_bounds:
  assumes "vga_ok v"
  shows "unat (vga_row (vga_advance c v)) \<le> 25" and "unat (vga_col (vga_advance c v)) \<le> 80"
    and "unat (vga_row (vga_advance c v)) = 25 \<Longrightarrow> unat (vga_col (vga_advance c v)) = 0"
proof -
  have b: "unat (vga_row v) < 25" "unat (vga_col v) < 80"
    using assms by (simp_all add: vga_ok_def word_less_nat_alt VGA_HEIGHT_def VGA_WIDTH_def)
  have u: "unat (vga_row v + 1) = unat (vga_row v) + 1" "unat (vga_col v + 1) = unat (vga_col v) + 1"
    "unat (vga_col v + 8) = unat (vga_col v) + 8" using b by (simp_all add: unat_word_ariths)
  have d: "unat (vga_col v - 1) = unat (vga_col v) - 1" if "vga_col v > 0"
    using that by (intro unat_minus_one) auto
  have "unat ((vga_col v + 8) AND NOT 7) \<le> 80" unfolding tab_stop u using b by simp
  then show "unat (vga_row (vga_advance c v)) \<le> 25" "unat (vga_col (vga_advance c v)) \<le> 80"
    "unat (vga_row (vga_advance c v)) = 25 \<Longrightarrow> unat (vga_col (vga_advance c v)) = 0"
    using b u d by (auto simp: vga_advance_def split: if_splits)
qed

lemma advance_color [simp]: "vga_color (vga_advance c v) = vga_color v"
  by (simp add: vga_advance_def)

lemma vga_ok_putchar:
  assumes ok: "vga_ok v"
  shows "vga_ok (vga_putchar c v)"
proof (cases "redirect_to_gui v")
  case True
  then show ?thesis using ok by (simp add: vga_putchar_def vga_ok_def)
next
  case False
  define v1 where "v1 = vga_advance c v"
  define v2 where "v2 = (if vga_col v1 \<ge> VGA_WIDTH then v1\<lparr>vga_col := 0, vga_row := vga_row v1 + 1\<rparr> else v1)"
  have v1: "unat (vga_row v1) \<le> 25" "unat (vga_col v1) \<le> 80" "unat (vga_row v1) = 25 \<Longrightarrow> unat (vga_col v1) = 0"
    using advance_bounds [OF ok, of c] by (simp_all add: v1_def)
  have u: "unat (vga_row v1 + 1) = unat (vga_row v1) + 1" using v1(1) by (simp add: unat_word_ariths)
  have v2: "unat (vga_row v2) \<le> 25 \<and> unat (vga_col v2) < 80"
  proof (cases "unat (vga_col v1) = 80")
    case True
    then have "unat (vga_row v1) \<noteq> 25" using v1(3) by auto
    then show ?thesis using True v1(1) u by (simp add: v2_def VGA_WIDTH_def word_le_nat_alt)
  next
    case False
    then show ?thesis using v1 by (simp add: v2_def VGA_WIDTH_def word_le_nat_alt)
  qed
  have l: "length (vga_buffer v2) = 2000" using ok by (simp add: v2_def v1_def vga_ok_def)
  have "vga_putchar c v = (if vga_row v2 \<ge> VGA_HEIGHT then vga_scroll v2 else v2)"
    using False by (simp add: vga_putchar_def v1_def [symmetric] v2_def [symmetric] Let_def)
  moreover have "vga_ok (vga_scroll v2)"
    using l v2 by (simp add: vga_ok_def) (simp add: vga_scroll_def Let_def VGA_HEIGHT_def VGA_WIDTH_def word_less_nat_alt)
  ultimately show ?thesis
    using l v2 by (auto simp: vga_ok_def VGA_HEIGHT_def VGA_WIDTH_def word_less_nat_alt word_le_nat_alt)
qed

lemma vga_ok_run: "vga_ok v \<Longrightarrow> vga_ok (console_run os v)"
proof (induction os arbitrary: v)
  case (Cons a os)
  have "vga_ok (console_step a v)"
    by (cases a) (use Cons.prems vga_ok_putchar vga_ok_clear in \<open>auto simp: vga_setcolor_def vga_ok_def\<close>)
  then show ?case using Cons.IH by (simp add: console_run_def)
qed (simp add: console_run_def)

section \<open>Scrolling\<close>

definition screen_row :: "u16 list \<Rightarrow> nat \<Rightarrow> u16 list" where
  "screen_row b y = map (\<lambda>x. b ! (80 * y + x)) [0..<80]"

definition screen :: "vga \<Rightarrow> u16 list list" where
  "screen v = map (screen_row (vga_buffer v)) [0..<25]"

lemma copy_row:
  assumes "length b = 2000" and y: "y < 24"
  defines "r \<equiv> for_w 0 VGA_WIDTH (\<lambda>x b. b[cell_at (of_nat y) x := b ! cell_at (of_nat y + 1) x]) b"
  shows "length r = 2000" and "\<And>k. k < 2000 \<Longrightarrow>
    r ! k = (if 80 * y \<le> k \<and> k < 80 * y + 80 then b ! (k + 80) else b ! k)"
proof -
  let ?P = "\<lambda>n s. length s = 2000 \<and> (\<forall>k < 2000. s ! k = (if 80 * y \<le> k \<and> k < 80 * y + n then b ! (k + 80) else b ! k))"
  have uy: "unat (of_nat y :: u32) = y" "unat (of_nat y + 1 :: u32) = y + 1"
    using y by (simp_all add: unat_of_nat unat_word_ariths)
  have ux: "unat (of_nat x :: u32) = x" if "x < 80" for x using that by (simp add: unat_of_nat)
  have c: "cell_at (of_nat y) (of_nat x) = 80 * y + x" "cell_at (of_nat y + 1) (of_nat x) = 80 * y + x + 80"
    if "x < 80" for x using that y by (simp_all add: cell_at_nat uy ux)
  have r: "r = fold (\<lambda>x b. b[cell_at (of_nat y) (of_nat x) := b ! cell_at (of_nat y + 1) (of_nat x)]) [0..<80] b"
    by (simp add: r_def for_w_fold VGA_WIDTH_def)
  have "?P 80 r" unfolding r
  proof (rule fold_invariant_upt [where P = ?P])
    fix x s assume x: "x < 80" and P: "?P x s"
    have "s ! (80 * y + x + 80) = b ! (80 * y + x + 80)" using P x y by simp
    then show "?P (Suc x) (s[cell_at (of_nat y) (of_nat x) := s ! cell_at (of_nat y + 1) (of_nat x)])"
      using P x y by (auto simp: c nth_list_update less_Suc_eq)
  qed (use assms in auto)
  then show "length r = 2000" "\<And>k. k < 2000 \<Longrightarrow>
      r ! k = (if 80 * y \<le> k \<and> k < 80 * y + 80 then b ! (k + 80) else b ! k)" by auto
qed

lemma scroll_nth:
  assumes l: "length (vga_buffer v) = 2000" and k: "k < 2000"
  shows "vga_buffer (vga_scroll v) ! k = (if k < 1920 then vga_buffer v ! (k + 80) else blank v)"
proof -
  let ?b = "vga_buffer v"
  define row :: "u32 \<Rightarrow> u16 list \<Rightarrow> u16 list" where "row = (\<lambda>y b. for_w 0 VGA_WIDTH (\<lambda>x b. b[cell_at y x := b ! cell_at (y + 1) x]) b)"
  define b1 where "b1 = fold (\<lambda>y. row (of_nat y)) [0..<24] ?b"
  let ?P = "\<lambda>n s. length s = 2000 \<and> (\<forall>k < 2000. s ! k = (if k < 80 * n then ?b ! (k + 80) else ?b ! k))"
  have "?P 24 b1" unfolding b1_def
  proof (rule fold_invariant_upt [where P = ?P])
    fix y s assume y: "y < 24" and P: "?P y s"
    have s: "length s = 2000" using P by simp
    show "?P (Suc y) (row (of_nat y) s)"
      using copy_row [OF s y] P y by (auto simp: row_def)
  qed (use l in auto)
  then have b1: "length b1 = 2000" "\<And>k. k < 2000 \<Longrightarrow> b1 ! k = (if k < 1920 then ?b ! (k + 80) else ?b ! k)" by auto
  define b2 where "b2 = fold (\<lambda>x b. b[1920 + x := blank v]) [0..<80] b1"
  let ?Q = "\<lambda>n s. length s = 2000 \<and> (\<forall>k < 2000. s ! k = (if 1920 \<le> k \<and> k < 1920 + n then blank v else b1 ! k))"
  have "?Q 80 b2" unfolding b2_def
    by (rule fold_invariant_upt [where P = ?Q]) (use b1(1) in \<open>auto simp: nth_list_update less_Suc_eq\<close>)
  moreover have "vga_buffer (vga_scroll v) = b2"
  proof -
    have h: "unat (VGA_HEIGHT - 1) = 24" "unat VGA_WIDTH = 80" by (simp_all add: VGA_HEIGHT_def VGA_WIDTH_def)
    have "cell_at (VGA_HEIGHT - 1) (of_nat x) = 1920 + x" if "x < 80" for x
      using that by (simp add: cell_at_nat h unat_of_nat)
    then have "fold (\<lambda>x b. b[cell_at (VGA_HEIGHT - 1) (of_nat x) := blank v]) [0..<80] b1 = b2"
      unfolding b2_def by (intro fold_cong) auto
    then show ?thesis by (simp add: vga_scroll_def for_w_fold h b1_def row_def Let_def)
  qed
  ultimately show ?thesis using b1(2) k by auto
qed

lemma scroll_screen:
  assumes "length (vga_buffer v) = 2000"
  shows "screen (vga_scroll v) = tl (screen v) @ [replicate 80 (blank v)]"
proof (rule nth_equalityI)
  fix y assume "y < length (screen (vga_scroll v))"
  then have y: "y < 25" by (simp add: screen_def)
  have "screen_row (vga_buffer (vga_scroll v)) y =
      (if y < 24 then screen_row (vga_buffer v) (Suc y) else replicate 80 (blank v))"
  proof (rule nth_equalityI)
    fix x assume "x < length (screen_row (vga_buffer (vga_scroll v)) y)"
    then have x: "x < 80" by (simp add: screen_row_def)
    have "80 * y + x < 2000" using x y by simp
    then show "screen_row (vga_buffer (vga_scroll v)) y ! x =
        (if y < 24 then screen_row (vga_buffer v) (Suc y) else replicate 80 (blank v)) ! x"
      using x y scroll_nth [OF assms, of "80 * y + x"] by (auto simp: screen_row_def ac_simps)
  qed (simp add: screen_row_def)
  then show "screen (vga_scroll v) ! y = (tl (screen v) @ [replicate 80 (blank v)]) ! y"
    using y by (auto simp: screen_def nth_append nth_tl)
qed (simp add: screen_def)

section \<open>Numbers\<close>

definition digit :: "nat \<Rightarrow> char" where
  "digit n = char_of (48 + n)"

lemma digit_value: "n < 10 \<Longrightarrow> of_char (digit n) - 48 = n"
  by (simp add: digit_def)

definition add_digit :: "nat \<Rightarrow> char \<Rightarrow> nat" where
  "add_digit n c = 10 * n + (of_char c - 48)"

definition parse_dec :: "string \<Rightarrow> nat" where
  "parse_dec s = foldl add_digit 0 s"

lemma foldl_dec: "foldl add_digit a s = a * 10 ^ length s + parse_dec s"
proof (induction s arbitrary: a)
  case (Cons c s)
  have "foldl add_digit a (c # s) = (10 * a + (of_char c - 48)) * 10 ^ length s + parse_dec s"
    using Cons [of "add_digit a c"] by (simp add: add_digit_def [of a c])
  moreover have "parse_dec (c # s) = (of_char c - 48) * 10 ^ length s + parse_dec s"
    using Cons [of "add_digit 0 c"] by (simp add: add_digit_def [of 0 c] parse_dec_def)
  ultimately show ?case by (simp add: algebra_simps)
qed (simp add: parse_dec_def)

lemma parse_dec_Cons: "parse_dec (c # s) = (of_char c - 48) * 10 ^ length s + parse_dec s"
  using foldl_dec [of "add_digit 0 c" s] by (simp add: parse_dec_def add_digit_def [of 0 c])

lemma dec_loop_value:
  assumes "unat v < 10 ^ i"
  shows "parse_dec (dec_loop i v acc) = unat v * 10 ^ length acc + parse_dec acc"
  using assms
proof (induction i arbitrary: v acc)
  case (Suc i)
  show ?case
  proof (cases "v = 0")
    case False
    have m: "unat (v mod 10) < 10" by (simp add: unat_mod)
    have v: "unat v = unat (v div 10) * 10 + unat (v mod 10)" by (simp add: unat_div unat_mod)
    have "unat (v div 10) < 10 ^ i" using Suc.prems by (simp add: unat_div)
    then have "parse_dec (dec_loop i (v div 10) (digit (unat (v mod 10)) # acc)) =
        unat (v div 10) * 10 ^ Suc (length acc) + parse_dec (digit (unat (v mod 10)) # acc)"
      by (simp add: Suc.IH)
    also have "\<dots> = unat v * 10 ^ length acc + parse_dec acc"
      unfolding parse_dec_Cons digit_value [OF m] by (subst v) (simp add: algebra_simps)
    finally show ?thesis using False by (simp add: word_neq_0_conv digit_def)
  qed simp
qed simp

lemma parse_dec_Nil [simp]: "parse_dec [] = 0"
  by (simp add: parse_dec_def)

lemma dec_string_value: "parse_dec (dec_string v) = unat v"
  using dec_loop_value [of v 20 "[]"] unat_lt_64 [of v] by (simp add: dec_string_def parse_dec_Cons)

definition hex_val :: "char \<Rightarrow> nat" where
  "hex_val c = (let n = of_char c in if n < 58 then n - 48 else n - 55)"

definition parse_hex :: "string \<Rightarrow> nat" where
  "parse_hex s = foldl (\<lambda>n c. 16 * n + hex_val c) 0 s"

lemma hex_char_val: "n < 16 \<Longrightarrow> hex_val (hex_char n) = n"
proof -
  have "\<forall>n \<in> {..<16}. hex_val (hex_char n) = n" by code_simp
  then show "n < 16 \<Longrightarrow> hex_val (hex_char n) = n" by simp
qed

lemma foldl_hex: "foldl (\<lambda>n c. 16 * n + hex_val c) a s = a * 16 ^ length s + parse_hex s"
proof (induction s arbitrary: a)
  case (Cons c s)
  have "foldl (\<lambda>n c. 16 * n + hex_val c) a (c # s) = (16 * a + hex_val c) * 16 ^ length s + parse_hex s"
    using Cons [of "16 * a + hex_val c"] by simp
  moreover have "parse_hex (c # s) = hex_val c * 16 ^ length s + parse_hex s"
    using Cons [of "hex_val c"] by (simp add: parse_hex_def)
  ultimately show ?case by (simp add: algebra_simps)
qed (simp add: parse_hex_def)

lemma parse_hex_Cons: "parse_hex (c # s) = hex_val c * 16 ^ length s + parse_hex s"
  using foldl_hex [of "hex_val c" s] by (simp add: parse_hex_def)

lemma unat_nibble: "unat (v AND 0xF :: u32) = unat v mod 16"
proof -
  have "(v AND 0xF :: u32) = take_bit 4 v" by (simp add: take_bit_eq_mask mask_numeral)
  then show ?thesis by (simp add: unsigned_take_bit_eq take_bit_eq_mod unat_mod)
qed

lemma hex_loop_value:
  "parse_hex (hex_loop i v acc) = (unat v mod 16 ^ i) * 16 ^ length acc + parse_hex acc"
proof (induction i arbitrary: v acc)
  case (Suc i)
  have d: "unat (drop_bit 4 v) = unat v div 16" by (simp add: drop_bit_eq_div unat_div)
  have m: "unat v mod 16 ^ Suc i = unat v mod 16 + 16 * (unat v div 16 mod 16 ^ i)"
    by (simp add: mod_mult2_eq add.commute)
  have "parse_hex (hex_loop (Suc i) v acc) =
      (unat v div 16 mod 16 ^ i) * 16 ^ Suc (length acc) + (unat v mod 16 * 16 ^ length acc + parse_hex acc)"
    using hex_char_val [of "unat v mod 16"] by (simp add: Suc d parse_hex_Cons unat_nibble)
  then show ?case unfolding m by (simp add: algebra_simps)
qed simp

lemma hex_string_value: "parse_hex (hex_string v) = unat v"
proof -
  have "unat v < 2 ^ 32" using unsigned_less [of v, where ?'a = nat] by simp
  then show ?thesis using hex_loop_value [of 8 v "[]"] by (simp add: hex_string_def parse_hex_def)
qed

section \<open>What the console does\<close>

definition vga_demo :: vga where
  "vga_demo = \<lparr>vga_buffer = replicate 2000 0, vga_row = 24, vga_col = 79, vga_color = 0x0F,
     redirect_to_gui = False, forwarded = []\<rparr>"

lemma vga_demo_ok: "vga_ok vga_demo"
  by (simp add: vga_ok_def vga_demo_def VGA_HEIGHT_def VGA_WIDTH_def)

text \<open>
  Whatever is printed, with tabs, backspaces, line ends, colour changes and clears, the
  cursor stays inside the 80 by 25 screen, so that the cell the next character goes to lies
  inside the screen's memory.
\<close>

theorem console_stays_on_screen:
  assumes "vga_ok v"
  shows "vga_ok (console_run os v) \<and>
    cell_at (vga_row (console_run os v)) (vga_col (console_run os v)) < length (vga_buffer (console_run os v))"
proof -
  let ?v = "console_run os v"
  have ok: "vga_ok ?v" using assms by (rule vga_ok_run)
  then have "unat (vga_row ?v) < 25" "unat (vga_col ?v) < 80" "length (vga_buffer ?v) = 2000"
    by (simp_all add: vga_ok_def word_less_nat_alt VGA_HEIGHT_def VGA_WIDTH_def)
  then show ?thesis using ok by (simp add: cell_at_nat)
qed

theorem console_stays_on_screen_witness:
  "vga_ok (console_run [Con_char (CHR 0x09), Con_color 4 1, Con_char (CHR 0x0A), Con_char CHR ''x''] vga_demo)"
  using console_stays_on_screen [OF vga_demo_ok] by blast

text \<open>
  Scrolling drops the first row of the screen, moves the other rows up in order and leaves
  a blank last row in the current colour.
\<close>

theorem scroll_drops_first_row:
  assumes "vga_ok v"
  shows "screen (vga_scroll v) = tl (screen v) @ [replicate 80 (blank v)] \<and> unat (vga_row (vga_scroll v)) = 24"
  using scroll_screen [of v] assms by (simp add: vga_ok_def vga_scroll_def VGA_HEIGHT_def Let_def)

theorem scroll_drops_first_row_witness:
  "screen (vga_scroll vga_demo) = tl (screen vga_demo) @ [replicate 80 0x0F20]"
proof -
  have "blank vga_demo = 0x0F20" by code_simp
  then show ?thesis using scroll_drops_first_row [OF vga_demo_ok] by simp
qed

text \<open>
  The digits that \<open>vga_print_dec\<close> and \<open>vga_print_hex\<close> print read back as the number, for every
  64-bit and every 32-bit value.
\<close>

theorem printed_numbers_read_back:
  "parse_dec (dec_string n) = unat n \<and> parse_hex (hex_string k) = unat k"
  by (simp add: dec_string_value hex_string_value)

text \<open>A character from 128 up is sign-extended and loses its colour: the high byte becomes 0xFF.\<close>

lemma high_characters_lose_colour: "vga_cell 0x80 0x0F = 0xFF80"
  by code_simp

end
