(* ===== verification/Serial.thy ===== *)
theory Serial
  imports Port
begin

text \<open>
  The COM1 serial port, \<^verbatim>\<open>src/kernel/serial.cpp\<close>. A character is sent once the
  transmitter reports itself empty; the wait is a \<open>partial_function\<close>, as nothing bounds it. The
  lemmas show what is transmitted on a port whose transmitter empties after some polls.
\<close>

definition COM1 :: u16 where "COM1 = 0x3F8"

definition serial_init :: "history \<Rightarrow> history" where
  "serial_init h = outb (COM1 + 4) 0x0B (outb (COM1 + 2) 0xC7 (outb (COM1 + 3) 0x03
     (outb (COM1 + 1) 0x00 (outb (COM1 + 0) 0x03 (outb (COM1 + 3) 0x80 (outb (COM1 + 1) 0x00 h))))))"

definition is_transmit_empty :: "device \<Rightarrow> history \<Rightarrow> u8 \<times> history" where
  "is_transmit_empty dev h = (case inb dev (COM1 + 5) h of (v, h1) \<Rightarrow> (v AND 0x20, h1))"

partial_function (option) wait_transmit :: "device \<Rightarrow> history \<Rightarrow> history option" where
  "wait_transmit dev h =
     (case is_transmit_empty dev h of (e, h1) \<Rightarrow> if e = 0 then wait_transmit dev h1 else Some h1)"

definition serial_putchar :: "device \<Rightarrow> char \<Rightarrow> history \<Rightarrow> history option" where
  "serial_putchar dev c h = map_option (outb COM1 (of_char c)) (wait_transmit dev h)"

text \<open>The characters of \<open>str\<close> up to its NUL, with a carriage return before each line feed.\<close>

fun serial_print :: "device \<Rightarrow> string \<Rightarrow> history \<Rightarrow> history option" where
  "serial_print dev [] h = Some h"
| "serial_print dev (c # str) h =
     Option.bind (if c = CHR 0x0A then serial_putchar dev (CHR 0x0D) h else Some h) (\<lambda>h1.
     Option.bind (serial_putchar dev c h1) (\<lambda>h2. serial_print dev str h2))"

definition serial_hex_digit :: "nat \<Rightarrow> char" where
  "serial_hex_digit n = ''0123456789ABCDEF'' ! n"

fun serial_hex_loop :: "device \<Rightarrow> u32 \<Rightarrow> nat list \<Rightarrow> history \<Rightarrow> history option" where
  "serial_hex_loop dev num [] h = Some h"
| "serial_hex_loop dev num (i # is) h =
     Option.bind (serial_putchar dev (serial_hex_digit (unat (drop_bit i num AND 0xF))) h)
       (\<lambda>h1. serial_hex_loop dev num is h1)"

definition serial_print_hex :: "device \<Rightarrow> u32 \<Rightarrow> history \<Rightarrow> history option" where
  "serial_print_hex dev num h =
     Option.bind (serial_print dev ''0x'' h) (\<lambda>h1. serial_hex_loop dev num [28, 24, 20, 16, 12, 8, 4, 0] h1)"

section \<open>What is transmitted\<close>

text \<open>
  The line status register of a 16550: however often it is polled, after some polls with no
  other access in between it reports an empty transmitter.
\<close>

fun polls :: "device \<Rightarrow> nat \<Rightarrow> history \<Rightarrow> history" where
  "polls dev 0 h = h"
| "polls dev (Suc n) h = polls dev n (snd (is_transmit_empty dev h))"

definition transmits :: "device \<Rightarrow> bool" where
  "transmits dev \<longleftrightarrow> (\<forall>h. \<exists>n. fst (is_transmit_empty dev (polls dev n h)) \<noteq> 0)"

definition crlf :: "string \<Rightarrow> string" where
  "crlf s = concat (map (\<lambda>c. if c = CHR 0x0A then [CHR 0x0D, c] else [c]) s)"

lemma written8_empty [simp]: "written8 p (snd (is_transmit_empty dev h)) = written8 p h"
  by (simp add: is_transmit_empty_def inb_def Let_def)

lemma written8_poll: "is_transmit_empty dev h = (e, h1) \<Longrightarrow> written8 p h1 = written8 p h"
  by (metis snd_conv written8_empty)

lemma wait_ends:
  "fst (is_transmit_empty dev (polls dev n h)) \<noteq> 0 \<Longrightarrow>
     \<exists>h1. wait_transmit dev h = Some h1 \<and> written8 p h1 = written8 p h"
proof (induction n arbitrary: h)
  case 0
  then show ?case by (subst wait_transmit.simps) (auto simp: written8_poll split: prod.splits)
next
  case (Suc n)
  then obtain h1 where "wait_transmit dev (snd (is_transmit_empty dev h)) = Some h1" "written8 p h1 = written8 p h"
    using Suc.IH [of "snd (is_transmit_empty dev h)"] by auto
  then show ?case by (subst wait_transmit.simps) (auto simp: written8_poll split: prod.splits)
qed

lemma putchar_sends:
  assumes "transmits dev"
  shows "\<exists>h1. serial_putchar dev c h = Some h1 \<and>
    written8 p h1 = written8 p h @ (if p = COM1 then [of_char c] else [])"
proof -
  obtain n where "fst (is_transmit_empty dev (polls dev n h)) \<noteq> 0"
    using assms by (auto simp: transmits_def)
  then show ?thesis using wait_ends [of dev n h p] by (auto simp: serial_putchar_def outb_def)
qed

lemma print_sends:
  assumes "transmits dev"
  shows "\<exists>h1. serial_print dev s h = Some h1 \<and> written8 COM1 h1 = written8 COM1 h @ map of_char (crlf s)"
proof (induction s arbitrary: h)
  case (Cons c s)
  obtain h1 where h1: "(if c = CHR 0x0A then serial_putchar dev (CHR 0x0D) h else Some h) = Some h1"
      "written8 COM1 h1 = written8 COM1 h @ (if c = CHR 0x0A then [of_char (CHR 0x0D)] else [])"
    using putchar_sends [OF assms, of "CHR 0x0D" h COM1] by (cases "c = CHR 0x0A") auto
  obtain h2 where h2: "serial_putchar dev c h1 = Some h2" "written8 COM1 h2 = written8 COM1 h1 @ [of_char c]"
    using putchar_sends [OF assms, of c h1 COM1] by auto
  show ?case using Cons [of h2] h1 h2 by (auto simp: crlf_def)
qed (simp add: crlf_def)

text \<open>
  On a port whose transmitter empties after finitely many polls, \<open>serial_print\<close> returns, and
  what it transmits is the string, in order, with a carriage return before each line feed.
\<close>

theorem serial_print_transmits:
  assumes "transmits dev"
  shows "\<exists>h1. serial_print dev s h = Some h1 \<and> written8 COM1 h1 = written8 COM1 h @ map of_char (crlf s)"
  using assms by (rule print_sends)

text \<open>A port that needs two polls for each character.\<close>

definition slow_uart :: device where
  "slow_uart h p = (if even (length h) then 0 else 0x20)"

lemma slow_uart_ok: "transmits slow_uart"
proof -
  have e: "fst (is_transmit_empty slow_uart h) = (if even (length h) then 0 else 0x20)"
    and l: "length (snd (is_transmit_empty slow_uart h)) = Suc (length h)" for h
    by (simp_all add: is_transmit_empty_def slow_uart_def inb_def Let_def)
  have "fst (is_transmit_empty slow_uart (polls slow_uart (if even (length h) then 1 else 0) h)) \<noteq> 0" for h
    using e [of "snd (is_transmit_empty slow_uart h)"] e [of h] l [of h] by simp
  then show ?thesis unfolding transmits_def by blast
qed

theorem serial_print_transmits_witness:
  "\<exists>h. serial_print slow_uart [CHR ''o'', CHR ''k'', CHR 0x0A] [] = Some h \<and>
     written8 COM1 h = [0x6F, 0x6B, 0x0D, 0x0A]"
  using serial_print_transmits [OF slow_uart_ok, of "[CHR ''o'', CHR ''k'', CHR 0x0A]" "[]"]
  by (simp add: crlf_def)

end
