(* ===== verification/Keyboard.thy ===== *)
theory Keyboard
  imports Pic Serial Fifo
begin

text \<open>
  The PS/2 keyboard driver, \<^verbatim>\<open>src/kernel/keyboard.cpp\<close>: scan codes to characters, the
  modifier keys, and the 256-byte ring buffer, which interprets the locale of bounded queues of
  theory Fifo. Where a typed character goes (standard input, editor or shell) is the argument
  \<open>route\<close> of the handler, over the state \<open>w\<close> of the rest of the kernel; theory Kernel
  gives it the routes of the code.
\<close>

definition KEYBOARD_DATA_PORT :: u16 where "KEYBOARD_DATA_PORT = 0x60"
definition KEY_LCTRL :: u8 where "KEY_LCTRL = 0x1D"
definition KEY_LSHIFT :: u8 where "KEY_LSHIFT = 0x2A"
definition KEY_RSHIFT :: u8 where "KEY_RSHIFT = 0x36"
definition KEY_LALT :: u8 where "KEY_LALT = 0x38"
definition KEY_CAPSLOCK :: u8 where "KEY_CAPSLOCK = 0x3A"
definition MOD_SHIFT :: u8 where "MOD_SHIFT = 1"
definition MOD_CTRL :: u8 where "MOD_CTRL = 2"
definition MOD_ALT :: u8 where "MOD_ALT = 4"
definition MOD_CAPSLOCK :: u8 where "MOD_CAPSLOCK = 8"

record keyboard =
  modifiers :: u8
  key_buffer :: "char list"
  buffer_start :: u8
  buffer_end :: u8

definition scancode_to_ascii :: string where
  "scancode_to_ascii =
     [NUL, NUL] @ ''1234567890-='' @ [CHR 0x08, CHR 0x09] @ ''qwertyuiop[]'' @ [CHR 0x0A, NUL] @
     ''asdfghjkl;'' @ [CHR 0x27, CHR 0x60, NUL, CHR 0x5C] @ ''zxcvbnm,./'' @ [NUL] @ ''*'' @ [NUL] @ '' ''"

definition scancode_to_ascii_shift :: string where
  "scancode_to_ascii_shift =
     [NUL, NUL] @ ''!@#$%^&*()_+'' @ [CHR 0x08, CHR 0x09] @ ''QWERTYUIOP{}'' @ [CHR 0x0A, NUL] @
     ''ASDFGHJKL:'' @ [CHR 0x22, CHR 0x7E, NUL, CHR 0x7C] @ ''ZXCVBNM<>?'' @ [NUL] @ ''*'' @ [NUL] @ '' ''"

definition keyboard_init :: "device \<Rightarrow> keyboard \<times> history \<Rightarrow> keyboard \<times> history" where
  "keyboard_init dev x = ((fst x)\<lparr>buffer_start := 0, buffer_end := 0, modifiers := 0\<rparr>, pic_clear_mask dev 1 (snd x))"

definition buffer_add :: "char \<Rightarrow> keyboard \<Rightarrow> keyboard" where
  "buffer_add c k =
     (let nxt = buffer_end k + 1
      in if nxt \<noteq> buffer_start k
         then k\<lparr>key_buffer := (key_buffer k)[unat (buffer_end k) := c], buffer_end := nxt\<rparr> else k)"

definition keyboard_has_key :: "keyboard \<Rightarrow> bool" where
  "keyboard_has_key k \<longleftrightarrow> buffer_start k \<noteq> buffer_end k"

text \<open>\<open>keyboard_getchar\<close>; \<open>None\<close> is the state in which it waits for the next interrupt.\<close>

definition keyboard_getchar :: "keyboard \<Rightarrow> char option \<times> keyboard" where
  "keyboard_getchar k =
     (if keyboard_has_key k
      then (Some (key_buffer k ! unat (buffer_start k)), k\<lparr>buffer_start := buffer_start k + 1\<rparr>)
      else (None, k))"

definition between :: "char \<Rightarrow> char \<Rightarrow> char \<Rightarrow> bool" where
  "between a b c \<longleftrightarrow> of_char a \<le> (of_char c :: nat) \<and> of_char c \<le> (of_char b :: nat)"

text \<open>The character of a key, for the modifiers; NUL where there is none.\<close>

definition key_char :: "u8 \<Rightarrow> u8 \<Rightarrow> char" where
  "key_char mods scancode =
     (if unat scancode < length scancode_to_ascii
      then let c0 = (if mods AND MOD_SHIFT \<noteq> 0 then scancode_to_ascii_shift ! unat scancode
                     else let c = scancode_to_ascii ! unat scancode
                          in if mods AND MOD_CAPSLOCK \<noteq> 0 \<and> between (CHR ''a'') (CHR ''z'') c
                             then char_of (of_char c - 97 + 65 :: nat) else c)
           in if mods AND MOD_CTRL \<noteq> 0
              then if between (CHR ''a'') (CHR ''z'') c0 then char_of (of_char c0 - 97 + 1 :: nat)
                   else if between (CHR ''A'') (CHR ''Z'') c0 then char_of (of_char c0 - 65 + 1 :: nat) else c0
              else c0
      else NUL)"

definition is_modifier :: "u8 \<Rightarrow> bool" where
  "is_modifier sc \<longleftrightarrow> sc \<in> {KEY_LSHIFT, KEY_RSHIFT, KEY_LCTRL, KEY_LALT, KEY_CAPSLOCK}"

text \<open>What a scan code does to the modifiers; bit 7 marks the release of a key.\<close>

definition modifiers_after :: "u8 \<Rightarrow> u8 \<Rightarrow> u8" where
  "modifiers_after scancode m =
     (if scancode AND 0x80 \<noteq> 0
      then let sc = scancode AND 0x7F
           in if sc = KEY_LSHIFT \<or> sc = KEY_RSHIFT then m AND NOT MOD_SHIFT
              else if sc = KEY_LCTRL then m AND NOT MOD_CTRL
              else if sc = KEY_LALT then m AND NOT MOD_ALT else m
      else if scancode = KEY_LSHIFT \<or> scancode = KEY_RSHIFT then m OR MOD_SHIFT
      else if scancode = KEY_LCTRL then m OR MOD_CTRL
      else if scancode = KEY_LALT then m OR MOD_ALT
      else if scancode = KEY_CAPSLOCK then m XOR MOD_CAPSLOCK else m)"

definition typed_char :: "u8 \<Rightarrow> u8 \<Rightarrow> char option" where
  "typed_char scancode m =
     (if scancode AND 0x80 \<noteq> 0 \<or> is_modifier scancode then None
      else let c = key_char m scancode in if c \<noteq> NUL then Some c else None)"

definition keyboard_handler ::
  "(char \<Rightarrow> 'w \<Rightarrow> history \<Rightarrow> ('w \<times> history) option) \<Rightarrow> device \<Rightarrow>
     keyboard \<Rightarrow> 'w \<Rightarrow> history \<Rightarrow> (keyboard \<times> 'w \<times> history) option" where
  "keyboard_handler route dev k w h =
     (case inb dev KEYBOARD_DATA_PORT h of (scancode, h1) \<Rightarrow>
        let k1 = k\<lparr>modifiers := modifiers_after scancode (modifiers k)\<rparr>
        in case typed_char scancode (modifiers k) of
             None \<Rightarrow> Some (k1, w, pic_send_eoi 1 h1)
           | Some c \<Rightarrow>
               (let k2 = buffer_add c k1
                in Option.bind (route c w h1) (\<lambda>(w2, h2).
                   map_option (\<lambda>h3. (k2, w2, pic_send_eoi 1 h3)) (serial_putchar dev c h2))))"

section \<open>The ring buffer as a bounded queue\<close>

definition ring_wf :: "keyboard \<Rightarrow> bool" where
  "ring_wf k \<longleftrightarrow> length (key_buffer k) = 256"

definition ring_used :: "keyboard \<Rightarrow> nat" where
  "ring_used k = unat (buffer_end k - buffer_start k)"

definition ring_items :: "keyboard \<Rightarrow> char list" where
  "ring_items k = map (\<lambda>i. key_buffer k ! unat (buffer_start k + of_nat i)) [0..<ring_used k]"

definition ring_fits :: "char \<Rightarrow> keyboard \<Rightarrow> bool" where
  "ring_fits c k \<longleftrightarrow> ring_used k < 255"

lemma unat_lt_8: "unat (x :: u8) < 256"
  using unsigned_less [of x, where ?'a = nat] by simp

lemma ring_used_add:
  assumes "ring_fits c k"
  shows "unat (buffer_end k + 1 - buffer_start k) = Suc (ring_used k)"
proof -
  have "buffer_end k - buffer_start k < 255"
    using assms by (simp add: ring_fits_def ring_used_def word_less_nat_alt)
  then have "unat (buffer_end k - buffer_start k + 1) = Suc (ring_used k)"
    using unat_plus_one [of "buffer_end k - buffer_start k" 255] by (simp add: ring_used_def)
  then show ?thesis by (simp add: algebra_simps)
qed

lemma ring_full_iff: "buffer_end k + 1 = buffer_start k \<longleftrightarrow> \<not> ring_fits c k"
proof
  assume "buffer_end k + 1 = buffer_start k"
  then have "buffer_end k - buffer_start k = buffer_end k - (buffer_end k + 1)" by simp
  also have "\<dots> = 255" by simp
  finally show "\<not> ring_fits c k" by (simp add: ring_fits_def ring_used_def)
next
  assume "\<not> ring_fits c k"
  then have "unat (buffer_end k - buffer_start k) = unat (255 :: u8)"
    using unat_lt_8 [of "buffer_end k - buffer_start k"] by (simp add: ring_fits_def ring_used_def)
  then have "buffer_end k - buffer_start k = 255" by (simp only: word_unat_eq_iff)
  then have "buffer_end k = buffer_start k + 255" by (simp add: algebra_simps)
  then show "buffer_end k + 1 = buffer_start k" by simp
qed

lemma ring_slot_other:
  assumes "i < ring_used k"
  shows "buffer_start k + of_nat i \<noteq> buffer_end k"
proof
  assume "buffer_start k + of_nat i = buffer_end k"
  then have "buffer_end k - buffer_start k = of_nat i" by (simp add: algebra_simps)
  then have "ring_used k = unat (of_nat i :: u8)" by (simp add: ring_used_def)
  also have "\<dots> \<le> i" by (simp add: unat_of_nat)
  finally show False using assms by simp
qed

lemma ring_put:
  assumes "ring_wf k" and "ring_fits c k"
  shows "ring_items (buffer_add c k) = ring_items k @ [c]" and "ring_wf (buffer_add c k)"
proof -
  have b: "buffer_add c k = k\<lparr>key_buffer := (key_buffer k)[unat (buffer_end k) := c], buffer_end := buffer_end k + 1\<rparr>"
    using assms(2) ring_full_iff [of k c] by (simp add: buffer_add_def Let_def)
  then have u: "ring_used (buffer_add c k) = Suc (ring_used k)"
    using ring_used_add [OF assms(2)] by (simp add: ring_used_def)
  have e: "buffer_start k + of_nat (ring_used k) = buffer_end k" by (simp add: ring_used_def)
  have "(key_buffer k)[unat (buffer_end k) := c] ! unat (buffer_start k + of_nat i) =
      key_buffer k ! unat (buffer_start k + of_nat i)" if "i < ring_used k" for i
    using ring_slot_other [OF that] by (simp add: word_unat_eq_iff)
  then show "ring_items (buffer_add c k) = ring_items k @ [c]"
    using assms(1) unat_lt_8 [of "buffer_end k"] e u
    by (simp add: ring_items_def b ring_wf_def)
  show "ring_wf (buffer_add c k)" using assms(1) by (simp add: b ring_wf_def)
qed

lemma ring_get:
  assumes "ring_items k = x # xs"
  shows "keyboard_getchar k = (Some x, k\<lparr>buffer_start := buffer_start k + 1\<rparr>)"
    and "ring_items (k\<lparr>buffer_start := buffer_start k + 1\<rparr>) = xs"
proof -
  let ?k = "k\<lparr>buffer_start := buffer_start k + 1\<rparr>"
  have pos: "0 < ring_used k" using assms by (cases "ring_used k") (simp_all add: ring_items_def)
  then have "buffer_end k - buffer_start k \<noteq> 0" by (auto simp: ring_used_def)
  then have "unat (buffer_end k - buffer_start k - 1) = ring_used k - 1"
    by (simp add: unat_minus_one ring_used_def)
  then have u: "ring_used ?k = ring_used k - 1" by (simp add: ring_used_def algebra_simps)
  have split: "[0..<ring_used k] = 0 # map Suc [0..<ring_used k - 1]"
    using pos by (simp add: upt_conv_Cons map_Suc_upt)
  show "keyboard_getchar k = (Some x, ?k)"
  proof -
    have "x = key_buffer k ! unat (buffer_start k)" using assms by (simp add: ring_items_def split)
    moreover have "buffer_start k \<noteq> buffer_end k" using pos by (auto simp: ring_used_def)
    ultimately show ?thesis by (simp add: keyboard_getchar_def keyboard_has_key_def)
  qed
  show "ring_items ?k = xs"
    using assms by (simp add: ring_items_def u) (simp add: split algebra_simps comp_def)
qed

interpretation keyring: bounded_fifo buffer_add keyboard_getchar ring_fits ring_wf ring_items
proof (unfold_locales, goal_cases)
  case (3 s)
  then have "ring_used s = 0" by (simp add: ring_items_def)
  then show ?case
    by (simp add: keyboard_getchar_def keyboard_has_key_def ring_used_def unat_eq_0)
next
  case (4 s x xs)
  then show ?case using ring_get [OF 4(2)] by (auto simp: ring_wf_def)
next
  case (5 s x)
  then show ?case using ring_full_iff [of s x] by (simp add: buffer_add_def)
qed (simp_all add: ring_put)

definition keyboard_demo :: keyboard where
  "keyboard_demo = \<lparr>modifiers = 0, key_buffer = replicate 256 NUL, buffer_start = 250, buffer_end = 250\<rparr>"

text \<open>
  C34. Whatever keys arrive and whenever a reader takes one, the characters read and those still
  waiting are exactly the characters accepted, in the order typed; a key that finds 255
  characters waiting is dropped without disturbing the others.
\<close>

theorem keyboard_keys_in_order:
  assumes "ring_wf k"
    and "queue_run buffer_add keyboard_getchar ring_fits es (k, [], []) = (k', ins, outs)"
  shows "ring_wf k' \<and> ring_items k @ ins = outs @ ring_items k'"
  using assms by (rule keyring.run_in_order)

theorem keyboard_keys_in_order_witness:
  "\<exists>k'. queue_run buffer_add keyboard_getchar ring_fits
      [Put (CHR ''a''), Put (CHR ''b''), Get, Put (CHR ''c'')] (keyboard_demo, [], []) = (k', ''abc'', ''a'') \<and>
      ring_items k' = ''bc''"
proof -
  let ?es = "[Put (CHR ''a''), Put (CHR ''b''), Get, Put (CHR ''c'')]"
  have "snd (queue_run buffer_add keyboard_getchar ring_fits ?es (keyboard_demo, [], [])) = (''abc'', ''a'')"
    by code_simp
  then obtain k' where r: "queue_run buffer_add keyboard_getchar ring_fits ?es (keyboard_demo, [], []) = (k', ''abc'', ''a'')"
    by (metis prod.collapse)
  have "ring_wf keyboard_demo" "ring_items keyboard_demo = []"
    by (simp_all add: ring_wf_def ring_items_def ring_used_def keyboard_demo_def)
  then have "''abc'' = ''a'' @ ring_items k'" using keyboard_keys_in_order [OF _ r] by simp
  then show ?thesis using r by auto
qed

section \<open>Modifiers\<close>

text \<open>
  The scan codes of a set of keys; a key is held when the last of them was a press, and the
  number of presses is the number of codes without the release bit.
\<close>

definition codes_of :: "u8 set \<Rightarrow> u8 list \<Rightarrow> u8 list" where
  "codes_of keys scs = List.filter (\<lambda>sc. sc AND 0x7F \<in> keys) scs"

definition held :: "u8 set \<Rightarrow> u8 list \<Rightarrow> bool" where
  "held keys scs \<longleftrightarrow> codes_of keys scs \<noteq> [] \<and> last (codes_of keys scs) AND 0x80 = 0"

definition presses :: "u8 \<Rightarrow> u8 list \<Rightarrow> nat" where
  "presses key scs = length (List.filter (\<lambda>sc. sc = key) scs)"

lemma low7_press: "sc AND 0x80 = 0 \<Longrightarrow> sc AND 0x7F = (sc :: u8)"
proof -
  assume z: "sc AND 0x80 = 0"
  have m: "(0x80 OR 0x7F :: u8) = -1" by simp
  have "sc = sc AND (0x80 OR 0x7F)" by (simp only: m bit.conj_one_right)
  also have "\<dots> = (sc AND 0x80) OR (sc AND 0x7F)" by (rule bit.conj_disj_distrib)
  finally show ?thesis using z by simp
qed

lemma held_snoc: "held keys (scs @ [sc]) \<longleftrightarrow> (if sc AND 0x7F \<in> keys then sc AND 0x80 = 0 else held keys scs)"
  by (auto simp: held_def codes_of_def)

lemma modifier_bits:
  "bit (modifiers_after sc m) 0 \<longleftrightarrow> (if sc AND 0x7F \<in> {KEY_LSHIFT, KEY_RSHIFT} then sc AND 0x80 = 0 else bit m 0)"
  "bit (modifiers_after sc m) (Suc 0) \<longleftrightarrow> (if sc AND 0x7F \<in> {KEY_LCTRL} then sc AND 0x80 = 0 else bit m (Suc 0))"
  "bit (modifiers_after sc m) 2 \<longleftrightarrow> (if sc AND 0x7F \<in> {KEY_LALT} then sc AND 0x80 = 0 else bit m 2)"
  "bit (modifiers_after sc m) 3 \<longleftrightarrow> (if sc = KEY_CAPSLOCK then \<not> bit m 3 else bit m 3)"
  using low7_press [of sc]
  by (auto simp: modifiers_after_def Let_def KEY_LSHIFT_def KEY_RSHIFT_def KEY_LCTRL_def KEY_LALT_def
      KEY_CAPSLOCK_def MOD_SHIFT_def MOD_CTRL_def MOD_ALT_def MOD_CAPSLOCK_def
      bit_and_iff bit_or_iff bit_xor_iff bit_not_iff)

text \<open>
  From a cleared state, after any sequence of scan codes the shift, control and alt flags say
  whether the last event of their keys was a press, and the caps-lock flag whether its key was
  pressed an odd number of times.
\<close>

theorem modifiers_follow_keys:
  "bit (fold modifiers_after scs 0) 0 = held {KEY_LSHIFT, KEY_RSHIFT} scs \<and>
   bit (fold modifiers_after scs 0) 1 = held {KEY_LCTRL} scs \<and>
   bit (fold modifiers_after scs 0) 2 = held {KEY_LALT} scs \<and>
   bit (fold modifiers_after scs 0) 3 = odd (presses KEY_CAPSLOCK scs)"
proof (induction scs rule: rev_induct)
  case Nil
  show ?case by (simp add: held_def codes_of_def presses_def)
next
  case (snoc sc scs)
  then show ?case
    using modifier_bits [of sc "fold modifiers_after scs 0"]
    by (simp only: held_snoc presses_def fold_append fold_simps comp_apply filter_append length_append
        One_nat_def) auto
qed

end
