(* ===== verification/Stdin.thy ===== *)
theory Stdin
  imports Vga
begin

text \<open>
  The line-buffered standard input of ring-3 programs, \<^verbatim>\<open>src/kernel/stdin.cpp\<close>. The
  buffer has its full 256 bytes; the length counts those of the line being typed. What is echoed
  goes to the console of theory Vga.
\<close>

definition LINE_CAP :: u32 where "LINE_CAP = 256"

record stdin =
  g_line :: "char list"
  g_len :: u32
  g_ready :: bool

definition stdin_init :: "stdin \<Rightarrow> stdin" where
  "stdin_init s = s\<lparr>g_len := 0, g_ready := False\<rparr>"

definition store_char :: "char \<Rightarrow> stdin \<Rightarrow> stdin" where
  "store_char c s = s\<lparr>g_line := (g_line s)[unat (g_len s) := c], g_len := g_len s + 1\<rparr>"

definition stdin_push :: "char \<Rightarrow> stdin \<times> vga \<Rightarrow> stdin \<times> vga" where
  "stdin_push c x =
     (case x of (s, v) \<Rightarrow>
        if g_ready s then (s, v)
        else if c = CHR 0x08 then
          (if g_len s > 0
           then (s\<lparr>g_len := g_len s - 1\<rparr>,
                 vga_putchar (CHR 0x08) (vga_putchar (CHR '' '') (vga_putchar (CHR 0x08) v)))
           else (s, v))
        else if c = CHR 0x0A \<or> c = CHR 0x0D then
          ((if g_len s < LINE_CAP then store_char (CHR 0x0A) s else s)\<lparr>g_ready := True\<rparr>,
           vga_putchar (CHR 0x0A) v)
        else if g_len s + 1 < LINE_CAP then (store_char c s, vga_putchar c v)
        else (s, v))"

text \<open>
  \<open>stdin_read_line\<close> is blocked until a line is ready, then copies at most \<open>cap\<close> bytes of it and
  drops the line. \<open>None\<close> is the state in which it waits for the next interrupt.
\<close>

definition stdin_read_line :: "u64 \<Rightarrow> stdin \<Rightarrow> (char list \<times> stdin) option" where
  "stdin_read_line cap s =
     (if g_ready s
      then let n = min (ucast (g_len s)) cap
           in Some (take (unat n) (g_line s), s\<lparr>g_len := 0, g_ready := False\<rparr>)
      else None)"

section \<open>Line editing\<close>

definition stdin_ok :: "stdin \<Rightarrow> bool" where
  "stdin_ok s \<longleftrightarrow> length (g_line s) = 256 \<and> unat (g_len s) \<le> 256 \<and> (\<not> g_ready s \<longrightarrow> unat (g_len s) \<le> 255)"

definition typed :: "stdin \<Rightarrow> string" where
  "typed s = take (unat (g_len s)) (g_line s)"

text \<open>What an editor with a 255 character limit makes of the keys before the line end.\<close>

fun edited :: "string \<Rightarrow> string \<Rightarrow> string" where
  "edited line [] = line"
| "edited line (c # cs) =
     edited (if c = CHR 0x08 then butlast line else if length line < 255 then line @ [c] else line) cs"

definition stdin_keys :: "string \<Rightarrow> stdin \<times> vga \<Rightarrow> stdin \<times> vga" where
  "stdin_keys cs x = fold stdin_push cs x"

lemma store_char_typed:
  assumes "stdin_ok s" and "unat (g_len s) < 256"
  shows "typed (store_char c s) = typed s @ [c]" and "unat (g_len (store_char c s)) = Suc (unat (g_len s))"
    and "length (g_line (store_char c s)) = 256" and "g_ready (store_char c s) = g_ready s"
proof -
  show u: "unat (g_len (store_char c s)) = Suc (unat (g_len s))"
    using assms(2) unat_plus_one [of "g_len s" 256] by (simp add: store_char_def word_less_nat_alt)
  show "typed (store_char c s) = typed s @ [c]"
    using assms u by (simp add: typed_def stdin_ok_def store_char_def take_Suc_conv_app_nth)
qed (use assms in \<open>simp_all add: store_char_def stdin_ok_def\<close>)

lemma push_edits:
  assumes "stdin_ok s" and "\<not> g_ready s" and "c \<noteq> CHR 0x0A" and "c \<noteq> CHR 0x0D"
    and p: "stdin_push c (s, v) = (s', v')"
  shows "stdin_ok s' \<and> \<not> g_ready s' \<and> typed s' = edited (typed s) [c]"
proof -
  have l: "length (typed s) = unat (g_len s)" and le: "unat (g_len s) \<le> 255"
    using assms by (auto simp: typed_def stdin_ok_def)
  show ?thesis
  proof (cases "c = CHR 0x08")
    case True
    have "unat (g_len s - 1) = unat (g_len s) - 1" if "g_len s > 0"
      using that by (simp add: unat_minus_one word_gt_0)
    then show ?thesis using p assms(1,2) True le l
      by (auto simp: stdin_push_def stdin_ok_def typed_def butlast_take word_less_nat_alt split: if_splits)
  next
    case False
    have "unat (g_len s + 1) = Suc (unat (g_len s))"
      using le unat_plus_one [of "g_len s" 256] by (simp add: word_less_nat_alt)
    then have fit: "g_len s + 1 < LINE_CAP \<longleftrightarrow> length (typed s) < 255"
      by (simp add: l LINE_CAP_def word_less_nat_alt)
    show ?thesis using p assms False fit store_char_typed [OF assms(1), of c] l le
      by (auto simp: stdin_push_def stdin_ok_def split: if_splits)
  qed
qed

lemma keys_edit:
  "stdin_ok s \<Longrightarrow> \<not> g_ready s \<Longrightarrow> CHR 0x0A \<notin> set cs \<Longrightarrow> CHR 0x0D \<notin> set cs \<Longrightarrow>
    \<exists>s' v'. stdin_keys cs (s, v) = (s', v') \<and> stdin_ok s' \<and> \<not> g_ready s' \<and> typed s' = edited (typed s) cs"
proof (induction cs arbitrary: s v)
  case (Cons c cs)
  obtain s1 v1 where p: "stdin_push c (s, v) = (s1, v1)" by (cases "stdin_push c (s, v)")
  then have "stdin_ok s1 \<and> \<not> g_ready s1 \<and> typed s1 = edited (typed s) [c]"
    using push_edits [of s c v s1 v1] Cons.prems by auto
  then show ?case using Cons.IH [of s1 v1] Cons.prems p by (simp add: stdin_keys_def)
qed (simp add: stdin_keys_def)

lemma newline_readies:
  assumes "stdin_ok s" and "\<not> g_ready s" and "c = CHR 0x0A \<or> c = CHR 0x0D"
  shows "\<exists>s' v'. stdin_push c (s, v) = (s', v') \<and> stdin_ok s' \<and> g_ready s' \<and> typed s' = typed s @ [CHR 0x0A]"
proof -
  have "unat (g_len s) < 256" using assms by (auto simp: stdin_ok_def)
  then show ?thesis using assms store_char_typed [OF assms(1), of "CHR 0x0A"]
    by (auto simp: stdin_push_def stdin_ok_def typed_def LINE_CAP_def word_less_nat_alt)
qed

lemma ready_line_read:
  assumes "stdin_ok s" and "g_ready s"
  shows "stdin_read_line cap s = Some (take (unat cap) (typed s), s\<lparr>g_len := 0, g_ready := False\<rparr>)"
proof -
  have "unat (min (ucast (g_len s)) cap) = min (unat (g_len s)) (unat cap)"
    by (simp add: min_def word_le_nat_alt unat_zext_64)
  then show ?thesis using assms by (simp add: stdin_read_line_def typed_def Let_def min.commute)
qed

lemma ready_keeps: "g_ready s \<Longrightarrow> stdin_keys cs (s, v) = (s, v)"
  by (induction cs) (simp_all add: stdin_keys_def stdin_push_def)

text \<open>
  C33. A program that reads a line gets what was typed up to the line end, with the backspaces
  applied, cut to 255 characters and closed by a newline, and no more of it than fits its buffer;
  keys typed after the line end and before the read are lost, and the next line starts empty.
\<close>

theorem stdin_line_edited:
  assumes "stdin_ok s" and "\<not> g_ready s" and "CHR 0x0A \<notin> set cs" and "CHR 0x0D \<notin> set cs"
    and "eol = CHR 0x0A \<or> eol = CHR 0x0D"
  shows "\<exists>s'. stdin_read_line cap (fst (stdin_keys (cs @ [eol] @ late) (s, v))) =
      Some (take (unat cap) (edited (typed s) cs @ [CHR 0x0A]), s') \<and>
    stdin_ok s' \<and> \<not> g_ready s' \<and> typed s' = []"
proof -
  obtain s1 v1 where 1: "stdin_keys cs (s, v) = (s1, v1)" "stdin_ok s1" "\<not> g_ready s1" "typed s1 = edited (typed s) cs"
    using keys_edit [OF assms(1-4)] by blast
  obtain s2 v2 where 2: "stdin_push eol (s1, v1) = (s2, v2)" "stdin_ok s2" "g_ready s2" "typed s2 = typed s1 @ [CHR 0x0A]"
    using newline_readies [OF 1(2,3) assms(5)] by blast
  have "fst (stdin_keys (cs @ [eol] @ late) (s, v)) = s2"
    using 1(1) 2(1) ready_keeps [OF 2(3)] by (simp add: stdin_keys_def)
  then have "stdin_read_line cap (fst (stdin_keys (cs @ [eol] @ late) (s, v))) =
      Some (take (unat cap) (edited (typed s) cs @ [CHR 0x0A]), s2\<lparr>g_len := 0, g_ready := False\<rparr>)"
    using ready_line_read [OF 2(2,3), of cap] 1(4) 2(4) by metis
  then show ?thesis using 2(2) by (simp add: stdin_ok_def typed_def)
qed

definition stdin_demo :: stdin where
  "stdin_demo = \<lparr>g_line = replicate 256 NUL, g_len = 0, g_ready = False\<rparr>"

theorem stdin_line_edited_witness:
  "\<exists>s'. stdin_read_line 100 (fst (stdin_keys (''lx'' @ [CHR 0x08] @ ''s'' @ [CHR 0x0A] @ ''rm'') (stdin_demo, vga_demo))) =
      Some (''ls'' @ [CHR 0x0A], s')"
proof -
  have "stdin_ok stdin_demo" "\<not> g_ready stdin_demo" by (simp_all add: stdin_ok_def stdin_demo_def)
  then show ?thesis
    using stdin_line_edited [of stdin_demo "''lx'' @ [CHR 0x08] @ ''s''" "CHR 0x0A" 100 "''rm''" vga_demo]
    by (simp add: typed_def stdin_demo_def, blast)
qed

end
