(* ===== verification/Mouse.thy ===== *)
theory Mouse
  imports Pic "HOL-Library.Signed_Division"
begin

text \<open>
  The PS/2 mouse driver, \<^verbatim>\<open>src/kernel/mouse.cpp\<close>: the assembly of three-byte packets
  from single interrupts, the pointer kept on the screen, and the button edges kept until the
  GUI takes them. Coordinates are 32-bit signed integers, read by \<open>sint\<close>.
\<close>

record mouse_state =
  mouse_x :: i32
  mouse_y :: i32
  mouse_buttons :: u8
  mouse_moved :: bool

record mouse_event =
  ev_x :: i32
  ev_y :: i32
  ev_buttons :: u8
  ev_pressed :: u8
  ev_released :: u8

record mouse =
  g_mouse :: mouse_state
  g_screen_w :: i32
  g_screen_h :: i32
  g_irq_prev_buttons :: u8
  g_pending_pressed :: u8
  g_pending_released :: u8
  packet :: "u8 list"
  packet_idx :: u8

definition PS2_DATA :: u16 where "PS2_DATA = 0x60"
definition PS2_STATUS :: u16 where "PS2_STATUS = 0x64"
definition PS2_CMD :: u16 where "PS2_CMD = 0x64"

text \<open>The two waits poll the status port at most 100000 times and then go on all the same.\<close>

fun poll_until :: "nat \<Rightarrow> device \<Rightarrow> (u8 \<Rightarrow> bool) \<Rightarrow> history \<Rightarrow> history" where
  "poll_until 0 dev ready h = h"
| "poll_until (Suc n) dev ready h =
     (case inb dev PS2_STATUS h of (st, h1) \<Rightarrow> if ready st then h1 else poll_until n dev ready h1)"

definition wait_input_ready :: "device \<Rightarrow> history \<Rightarrow> history" where
  "wait_input_ready dev h = poll_until 100000 dev (\<lambda>st. st AND 0x02 = 0) h"

definition wait_output_ready :: "device \<Rightarrow> history \<Rightarrow> history" where
  "wait_output_ready dev h = poll_until 100000 dev (\<lambda>st. st AND 0x01 \<noteq> 0) h"

definition mouse_write :: "device \<Rightarrow> u8 \<Rightarrow> history \<Rightarrow> history" where
  "mouse_write dev b h =
     outb PS2_DATA b (wait_input_ready dev (outb PS2_CMD 0xD4 (wait_input_ready dev h)))"

definition mouse_read :: "device \<Rightarrow> history \<Rightarrow> u8 \<times> history" where
  "mouse_read dev h = inb dev PS2_DATA (wait_output_ready dev h)"

text \<open>The flush of the output buffer has no bound: a controller that keeps answering keeps it going.\<close>

partial_function (option) mouse_flush :: "device \<Rightarrow> history \<Rightarrow> history option" where
  "mouse_flush dev h =
     (case inb dev PS2_STATUS h of (st, h1) \<Rightarrow>
        if st AND 0x01 \<noteq> 0 then mouse_flush dev (snd (inb dev PS2_DATA h1)) else Some h1)"

definition mouse_init :: "device \<Rightarrow> i32 \<Rightarrow> i32 \<Rightarrow> mouse \<Rightarrow> history \<Rightarrow> (mouse \<times> history) option" where
  "mouse_init dev screen_w screen_h m h =
     (let m1 = m\<lparr>g_screen_w := screen_w, g_screen_h := screen_h,
                 g_mouse := \<lparr>mouse_x = word_of_int (sint screen_w sdiv 2),
                             mouse_y = word_of_int (sint screen_h sdiv 2),
                             mouse_buttons = 0, mouse_moved = True\<rparr>\<rparr>;
          cmd = (\<lambda>c h. outb PS2_CMD c (wait_input_ready dev h))
      in map_option
        (\<lambda>h1. case mouse_read dev (cmd 0x20 h1) of (cfg0, h2) \<Rightarrow>
           let cfg = (cfg0 OR (1 OR 2)) AND NOT 0x20;
               h3 = outb PS2_DATA cfg (wait_input_ready dev (cmd 0x60 h2));
               h4 = cmd 0xA8 (cmd 0xAE h3);
               h5 = snd (mouse_read dev (mouse_write dev 0xF6 h4));
               h6 = snd (mouse_read dev (mouse_write dev 0xF4 h5))
           in (m1, pic_clear_mask dev 12 (pic_clear_mask dev 2 h6)))
        (mouse_flush dev (cmd 0xA7 (cmd 0xAD h))))"

text \<open>A byte of movement with its sign bit.\<close>

definition delta :: "u8 \<Rightarrow> bool \<Rightarrow> i32" where
  "delta b neg = (if neg then ucast b OR 0xFFFFFF00 else ucast b)"

definition clamp :: "i32 \<Rightarrow> i32 \<Rightarrow> i32" where
  "clamp v bound = (let v0 = (if sint v < 0 then 0 else v) in if sint v0 \<ge> sint bound then bound - 1 else v0)"

definition mouse_packet :: "u8 \<Rightarrow> u8 \<Rightarrow> u8 \<Rightarrow> mouse \<Rightarrow> mouse" where
  "mouse_packet flags bx by m =
     (let dx = delta bx (flags AND 0x10 \<noteq> 0);
          dy = delta by (flags AND 0x20 \<noteq> 0);
          g = g_mouse m;
          g1 = (if flags AND 0xC0 = 0
                then g\<lparr>mouse_x := clamp (mouse_x g + dx) (g_screen_w m),
                       mouse_y := clamp (mouse_y g - dy) (g_screen_h m)\<rparr>
                else g);
          new_buttons = flags AND 0x07;
          prev = g_irq_prev_buttons m
      in m\<lparr>g_pending_pressed := g_pending_pressed m OR (new_buttons AND NOT prev),
           g_pending_released := g_pending_released m OR (prev AND NOT new_buttons),
           g_irq_prev_buttons := new_buttons,
           g_mouse := g1\<lparr>mouse_buttons := new_buttons, mouse_moved := True\<rparr>\<rparr>)"

text \<open>One byte of the packet stream.\<close>

definition mouse_byte :: "u8 \<Rightarrow> mouse \<Rightarrow> mouse" where
  "mouse_byte b m =
     (if packet_idx m = 0 \<and> b AND 0x08 = 0 then m
      else let m1 = m\<lparr>packet := (packet m)[unat (packet_idx m) := b], packet_idx := packet_idx m + 1\<rparr>
           in if packet_idx m1 < 3 then m1
              else mouse_packet (packet m1 ! 0) (packet m1 ! 1) (packet m1 ! 2) (m1\<lparr>packet_idx := 0\<rparr>))"

definition mouse_handler :: "device \<Rightarrow> mouse \<Rightarrow> history \<Rightarrow> mouse \<times> history" where
  "mouse_handler dev m h =
     (case inb dev PS2_STATUS h of (st, h1) \<Rightarrow>
        if st AND 0x01 = 0 \<or> st AND 0x20 = 0 then (m, pic_send_eoi 12 h1)
        else case inb dev PS2_DATA h1 of (b, h2) \<Rightarrow> (mouse_byte b m, pic_send_eoi 12 h2))"

definition mouse_consume :: "mouse \<Rightarrow> mouse_state \<times> mouse" where
  "mouse_consume m = (g_mouse m, m\<lparr>g_mouse := (g_mouse m)\<lparr>mouse_moved := False\<rparr>\<rparr>)"

definition mouse_peek :: "mouse \<Rightarrow> mouse_state" where
  "mouse_peek m = g_mouse m"

definition mouse_consume_event :: "mouse \<Rightarrow> mouse_event \<times> mouse" where
  "mouse_consume_event m =
     (\<lparr>ev_x = mouse_x (g_mouse m), ev_y = mouse_y (g_mouse m), ev_buttons = mouse_buttons (g_mouse m),
       ev_pressed = g_pending_pressed m, ev_released = g_pending_released m\<rparr>,
      m\<lparr>g_pending_pressed := 0, g_pending_released := 0, g_mouse := (g_mouse m)\<lparr>mouse_moved := False\<rparr>\<rparr>)"

section \<open>The pointer stays on the screen\<close>

definition screen_ok :: "mouse \<Rightarrow> bool" where
  "screen_ok m \<longleftrightarrow> 0 < sint (g_screen_w m) \<and> sint (g_screen_w m) \<le> 65536 \<and>
     0 < sint (g_screen_h m) \<and> sint (g_screen_h m) \<le> 65536"

definition pointer_ok :: "mouse \<Rightarrow> bool" where
  "pointer_ok m \<longleftrightarrow> 0 \<le> sint (mouse_x (g_mouse m)) \<and> sint (mouse_x (g_mouse m)) < sint (g_screen_w m) \<and>
     0 \<le> sint (mouse_y (g_mouse m)) \<and> sint (mouse_y (g_mouse m)) < sint (g_screen_h m)"

definition mouse_ok :: "mouse \<Rightarrow> bool" where
  "mouse_ok m \<longleftrightarrow> screen_ok m \<and> pointer_ok m \<and> length (packet m) = 3 \<and> packet_idx m < 3"

lemma sint_byte: "sint (ucast (b :: u8) :: i32) = uint b" and uint_byte: "uint (b :: u8) < 256"
proof -
  show "uint b < 256" using unsigned_less [of b, where ?'a = int] by simp
  moreover have "- (2 ^ 31) \<le> uint b" by (rule order_trans [of _ 0]) simp_all
  ultimately show "sint (ucast b :: i32) = uint b"
    by (simp add: sint_uint unsigned_ucast_eq take_bit_int_eq_self signed_take_bit_int_eq_self)
qed

lemma delta_range: "- 256 \<le> sint (delta b neg) \<and> sint (delta b neg) \<le> 255"
proof -
  have "(ucast b AND 0xFFFFFF00 :: i32) = 0"
  proof (rule bit_word_eqI)
    fix n
    have "(0xFFFFFF00 :: i32) = push_bit 8 0xFFFFFF" by simp
    then show "bit (ucast b AND 0xFFFFFF00 :: i32) n \<longleftrightarrow> bit (0 :: i32) n"
      by (simp only: bit_and_iff bit_ucast_iff bit_push_bit_iff) (auto dest: bit_imp_le_length)
  qed
  then have "(ucast b OR 0xFFFFFF00 :: i32) = ucast b + 0xFFFFFF00"
    by (simp add: disjunctive_add_eq_or)
  also have "\<dots> = ucast b - 256" by simp
  finally have "sint (ucast b OR 0xFFFFFF00 :: i32) = uint b - 256"
    using sint_i32_exact(2) [of "ucast b" 256] uint_byte [of b] by (simp add: sint_byte)
  moreover have "- 256 \<le> uint b" by (rule order_trans [of _ 0]) simp_all
  ultimately show ?thesis using uint_byte [of b] by (cases neg) (simp_all add: delta_def sint_byte)
qed

lemma clamp_range:
  assumes "0 < sint bound"
  shows "0 \<le> sint (clamp v bound) \<and> sint (clamp v bound) < sint bound"
proof -
  have "sint bound < 2 ^ 31" using sint_lt [of bound] by simp
  then have "sint (bound - 1) = sint bound - 1" using assms sint_i32_exact(2) [of bound 1] by simp
  then show ?thesis using assms by (simp add: clamp_def Let_def)
qed

lemma packet_pointer: "screen_ok m \<Longrightarrow> pointer_ok m \<Longrightarrow> screen_ok (mouse_packet f x y m) \<and> pointer_ok (mouse_packet f x y m)"
  using clamp_range by (simp add: mouse_packet_def Let_def screen_ok_def pointer_ok_def)

lemma byte_ok:
  assumes "mouse_ok m"
  shows "mouse_ok (mouse_byte b m)"
proof -
  have i: "packet_idx m < 3 \<Longrightarrow> \<not> packet_idx m + 1 < 3 \<Longrightarrow> packet_idx m = 2" by unat_arith
  let ?m = "m\<lparr>packet := (packet m)[unat (packet_idx m) := b], packet_idx := packet_idx m + 1\<rparr>"
  have s: "screen_ok (?m\<lparr>packet_idx := 0\<rparr>)" "pointer_ok (?m\<lparr>packet_idx := 0\<rparr>)"
    using assms by (simp_all add: mouse_ok_def screen_ok_def pointer_ok_def)
  have f: "packet (mouse_packet f x y n) = packet n" "packet_idx (mouse_packet f x y n) = packet_idx n" for f x y n
    by (simp_all add: mouse_packet_def Let_def)
  show ?thesis
  proof (cases "packet_idx m = 0 \<and> b AND 0x08 = 0 \<or> packet_idx m + 1 < 3")
    case True
    then show ?thesis using assms s
      by (auto simp: mouse_byte_def mouse_ok_def Let_def screen_ok_def pointer_ok_def)
  next
    case False
    then have "mouse_byte b m = mouse_packet (packet ?m ! 0) (packet ?m ! 1) (packet ?m ! 2) (?m\<lparr>packet_idx := 0\<rparr>)"
      by (auto simp: mouse_byte_def Let_def)
    then show ?thesis using packet_pointer [OF s] assms by (simp add: mouse_ok_def f)
  qed
qed

lemma handler_ok: "mouse_ok m \<Longrightarrow> mouse_ok (fst (mouse_handler dev m h))"
  by (simp add: mouse_handler_def byte_ok split: prod.split)

text \<open>Interrupts of the mouse, with the accesses other drivers make before each.\<close>

fun mouse_interrupts :: "device \<Rightarrow> history list \<Rightarrow> mouse \<Rightarrow> history \<Rightarrow> mouse \<times> history" where
  "mouse_interrupts dev [] m h = (m, h)"
| "mouse_interrupts dev (es # rest) m h =
     (case mouse_handler dev m (h @ es) of (m1, h1) \<Rightarrow> mouse_interrupts dev rest m1 h1)"

lemma interrupts_ok: "mouse_ok m \<Longrightarrow> mouse_ok (fst (mouse_interrupts dev ess m h))"
proof (induction ess arbitrary: m h)
  case (Cons es ess)
  then show ?case using handler_ok [of m dev "h @ es"] by (auto split: prod.split)
qed simp

definition mouse_demo :: mouse where
  "mouse_demo = \<lparr>g_mouse = \<lparr>mouse_x = 1023, mouse_y = 0, mouse_buttons = 0, mouse_moved = False\<rparr>,
     g_screen_w = 1024, g_screen_h = 768, g_irq_prev_buttons = 0, g_pending_pressed = 0,
     g_pending_released = 0, packet = [0, 0, 0], packet_idx = 0\<rparr>"

lemma mouse_demo_ok: "mouse_ok mouse_demo"
  by (simp add: mouse_ok_def screen_ok_def pointer_ok_def mouse_demo_def)

text \<open>
  Whatever bytes the mouse sends, in whatever interrupts and whatever the other drivers do in
  between, the pointer stays inside the screen and the packet assembler inside its three bytes.
\<close>

theorem mouse_pointer_on_screen:
  assumes "mouse_ok m"
  shows "mouse_ok (fst (mouse_interrupts dev ess m h))"
  using assms by (rule interrupts_ok)

theorem mouse_pointer_on_screen_witness:
  "mouse_ok (fst (mouse_interrupts (\<lambda>h p. if p = PS2_STATUS then 0x21 else 0xC8) [[], [Out8 0x20 0x20], []] mouse_demo []))"
  using mouse_pointer_on_screen [OF mouse_demo_ok] by blast

section \<open>No click is lost\<close>

type_synonym mouse_report = "u8 \<times> u8 \<times> u8"

definition report_bytes :: "mouse_report \<Rightarrow> u8 list" where
  "report_bytes r = (case r of (flags, bx, by) \<Rightarrow> [flags, bx, by])"

definition report_buttons :: "mouse_report \<Rightarrow> u8" where
  "report_buttons r = fst r AND 0x07"

text \<open>Button \<open>k\<close> goes down (or up) somewhere in a list of button states.\<close>

fun goes_down :: "nat \<Rightarrow> u8 list \<Rightarrow> bool" where
  "goes_down k (a # b # bs) \<longleftrightarrow> \<not> bit a k \<and> bit b k \<or> goes_down k (b # bs)"
| "goes_down k _ \<longleftrightarrow> False"

fun goes_up :: "nat \<Rightarrow> u8 list \<Rightarrow> bool" where
  "goes_up k (a # b # bs) \<longleftrightarrow> bit a k \<and> \<not> bit b k \<or> goes_up k (b # bs)"
| "goes_up k _ \<longleftrightarrow> False"

lemma report_taken:
  assumes "packet_idx m = 0" and "length (packet m) = 3" and "f AND 0x08 \<noteq> 0"
  shows "fold mouse_byte [f, x, y] m = mouse_packet f x y (m\<lparr>packet := [f, x, y]\<rparr>)"
proof -
  obtain a b c where p: "packet m = [a, b, c]"
    using assms(2) by (auto simp: numeral_3_eq_3 length_Suc_conv)
  have e: "m\<lparr>packet := [f, x, y], packet_idx := 0\<rparr> = m\<lparr>packet := [f, x, y]\<rparr>"
    using assms(1) by (cases m) simp
  show ?thesis using assms(1,3) by (simp add: mouse_byte_def p Let_def e)
qed

lemma packet_edges:
  "bit (g_pending_pressed (mouse_packet f x y m)) k \<longleftrightarrow>
     bit (g_pending_pressed m) k \<or> \<not> bit (g_irq_prev_buttons m) k \<and> bit (f AND 0x07) k"
  "bit (g_pending_released (mouse_packet f x y m)) k \<longleftrightarrow>
     bit (g_pending_released m) k \<or> bit (g_irq_prev_buttons m) k \<and> \<not> bit (f AND 0x07) k"
  "g_irq_prev_buttons (mouse_packet f x y m) = f AND 0x07"
  "packet_idx (mouse_packet f x y m) = packet_idx m" "packet (mouse_packet f x y m) = packet m"
proof -
  let ?b = "f AND 0x07"
  have e: "g_pending_pressed (mouse_packet f x y m) = g_pending_pressed m OR (?b AND NOT (g_irq_prev_buttons m))"
    "g_pending_released (mouse_packet f x y m) = g_pending_released m OR (g_irq_prev_buttons m AND NOT ?b)"
    by (simp_all add: mouse_packet_def Let_def)
  have n: "bit (NOT w) k \<longleftrightarrow> k < 8 \<and> \<not> bit w k" for w :: u8 by (simp add: bit_not_iff)
  have l: "bit w k \<Longrightarrow> k < 8" for w :: u8 using bit_imp_le_length [of w k] by simp
  show "bit (g_pending_pressed (mouse_packet f x y m)) k \<longleftrightarrow>
      bit (g_pending_pressed m) k \<or> \<not> bit (g_irq_prev_buttons m) k \<and> bit ?b k"
    unfolding e using l [of ?b] n [of "g_irq_prev_buttons m"] by (simp only: bit_or_iff bit_and_iff [of ?b]) blast
  show "bit (g_pending_released (mouse_packet f x y m)) k \<longleftrightarrow>
      bit (g_pending_released m) k \<or> bit (g_irq_prev_buttons m) k \<and> \<not> bit ?b k"
    unfolding e using l [of "g_irq_prev_buttons m"] n [of ?b]
    by (simp only: bit_or_iff bit_and_iff [of "g_irq_prev_buttons m"]) blast
qed (simp_all add: mouse_packet_def Let_def)

lemma reports_edges:
  assumes "packet_idx m = 0" and "length (packet m) = 3" and "\<forall>r \<in> set rs. fst r AND 0x08 \<noteq> 0"
  shows "let m' = fold mouse_byte (concat (map report_bytes rs)) m;
             bs = g_irq_prev_buttons m # map report_buttons rs
         in (bit (g_pending_pressed m') k \<longleftrightarrow> bit (g_pending_pressed m) k \<or> goes_down k bs) \<and>
            (bit (g_pending_released m') k \<longleftrightarrow> bit (g_pending_released m) k \<or> goes_up k bs)"
  using assms
proof (induction rs arbitrary: m)
  case (Cons r rs)
  obtain f x y where r: "r = (f, x, y)" by (cases r) auto
  let ?m = "mouse_packet f x y (m\<lparr>packet := [f, x, y]\<rparr>)"
  have 1: "fold mouse_byte (concat (map report_bytes (r # rs))) m = fold mouse_byte (concat (map report_bytes rs)) ?m"
    using report_taken [of m f x y] Cons.prems by (simp add: r report_bytes_def del: fold_simps(2) flip: fold_append)
  show ?case
    using Cons.IH [of ?m] Cons.prems
    unfolding 1 Let_def by (auto simp: packet_edges r report_buttons_def)
qed (simp add: Let_def)

text \<open>
  C35. The event that the GUI takes reports as pressed (released) exactly the buttons that went
  down (up) at least once since it last took one, also those that went down and up again in
  between; taking it clears the record.
\<close>

theorem mouse_no_click_lost:
  assumes "packet_idx m = 0" and "length (packet m) = 3" and "\<forall>r \<in> set rs. fst r AND 0x08 \<noteq> 0"
    and "mouse_consume_event m = (ev0, m0)"
    and "mouse_consume_event (fold mouse_byte (concat (map report_bytes rs)) m0) = (ev, m1)"
  shows "bit (ev_pressed ev) k = goes_down k (g_irq_prev_buttons m # map report_buttons rs) \<and>
    bit (ev_released ev) k = goes_up k (g_irq_prev_buttons m # map report_buttons rs) \<and>
    g_pending_pressed m1 = 0 \<and> g_pending_released m1 = 0"
proof -
  have m0: "packet_idx m0 = 0" "length (packet m0) = 3" "g_pending_pressed m0 = 0" "g_pending_released m0 = 0"
    "g_irq_prev_buttons m0 = g_irq_prev_buttons m"
    using assms(1,2,4) by (auto simp: mouse_consume_event_def)
  show ?thesis using reports_edges [OF m0(1,2) assms(3), of k] assms(5) m0(3-5)
    by (auto simp: mouse_consume_event_def Let_def)
qed

theorem mouse_no_click_lost_witness:
  "bit (ev_pressed (fst (mouse_consume_event (fold mouse_byte [0x09, 5, 0, 0x08, 0, 0] mouse_demo)))) 0"
proof -
  have c: "snd (mouse_consume_event mouse_demo) = mouse_demo" by (simp add: mouse_consume_event_def mouse_demo_def)
  let ?rs = "[(0x09, 5, 0), (0x08, 0, 0)] :: mouse_report list"
  have "bit (ev_pressed (fst (mouse_consume_event (fold mouse_byte (concat (map report_bytes ?rs)) mouse_demo)))) 0 =
      goes_down 0 (g_irq_prev_buttons mouse_demo # map report_buttons ?rs)"
    using mouse_no_click_lost [of mouse_demo ?rs "fst (mouse_consume_event mouse_demo)" mouse_demo
        "fst (mouse_consume_event (fold mouse_byte (concat (map report_bytes ?rs)) mouse_demo))" _ 0]
    using c by (simp add: mouse_demo_def prod_eq_iff)
  then show ?thesis by (simp add: report_bytes_def report_buttons_def mouse_demo_def)
qed

end
