(* ===== verification/Framebuffer.thy ===== *)
theory Framebuffer
  imports Heap_Client
begin

text \<open>
  The linear framebuffer, \<^verbatim>\<open>src/kernel/framebuffer.cpp\<close>: a back buffer on the kernel
  heap, drawing operations that clip to the screen, and the copy to the hardware. Pixels are
  32-bit words in the memory of theory Mem; coordinates are signed 32-bit integers, sizes
  unsigned ones, converted as the code converts them.
\<close>

record fb_info =
  fb_hw :: u64
  fb_back :: u64
  fb_w :: u32
  fb_h :: u32
  pitch_px :: u32
  fb_is_ready :: bool

text \<open>\<open>for_i n f\<close> is \<^verbatim>\<open>for (int32_t k = 0; k < n; k++)\<close>; \<open>k\<close> stays below \<open>n\<close> and does not overflow.\<close>

definition for_i :: "i32 \<Rightarrow> (i32 \<Rightarrow> 's \<Rightarrow> 's) \<Rightarrow> 's \<Rightarrow> 's" where
  "for_i n f s = fold (\<lambda>k. f (of_nat k)) [0..<nat (sint n)] s"

text \<open>The address of \<^verbatim>\<open>back_row(y)[x]\<close>.\<close>

definition back_row :: "fb_info \<Rightarrow> i32 \<Rightarrow> u64" where
  "back_row fb y = fb_back fb + 4 * ucast (y * fb_w fb)"

definition fb_init :: "u64 \<Rightarrow> u32 \<Rightarrow> u32 \<Rightarrow> u32 \<Rightarrow> u8 \<Rightarrow> u8 \<Rightarrow> fb_info \<Rightarrow> heap \<Rightarrow> (bool \<times> fb_info \<times> heap) option" where
  "fb_init addr pitch width height bpp fb_type fb h =
     (if fb_type \<noteq> 1 \<or> bpp \<noteq> 32 then Some (False, fb, h)
      else let fb1 = fb\<lparr>fb_hw := addr, fb_w := width, fb_h := height, pitch_px := pitch div 4\<rparr>;
               bytes = ucast width * ucast height * 4
           in map_option (\<lambda>(p, h1).
                let fb2 = fb1\<lparr>fb_back := p\<rparr>
                in if p = 0 then (False, fb2, h1) else (True, fb2\<lparr>fb_is_ready := True\<rparr>, h1))
              (kmalloc bytes h))"

definition fb_ready :: "fb_info \<Rightarrow> bool" where
  "fb_ready fb = fb_is_ready fb"

definition fb_width :: "fb_info \<Rightarrow> u32" where
  "fb_width fb = fb_w fb"

definition fb_height :: "fb_info \<Rightarrow> u32" where
  "fb_height fb = fb_h fb"

definition fb_clear :: "u32 \<Rightarrow> fb_info \<Rightarrow> mem \<Rightarrow> mem" where
  "fb_clear c fb m =
     (if fb_is_ready fb
      then for_w 0 (fb_w fb * fb_h fb) (\<lambda>i m. write32 m (fb_back fb + 4 * ucast i) c) m else m)"

definition fb_put_pixel :: "i32 \<Rightarrow> i32 \<Rightarrow> u32 \<Rightarrow> fb_info \<Rightarrow> mem \<Rightarrow> mem" where
  "fb_put_pixel x y c fb m =
     (if \<not> fb_is_ready fb then m
      else if sint x < 0 \<or> sint y < 0 \<or> x \<ge> fb_w fb \<or> y \<ge> fb_h fb then m
      else write32 m (back_row fb y + 4 * scast x) c)"

definition fb_fill_rect :: "i32 \<Rightarrow> i32 \<Rightarrow> i32 \<Rightarrow> i32 \<Rightarrow> u32 \<Rightarrow> fb_info \<Rightarrow> mem \<Rightarrow> mem" where
  "fb_fill_rect x y w h c fb m =
     (if \<not> fb_is_ready fb then m
      else let w1 = (if sint x < 0 then w + x else w); x1 = (if sint x < 0 then 0 else x);
               h1 = (if sint y < 0 then h + y else h); y1 = (if sint y < 0 then 0 else y)
           in if sint w1 \<le> 0 \<or> sint h1 \<le> 0 then m
              else if x1 \<ge> fb_w fb \<or> y1 \<ge> fb_h fb then m
              else let w2 = (if x1 + w1 > fb_w fb then fb_w fb - x1 else w1);
                       h2 = (if y1 + h1 > fb_h fb then fb_h fb - y1 else h1)
                   in for_i h2 (\<lambda>row m.
                        let line = back_row fb (y1 + row) + 4 * scast x1
                        in for_i w2 (\<lambda>col m. write32 m (line + 4 * scast col) c) m) m)"

definition fb_rect_outline :: "i32 \<Rightarrow> i32 \<Rightarrow> i32 \<Rightarrow> i32 \<Rightarrow> u32 \<Rightarrow> fb_info \<Rightarrow> mem \<Rightarrow> mem" where
  "fb_rect_outline x y w h c fb m =
     (if sint w \<le> 0 \<or> sint h \<le> 0 then m
      else fb_fill_rect (x + w - 1) y 1 h c fb
             (fb_fill_rect x y 1 h c fb
                (fb_fill_rect x (y + h - 1) w 1 c fb
                   (fb_fill_rect x y w 1 c fb m))))"

definition fb_blit_keyed ::
  "u64 \<Rightarrow> i32 \<Rightarrow> i32 \<Rightarrow> i32 \<Rightarrow> i32 \<Rightarrow> i32 \<Rightarrow> u32 \<Rightarrow> fb_info \<Rightarrow> mem \<Rightarrow> mem" where
  "fb_blit_keyed src src_pitch_px dst_x dst_y w h key fb m =
     (if \<not> fb_is_ready fb then m
      else let sx = (if sint dst_x < 0 then - dst_x else 0); sy = (if sint dst_y < 0 then - dst_y else 0);
               w1 = (if sint dst_x < 0 then w + dst_x else w); x1 = (if sint dst_x < 0 then 0 else dst_x);
               h1 = (if sint dst_y < 0 then h + dst_y else h); y1 = (if sint dst_y < 0 then 0 else dst_y)
           in if sint w1 \<le> 0 \<or> sint h1 \<le> 0 then m
              else if x1 \<ge> fb_w fb \<or> y1 \<ge> fb_h fb then m
              else let w2 = (if x1 + w1 > fb_w fb then fb_w fb - x1 else w1);
                       h2 = (if y1 + h1 > fb_h fb then fb_h fb - y1 else h1)
                   in for_i h2 (\<lambda>row m.
                        let s = src + 4 * scast ((sy + row) * src_pitch_px + sx);
                            d = back_row fb (y1 + row) + 4 * scast x1
                        in for_i w2 (\<lambda>col m.
                             let px = read32 m (s + 4 * scast col)
                             in if px \<noteq> key then write32 m (d + 4 * scast col) px else m) m) m)"

definition fb_present :: "fb_info \<Rightarrow> mem \<Rightarrow> mem" where
  "fb_present fb m =
     (if \<not> fb_is_ready fb then m
      else for_w 0 (fb_h fb) (\<lambda>y m.
             let dst = fb_hw fb + 4 * ucast (y * pitch_px fb); src = fb_back fb + 4 * ucast (y * fb_w fb)
             in for_w 0 (fb_w fb) (\<lambda>x m. write32 m (dst + 4 * ucast x) (read32 m (src + 4 * ucast x))) m) m)"

section \<open>Pixels\<close>

text \<open>Pixel number \<open>i\<close> of the back buffer, which has \<open>n\<close> of them.\<close>

definition pixel :: "fb_info \<Rightarrow> mem \<Rightarrow> nat \<Rightarrow> u32" where
  "pixel fb m i = read32 m (fb_back fb + 4 * of_nat i)"

definition pixels :: "fb_info \<Rightarrow> nat" where
  "pixels fb = unat (fb_w fb) * unat (fb_h fb)"

definition fb_ok :: "fb_info \<Rightarrow> bool" where
  "fb_ok fb \<longleftrightarrow> fb_is_ready fb \<and> 0 < unat (fb_w fb) \<and> unat (fb_w fb) \<le> 2 ^ 15 \<and> 0 < unat (fb_h fb) \<and>
     unat (fb_h fb) \<le> 2 ^ 15 \<and> unat (fb_back fb) + 4 * pixels fb \<le> 2 ^ 64"

definition set_pixel :: "fb_info \<Rightarrow> nat \<Rightarrow> u32 \<Rightarrow> mem \<Rightarrow> mem" where
  "set_pixel fb i c m = write32 m (fb_back fb + 4 * of_nat i) c"

definition outside_same :: "fb_info \<Rightarrow> mem \<Rightarrow> mem \<Rightarrow> bool" where
  "outside_same fb m m' \<longleftrightarrow> (\<forall>a. \<not> in_run a (fb_back fb) (4 * pixels fb) \<longrightarrow> m' a = m a)"

lemma pixels_bound: "fb_ok fb \<Longrightarrow> pixels fb \<le> 2 ^ 30"
proof -
  assume "fb_ok fb"
  then have "unat (fb_w fb) * unat (fb_h fb) \<le> 2 ^ 15 * 2 ^ 15"
    unfolding fb_ok_def by (intro mult_le_mono) simp_all
  then show ?thesis by (simp add: pixels_def)
qed

lemma pixel_run:
  assumes "fb_ok fb" and "i < pixels fb"
  shows "in_run a (fb_back fb + 4 * of_nat i) 4 \<longleftrightarrow> (\<exists>j < 4. a = fb_back fb + of_nat (4 * i + j))"
  by (auto simp: in_run_conv algebra_simps)

lemma pixel_addr_inj:
  assumes "fb_ok fb" and "k < 4 * pixels fb" and "l < 4 * pixels fb"
    and "fb_back fb + of_nat k = fb_back fb + (of_nat l :: u64)"
  shows "k = l"
  using word_plus_eq_iff_small [of k l "fb_back fb"] pixels_bound [OF assms(1)] assms(2-4) by simp

lemma pixel_set_pixel:
  assumes "fb_ok fb" and "i < pixels fb" and "j < pixels fb"
  shows "pixel fb (set_pixel fb i c m) j = (if i = j then c else pixel fb m j)"
proof (cases "i = j")
  case True
  have "read_bytes (write_bytes m a (bytes_of_word 4 c)) a 4 = bytes_of_word 4 c" for a
    using read_write_bytes [of "bytes_of_word 4 c" m a] by simp
  then show ?thesis
    using True by (simp add: pixel_def set_pixel_def read32_def write32_def bytes_word_roundtrip)
next
  case False
  have "\<not> in_run (fb_back fb + 4 * of_nat j + of_nat k) (fb_back fb + 4 * of_nat i) 4" if "k < 4" for k
  proof
    assume "in_run (fb_back fb + 4 * of_nat j + of_nat k) (fb_back fb + 4 * of_nat i) 4"
    then obtain l where l: "l < 4" "fb_back fb + 4 * of_nat j + of_nat k = fb_back fb + of_nat (4 * i + l)"
      using pixel_run [OF assms(1,2)] by blast
    then have "fb_back fb + of_nat (4 * j + k) = fb_back fb + (of_nat (4 * i + l) :: u64)"
      by (simp add: algebra_simps)
    then have "4 * j + k = 4 * i + l"
      using pixel_addr_inj [OF assms(1), of "4 * j + k" "4 * i + l"] assms(2,3) that l(1) by simp
    then have "i = j" using that l(1) by presburger
    with False show False by simp
  qed
  then show ?thesis
    using False read_write_bytes_disjoint [of 4 "fb_back fb + 4 * of_nat j" "fb_back fb + 4 * of_nat i" "bytes_of_word 4 c" m]
    by (simp add: pixel_def set_pixel_def read32_def write32_def)
qed

lemma outside_set_pixel:
  assumes "fb_ok fb" and "i < pixels fb"
  shows "outside_same fb m (set_pixel fb i c m)"
  unfolding outside_same_def
proof (intro allI impI)
  fix a
  assume o: "\<not> in_run a (fb_back fb) (4 * pixels fb)"
  have "\<not> in_run a (fb_back fb + 4 * of_nat i) 4"
  proof
    assume "in_run a (fb_back fb + 4 * of_nat i) 4"
    then obtain j where "j < 4" "a = fb_back fb + of_nat (4 * i + j)"
      using pixel_run [OF assms] by blast
    then have "in_run a (fb_back fb) (4 * pixels fb)"
      using in_run_nth [of "4 * i + j" "4 * pixels fb" "fb_back fb"] assms(2) pixels_bound [OF assms(1)] by simp
    with o show False by simp
  qed
  then show "set_pixel fb i c m a = m a"
    by (simp add: set_pixel_def write32_def write_bytes_outside)
qed

lemma outside_refl [simp]: "outside_same fb m m"
  by (simp add: outside_same_def)

lemma outside_trans: "outside_same fb m m1 \<Longrightarrow> outside_same fb m1 m2 \<Longrightarrow> outside_same fb m m2"
  by (simp add: outside_same_def)

text \<open>A run of pixels painted in one colour.\<close>

lemma paint_run:
  assumes "fb_ok fb" and "b + n \<le> pixels fb"
  shows "(\<forall>j < pixels fb. pixel fb (fold (\<lambda>k. set_pixel fb (b + k) c) [0..<n] m) j =
      (if b \<le> j \<and> j < b + n then c else pixel fb m j)) \<and>
    outside_same fb m (fold (\<lambda>k. set_pixel fb (b + k) c) [0..<n] m)"
  using assms(2)
proof (induction n)
  case (Suc n)
  let ?m = "fold (\<lambda>k. set_pixel fb (b + k) c) [0..<n] m"
  have "outside_same fb ?m (set_pixel fb (b + n) c ?m)"
    using outside_set_pixel [OF assms(1)] Suc.prems by simp
  moreover have "pixel fb (set_pixel fb (b + n) c ?m) j = (if b \<le> j \<and> j < b + Suc n then c else pixel fb m j)"
    if "j < pixels fb" for j
    using pixel_set_pixel [OF assms(1), of "b + n" j c ?m] Suc that by auto
  ultimately show ?case using Suc outside_trans by auto
qed auto

text \<open>A rectangle of pixels, row by row.\<close>

definition paint_rect :: "fb_info \<Rightarrow> nat \<Rightarrow> nat \<Rightarrow> nat \<Rightarrow> nat \<Rightarrow> u32 \<Rightarrow> mem \<Rightarrow> mem" where
  "paint_rect fb x y w h c m =
     fold (\<lambda>r m. fold (\<lambda>k. set_pixel fb ((y + r) * unat (fb_w fb) + x + k) c) [0..<w] m) [0..<h] m"

lemma row_index_unique:
  fixes W :: nat
  assumes "px < W" and "x + k < W"
  shows "py * W + px = y * W + (x + k) \<longleftrightarrow> py = y \<and> px = x + k"
proof
  assume e: "py * W + px = y * W + (x + k)"
  have "py = (py * W + px) div W" "y = (y * W + (x + k)) div W" using assms by simp_all
  then show "py = y \<and> px = x + k" using e by simp
qed simp

lemma row_range:
  fixes W :: nat
  assumes "px < W" and "x + w \<le> W"
  shows "y * W + x \<le> py * W + px \<and> py * W + px < y * W + x + w \<longleftrightarrow> py = y \<and> x \<le> px \<and> px < x + w"
proof
  assume r: "y * W + x \<le> py * W + px \<and> py * W + px < y * W + x + w"
  define k where "k = py * W + px - (y * W + x)"
  have k: "py * W + px = y * W + (x + k)" "k < w" using r by (auto simp: k_def)
  then show "py = y \<and> x \<le> px \<and> px < x + w"
    using row_index_unique [of px W x k py y] assms by simp
qed auto

lemma row_fits:
  fixes W :: nat
  assumes "x + w \<le> W" and "y < H"
  shows "y * W + x + w \<le> W * H"
proof -
  have "Suc y * W \<le> H * W" using assms(2) by (intro mult_le_mono1) simp
  then show ?thesis using assms(1) by (simp add: mult.commute)
qed

lemma paint_rect_pixels:
  assumes ok: "fb_ok fb" and "x + w \<le> unat (fb_w fb)" and "y + h \<le> unat (fb_h fb)"
  shows "(\<forall>px < unat (fb_w fb). \<forall>py < unat (fb_h fb).
      pixel fb (paint_rect fb x y w h c m) (py * unat (fb_w fb) + px) =
      (if x \<le> px \<and> px < x + w \<and> y \<le> py \<and> py < y + h then c else pixel fb m (py * unat (fb_w fb) + px))) \<and>
    outside_same fb m (paint_rect fb x y w h c m)"
  using assms(3)
proof (induction h)
  case (Suc h)
  let ?W = "unat (fb_w fb)" and ?m = "paint_rect fb x y w h c m"
  let ?b = "(y + h) * ?W + x"
  have step: "paint_rect fb x y w (Suc h) c m = fold (\<lambda>k. set_pixel fb (?b + k) c) [0..<w] ?m"
    by (simp add: paint_rect_def)
  have fits: "?b + w \<le> pixels fb"
    using row_fits [of x w ?W "y + h" "unat (fb_h fb)"] assms(2) Suc.prems by (simp add: pixels_def)
  have idx: "py * ?W + px < pixels fb" if "px < ?W" "py < unat (fb_h fb)" for px py
    using row_fits [of px 1 ?W py "unat (fb_h fb)"] that by (simp add: pixels_def)
  show ?case
    unfolding step
  proof (intro conjI allI impI)
    fix px py
    assume p: "px < ?W" "py < unat (fb_h fb)"
    have "pixel fb (fold (\<lambda>k. set_pixel fb (?b + k) c) [0..<w] ?m) (py * ?W + px) =
        (if py = y + h \<and> x \<le> px \<and> px < x + w then c else pixel fb ?m (py * ?W + px))"
      using paint_run [OF ok fits, of c ?m] idx [OF p] row_range [of px ?W x w "y + h" py] p assms(2) by simp
    then show "pixel fb (fold (\<lambda>k. set_pixel fb (?b + k) c) [0..<w] ?m) (py * ?W + px) =
        (if x \<le> px \<and> px < x + w \<and> y \<le> py \<and> py < y + Suc h then c else pixel fb m (py * ?W + px))"
      using Suc p by auto
  next
    show "outside_same fb m (fold (\<lambda>k. set_pixel fb (?b + k) c) [0..<w] ?m)"
      using paint_run [OF ok fits, of c ?m] Suc outside_trans by auto
  qed
qed (auto simp: paint_rect_def)

section \<open>Clipping\<close>

lemma sint_nonneg_unat:
  assumes "0 \<le> sint (a :: i32)"
  shows "int (unat a) = sint a"
proof -
  have k: "uint (word_of_int k :: i32) = k" if "0 \<le> k" and "k < 2 ^ 31" for k
    using that by (simp add: unsigned_of_int take_bit_int_eq_self)
  have "uint (word_of_int (sint a) :: i32) = sint a"
    by (rule k) (use assms sint_less [of a] in simp_all)
  then show ?thesis by simp
qed

lemma sint_of_nat: "n < 2 ^ 31 \<Longrightarrow> sint (of_nat n :: i32) = int n"
  by (simp add: signed_of_nat signed_take_bit_int_eq_self)

lemma scast_of_nat: "n < 2 ^ 31 \<Longrightarrow> (scast (of_nat n :: i32) :: u64) = of_nat n"
  by (simp only: scast_eq sint_of_nat of_int_of_nat_eq)

lemma zext_of_nat: "k < 2 ^ 32 \<Longrightarrow> (ucast (of_nat k :: u32) :: u64) = of_nat k"
  by (simp add: word_unat_eq_iff unat_zext_64 unat_of_nat_64 unat_of_nat del: of_nat_numeral)

lemma clip_arith:
  fixes x w :: int and a b p W :: nat
  assumes "int a = max 0 x" and "int b = w + min 0 x" and "0 < b" and "a < W" and "p < W"
  shows "(x \<le> int p \<and> int p < x + w) = (a \<le> p \<and> p < a + min (W - a) b)"
  using assms by (cases "x < 0") auto

lemma clip:
  assumes "- (2 ^ 29) \<le> sint x" "sint x \<le> 2 ^ 29" "- (2 ^ 29) \<le> sint w" "sint w \<le> 2 ^ 29"
    and W: "unat (W :: u32) \<le> 2 ^ 15"
    and w1: "w1 = (if sint x < 0 then w + x else w)" and x1: "x1 = (if sint x < 0 then 0 else x)"
    and w2: "w2 = (if x1 + w1 > W then W - x1 else w1)"
  shows "sint w1 \<le> 0 \<or> x1 \<ge> W \<Longrightarrow> p < unat W \<Longrightarrow> \<not> (sint x \<le> int p \<and> int p < sint x + sint w)"
    and "\<not> (sint w1 \<le> 0 \<or> x1 \<ge> W) \<Longrightarrow> \<exists>X n. x1 = of_nat X \<and> w2 = of_nat n \<and> X + n \<le> unat W \<and>
      (\<forall>p < unat W. (sint x \<le> int p \<and> int p < sint x + sint w) = (X \<le> p \<and> p < X + n))"
proof -
  have sx: "sint x1 = max 0 (sint x)" using x1 by simp
  have sw: "sint w1 = sint w + min 0 (sint x)" using sint_i32_exact(1) [of w x] assms(1-4) w1 by simp
  have ux: "int (unat x1) = max 0 (sint x)" using sint_nonneg_unat [of x1] sx by simp
  show "\<not> (sint x \<le> int p \<and> int p < sint x + sint w)" if "sint w1 \<le> 0 \<or> x1 \<ge> W" "p < unat W"
  proof -
    have "int (unat W) \<le> max 0 (sint x)" if "x1 \<ge> W"
      using that ux by (metis word_le_nat_alt zle_int)
    then have "sint w + min 0 (sint x) \<le> 0 \<or> int (unat W) \<le> max 0 (sint x)"
      using that(1) sw by auto
    moreover have "int p < int (unat W)" using that(2) by (simp only: of_nat_less_iff)
    ultimately show ?thesis by linarith
  qed
  assume n: "\<not> (sint w1 \<le> 0 \<or> x1 \<ge> W)"
  then have lt: "unat x1 < unat W" and pos: "0 < sint w1" by (auto simp: word_le_nat_alt)
  have uw: "int (unat w1) = sint w1" using sint_nonneg_unat [of w1] pos by simp
  have sum: "unat (x1 + w1) = unat x1 + unat w1"
  proof -
    have "int (unat w1) \<le> int (2 ^ 29)" using uw sw assms(4) by (simp add: min_def)
    then have "unat w1 \<le> 2 ^ 29" by (simp only: of_nat_le_iff)
    then have "unat x1 + unat w1 < 2 ^ 32" using lt W by simp
    then show ?thesis by (simp add: unat_word_ariths)
  qed
  let ?n = "min (unat W - unat x1) (unat w1)"
  have "unat w2 = ?n"
    using w2 lt sum by (auto simp: word_less_nat_alt unat_sub word_le_nat_alt min_def)
  moreover have "w2 = of_nat (unat w2)" by simp
  ultimately have "w2 = of_nat ?n" by (simp only:)
  moreover have "x1 = of_nat (unat x1)" by simp
  moreover have "(sint x \<le> int p \<and> int p < sint x + sint w) = (unat x1 \<le> p \<and> p < unat x1 + ?n)"
    if "p < unat W" for p
  proof (rule clip_arith [OF ux _ _ lt that])
    show "int (unat w1) = sint w + min 0 (sint x)" using uw sw by (simp only:)
    show "0 < unat w1" using uw pos by (metis of_nat_0_less_iff)
  qed
  ultimately show "\<exists>X n. x1 = of_nat X \<and> w2 = of_nat n \<and> X + n \<le> unat W \<and>
      (\<forall>p < unat W. (sint x \<le> int p \<and> int p < sint x + sint w) = (X \<le> p \<and> p < X + n))"
    using lt by (intro exI [of _ "unat x1"] exI [of _ ?n]) auto
qed

lemma row_address:
  assumes ok: "fb_ok fb" and "Y + r < unat (fb_h fb)" and "X + k < unat (fb_w fb)"
  shows "back_row fb (of_nat Y + of_nat r) + 4 * scast (of_nat X :: i32) + 4 * scast (of_nat k :: i32) =
    fb_back fb + 4 * of_nat ((Y + r) * unat (fb_w fb) + X + k)"
proof -
  let ?W = "unat (fb_w fb)"
  have "(Y + r) * ?W + X + k < pixels fb"
    using row_fits [of "X + k" 1 ?W "Y + r" "unat (fb_h fb)"] assms by (simp add: pixels_def)
  then have small: "(Y + r) * ?W < 2 ^ 32" "X < 2 ^ 31" "k < 2 ^ 31"
    using pixels_bound [OF ok] by simp_all
  have "(of_nat Y + of_nat r) * fb_w fb = (of_nat ((Y + r) * ?W) :: u32)" by simp
  moreover have "(ucast (of_nat ((Y + r) * ?W) :: u32) :: u64) = of_nat ((Y + r) * ?W)"
    using small(1) by (rule zext_of_nat)
  ultimately show ?thesis
    using small(2,3) by (simp only: back_row_def scast_of_nat) (simp add: algebra_simps)
qed

lemma fill_loops:
  assumes ok: "fb_ok fb" and "X + n \<le> unat (fb_w fb)" and "Y + k \<le> unat (fb_h fb)"
  shows "for_i (of_nat k) (\<lambda>row m. let line = back_row fb (of_nat Y + row) + 4 * scast (of_nat X :: i32)
      in for_i (of_nat n) (\<lambda>col m. write32 m (line + 4 * scast col) c) m) m = paint_rect fb X Y n k c m"
proof -
  have small: "n < 2 ^ 31" "k < 2 ^ 31" using assms by (auto simp: fb_ok_def)
  have inner: "for_i (of_nat n) (\<lambda>col m. write32 m (back_row fb (of_nat Y + of_nat r) + 4 * scast (of_nat X :: i32) + 4 * scast col) c) m =
      fold (\<lambda>j. set_pixel fb ((Y + r) * unat (fb_w fb) + X + j) c) [0..<n] m" if "r < k" for r m
    unfolding for_i_def sint_of_nat [OF small(1)]
    by (rule fold_cong) (use row_address [OF ok, of Y r X] assms that in \<open>auto simp: set_pixel_def simp del: of_nat_add of_nat_mult\<close>)
  show ?thesis
    unfolding for_i_def [of "of_nat k"] sint_of_nat [OF small(2)] Let_def paint_rect_def
    by (rule fold_cong) (auto simp: inner)
qed

text \<open>A pixel lies in the rectangle; the sides are those of the caller, before any clipping.\<close>

definition in_rect :: "i32 \<Rightarrow> i32 \<Rightarrow> i32 \<Rightarrow> i32 \<Rightarrow> nat \<Rightarrow> nat \<Rightarrow> bool" where
  "in_rect x y w h px py \<longleftrightarrow> sint x \<le> int px \<and> int px < sint x + sint w \<and>
     sint y \<le> int py \<and> int py < sint y + sint h"

definition small_coord :: "i32 \<Rightarrow> bool" where
  "small_coord v \<longleftrightarrow> - (2 ^ 29) \<le> sint v \<and> sint v \<le> 2 ^ 29"

definition fb_demo :: fb_info where
  "fb_demo = \<lparr>fb_hw = 0xFD000000, fb_back = 0x200000, fb_w = 1024, fb_h = 768, pitch_px = 1024, fb_is_ready = True\<rparr>"

lemma fb_demo_ok: "fb_ok fb_demo"
  by (simp add: fb_ok_def fb_demo_def pixels_def)

text \<open>
  Filling a rectangle that may lie partly or wholly off the screen colours exactly the pixels
  of the screen that the rectangle covers; every other pixel, and every byte of memory outside
  the back buffer, stays.
\<close>

theorem fill_rect_paints_clipped:
  assumes ok: "fb_ok fb" and "small_coord x" "small_coord y" "small_coord w" "small_coord h"
  shows "(\<forall>px < unat (fb_w fb). \<forall>py < unat (fb_h fb).
      pixel fb (fb_fill_rect x y w h c fb m) (py * unat (fb_w fb) + px) =
      (if in_rect x y w h px py then c else pixel fb m (py * unat (fb_w fb) + px))) \<and>
    outside_same fb m (fb_fill_rect x y w h c fb m)"
proof -
  define w1 where "w1 = (if sint x < 0 then w + x else w)"
  define x1 where "x1 = (if sint x < 0 then 0 else x)"
  define h1 where "h1 = (if sint y < 0 then h + y else h)"
  define y1 where "y1 = (if sint y < 0 then 0 else y)"
  define w2 where "w2 = (if x1 + w1 > fb_w fb then fb_w fb - x1 else w1)"
  define h2 where "h2 = (if y1 + h1 > fb_h fb then fb_h fb - y1 else h1)"
  let ?skip = "sint w1 \<le> 0 \<or> x1 \<ge> fb_w fb \<or> sint h1 \<le> 0 \<or> y1 \<ge> fb_h fb"
  have eq: "fb_fill_rect x y w h c fb m = (if ?skip then m else for_i h2 (\<lambda>row m.
      let line = back_row fb (y1 + row) + 4 * scast x1
      in for_i w2 (\<lambda>col m. write32 m (line + 4 * scast col) c) m) m)"
    using ok unfolding fb_fill_rect_def Let_def w1_def [symmetric] x1_def [symmetric] h1_def [symmetric]
      y1_def [symmetric] w2_def [symmetric] h2_def [symmetric] by (auto simp: fb_ok_def)
  have W: "unat (fb_w fb) \<le> 2 ^ 15" "unat (fb_h fb) \<le> 2 ^ 15" using ok by (simp_all add: fb_ok_def)
  note cx = clip [OF _ _ _ _ W(1) w1_def x1_def w2_def]
  note cy = clip [OF _ _ _ _ W(2) h1_def y1_def h2_def]
  show ?thesis
  proof (cases ?skip)
    case True
    have "\<not> in_rect x y w h px py" if "px < unat (fb_w fb)" "py < unat (fb_h fb)" for px py
      using cx(1) [OF _ _ _ _ _ that(1)] cy(1) [OF _ _ _ _ _ that(2)] True assms(2-5)
      unfolding small_coord_def in_rect_def by blast
    then show ?thesis using True by (simp add: eq)
  next
    case False
    obtain X n where X: "x1 = of_nat X" "w2 = of_nat n" "X + n \<le> unat (fb_w fb)"
      "\<forall>p < unat (fb_w fb). (sint x \<le> int p \<and> int p < sint x + sint w) = (X \<le> p \<and> p < X + n)"
      using cx(2) False assms(2,4) unfolding small_coord_def by blast
    obtain Y k where Y: "y1 = of_nat Y" "h2 = of_nat k" "Y + k \<le> unat (fb_h fb)"
      "\<forall>p < unat (fb_h fb). (sint y \<le> int p \<and> int p < sint y + sint h) = (Y \<le> p \<and> p < Y + k)"
      using cy(2) False assms(3,5) unfolding small_coord_def by blast
    have "fb_fill_rect x y w h c fb m = paint_rect fb X Y n k c m"
      unfolding eq [unfolded if_not_P [OF False]] X(1,2) Y(1,2) by (rule fill_loops [OF ok X(3) Y(3)])
    moreover have "in_rect x y w h px py \<longleftrightarrow> X \<le> px \<and> px < X + n \<and> Y \<le> py \<and> py < Y + k"
      if "px < unat (fb_w fb)" "py < unat (fb_h fb)" for px py
      using X(4) Y(4) that unfolding in_rect_def by blast
    ultimately show ?thesis using paint_rect_pixels [OF ok X(3) Y(3), of c m] by simp
  qed
qed

theorem fill_rect_paints_clipped_witness:
  "pixel fb_demo (fb_fill_rect (- 5) 700 10 100 0xFF fb_demo (\<lambda>_. 0)) (767 * 1024 + 4) = 0xFF"
proof -
  have s: "small_coord (- 5)" "small_coord 700" "small_coord 10" "small_coord 100"
    by (simp_all add: small_coord_def)
  have d: "4 < unat (fb_w fb_demo)" "767 < unat (fb_h fb_demo)" by (simp_all add: fb_demo_def)
  have "in_rect (- 5) 700 10 100 4 767" by (simp add: in_rect_def)
  then show ?thesis
    using fill_rect_paints_clipped [OF fb_demo_ok s, of "0xFF" "\<lambda>_. 0", THEN conjunct1, rule_format, OF d]
    by (simp add: fb_demo_def)
qed

end
