(* ===== verification/Pci.thy ===== *)
theory Pci
  imports Port
begin

text \<open>
  PCI enumeration, \<^verbatim>\<open>src/kernel/pci.cpp\<close>: configuration space through the
  address and data ports, and the scan of all buses into a table of at most 64 devices. The
  lemmas show that the scan lists the functions present, in order, with their registers.
\<close>

definition PCI_CONFIG_ADDRESS :: u16 where "PCI_CONFIG_ADDRESS = 0xCF8"
definition PCI_CONFIG_DATA :: u16 where "PCI_CONFIG_DATA = 0xCFC"
definition PCI_VENDOR_ID :: u8 where "PCI_VENDOR_ID = 0x00"
definition PCI_REVISION_ID :: u8 where "PCI_REVISION_ID = 0x08"
definition PCI_BAR0 :: u8 where "PCI_BAR0 = 0x10"
definition PCI_INTERRUPT_LINE :: u8 where "PCI_INTERRUPT_LINE = 0x3C"
definition MAX_PCI_DEVICES :: nat where "MAX_PCI_DEVICES = 64"

record pci_device =
  pci_bus :: u8
  pci_dev :: u8
  pci_function :: u8
  vendor_id :: u16
  device_id :: u16
  class_code :: u8
  pci_subclass :: u8
  prog_if :: u8
  revision :: u8
  header_type :: u8
  pci_bar :: "u32 list"
  interrupt_line :: u8
  interrupt_pin :: u8

text \<open>The used part of the device table; its length is \<^verbatim>\<open>pci_device_count\<close>.\<close>

type_synonym pci = "pci_device list"

definition config_address :: "u8 \<Rightarrow> u8 \<Rightarrow> u8 \<Rightarrow> u8 \<Rightarrow> u32" where
  "config_address bus device function offset =
     push_bit 31 1 OR push_bit 16 (ucast bus) OR push_bit 11 (ucast device) OR push_bit 8 (ucast function) OR
     ucast (offset AND 0xFC)"

definition pci_read_config :: "device \<Rightarrow> u8 \<Rightarrow> u8 \<Rightarrow> u8 \<Rightarrow> u8 \<Rightarrow> history \<Rightarrow> u32 \<times> history" where
  "pci_read_config dev bus device function offset h =
     inl dev PCI_CONFIG_DATA (outl PCI_CONFIG_ADDRESS (config_address bus device function offset) h)"

definition pci_write_config :: "u8 \<Rightarrow> u8 \<Rightarrow> u8 \<Rightarrow> u8 \<Rightarrow> u32 \<Rightarrow> history \<Rightarrow> history" where
  "pci_write_config bus device function offset val h =
     outl PCI_CONFIG_DATA val (outl PCI_CONFIG_ADDRESS (config_address bus device function offset) h)"

definition pci_read_vendor_id :: "device \<Rightarrow> u8 \<Rightarrow> u8 \<Rightarrow> u8 \<Rightarrow> history \<Rightarrow> u16 \<times> history" where
  "pci_read_vendor_id dev bus device function h =
     (case pci_read_config dev bus device function PCI_VENDOR_ID h of (v, h1) \<Rightarrow> (ucast (v AND 0xFFFF), h1))"

definition pci_get_class_name :: "u8 \<Rightarrow> string" where
  "pci_get_class_name code =
     (if code = 0x00 then ''Unclassified'' else if code = 0x01 then ''Mass Storage''
      else if code = 0x02 then ''Network'' else if code = 0x03 then ''Display''
      else if code = 0x04 then ''Multimedia'' else if code = 0x05 then ''Memory''
      else if code = 0x06 then ''Bridge'' else if code = 0x07 then ''Communication''
      else if code = 0x08 then ''System'' else if code = 0x09 then ''Input Device''
      else if code = 0x0A then ''Docking Station'' else if code = 0x0B then ''Processor''
      else if code = 0x0C then ''Serial Bus'' else if code = 0x0D then ''Wireless''
      else if code = 0x0E then ''Intelligent I/O'' else if code = 0x0F then ''Satellite''
      else if code = 0x10 then ''Encryption'' else if code = 0x11 then ''Signal Processing''
      else ''Unknown'')"

definition pci_get_vendor_name :: "u16 \<Rightarrow> string" where
  "pci_get_vendor_name v =
     (if v = 0x8086 then ''Intel'' else if v = 0x1022 then ''AMD'' else if v = 0x10DE then ''NVIDIA''
      else if v = 0x1002 then ''ATI/AMD'' else if v = 0x1234 then ''QEMU'' else if v = 0x15AD then ''VMware''
      else if v = 0x80EE then ''VirtualBox'' else if v = 0x1AF4 then ''VirtIO'' else if v = 0x1B36 then ''Red Hat''
      else if v = 0x106B then ''Apple'' else ''Unknown'')"

text \<open>The base address registers, read one after the other.\<close>

fun read_bars :: "device \<Rightarrow> u8 \<Rightarrow> u8 \<Rightarrow> u8 \<Rightarrow> nat list \<Rightarrow> history \<Rightarrow> u32 list \<times> history" where
  "read_bars dev bus device function [] h = ([], h)"
| "read_bars dev bus device function (i # is) h =
     (case pci_read_config dev bus device function (PCI_BAR0 + of_nat (i * 4)) h of (v, h1) \<Rightarrow>
      case read_bars dev bus device function is h1 of (vs, h2) \<Rightarrow> (v # vs, h2))"

definition pci_scan_function :: "device \<Rightarrow> u8 \<Rightarrow> u8 \<Rightarrow> u8 \<Rightarrow> pci \<times> history \<Rightarrow> pci \<times> history" where
  "pci_scan_function dev bus device function x =
     (case pci_read_vendor_id dev bus device function (snd x) of (vid, h1) \<Rightarrow>
        if vid = 0xFFFF then (fst x, h1)
        else if length (fst x) \<ge> MAX_PCI_DEVICES then (fst x, h1)
        else case pci_read_config dev bus device function PCI_VENDOR_ID h1 of (dv, h2) \<Rightarrow>
             case pci_read_config dev bus device function PCI_REVISION_ID h2 of (ci, h3) \<Rightarrow>
             case pci_read_config dev bus device function 0x0C h3 of (hi, h4) \<Rightarrow>
             case read_bars dev bus device function [0, 1, 2, 3, 4, 5] h4 of (bars, h5) \<Rightarrow>
             case pci_read_config dev bus device function PCI_INTERRUPT_LINE h5 of (ii, h6) \<Rightarrow>
               (fst x @ [\<lparr>pci_bus = bus, pci_dev = device, pci_function = function, vendor_id = vid,
                  device_id = ucast (drop_bit 16 dv AND 0xFFFF),
                  class_code = ucast (drop_bit 24 ci AND 0xFF), pci_subclass = ucast (drop_bit 16 ci AND 0xFF),
                  prog_if = ucast (drop_bit 8 ci AND 0xFF), revision = ucast (ci AND 0xFF),
                  header_type = ucast (drop_bit 16 hi AND 0xFF), pci_bar = bars,
                  interrupt_line = ucast (ii AND 0xFF), interrupt_pin = ucast (drop_bit 8 ii AND 0xFF)\<rparr>], h6))"

definition scan_extra :: "device \<Rightarrow> u8 \<Rightarrow> u8 \<Rightarrow> u8 \<Rightarrow> pci \<times> history \<Rightarrow> pci \<times> history" where
  "scan_extra dev bus device function x =
     (case pci_read_vendor_id dev bus device function (snd x) of (vid, h1) \<Rightarrow>
        if vid \<noteq> 0xFFFF then pci_scan_function dev bus device function (fst x, h1) else (fst x, h1))"

definition scan_device :: "device \<Rightarrow> u8 \<Rightarrow> u8 \<Rightarrow> pci \<times> history \<Rightarrow> pci \<times> history" where
  "scan_device dev bus device x =
     (case pci_read_vendor_id dev bus device 0 (snd x) of (vid, h1) \<Rightarrow>
        if vid = 0xFFFF then (fst x, h1)
        else let x1 = pci_scan_function dev bus device 0 (fst x, h1)
             in case pci_read_config dev bus device 0 0x0C (snd x1) of (hi, h2) \<Rightarrow>
                  if (ucast (drop_bit 16 hi AND 0xFF) :: u8) AND 0x80 \<noteq> 0
                  then for_w 1 8 (\<lambda>f. scan_extra dev bus device f) (fst x1, h2)
                  else (fst x1, h2))"

definition pci_scan_bus :: "device \<Rightarrow> pci \<times> history \<Rightarrow> pci \<times> history" where
  "pci_scan_bus dev x =
     for_w (0 :: u16) 256 (\<lambda>bus. for_w 0 32 (\<lambda>device. scan_device dev (ucast bus) device)) ([], snd x)"

definition pci_init :: "device \<Rightarrow> pci \<times> history \<Rightarrow> pci \<times> history" where
  "pci_init dev x = pci_scan_bus dev x"

definition pci_get_device_count :: "pci \<Rightarrow> u32" where
  "pci_get_device_count p = of_nat (length p)"

definition pci_get_device :: "u32 \<Rightarrow> pci \<Rightarrow> pci_device option" where
  "pci_get_device index p = (if index \<ge> pci_get_device_count p then None else Some (p ! unat index))"

section \<open>The scan against configuration space\<close>

text \<open>
  The access mechanism of the PCI specification: a read of the data port gives the register
  that the address port was last set to. \<open>cfg\<close> is the configuration space, by address.
\<close>

definition pci_bus_of :: "device \<Rightarrow> (u32 \<Rightarrow> u32) \<Rightarrow> bool" where
  "pci_bus_of dev cfg \<longleftrightarrow> (\<forall>h a. dev (h @ [Out32 PCI_CONFIG_ADDRESS a]) PCI_CONFIG_DATA = cfg a)"

definition present :: "(u32 \<Rightarrow> u32) \<Rightarrow> u8 \<Rightarrow> u8 \<Rightarrow> u8 \<Rightarrow> bool" where
  "present cfg b d f \<longleftrightarrow> (ucast (cfg (config_address b d f PCI_VENDOR_ID) AND 0xFFFF) :: u16) \<noteq> 0xFFFF"

definition multi_function :: "(u32 \<Rightarrow> u32) \<Rightarrow> u8 \<Rightarrow> u8 \<Rightarrow> bool" where
  "multi_function cfg b d \<longleftrightarrow> bit (cfg (config_address b d 0 0x0C)) 23"

definition describe :: "(u32 \<Rightarrow> u32) \<Rightarrow> u8 \<Rightarrow> u8 \<Rightarrow> u8 \<Rightarrow> pci_device" where
  "describe cfg b d f =
     (let reg = (\<lambda>r. cfg (config_address b d f r))
      in \<lparr>pci_bus = b, pci_dev = d, pci_function = f,
          vendor_id = ucast (reg 0), device_id = ucast (drop_bit 16 (reg 0)),
          class_code = ucast (drop_bit 24 (reg 8)), pci_subclass = ucast (drop_bit 16 (reg 8)),
          prog_if = ucast (drop_bit 8 (reg 8)), revision = ucast (reg 8),
          header_type = ucast (drop_bit 16 (reg 0x0C)),
          pci_bar = [reg 0x10, reg 0x14, reg 0x18, reg 0x1C, reg 0x20, reg 0x24],
          interrupt_line = ucast (reg 0x3C), interrupt_pin = ucast (drop_bit 8 (reg 0x3C))\<rparr>)"

definition later_functions :: "u8 list" where
  "later_functions = [1, 2, 3, 4, 5, 6, 7]"

definition functions_of :: "(u32 \<Rightarrow> u32) \<Rightarrow> u8 \<Rightarrow> u8 \<Rightarrow> pci" where
  "functions_of cfg b d =
     (if \<not> present cfg b d 0 then []
      else describe cfg b d 0 #
        (if multi_function cfg b d
         then map (describe cfg b d) (List.filter (present cfg b d) later_functions) else []))"

definition all_functions :: "(u32 \<Rightarrow> u32) \<Rightarrow> pci" where
  "all_functions cfg =
     concat (map (\<lambda>b. concat (map (\<lambda>d. functions_of cfg (of_nat b) (of_nat d)) [0..<32])) [0..<256])"

lemma read_config:
  "pci_bus_of dev cfg \<Longrightarrow> \<exists>h1. pci_read_config dev b d f off h = (cfg (config_address b d f off), h1)"
  by (simp add: pci_read_config_def inl_def outl_def pci_bus_of_def Let_def)

lemma read_vendor:
  "pci_bus_of dev cfg \<Longrightarrow>
    \<exists>h1. pci_read_vendor_id dev b d f h = (ucast (cfg (config_address b d f PCI_VENDOR_ID) AND 0xFFFF), h1)"
  using read_config [of dev cfg b d f PCI_VENDOR_ID h] by (auto simp: pci_read_vendor_id_def)

lemma read_bars_values:
  assumes "pci_bus_of dev cfg"
  shows "\<exists>h1. read_bars dev b d f is h = (map (\<lambda>i. cfg (config_address b d f (PCI_BAR0 + of_nat (i * 4)))) is, h1)"
proof (induction "is" arbitrary: h)
  case (Cons i "is")
  obtain h1 where "pci_read_config dev b d f (PCI_BAR0 + of_nat (i * 4)) h =
      (cfg (config_address b d f (PCI_BAR0 + of_nat (i * 4))), h1)"
    using read_config [OF assms] by blast
  then show ?case using Cons [of h1] by auto
qed simp

lemma low_byte: "(ucast (x AND 0xFF :: u32) :: u8) = ucast x" and low_half: "(ucast (x AND 0xFFFF :: u32) :: u16) = ucast x"
proof -
  have "(x AND 0xFF) = take_bit 8 x" "(x AND 0xFFFF) = take_bit 16 x"
    by (simp_all add: take_bit_eq_mask mask_numeral)
  then show "(ucast (x AND 0xFF :: u32) :: u8) = ucast x" "(ucast (x AND 0xFFFF :: u32) :: u16) = ucast x"
    by (auto intro!: bit_word_eqI simp: bit_simps)
qed

text \<open>One more device, unless the table is full.\<close>

definition push_device :: "pci_device \<Rightarrow> pci \<Rightarrow> pci" where
  "push_device d ds = (if length ds < MAX_PCI_DEVICES then ds @ [d] else ds)"

lemma scan_function:
  assumes "pci_bus_of dev cfg"
  shows "fst (pci_scan_function dev b d f (ds, h)) =
    (if present cfg b d f then push_device (describe cfg b d f) ds else ds)"
proof -
  let ?c = "\<lambda>off. cfg (config_address b d f off)"
  obtain h1 where 1: "pci_read_vendor_id dev b d f h = (ucast (?c PCI_VENDOR_ID AND 0xFFFF), h1)"
    using read_vendor [OF assms] by blast
  obtain h2 where 2: "pci_read_config dev b d f PCI_VENDOR_ID h1 = (?c PCI_VENDOR_ID, h2)"
    using read_config [OF assms] by blast
  obtain h3 where 3: "pci_read_config dev b d f PCI_REVISION_ID h2 = (?c PCI_REVISION_ID, h3)"
    using read_config [OF assms] by blast
  obtain h4 where 4: "pci_read_config dev b d f 0x0C h3 = (?c 0x0C, h4)"
    using read_config [OF assms] by blast
  obtain h5 where 5: "read_bars dev b d f [0, 1, 2, 3, 4, 5] h4 =
      (map (\<lambda>i. ?c (PCI_BAR0 + of_nat (i * 4))) [0, 1, 2, 3, 4, 5], h5)"
    using read_bars_values [OF assms] by blast
  obtain h6 where 6: "pci_read_config dev b d f PCI_INTERRUPT_LINE h5 = (?c PCI_INTERRUPT_LINE, h6)"
    using read_config [OF assms] by blast
  note regs = PCI_VENDOR_ID_def PCI_REVISION_ID_def PCI_BAR0_def PCI_INTERRUPT_LINE_def
  show ?thesis
    using 1 2 3 4 5 6 unfolding pci_scan_function_def regs
    by (simp add: present_def push_device_def describe_def Let_def low_byte low_half regs
        del: read_bars.simps)
qed

lemma fold_scan:
  assumes "\<And>x ds h. x \<in> set xs \<Longrightarrow> fst (f x (ds, h)) = fold push_device (g x) ds"
  shows "fst (fold f xs (ds, h)) = fold push_device (concat (map g xs)) ds"
  using assms
proof (induction xs arbitrary: ds h)
  case (Cons x xs)
  obtain ds1 h1 where 1: "f x (ds, h) = (ds1, h1)" by (cases "f x (ds, h)")
  have "fst (fold f xs (ds1, h1)) = fold push_device (concat (map g xs)) ds1"
    by (rule Cons.IH) (use Cons.prems in simp)
  moreover have "ds1 = fold push_device (g x) ds" using Cons.prems [of x ds h] 1 by simp
  ultimately show ?case by (simp add: 1)
qed simp

lemma concat_filter: "concat (map (\<lambda>x. if P x then [g x] else []) xs) = map g (List.filter P xs)"
  by (induction xs) auto

lemma scan_device_functions:
  assumes "pci_bus_of dev cfg"
  shows "fst (scan_device dev b d (ds, h)) = fold push_device (functions_of cfg b d) ds"
proof -
  obtain h1 where 1: "pci_read_vendor_id dev b d 0 h = (ucast (cfg (config_address b d 0 PCI_VENDOR_ID) AND 0xFFFF), h1)"
    using read_vendor [OF assms] by blast
  let ?x = "pci_scan_function dev b d 0 (ds, h1)"
  obtain h2 where 2: "pci_read_config dev b d 0 0x0C (snd ?x) = (cfg (config_address b d 0 0x0C), h2)"
    using read_config [OF assms] by blast
  have extra: "fst (scan_extra dev b d f (ds, h)) = fold push_device (if present cfg b d f then [describe cfg b d f] else []) ds"
    for f ds h
  proof -
    obtain h1 where "pci_read_vendor_id dev b d f h = (ucast (cfg (config_address b d f PCI_VENDOR_ID) AND 0xFFFF), h1)"
      using read_vendor [OF assms] by blast
    then show ?thesis using scan_function [OF assms, of b d f ds h1] by (simp add: scan_extra_def present_def)
  qed
  have w: "for_w 1 8 k x = fold k later_functions x" for k :: "u8 \<Rightarrow> pci \<times> history \<Rightarrow> pci \<times> history" and x
  proof -
    have "[1..<8] = [1, 2, 3, 4, 5, 6, 7 :: nat]" by (simp add: upt_rec)
    moreover have "for_w 1 8 k x = fold (\<lambda>n. k (of_nat n)) [1..<8] x"
      using for_w_fold [of "1 :: u8" 8 k x] by simp
    ultimately show ?thesis by (simp add: later_functions_def)
  qed
  have loop: "fst (for_w 1 8 (\<lambda>f. scan_extra dev b d f) (ds, h)) =
      fold push_device (map (describe cfg b d) (List.filter (present cfg b d) later_functions)) ds" for ds h
    unfolding w concat_filter [symmetric] by (rule fold_scan) (rule extra)
  have multi: "(ucast (drop_bit 16 (cfg (config_address b d 0 0x0C)) AND 0xFF) :: u8) AND 0x80 \<noteq> 0 \<longleftrightarrow> multi_function cfg b d"
  proof -
    have "(x AND 0x80 :: u8) \<noteq> 0 \<longleftrightarrow> bit x 7" for x :: u8
      by (simp add: bit_iff_and_push_bit_not_eq_0 [of x 7])
    then show ?thesis by (simp add: low_byte multi_function_def bit_simps)
  qed
  show ?thesis
  proof (cases "present cfg b d 0")
    case True
    then have "fst ?x = push_device (describe cfg b d 0) ds" using scan_function [OF assms, of b d 0 ds h1] by simp
    then show ?thesis using loop [of "push_device (describe cfg b d 0) ds" h2] multi True
      by (simp add: scan_device_def 1 2 Let_def functions_of_def present_def [of cfg b d 0])
  qed (simp add: scan_device_def 1 Let_def functions_of_def present_def [of cfg b d 0])
qed

lemma fold_push: "fold push_device xs ds = ds @ take (MAX_PCI_DEVICES - length ds) xs"
  by (induction xs arbitrary: ds) (auto simp: push_device_def take_Cons' Suc_diff_Suc)

text \<open>
  On a bus that answers configuration reads as the specification says, the scan lists the
  functions that are present, by bus, device and function, functions 1 to 7 only of devices that
  call themselves multi-function, each with the fields of its registers; beyond 64 functions the
  rest is left out.
\<close>

theorem pci_scan_lists_functions:
  assumes "pci_bus_of dev cfg"
  shows "fst (pci_scan_bus dev (ds, h)) = take 64 (all_functions cfg)"
proof -
  have device: "fst (for_w 0 32 (\<lambda>d. scan_device dev b d) (ds, h)) =
      fold push_device (concat (map (\<lambda>d. functions_of cfg b (of_nat d)) [0..<32])) ds" for b ds h
    using fold_scan [of "[0..<32]" "\<lambda>d. scan_device dev b (of_nat d)" "\<lambda>d. functions_of cfg b (of_nat d)"]
      scan_device_functions [OF assms] by (simp add: loop_simps)
  have byte: "(ucast (of_nat b :: u16) :: u8) = of_nat b" for b
    by (rule bit_word_eqI) (auto simp: bit_simps)
  have "fst (pci_scan_bus dev (ds, h)) = fold push_device (all_functions cfg) []"
    using fold_scan [of "[0..<256]" "\<lambda>b. for_w 0 32 (\<lambda>d. scan_device dev (of_nat b) d)"
        "\<lambda>b. concat (map (\<lambda>d. functions_of cfg (of_nat b) (of_nat d)) [0..<32])"] device
    by (simp add: pci_scan_bus_def for_w_fold [of "0 :: u16"] byte all_functions_def)
  then show ?thesis by (simp add: fold_push MAX_PCI_DEVICES_def)
qed

text \<open>A bus with one multi-function host bridge that has a second function.\<close>

definition pci_demo_cfg :: "u32 \<Rightarrow> u32" where
  "pci_demo_cfg a =
     (if a = 0x80000000 \<or> a = 0x80000100 then 0x12378086
      else if a = 0x80000008 then 0x06000002 else if a = 0x8000000C then 0x00800000
      else if a AND 0x00FFFE00 = 0 then 0 else 0xFFFFFFFF)"

definition pci_demo_dev :: device where
  "pci_demo_dev h p = (case rev h of Out32 q a # _ \<Rightarrow> pci_demo_cfg a | _ \<Rightarrow> 0)"

theorem pci_scan_lists_functions_witness:
  "fst (pci_scan_bus pci_demo_dev ([], [])) = take 64 (all_functions pci_demo_cfg) \<and>
   map pci_function (functions_of pci_demo_cfg 0 0) = [0, 1] \<and> functions_of pci_demo_cfg 0 5 = []"
proof -
  have "pci_bus_of pci_demo_dev pci_demo_cfg"
    by (simp add: pci_bus_of_def pci_demo_dev_def)
  moreover have "map pci_function (functions_of pci_demo_cfg 0 0) = [0, 1]" by code_simp
  moreover have "functions_of pci_demo_cfg 0 5 = []" by code_simp
  ultimately show ?thesis using pci_scan_lists_functions by blast
qed

end
