(* ===== verification/Elf.thy ===== *)
theory Elf
  imports Mem
begin

text \<open>
  The loader of static ELF64 executables, \<^verbatim>\<open>src/kernel/elf.cpp\<close>, over the byte
  memory of theory Mem. The headers are read from the image in memory each time the code reads
  them, also while the segments are being copied, as the destinations are wherever the image
  says. The lemmas show what an accepted image leaves in memory and what is rejected.
\<close>

record elf64_ehdr =
  e_ident :: "u8 list"
  e_type :: u16
  e_machine :: u16
  e_version :: u32
  e_entry :: u64
  e_phoff :: u64
  e_shoff :: u64
  e_flags :: u32
  e_ehsize :: u16
  e_phentsize :: u16
  e_phnum :: u16
  e_shentsize :: u16
  e_shnum :: u16
  e_shstrndx :: u16

record elf64_phdr =
  p_type :: u32
  p_flags :: u32
  p_offset :: u64
  p_vaddr :: u64
  p_paddr :: u64
  p_filesz :: u64
  p_memsz :: u64
  p_align :: u64

definition SIZEOF_EHDR :: u32 where "SIZEOF_EHDR = 64"
definition SIZEOF_PHDR :: u64 where "SIZEOF_PHDR = 56"
definition ET_EXEC :: u16 where "ET_EXEC = 2"
definition EM_X86_64 :: u16 where "EM_X86_64 = 62"
definition PT_LOAD :: u32 where "PT_LOAD = 1"
definition ELFCLASS64 :: u8 where "ELFCLASS64 = 2"
definition ELFDATA2LSB :: u8 where "ELFDATA2LSB = 1"

definition get_ehdr :: "mem \<Rightarrow> u64 \<Rightarrow> elf64_ehdr" where
  "get_ehdr m a =
     \<lparr>e_ident = read_bytes m a 16, e_type = read16 m (a + 16), e_machine = read16 m (a + 18),
      e_version = read32 m (a + 20), e_entry = read64 m (a + 24), e_phoff = read64 m (a + 32),
      e_shoff = read64 m (a + 40), e_flags = read32 m (a + 48), e_ehsize = read16 m (a + 52),
      e_phentsize = read16 m (a + 54), e_phnum = read16 m (a + 56), e_shentsize = read16 m (a + 58),
      e_shnum = read16 m (a + 60), e_shstrndx = read16 m (a + 62)\<rparr>"

definition get_phdr :: "mem \<Rightarrow> u64 \<Rightarrow> elf64_phdr" where
  "get_phdr m a =
     \<lparr>p_type = read32 m a, p_flags = read32 m (a + 4), p_offset = read64 m (a + 8),
      p_vaddr = read64 m (a + 16), p_paddr = read64 m (a + 24), p_filesz = read64 m (a + 32),
      p_memsz = read64 m (a + 40), p_align = read64 m (a + 48)\<rparr>"

lemma counts_up: "j < n \<Longrightarrow> 2 ^ 64 - unat (j + 1) < 2 ^ 64 - unat (j :: u64)"
  using unat_lt_64 [of n] by (simp add: unat_plus_one word_less_nat_alt)

text \<open>The two byte loops; their bounds are read from the program header at \<open>p\<close> each time round.\<close>

function seg_copy :: "u64 \<Rightarrow> u64 \<Rightarrow> u64 \<Rightarrow> u64 \<Rightarrow> mem \<Rightarrow> mem" where
  "seg_copy p dst src j m =
     (if j < p_filesz (get_phdr m p) then seg_copy p dst src (j + 1) (m(dst + j := m (src + j))) else m)"
  by pat_completeness auto
termination
  by (relation "measure (\<lambda>(p, dst, src, j, m). 2 ^ 64 - unat j)") (auto dest: counts_up)

function seg_zero :: "u64 \<Rightarrow> u64 \<Rightarrow> u64 \<Rightarrow> mem \<Rightarrow> mem" where
  "seg_zero p dst j m = (if j < p_memsz (get_phdr m p) then seg_zero p dst (j + 1) (m(dst + j := 0)) else m)"
  by pat_completeness auto
termination
  by (relation "measure (\<lambda>(p, dst, j, m). 2 ^ 64 - unat j)") (auto dest: counts_up)

text \<open>The loop over the program headers; \<open>False\<close> is the early return of a segment out of bounds.\<close>

function phdr_loop :: "u64 \<Rightarrow> u64 \<Rightarrow> u32 \<Rightarrow> u16 \<Rightarrow> mem \<Rightarrow> bool \<times> mem" where
  "phdr_loop img ph len i m =
     (if i < e_phnum (get_ehdr m img)
      then let p = ph + ucast i * SIZEOF_PHDR; h = get_phdr m p
           in if p_type h \<noteq> PT_LOAD then phdr_loop img ph len (i + 1) m
              else if p_offset h + p_filesz h > ucast len then (False, m)
              else let m1 = seg_copy p (p_vaddr h) (img + p_offset h) 0 m;
                       m2 = seg_zero p (p_vaddr h) (p_filesz (get_phdr m1 p)) m1
                   in phdr_loop img ph len (i + 1) m2
      else (True, m))"
  by pat_completeness auto
termination
proof (relation "measure (\<lambda>(img, ph, len, i, m). 2 ^ 16 - unat i)", goal_cases)
  case (2 img ph len i m)
  then show ?case using unsigned_less [of "e_phnum (get_ehdr m img)", where ?'a = nat]
    by (simp add: unat_plus_one word_less_nat_alt)
next
  case (3 img ph len i m)
  then show ?case using unsigned_less [of "e_phnum (get_ehdr m img)", where ?'a = nat]
    by (simp add: unat_plus_one word_less_nat_alt)
qed simp

declare seg_copy.simps [simp del] seg_zero.simps [simp del] phdr_loop.simps [simp del]

definition header_ok :: "u64 \<Rightarrow> u32 \<Rightarrow> mem \<Rightarrow> bool" where
  "header_ok img len m \<longleftrightarrow>
     (let eh = get_ehdr m img
      in \<not> (img = 0 \<or> len < SIZEOF_EHDR) \<and> take 4 (e_ident eh) = [0x7F, 0x45, 0x4C, 0x46] \<and>
         e_ident eh ! 4 = ELFCLASS64 \<and> e_ident eh ! 5 = ELFDATA2LSB \<and> e_machine eh = EM_X86_64 \<and>
         e_type eh = ET_EXEC \<and> \<not> e_phoff eh + ucast (e_phnum eh) * SIZEOF_PHDR > ucast len)"

definition elf_load :: "u64 \<Rightarrow> u32 \<Rightarrow> mem \<Rightarrow> u64 \<times> mem" where
  "elf_load img len m =
     (if \<not> header_ok img len m then (0, m)
      else case phdr_loop img (img + e_phoff (get_ehdr m img)) len 0 m of
             (ok, m1) \<Rightarrow> if ok then (e_entry (get_ehdr m1 img), m1) else (0, m1))"

section \<open>What a loaded image leaves in memory\<close>

definition image_run :: "u64 \<Rightarrow> u32 \<Rightarrow> u64 set" where
  "image_run img len = {x. in_run x img (unat len)}"

text \<open>The program headers of an image, and those of its segments to load.\<close>

definition phdrs :: "mem \<Rightarrow> u64 \<Rightarrow> elf64_phdr list" where
  "phdrs m img =
     map (\<lambda>i. get_phdr m (img + e_phoff (get_ehdr m img) + of_nat i * SIZEOF_PHDR))
       [0..<unat (e_phnum (get_ehdr m img))]"

definition load_segments :: "mem \<Rightarrow> u64 \<Rightarrow> elf64_phdr list" where
  "load_segments m img = List.filter (\<lambda>p. p_type p = PT_LOAD) (phdrs m img)"

definition covers :: "elf64_phdr \<Rightarrow> u64 \<Rightarrow> bool" where
  "covers p x \<longleftrightarrow> x - p_vaddr p < max (p_filesz p) (p_memsz p)"

definition segment_byte :: "mem \<Rightarrow> u64 \<Rightarrow> elf64_phdr \<Rightarrow> u64 \<Rightarrow> u8" where
  "segment_byte m img p x =
     (if x - p_vaddr p < p_filesz p then m (img + p_offset p + (x - p_vaddr p)) else 0)"

text \<open>The table and the segments lie in the file, and the segments go elsewhere than the file.\<close>

definition table_fits :: "mem \<Rightarrow> u64 \<Rightarrow> u32 \<Rightarrow> bool" where
  "table_fits m img len \<longleftrightarrow>
     unat (e_phoff (get_ehdr m img)) + unat (e_phnum (get_ehdr m img)) * 56 \<le> unat len"

definition segment_in_file :: "u32 \<Rightarrow> elf64_phdr \<Rightarrow> bool" where
  "segment_in_file len p \<longleftrightarrow> unat (p_offset p) + unat (p_filesz p) \<le> unat len"

definition segment_apart :: "u64 \<Rightarrow> u32 \<Rightarrow> elf64_phdr \<Rightarrow> bool" where
  "segment_apart img len p \<longleftrightarrow> (\<forall>x. covers p x \<longrightarrow> x \<notin> image_run img len)"

definition place :: "mem \<Rightarrow> u64 \<Rightarrow> elf64_phdr \<Rightarrow> mem \<Rightarrow> mem" where
  "place m0 img p m = (\<lambda>x. if covers p x then segment_byte m0 img p x else m x)"

lemma word_range_step: "j < n \<Longrightarrow> (y = j \<or> j + 1 \<le> y) = (j \<le> (y :: u64))"
  by unat_arith

lemma seg_copy_spec:
  assumes "\<And>m'. (\<And>y. y \<in> I \<Longrightarrow> m' y = m0 y) \<Longrightarrow> p_filesz (get_phdr m' p) = n"
    and "\<And>k. k < n \<Longrightarrow> src + k \<in> I" and "\<And>k. k < n \<Longrightarrow> dst + k \<notin> I"
    and "\<And>y. y \<in> I \<Longrightarrow> m y = m0 y"
  shows "seg_copy p dst src j m = (\<lambda>x. if j \<le> x - dst \<and> x - dst < n then m0 (src + (x - dst)) else m x)"
  using assms
proof (induction p dst src j m rule: seg_copy.induct)
  case (1 p dst src j m)
  have n: "p_filesz (get_phdr m p) = n" using 1(2,5) by blast
  show ?case
  proof (cases "j < n")
    case True
    let ?m = "m(dst + j := m (src + j))"
    have src: "m (src + j) = m0 (src + j)" using 1(5) 1(3) [OF True] by blast
    have j: "j < p_filesz (get_phdr m p)" using True n by simp
    have keep: "?m y = m0 y" if "y \<in> I" for y using 1(4) [OF True] 1(5) [OF that] that by auto
    have "seg_copy p dst src (j + 1) ?m = (\<lambda>x. if j + 1 \<le> x - dst \<and> x - dst < n then m0 (src + (x - dst)) else ?m x)"
      by (rule 1(1) [OF j]; use 1(2-4) keep in blast)
    moreover have "(if j + 1 \<le> x - dst \<and> x - dst < n then m0 (src + (x - dst)) else ?m x) =
        (if j \<le> x - dst \<and> x - dst < n then m0 (src + (x - dst)) else m x)" for x
      using word_range_step [OF True, of "x - dst"] True src by (cases "x = dst + j") auto
    ultimately show ?thesis using True by (simp add: seg_copy.simps [of p dst src j m] n)
  next
    case False
    then have "\<not> (j \<le> y \<and> y < n)" for y by (meson le_less_trans)
    then show ?thesis using False by (auto simp: seg_copy.simps [of p dst src j m] n fun_eq_iff)
  qed
qed

lemma seg_zero_spec:
  assumes "\<And>m'. (\<And>y. y \<in> I \<Longrightarrow> m' y = m0 y) \<Longrightarrow> p_memsz (get_phdr m' p) = n"
    and "\<And>k. k < n \<Longrightarrow> dst + k \<notin> I" and "\<And>y. y \<in> I \<Longrightarrow> m y = m0 y"
  shows "seg_zero p dst j m = (\<lambda>x. if j \<le> x - dst \<and> x - dst < n then 0 else m x)"
  using assms
proof (induction p dst j m rule: seg_zero.induct)
  case (1 p dst j m)
  have n: "p_memsz (get_phdr m p) = n" using 1(2,4) by blast
  show ?case
  proof (cases "j < n")
    case True
    let ?m = "m(dst + j := 0)"
    have j: "j < p_memsz (get_phdr m p)" using True n by simp
    have keep: "?m y = m0 y" if "y \<in> I" for y using 1(3) [OF True] 1(4) [OF that] that by auto
    have "seg_zero p dst (j + 1) ?m = (\<lambda>x. if j + 1 \<le> x - dst \<and> x - dst < n then 0 else ?m x)"
      by (rule 1(1) [OF j]; use 1(2,3) keep in blast)
    moreover have "(if j + 1 \<le> x - dst \<and> x - dst < n then 0 else ?m x) =
        (if j \<le> x - dst \<and> x - dst < n then 0 else m x)" for x
      using word_range_step [OF True, of "x - dst"] True by (cases "x = dst + j") auto
    ultimately show ?thesis using True by (simp add: seg_zero.simps [of p dst j m] n)
  next
    case False
    then have "\<not> (j \<le> y \<and> y < n)" for y by (meson le_less_trans)
    then show ?thesis using False by (auto simp: seg_zero.simps [of p dst j m] n fun_eq_iff)
  qed
qed

text \<open>Headers read the same from any memory that has the image where it was.\<close>

lemma get_phdr_cong:
  assumes "\<And>k. k < 56 \<Longrightarrow> m' (a + of_nat k) = m (a + of_nat k)"
  shows "get_phdr m' a = get_phdr m a"
proof -
  have r: "read_bytes m' (a + of_nat b) n = read_bytes m (a + of_nat b) n" if "b + n \<le> 56" for b n
    using assms [of "b + _"] that by (intro read_bytes_cong) (simp add: add.assoc)
  show ?thesis
    using r [of 0 4] r [of 4 4] r [of 8 8] r [of 16 8] r [of 24 8] r [of 32 8] r [of 40 8] r [of 48 8]
    by (simp add: get_phdr_def read32_def read64_def)
qed

lemma get_ehdr_cong:
  assumes "\<And>k. k < 64 \<Longrightarrow> m' (a + of_nat k) = m (a + of_nat k)"
  shows "get_ehdr m' a = get_ehdr m a"
proof -
  have r: "read_bytes m' (a + of_nat b) n = read_bytes m (a + of_nat b) n" if "b + n \<le> 64" for b n
    using assms [of "b + _"] that by (intro read_bytes_cong) (simp add: add.assoc)
  show ?thesis
    using r [of 0 16] r [of 16 2] r [of 18 2] r [of 20 4] r [of 24 8] r [of 32 8] r [of 40 8] r [of 48 4]
      r [of 52 2] r [of 54 2] r [of 56 2] r [of 58 2] r [of 60 2] r [of 62 2]
    by (simp add: get_ehdr_def read16_def read32_def read64_def)
qed

lemma image_offset: "k < unat len \<Longrightarrow> img + of_nat k \<in> image_run img len"
  using unat_lt_32 [of len] by (auto simp: image_run_def intro!: in_run_nth)

text \<open>One segment, on a memory that still has the image.\<close>

lemma load_one:
  assumes I: "\<And>y. y \<in> image_run img len \<Longrightarrow> m y = m0 y"
    and p: "\<And>k. k < 56 \<Longrightarrow> p + of_nat k \<in> image_run img len"
    and h: "get_phdr m0 p = h" "segment_in_file len h" "segment_apart img len h"
  defines "m1 \<equiv> seg_copy p (p_vaddr h) (img + p_offset h) 0 m"
  shows "seg_zero p (p_vaddr h) (p_filesz (get_phdr m1 p)) m1 = place m0 img h m"
proof -
  have hdr: "get_phdr m' p = h" if "\<And>y. y \<in> image_run img len \<Longrightarrow> m' y = m0 y" for m'
    using get_phdr_cong [of m' p m0] that p h(1) by simp
  have src: "img + p_offset h + k \<in> image_run img len" if "k < p_filesz h" for k
  proof -
    have "unat (p_offset h) + unat k < unat len"
      using h(2) that by (simp add: segment_in_file_def word_less_nat_alt)
    then show ?thesis using image_offset [of "unat (p_offset h) + unat k" len img] by (simp add: add.assoc)
  qed
  have dst: "p_vaddr h + k \<notin> image_run img len" if "k < max (p_filesz h) (p_memsz h)" for k
    using h(3) that by (simp add: segment_apart_def covers_def)
  have m1: "m1 = (\<lambda>x. if x - p_vaddr h < p_filesz h then m0 (img + p_offset h + (x - p_vaddr h)) else m x)"
    unfolding m1_def
    using seg_copy_spec [where I = "image_run img len" and ?m0.0 = m0 and n = "p_filesz h" and p = p and j = 0
        and dst = "p_vaddr h" and src = "img + p_offset h" and m = m] hdr src dst I
    by (simp add: less_max_iff_disj)
  have keep: "m1 y = m0 y" if "y \<in> image_run img len" for y
  proof -
    have "\<not> y - p_vaddr h < p_filesz h" using dst [of "y - p_vaddr h"] that by (auto simp: less_max_iff_disj)
    then show ?thesis using I [OF that] by (simp add: m1)
  qed
  have "seg_zero p (p_vaddr h) (p_filesz h) m1 =
      (\<lambda>x. if p_filesz h \<le> x - p_vaddr h \<and> x - p_vaddr h < p_memsz h then 0 else m1 x)"
    using seg_zero_spec [where I = "image_run img len" and ?m0.0 = m0 and n = "p_memsz h" and p = p
        and j = "p_filesz h" and dst = "p_vaddr h" and m = m1] hdr dst keep
    by (simp add: less_max_iff_disj)
  then show ?thesis
    using hdr [OF keep] by (auto simp: place_def covers_def segment_byte_def m1 fun_eq_iff less_max_iff_disj)
qed

definition elf_ok :: "u64 \<Rightarrow> u32 \<Rightarrow> mem \<Rightarrow> bool" where
  "elf_ok img len m \<longleftrightarrow> header_ok img len m \<and> table_fits m img len \<and>
     (\<forall>p \<in> set (load_segments m img). segment_in_file len p \<and> segment_apart img len p)"

definition phdr_at :: "mem \<Rightarrow> u64 \<Rightarrow> nat \<Rightarrow> u64" where
  "phdr_at m img i = img + e_phoff (get_ehdr m img) + of_nat i * SIZEOF_PHDR"

lemma phdrs_nth: "i < unat (e_phnum (get_ehdr m img)) \<Longrightarrow> phdrs m img ! i = get_phdr m (phdr_at m img i)"
  by (simp add: phdrs_def phdr_at_def)

lemma phdr_in_image:
  assumes "table_fits m img len" and "i < unat (e_phnum (get_ehdr m img))" and "k < 56"
  shows "phdr_at m img i + of_nat k \<in> image_run img len"
proof -
  let ?o = "unat (e_phoff (get_ehdr m img)) + i * 56 + k"
  have "i * 56 + 56 \<le> unat (e_phnum (get_ehdr m img)) * 56" using assms(2) by simp
  then have "?o < unat len" using assms(1,3) by (simp add: table_fits_def)
  moreover have "phdr_at m img i + of_nat k = img + of_nat ?o"
    by (simp add: phdr_at_def SIZEOF_PHDR_def algebra_simps)
  ultimately show ?thesis using image_offset by metis
qed

lemma ehdr_in_image: "len \<ge> SIZEOF_EHDR \<Longrightarrow> k < 64 \<Longrightarrow> img + of_nat k \<in> image_run img len"
  by (intro image_offset) (simp add: SIZEOF_EHDR_def word_le_nat_alt)

lemma place_keeps_image: "segment_apart img len p \<Longrightarrow> y \<in> image_run img len \<Longrightarrow> place m0 img p m y = m y"
  by (auto simp: place_def segment_apart_def)

lemma bounds_check: "segment_in_file len p \<Longrightarrow> \<not> p_offset p + p_filesz p > ucast len"
  using unat_lt_32 [of len]
  by (simp add: segment_in_file_def word_less_nat_alt unat_zext_64 unat_word_ariths)

lemma phdr_loop_places:
  assumes ok: "elf_ok img len m0" and "i \<le> e_phnum (get_ehdr m0 img)"
    and "\<And>y. y \<in> image_run img len \<Longrightarrow> m y = m0 y"
  shows "\<exists>m'. phdr_loop img (img + e_phoff (get_ehdr m0 img)) len i m = (True, m') \<and>
    m' = fold (place m0 img) (List.filter (\<lambda>p. p_type p = PT_LOAD) (drop (unat i) (phdrs m0 img))) m \<and>
    (\<forall>y \<in> image_run img len. m' y = m0 y)"
  using assms(2,3)
proof (induction "unat (e_phnum (get_ehdr m0 img)) - unat i" arbitrary: i m)
  case (0 i m)
  then have i: "i = e_phnum (get_ehdr m0 img)" by (simp add: word_le_nat_alt word_unat_eq_iff)
  have len: "len \<ge> SIZEOF_EHDR" using ok by (auto simp: elf_ok_def header_ok_def Let_def)
  have eh: "get_ehdr m img = get_ehdr m0 img" using 0(3) ehdr_in_image [OF len] by (intro get_ehdr_cong) blast
  have "\<not> i < e_phnum (get_ehdr m img)" by (simp add: eh i)
  then have "phdr_loop img (img + e_phoff (get_ehdr m0 img)) len i m = (True, m)"
    by (subst phdr_loop.simps) (simp only: if_False)
  then show ?case using 0(3) by (simp add: i phdrs_def)
next
  case (Suc n i m)
  let ?N = "e_phnum (get_ehdr m0 img)" and ?a = "phdr_at m0 img (unat i)"
  have lt: "unat i < unat ?N" using Suc(2) by simp
  have len: "len \<ge> SIZEOF_EHDR" using ok by (auto simp: elf_ok_def header_ok_def Let_def)
  have eh: "get_ehdr m img = get_ehdr m0 img" using Suc(4) ehdr_in_image [OF len] by (intro get_ehdr_cong) blast
  have inr: "\<And>k. k < 56 \<Longrightarrow> ?a + of_nat k \<in> image_run img len"
    using phdr_in_image [OF _ lt] ok by (simp add: elf_ok_def)
  define h where "h = phdrs m0 img ! unat i"
  have h0: "get_phdr m0 ?a = h" using phdrs_nth [OF lt] by (simp add: h_def)
  have h: "get_phdr m ?a = h" using get_phdr_cong [of m ?a m0] Suc(4) inr h0 by simp
  have a: "img + e_phoff (get_ehdr m0 img) + ucast i * SIZEOF_PHDR = ?a"
    by (simp add: phdr_at_def)
  have dr: "drop (unat i) (phdrs m0 img) = h # drop (unat (i + 1)) (phdrs m0 img)"
  proof -
    have "unat i < length (phdrs m0 img)" using lt by (simp add: phdrs_def)
    moreover have "unat (i + 1) = Suc (unat i)" using lt unat_plus_one [of i ?N] by (simp add: word_less_nat_alt)
    ultimately show ?thesis by (simp add: h_def Cons_nth_drop_Suc)
  qed
  have n: "n = unat ?N - unat (i + 1)" and le: "i + 1 \<le> ?N"
    using Suc(2) lt unat_plus_one [of i ?N] by (simp_all add: word_less_nat_alt word_le_nat_alt)
  have i: "i < ?N" using lt by (simp add: word_less_nat_alt)
  show ?case
  proof (cases "p_type h = PT_LOAD")
    case False
    then have "phdr_loop img (img + e_phoff (get_ehdr m0 img)) len i m =
        phdr_loop img (img + e_phoff (get_ehdr m0 img)) len (i + 1) m"
      using i by (subst phdr_loop.simps) (simp add: eh Let_def a h)
    then show ?thesis using Suc(1) [OF n le Suc(4)] False by (simp add: dr)
  next
    case True
    have "h \<in> set (load_segments m0 img)"
    proof -
      have "unat i < length (phdrs m0 img)" using lt by (simp add: phdrs_def)
      then have "h \<in> set (phdrs m0 img)" unfolding h_def by (rule nth_mem)
      then show ?thesis using True by (simp add: load_segments_def)
    qed
    then have fit: "segment_in_file len h" "segment_apart img len h" using ok by (auto simp: elf_ok_def)
    define m1 where "m1 = place m0 img h m"
    have keep: "\<And>y. y \<in> image_run img len \<Longrightarrow> m1 y = m0 y"
      using place_keeps_image [OF fit(2)] Suc(4) by (simp add: m1_def)
    have "phdr_loop img (img + e_phoff (get_ehdr m0 img)) len i m =
        phdr_loop img (img + e_phoff (get_ehdr m0 img)) len (i + 1) m1"
      using i True bounds_check [OF fit(1)] load_one [OF Suc(4) inr h0 fit]
      by (subst phdr_loop.simps) (simp add: eh Let_def a h m1_def)
    then show ?thesis using Suc(1) [OF n le keep] True by (simp add: dr m1_def)
  qed
qed

text \<open>The last of the segments that cover an address decides its byte.\<close>

lemma fold_place:
  "fold (place m0 img) ps m x =
     (case List.find (\<lambda>p. covers p x) (rev ps) of None \<Rightarrow> m x | Some p \<Rightarrow> segment_byte m0 img p x)"
proof (induction ps rule: rev_induct)
  case (snoc p ps)
  then show ?case by (simp add: place_def)
qed simp

lemma header_entry: "header_ok img len m \<Longrightarrow> len \<ge> SIZEOF_EHDR"
  by (auto simp: header_ok_def Let_def)

text \<open>
  C26. An image that passes the header checks, whose header table and segments lie in the file and
  whose segments go elsewhere than the file, is loaded: the entry point is returned, every byte
  covered by a segment is the byte of the file or zero, the last segment deciding, and all other
  memory stays.
\<close>

theorem elf_load_places_segments:
  assumes "elf_ok img len m"
  shows "fst (elf_load img len m) = e_entry (get_ehdr m img) \<and>
    (\<forall>x. snd (elf_load img len m) x =
      (case List.find (\<lambda>p. covers p x) (rev (load_segments m img)) of
         None \<Rightarrow> m x | Some p \<Rightarrow> segment_byte m img p x))"
proof -
  obtain m' where m': "phdr_loop img (img + e_phoff (get_ehdr m img)) len 0 m = (True, m')"
      "m' = fold (place m img) (load_segments m img) m" "\<forall>y \<in> image_run img len. m' y = m y"
    using phdr_loop_places [OF assms, of 0 m] by (auto simp: load_segments_def)
  have ok: "header_ok img len m" using assms by (simp add: elf_ok_def)
  have "get_ehdr m' img = get_ehdr m img"
    using m'(3) ehdr_in_image [OF header_entry [OF ok]] by (intro get_ehdr_cong) blast
  then show ?thesis using m'(1) ok by (simp add: elf_load_def m'(2) fold_place)
qed

text \<open>
  An image that fails any of the header checks is rejected with 0 and nothing is written.
\<close>

theorem elf_load_rejects_header:
  assumes "image_len < SIZEOF_EHDR \<or> read_bytes m img 4 \<noteq> [0x7F, 0x45, 0x4C, 0x46] \<or>
    m (img + 4) \<noteq> 2 \<or> m (img + 5) \<noteq> 1 \<or> read16 m (img + 18) \<noteq> 62 \<or> read16 m (img + 16) \<noteq> 2 \<or>
    read64 m (img + 32) + ucast (read16 m (img + 56)) * 56 > ucast image_len"
  shows "elf_load img image_len m = (0, m)"
proof -
  have "take 4 (read_bytes m img 16) = read_bytes m img 4"
    using read_bytes_append [of m img 4 12] by simp
  moreover have "read_bytes m img 16 ! 4 = m (img + 4)" "read_bytes m img 16 ! 5 = m (img + 5)"
    by (simp_all add: nth_read_bytes)
  ultimately have "\<not> header_ok img image_len m"
    using assms by (auto simp: header_ok_def get_ehdr_def Let_def EM_X86_64_def ET_EXEC_def ELFCLASS64_def
        ELFDATA2LSB_def SIZEOF_PHDR_def)
  then show ?thesis by (simp add: elf_load_def)
qed

text \<open>An image at 0x1000 with one segment of four bytes and four of BSS, to be placed at 0x400000.\<close>

definition elf_demo :: mem where
  "elf_demo x =
     (case map_of [(0x1000, 0x7F), (0x1001, 0x45), (0x1002, 0x4C), (0x1003, 0x46), (0x1004, 2), (0x1005, 1),
        (0x1010, 2), (0x1012, 62), (0x101A, 0x40), (0x1020, 64), (0x1038, 1),
        (0x1040, 1), (0x1044, 7), (0x1048, 120), (0x1052, 0x40), (0x1060, 4), (0x1068, 8),
        (0x1078, 0x90), (0x1079, 0x90), (0x107A, 0xCD), (0x107B, 0x80), (0x400008, 0xAA)] x of
      None \<Rightarrow> 0 | Some b \<Rightarrow> b)"

lemma elf_demo_fields:
  "read16 elf_demo 0x1010 = 2" "read16 elf_demo 0x1012 = 62" "read64 elf_demo 0x1018 = 0x400000"
  "read64 elf_demo 0x1020 = 64" "read16 elf_demo 0x1038 = 1"
  "read32 elf_demo 0x1040 = 1" "read64 elf_demo 0x1048 = 120" "read64 elf_demo 0x1050 = 0x400000"
  "read64 elf_demo 0x1060 = 4" "read64 elf_demo 0x1068 = 8"
  by (simp_all add: read16_def read32_def read64_def read_bytes_numerals elf_demo_def)

lemma elf_demo_ehdr:
  "e_entry (get_ehdr elf_demo 0x1000) = 0x400000" "e_machine (get_ehdr elf_demo 0x1000) = 62"
  "e_phoff (get_ehdr elf_demo 0x1000) = 64" "e_phnum (get_ehdr elf_demo 0x1000) = 1"
  "e_type (get_ehdr elf_demo 0x1000) = 2"
  by (simp_all add: get_ehdr_def elf_demo_fields)

lemma elf_demo_header: "header_ok 0x1000 124 elf_demo"
proof -
  have "take 4 (read_bytes elf_demo 0x1000 16) = read_bytes elf_demo 0x1000 4"
    using read_bytes_append [of elf_demo "0x1000" 4 12] by simp
  moreover have "read_bytes elf_demo 0x1000 16 ! 4 = elf_demo 0x1004" "read_bytes elf_demo 0x1000 16 ! 5 = elf_demo 0x1005"
    by (simp_all add: nth_read_bytes)
  ultimately show ?thesis
    by (simp add: header_ok_def elf_demo_ehdr SIZEOF_EHDR_def SIZEOF_PHDR_def ELFCLASS64_def ELFDATA2LSB_def
        EM_X86_64_def ET_EXEC_def Let_def get_ehdr_def [THEN arg_cong, of e_ident] read_bytes_numerals elf_demo_def)
qed

lemma elf_demo_phdr:
  "p_type (get_phdr elf_demo 0x1040) = 1" "p_vaddr (get_phdr elf_demo 0x1040) = 0x400000"
  "p_filesz (get_phdr elf_demo 0x1040) = 4" "p_memsz (get_phdr elf_demo 0x1040) = 8"
  "p_offset (get_phdr elf_demo 0x1040) = 120"
  by (simp_all add: get_phdr_def elf_demo_fields)

lemma elf_demo_segments: "load_segments elf_demo 0x1000 = [get_phdr elf_demo 0x1040]"
  by (simp add: load_segments_def phdrs_def elf_demo_ehdr elf_demo_phdr PT_LOAD_def)

lemma elf_demo_ok: "elf_ok 0x1000 124 elf_demo"
proof -
  have "\<not> unat (x - 0x1000) < 124" if "x - 0x400000 < (8 :: u64)" for x
  proof -
    have y: "unat (y + 0x3FF000) = unat y + 0x3FF000" if "unat y < 8" for y :: u64
      using that by (simp add: unat_word_ariths)
    have "unat (x - 0x400000) < 8" using that by (simp add: word_less_nat_alt)
    then have "unat (x - 0x400000 + 0x3FF000) = unat (x - 0x400000) + 0x3FF000" by (rule y)
    moreover have "x - 0x400000 + 0x3FF000 = x - 0x1000" by simp
    ultimately show ?thesis by simp
  qed
  then have "segment_apart 0x1000 124 (get_phdr elf_demo 0x1040)"
    by (simp add: segment_apart_def covers_def image_run_def in_run_def elf_demo_phdr)
  then show ?thesis
    using elf_demo_header by (simp add: elf_demo_ehdr elf_ok_def table_fits_def elf_demo_segments segment_in_file_def elf_demo_phdr)
qed

theorem elf_load_places_segments_witness:
  "fst (elf_load 0x1000 124 elf_demo) = 0x400000 \<and> snd (elf_load 0x1000 124 elf_demo) 0x400002 = 0xCD \<and>
   snd (elf_load 0x1000 124 elf_demo) 0x400007 = 0 \<and> snd (elf_load 0x1000 124 elf_demo) 0x400008 = 0xAA"
proof -
  let ?m = "snd (elf_load 0x1000 124 elf_demo)"
  have x: "fst (elf_load 0x1000 124 elf_demo) = e_entry (get_ehdr elf_demo 0x1000)"
    "\<And>x. ?m x = (case List.find (\<lambda>p. covers p x) (rev (load_segments elf_demo 0x1000)) of
        None \<Rightarrow> elf_demo x | Some p \<Rightarrow> segment_byte elf_demo 0x1000 p x)"
    using elf_load_places_segments [OF elf_demo_ok] by blast+
  have "elf_demo 0x107A = 0xCD" "elf_demo 0x400008 = 0xAA" by code_simp+
  then show ?thesis
    by (simp add: x elf_demo_ehdr elf_demo_segments elf_demo_phdr covers_def segment_byte_def)
qed

theorem elf_load_rejects_header_witness:
  "elf_load 0x1000 63 elf_demo = (0, elf_demo)"
proof (rule elf_load_rejects_header)
  show "63 < SIZEOF_EHDR \<or> read_bytes elf_demo 0x1000 4 \<noteq> [0x7F, 0x45, 0x4C, 0x46] \<or>
    elf_demo (0x1000 + 4) \<noteq> 2 \<or> elf_demo (0x1000 + 5) \<noteq> 1 \<or> read16 elf_demo (0x1000 + 18) \<noteq> 62 \<or>
    read16 elf_demo (0x1000 + 16) \<noteq> 2 \<or>
    read64 elf_demo (0x1000 + 32) + ucast (read16 elf_demo (0x1000 + 56)) * 56 > ucast (63 :: u32)"
    by (simp add: SIZEOF_EHDR_def)
qed

text \<open>
  The bounds checks add without looking for wrap-around: a segment of 32 bytes at offset
  \<open>2 ^ 64 - 16\<close> passes the check for any file of at least 16 bytes and is read from before the image.
\<close>

lemma segment_check_wraps:
  "p_offset p = 0xFFFFFFFFFFFFFFF0 \<Longrightarrow> p_filesz p = 0x20 \<Longrightarrow> len \<ge> 16 \<Longrightarrow>
     \<not> p_offset p + p_filesz p > ucast (len :: u32) \<and> \<not> segment_in_file len p"
  using unat_lt_32 [of len]
  by (simp add: segment_in_file_def word_le_nat_alt word_less_nat_alt unat_zext_64)

end
