(* ===== verification/Usermode.thy ===== *)
theory Usermode
  imports Pmm
begin

text \<open>
  Running a ring-3 program, \<^verbatim>\<open>src/kernel/usermode.cpp\<close>: splitting the argument
  string into tokens, and the frame of argument count and pointers that is built on a fresh stack
  page. The jump itself is assembly that runs the program until it exits; it is the argument
  \<open>jump\<close> here, a function of the entry point, the stack pointer and memory. The lemmas show
  that the program finds its arguments where the System V convention puts them.
\<close>

record usermode =
  g_usermode_active :: u8

definition usermode_active :: "usermode \<Rightarrow> bool" where
  "usermode_active u \<longleftrightarrow> g_usermode_active u \<noteq> 0"

definition usermode_status :: "usermode \<Rightarrow> string" where
  "usermode_status u = (if usermode_active u then ''ring 3'' else ''kernel'')"

definition ARGMAX :: nat where "ARGMAX = 16"
definition ARGBUF_CAP :: nat where "ARGBUF_CAP = 256"

text \<open>A token is the program name or a pointer into the scratch buffer.\<close>

datatype token = Name string | Scratch nat

definition is_blank :: "char \<Rightarrow> bool" where
  "is_blank c \<longleftrightarrow> c = CHR '' '' \<or> c = CHR 0x09"

text \<open>The inner loop of \<open>tokenize\<close>: copies up to a blank, or until the scratch buffer is full.\<close>

fun copy_token :: "string \<Rightarrow> nat \<Rightarrow> char list \<Rightarrow> string \<times> nat \<times> char list" where
  "copy_token [] abi scratch = ([], abi, scratch)"
| "copy_token (c # p) abi scratch =
     (if \<not> is_blank c \<and> abi + 1 < ARGBUF_CAP then copy_token p (abi + 1) (scratch[abi := c]) else (c # p, abi, scratch))"

function tokenize_loop :: "string \<Rightarrow> token list \<Rightarrow> nat \<Rightarrow> char list \<Rightarrow> token list \<times> char list" where
  "tokenize_loop p tokens abi scratch =
     (if p \<noteq> [] \<and> length tokens < ARGMAX
      then let p1 = dropWhile is_blank p
           in if p1 = [] then (tokens, scratch)
              else case copy_token p1 abi scratch of (p2, abi1, scratch1) \<Rightarrow>
                     if abi1 < ARGBUF_CAP
                     then tokenize_loop p2 (tokens @ [Scratch abi]) (abi1 + 1) (scratch1[abi1 := NUL])
                     else tokenize_loop p2 (tokens @ [Scratch abi]) abi1 scratch1
      else (tokens, scratch))"
  by pat_completeness auto
termination
  by (relation "measure (\<lambda>(p, tokens, abi, scratch). ARGMAX - length tokens)") auto

declare tokenize_loop.simps [simp del]

text \<open>\<open>args\<close> is \<open>None\<close> for a null pointer; \<open>scratch\<close> is the buffer as it is found on the stack.\<close>

definition tokenize :: "string option \<Rightarrow> token list \<Rightarrow> char list \<Rightarrow> token list \<times> char list" where
  "tokenize args tokens scratch =
     (case args of None \<Rightarrow> (tokens, scratch) | Some p \<Rightarrow> tokenize_loop p tokens 0 scratch)"

text \<open>The string a token points to; \<open>None\<close> if it is read past the end of the scratch buffer.\<close>

fun token_string :: "char list \<Rightarrow> token \<Rightarrow> string option" where
  "token_string scratch (Name s) = Some s"
| "token_string scratch (Scratch k) = (if NUL \<in> set (drop k scratch) then Some (cstr (drop k scratch)) else None)"

text \<open>The strings are packed from the last to the first; the pointers come out in that order.\<close>

fun push_strings :: "string list \<Rightarrow> u64 \<Rightarrow> mem \<Rightarrow> u64 list \<times> u64 \<times> mem" where
  "push_strings [] sp m = ([], sp, m)"
| "push_strings (s # ss) sp m =
     (let sp1 = sp - of_nat (length s + 1)
      in case push_strings ss sp1 (write_bytes m sp1 (bytes_of_string s @ [0])) of
           (ptrs, sp2, m2) \<Rightarrow> (sp1 # ptrs, sp2, m2))"

fun push_words :: "u64 list \<Rightarrow> u64 \<Rightarrow> mem \<Rightarrow> u64 \<times> mem" where
  "push_words [] sp m = (sp, m)"
| "push_words (w # ws) sp m = push_words ws (sp - 8) (write64 m (sp - 8) w)"

definition user_frame :: "string list \<Rightarrow> u64 \<Rightarrow> mem \<Rightarrow> u64 \<times> mem" where
  "user_frame strs stack m =
     (case push_strings (rev strs) (stack + 4096) (write_bytes m stack (replicate 4096 0xCC)) of (ptrs, sp, m1) \<Rightarrow>
        push_words ([0, 0] @ ptrs @ [of_nat (length strs)]) (sp AND NOT 15) m1)"

text \<open>
  The machine is the page allocator, the memory and whatever else a program changes through system
  calls. Entering ring 3 is assembly: \<open>jump\<close> gives the machine when the program has left, or
  \<open>None\<close> if it never does.
\<close>

type_synonym 'w machine = "pmm \<times> mem \<times> 'w"

definition usermode_run :: "(u64 \<Rightarrow> u64 \<Rightarrow> 'w machine \<Rightarrow> 'w machine option) \<Rightarrow> u64 \<Rightarrow> u64 \<Rightarrow> 'w machine \<Rightarrow> 'w machine option" where
  "usermode_run jump entry_rip user_rsp x = jump entry_rip user_rsp x"

definition usermode_run_with_args ::
  "(u64 \<Rightarrow> u64 \<Rightarrow> 'w machine \<Rightarrow> 'w machine option) \<Rightarrow> char list \<Rightarrow> u64 \<Rightarrow> string option \<Rightarrow> string option \<Rightarrow>
     'w machine \<Rightarrow> 'w machine option" where
  "usermode_run_with_args jump scratch entry_rip prog_name args x =
     (case x of (p, m, w) \<Rightarrow> case pmm_alloc_page p of (stack, p1) \<Rightarrow>
        if stack = 0 then Some (p1, m, w)
        else case tokenize args [Name (case prog_name of None \<Rightarrow> [] | Some n \<Rightarrow> n)] scratch of (tokens, scratch1) \<Rightarrow>
               if None \<in> set (map (token_string scratch1) tokens) then None
               else case user_frame (map (the \<circ> token_string scratch1) tokens) stack m of (sp, m1) \<Rightarrow>
                      map_option (\<lambda>(p2, m2, w2). (pmm_free_page stack p2, m2, w2)) (usermode_run jump entry_rip sp (p1, m1, w)))"

section \<open>Tokens\<close>

text \<open>The words of a string, as the shell user thinks of them.\<close>

function words_of :: "string \<Rightarrow> string list" where
  "words_of p = (let p1 = dropWhile is_blank p
     in if p1 = [] then [] else takeWhile (\<lambda>c. \<not> is_blank c) p1 # words_of (dropWhile (\<lambda>c. \<not> is_blank c) p1))"
  by pat_completeness auto
termination
proof (relation "measure length", goal_cases)
  case (2 p p1)
  then obtain c q where c: "p1 = c # q" by (meson neq_Nil_conv)
  then have "\<not> is_blank c" using 2(1) by (metis hd_dropWhile list.sel(1) list.distinct(1))
  then have "length (dropWhile (\<lambda>c. \<not> is_blank c) p1) \<le> length q" using c by (simp add: length_dropWhile_le)
  also have "\<dots> < length p1" using c by simp
  also have "\<dots> \<le> length p" using 2(1) by (simp add: length_dropWhile_le)
  finally show ?case by simp
qed simp

declare words_of.simps [simp del]

definition packed :: "string list \<Rightarrow> nat" where
  "packed ws = sum_list (map (\<lambda>w. length w + 1) ws)"

lemma packed_simps [simp]: "packed [] = 0" "packed (w # ws) = length w + 1 + packed ws"
  "packed (ws @ vs) = packed ws + packed vs" "packed (rev ws) = packed ws"
  by (simp_all add: packed_def rev_map [symmetric] sum_list_rev)

lemma copy_token_word:
  assumes "length scratch = 256" and "abi + length (takeWhile (\<lambda>c. \<not> is_blank c) p) \<le> 255"
  shows "copy_token p abi scratch = (dropWhile (\<lambda>c. \<not> is_blank c) p, abi + length (takeWhile (\<lambda>c. \<not> is_blank c) p),
    take abi scratch @ takeWhile (\<lambda>c. \<not> is_blank c) p @ drop (abi + length (takeWhile (\<lambda>c. \<not> is_blank c) p)) scratch)"
  using assms
proof (induction p arbitrary: abi scratch)
  case (Cons c p)
  show ?case
  proof (cases "is_blank c")
    case False
    let ?s = "scratch[abi := c]"
    have a: "abi < length scratch" using Cons.prems False by simp
    have "take (abi + 1) ?s = take abi scratch @ [c]" using a by (simp add: take_Suc_conv_app_nth)
    moreover have "drop (abi + 1 + k) ?s = drop (abi + 1 + k) scratch" for k by simp
    ultimately show ?thesis using Cons.IH [of ?s "abi + 1"] Cons.prems False by (simp add: ARGBUF_CAP_def)
  qed (use Cons.prems in simp)
qed simp

text \<open>Token \<open>t\<close> points to the word \<open>w\<close> in the part of the scratch buffer that is in use.\<close>

fun points_to :: "char list \<Rightarrow> nat \<Rightarrow> token \<Rightarrow> string \<Rightarrow> bool" where
  "points_to scratch abi (Name s) w \<longleftrightarrow> w = s"
| "points_to scratch abi (Scratch k) w \<longleftrightarrow> no_nul w \<and> k \<le> abi \<and> (\<exists>r. drop k (take abi scratch) = w @ NUL # r)"

lemma points_to_string:
  assumes "points_to scratch abi t w"
  shows "token_string scratch t = Some w"
proof (cases t)
  case (Scratch k)
  then obtain r where r: "no_nul w" "drop k (take abi scratch) = w @ NUL # r" using assms by auto
  have "drop k scratch = drop k (take abi scratch @ drop abi scratch)" by (simp only: append_take_drop_id)
  also have "\<dots> = w @ NUL # (r @ drop (k - length (take abi scratch)) (drop abi scratch))"
    using r by (simp only: drop_append append_assoc append_Cons)
  finally show ?thesis using r(1) Scratch by (simp add: cstr_append_NUL)
qed (use assms in simp)

lemma points_to_grow:
  assumes "points_to scratch abi t w" and "take abi' scratch' = take abi scratch @ r" and "abi \<le> length scratch" and "abi \<le> abi'"
  shows "points_to scratch' abi' t w"
  using assms by (cases t) (auto simp: min_absorb2)

lemma tokenize_words:
  assumes "length scratch = 256" and "no_nul p" and "abi + packed (words_of p) \<le> 256"
    and "length tokens + length (words_of p) \<le> 16" and "list_all2 (points_to scratch abi) tokens ws"
  shows "\<exists>tokens' scratch'. tokenize_loop p tokens abi scratch = (tokens', scratch') \<and>
    list_all2 (\<lambda>t w. token_string scratch' t = Some w) tokens' (ws @ words_of p)"
  using assms
proof (induction p arbitrary: tokens abi scratch ws rule: words_of.induct)
  case (1 p)
  let ?p = "dropWhile is_blank p"
  show ?case
  proof (cases "?p = []")
    case True
    then show ?thesis using 1(6) points_to_string
      by (subst tokenize_loop.simps) (auto simp: words_of.simps [of p] elim: list_all2_mono)
  next
    case False
    let ?w = "takeWhile (\<lambda>c. \<not> is_blank c) ?p" and ?q = "dropWhile (\<lambda>c. \<not> is_blank c) ?p"
    let ?a = "abi + length ?w"
    let ?s = "take abi scratch @ ?w @ drop ?a scratch"
    have wp: "words_of p = ?w # words_of ?q" using False by (simp add: words_of.simps [of p] Let_def)
    have fit: "?a \<le> 255" using 1(4) by (simp add: wp)
    have ls: "length ?s = 256" using 1(2) fit by simp
    have step: "tokenize_loop p tokens abi scratch =
        tokenize_loop ?q (tokens @ [Scratch abi]) (?a + 1) (?s[?a := NUL])"
      using False 1(5) fit copy_token_word [OF 1(2) fit]
      by (subst tokenize_loop.simps) (auto simp: wp ARGMAX_def ARGBUF_CAP_def Let_def)
    have used: "take (?a + 1) (?s[?a := NUL]) = take abi scratch @ ?w @ [NUL]"
      using 1(2) fit by (simp add: take_Suc_conv_app_nth list_update_append nth_append)
    have nn: "no_nul p" by (rule 1(3))
    have np: "set ?p \<subseteq> set p" by (metis set_dropWhileD subsetI)
    have nw: "no_nul ?w" "no_nul ?q"
      using nn np by (auto dest!: set_takeWhileD set_dropWhileD)
    have old: "list_all2 (points_to (?s[?a := NUL]) (?a + 1)) tokens ws"
      using 1(6) points_to_grow [OF _ used] 1(2) fit by (auto elim!: list_all2_mono)
    have new: "points_to (?s[?a := NUL]) (?a + 1) (Scratch abi) ?w"
      using nw(1) used 1(2) fit by simp
    have "list_all2 (points_to (?s[?a := NUL]) (?a + 1)) (tokens @ [Scratch abi]) (ws @ [?w])"
      using old new by (simp add: list_all2_appendI)
    then have "\<exists>tokens' scratch'. tokenize_loop ?q (tokens @ [Scratch abi]) (?a + 1) (?s[?a := NUL]) = (tokens', scratch') \<and>
        list_all2 (\<lambda>t w. token_string scratch' t = Some w) tokens' ((ws @ [?w]) @ words_of ?q)"
    proof (rule 1(1) [OF refl False, rotated 4])
      show "length (?s[?a := NUL]) = 256" using ls by (simp only: length_list_update)
      show "?a + 1 + packed (words_of ?q) \<le> 256" using 1(4) by (simp add: wp)
      show "length (tokens @ [Scratch abi]) + length (words_of ?q) \<le> 16" using 1(5) by (simp add: wp)
    qed (rule nw(2))
    then show ?thesis using step wp by simp
  qed
qed

section \<open>The frame\<close>

text \<open>Places in the stack page, by their offset.\<close>

lemma offsets_apart:
  fixes base :: u64
  assumes "i < n" and "x + n \<le> y \<or> y + k \<le> x" and "x + n \<le> 4096" and "y + k \<le> 4096"
  shows "\<not> in_run (base + of_nat x + of_nat i) (base + of_nat y) k"
proof
  assume "in_run (base + of_nat x + of_nat i) (base + of_nat y) k"
  then obtain j where j: "j < k" "base + of_nat x + of_nat i = base + of_nat y + of_nat j" by (auto simp: in_run_conv)
  then have "base + of_nat (x + i) = base + (of_nat (y + j) :: u64)" by (simp add: algebra_simps)
  then have "x + i = y + j" using word_plus_eq_iff_small [of "x + i" "y + j" base] assms j(1) by simp
  then show False using assms(1,2) j(1) by linarith
qed

lemma read_after_write:
  fixes base :: u64
  assumes "x + n \<le> y \<or> y + length bs \<le> x" and "x + n \<le> 4096" and "y + length bs \<le> 4096"
  shows "read_bytes (write_bytes m (base + of_nat y) bs) (base + of_nat x) n = read_bytes m (base + of_nat x) n"
  using offsets_apart [OF _ assms] assms(3) by (intro read_write_bytes_disjoint) simp_all

definition string_at :: "mem \<Rightarrow> u64 \<Rightarrow> string \<Rightarrow> bool" where
  "string_at m p s \<longleftrightarrow> read_bytes m p (length s + 1) = bytes_of_string s @ [0]"

lemma push_strings_spec:
  assumes "packed ss \<le> lim" and "lim \<le> 4096"
  shows "\<exists>offs m'. push_strings ss (base + of_nat lim) m = (map (\<lambda>x. base + of_nat x) offs, base + of_nat (lim - packed ss), m') \<and>
    list_all2 (\<lambda>x s. lim - packed ss \<le> x \<and> x + length s + 1 \<le> lim \<and> string_at m' (base + of_nat x) s) offs ss \<and>
    (\<forall>x n. lim \<le> x \<and> x + n \<le> 4096 \<longrightarrow> read_bytes m' (base + of_nat x) n = read_bytes m (base + of_nat x) n)"
  using assms
proof (induction ss arbitrary: lim m)
  case (Cons s ss)
  define d where "d = lim - (length s + 1)"
  let ?bs = "bytes_of_string s @ [0]"
  let ?m = "write_bytes m (base + of_nat d) ?bs"
  have d: "d + (length s + 1) = lim" "packed ss \<le> d" "d \<le> 4096" using Cons.prems by (simp_all add: d_def)
  have sp: "base + of_nat lim - of_nat (length s + 1) = base + of_nat d"
    unfolding d(1) [symmetric] by simp
  obtain offs m' where r: "push_strings ss (base + of_nat d) ?m =
        (map (\<lambda>x. base + of_nat x) offs, base + of_nat (d - packed ss), m')"
      "list_all2 (\<lambda>x s. d - packed ss \<le> x \<and> x + length s + 1 \<le> d \<and> string_at m' (base + of_nat x) s) offs ss"
      "\<And>x n. d \<le> x \<and> x + n \<le> 4096 \<Longrightarrow> read_bytes m' (base + of_nat x) n = read_bytes ?m (base + of_nat x) n"
    using Cons.IH [OF d(2,3), of ?m] by blast
  have low: "lim - packed (s # ss) = d - packed ss" by (simp add: d_def)
  have "read_bytes m' (base + of_nat d) (length s + 1) = read_bytes ?m (base + of_nat d) (length ?bs)"
    using r(3) [of d "length s + 1"] d(1) Cons.prems(2) by simp
  also have "\<dots> = ?bs" using d(1) Cons.prems(2) by (intro read_write_bytes) simp
  finally have here: "string_at m' (base + of_nat d) s" by (simp add: string_at_def)
  have above: "read_bytes m' (base + of_nat x) n = read_bytes m (base + of_nat x) n" if "lim \<le> x \<and> x + n \<le> 4096" for x n
  proof -
    have "read_bytes ?m (base + of_nat x) n = read_bytes m (base + of_nat x) n"
      by (rule read_after_write) (use that d(1) Cons.prems(2) in simp_all)
    then show ?thesis using r(3) [of x n] that d(1) by simp
  qed
  have "list_all2 (\<lambda>x s. d - packed ss \<le> x \<and> x + length s + 1 \<le> lim \<and> string_at m' (base + of_nat x) s) offs ss"
    using r(2) by (rule list_all2_mono) (use d(1) in auto)
  then have all: "list_all2 (\<lambda>x s. d - packed ss \<le> x \<and> x + length s + 1 \<le> lim \<and> string_at m' (base + of_nat x) s)
      (d # offs) (s # ss)"
    using here d(1) by simp
  have "push_strings (s # ss) (base + of_nat lim) m =
      (map (\<lambda>x. base + of_nat x) (d # offs), base + of_nat (d - packed ss), m')"
    using r(1) by (simp only: push_strings.simps Let_def sp prod.case list.map)
  then show ?case unfolding low using all above by blast
qed simp

lemma push_words_spec:
  assumes "8 * length ws \<le> lim" and "lim \<le> 4096"
  shows "\<exists>m'. push_words ws (base + of_nat lim) m = (base + of_nat (lim - 8 * length ws), m') \<and>
    (\<forall>k < length ws. read64 m' (base + of_nat (lim - 8 * (k + 1))) = ws ! k) \<and>
    (\<forall>x n. lim \<le> x \<and> x + n \<le> 4096 \<longrightarrow> read_bytes m' (base + of_nat x) n = read_bytes m (base + of_nat x) n)"
  using assms
proof (induction ws arbitrary: lim m)
  case (Cons w ws)
  define d where "d = lim - 8"
  let ?m = "write64 m (base + of_nat d) w"
  have d: "d + 8 = lim" "8 * length ws \<le> d" "d \<le> 4096" using Cons.prems by (simp_all add: d_def)
  have sp: "base + of_nat lim - 8 = base + of_nat d"
    unfolding d(1) [symmetric] by simp
  obtain m' where r: "push_words ws (base + of_nat d) ?m = (base + of_nat (d - 8 * length ws), m')"
      "\<And>k. k < length ws \<Longrightarrow> read64 m' (base + of_nat (d - 8 * (k + 1))) = ws ! k"
      "\<And>x n. d \<le> x \<and> x + n \<le> 4096 \<Longrightarrow> read_bytes m' (base + of_nat x) n = read_bytes ?m (base + of_nat x) n"
    using Cons.IH [OF d(2,3), of ?m] by blast
  have "read64 m' (base + of_nat d) = read64 ?m (base + of_nat d)"
    using r(3) [of d 8] d(1) Cons.prems(2) by (simp add: read64_def)
  then have here: "read64 m' (base + of_nat d) = w" by simp
  have above: "read_bytes m' (base + of_nat x) n = read_bytes m (base + of_nat x) n" if "lim \<le> x \<and> x + n \<le> 4096" for x n
  proof -
    have "read_bytes ?m (base + of_nat x) n = read_bytes m (base + of_nat x) n"
      unfolding write64_def by (rule read_after_write) (use that d(1) Cons.prems(2) in simp_all)
    then show ?thesis using r(3) [of x n] that d(1) by simp
  qed
  have words: "read64 m' (base + of_nat (lim - 8 * (k + 1))) = (w # ws) ! k" if "k < length (w # ws)" for k
  proof (cases k)
    case 0
    have "lim - 8 * (k + 1) = d" using 0 d(1) by simp
    then show ?thesis using here 0 by (simp only: nth_Cons_0)
  next
    case (Suc j)
    have "lim - 8 * (k + 1) = d - 8 * (j + 1)" using Suc d(1) by simp
    then show ?thesis using r(2) [of j] Suc that by (simp only: nth_Cons_Suc list.size)
  qed
  have "push_words (w # ws) (base + of_nat lim) m = (base + of_nat (lim - 8 * length (w # ws)), m')"
    using r(1) d(1) by (simp only: push_words.simps sp) (simp add: d_def del: of_nat_diff)
  then show ?case using words above by blast
qed simp

lemma div16_add:
  fixes a k :: nat
  assumes "a mod 16 = 0"
  shows "(a + k) div 16 * 16 = a + k div 16 * 16"
proof -
  obtain q where "a = 16 * q" using assms by (auto elim: dvdE simp: mod_eq_0_iff_dvd)
  then show ?thesis by simp
qed

lemma sub_mod16:
  fixes n :: nat
  assumes "lim mod 16 = 0" and "8 * (n + 3) \<le> lim"
  shows "(lim - 8 * (n + 3)) mod 16 = 8 * (n + 1) mod 16"
proof -
  obtain q where q: "lim = 16 * q" using assms(1) by (auto elim: dvdE simp: mod_eq_0_iff_dvd)
  have "lim - 8 * (n + 3) + 16 * (n + 2) = 8 * (n + 1) + 16 * q" using assms(2) q by simp
  then have "(lim - 8 * (n + 3) + 16 * (n + 2)) mod 16 = (8 * (n + 1) + 16 * q) mod 16" by (simp only:)
  then show ?thesis by (simp only: mod_mult_self2)
qed

lemma align16:
  assumes "unat (base :: u64) mod 16 = 0" and "unat base + 4096 < 2 ^ 64" and "k \<le> 4096"
  shows "(base + of_nat k) AND NOT 15 = base + of_nat (k div 16 * 16)"
proof -
  have u: "unat (base + of_nat j) = unat base + j" if "j \<le> 4096" for j
    using that assms(2) by (simp add: unat_word_ariths unat_of_nat)
  have "mask 4 = (15 :: u64)" by (simp add: mask_numeral)
  then have "unat ((base + of_nat k) AND NOT 15) = unat (base + of_nat k) div 16 * 16"
    using unat_and_not_mask [of "base + of_nat k" 4] by simp
  also have "\<dots> = (unat base + k) div 16 * 16" by (simp only: u [OF assms(3)])
  also have "\<dots> = unat base + k div 16 * 16" by (rule div16_add [OF assms(1)])
  also have "\<dots> = unat (base + of_nat (k div 16 * 16))"
    by (rule u [symmetric]) (use assms(3) in presburger)
  finally show ?thesis by (simp only: word_unat_eq_iff)
qed

text \<open>What the System V convention promises a program at its entry.\<close>

definition process_args :: "mem \<Rightarrow> u64 \<Rightarrow> string list \<Rightarrow> bool" where
  "process_args m rsp strs \<longleftrightarrow>
     read64 m rsp = of_nat (length strs) \<and>
     (\<forall>i < length strs. string_at m (read64 m (rsp + of_nat (8 * (i + 1)))) (strs ! i)) \<and>
     read64 m (rsp + of_nat (8 * (length strs + 1))) = 0 \<and>
     read64 m (rsp + of_nat (8 * (length strs + 2))) = 0"

lemma user_frame_args:
  assumes b: "unat base mod 16 = 0" "unat base + 4096 < 2 ^ 64" and fit: "packed strs + 8 * length strs + 40 \<le> 4096"
  shows "process_args (snd (user_frame strs base m)) (fst (user_frame strs base m)) strs \<and>
    (\<exists>k \<le> 4096. fst (user_frame strs base m) = base + of_nat k \<and> k mod 16 = 8 * (length strs + 1) mod 16)"
proof -
  let ?n = "length strs"
  define m0 where "m0 = write_bytes m base (replicate 4096 0xCC)"
  have "packed (rev strs) \<le> 4096" using fit by simp
  note push = push_strings_spec [OF this order_refl, of base m0, unfolded packed_simps(4)]
  obtain offs m1 where 1: "push_strings (rev strs) (base + of_nat 4096) m0 =
        (map (\<lambda>x. base + of_nat x) offs, base + of_nat (4096 - packed strs), m1)"
      "list_all2 (\<lambda>x s. 4096 - packed strs \<le> x \<and> x + length s + 1 \<le> 4096 \<and> string_at m1 (base + of_nat x) s) offs (rev strs)"
    using push by blast
  define lim where "lim = (4096 - packed strs) div 16 * 16"
  define ws where "ws = [0, 0] @ map (\<lambda>x. base + of_nat x) offs @ [of_nat ?n :: u64]"
  have lo: "length offs = ?n" using list_all2_lengthD [OF 1(2)] by (simp only: length_rev)
  then have lw: "length ws = ?n + 3" by (simp add: ws_def)
  have r16: "x \<le> x div 16 * 16 + 15" "x div 16 * 16 \<le> x" "x div 16 * 16 mod 16 = 0" for x :: nat
    by simp_all
  have lim: "8 * length ws \<le> lim" "lim \<le> 4096 - packed strs" "lim mod 16 = 0"
    using r16 [of "4096 - packed strs"] fit by (simp_all add: lw flip: lim_def)
  then have lim': "lim \<le> 4096" by simp
  obtain m' where 2: "push_words ws (base + of_nat lim) m1 = (base + of_nat (lim - 8 * length ws), m')"
      "\<And>k. k < length ws \<Longrightarrow> read64 m' (base + of_nat (lim - 8 * (k + 1))) = ws ! k"
      "\<And>x n. lim \<le> x \<and> x + n \<le> 4096 \<Longrightarrow> read_bytes m' (base + of_nat x) n = read_bytes m1 (base + of_nat x) n"
    using push_words_spec [OF lim(1) lim', of base m1] by blast
  have f: "user_frame strs base m = (base + of_nat (lim - 8 * length ws), m')"
  proof -
    have a: "(base + of_nat (4096 - packed strs)) AND NOT 15 = base + of_nat lim"
      unfolding lim_def by (rule align16 [OF b]) simp
    have e: "base + 4096 = base + of_nat 4096" by simp
    show ?thesis
      unfolding user_frame_def m0_def [symmetric] e 1(1) prod.case a ws_def [symmetric] by (rule 2(1))
  qed
  have word: "read64 m' (base + of_nat (lim - 8 * length ws) + of_nat (8 * j)) = ws ! (?n + 2 - j)" if "j < ?n + 3" for j
  proof -
    have "lim - 8 * (?n + 2 - j + 1) = lim - 8 * length ws + 8 * j" using that lim(1) lw by simp
    then have "base + of_nat (lim - 8 * (?n + 2 - j + 1)) = base + of_nat (lim - 8 * length ws) + of_nat (8 * j)"
      by (simp only: of_nat_add add.assoc)
    moreover have "read64 m' (base + of_nat (lim - 8 * (?n + 2 - j + 1))) = ws ! (?n + 2 - j)"
      by (rule 2(2)) (use lw that in simp)
    ultimately show ?thesis by (simp only:)
  qed
  have str: "string_at m' (ws ! (?n + 2 - (i + 1))) (strs ! i)" if "i < ?n" for i
  proof -
    let ?k = "?n - 1 - i"
    have k: "?k < length offs" "?k < ?n" using that lo by simp_all
    have w: "ws ! (?n + 2 - (i + 1)) = base + of_nat (offs ! ?k)"
      using k that by (simp add: ws_def nth_Cons' nth_append)
    have "rev strs ! ?k = strs ! i" using that by (simp add: rev_nth)
    then have "4096 - packed strs \<le> offs ! ?k \<and> offs ! ?k + length (strs ! i) + 1 \<le> 4096 \<and> string_at m1 (base + of_nat (offs ! ?k)) (strs ! i)"
      using list_all2_nthD [OF 1(2) k(1)] by simp
    moreover from this have "read_bytes m' (base + of_nat (offs ! ?k)) (length (strs ! i) + 1) =
        read_bytes m1 (base + of_nat (offs ! ?k)) (length (strs ! i) + 1)"
      by (intro 2(3)) (use lim(2) in linarith)
    ultimately show ?thesis unfolding w string_at_def by (simp only:)
  qed
  have "process_args m' (base + of_nat (lim - 8 * length ws)) strs"
    unfolding process_args_def
  proof (intro conjI allI impI)
    show "read64 m' (base + of_nat (lim - 8 * length ws)) = of_nat ?n"
      using word [of 0] lo by (simp add: ws_def nth_append)
    show "string_at m' (read64 m' (base + of_nat (lim - 8 * length ws) + of_nat (8 * (i + 1)))) (strs ! i)" if "i < ?n" for i
      using word [of "i + 1"] str [OF that] that by simp
    show "read64 m' (base + of_nat (lim - 8 * length ws) + of_nat (8 * (?n + 1))) = 0"
      using word [of "?n + 1"] by (simp add: ws_def)
    show "read64 m' (base + of_nat (lim - 8 * length ws) + of_nat (8 * (?n + 2))) = 0"
      using word [of "?n + 2"] by (simp add: ws_def)
  qed
  moreover have "(lim - 8 * length ws) mod 16 = 8 * (?n + 1) mod 16"
    unfolding lw by (rule sub_mod16) (use lim(1,3) lw in simp_all)
  ultimately show ?thesis using lim(2) by (auto simp: f intro!: exI [of _ "lim - 8 * length ws"])
qed

lemma all_some: "list_all2 (\<lambda>t w. f t = Some w) ts ws \<Longrightarrow> map f ts = map Some ws"
  by (induction rule: list_all2_induct) auto

text \<open>
  C27. A program started with a name and an argument string whose words fit the argument table
  and buffer is entered with the stack pointer at the argument count, followed by one pointer per
  argument to its NUL-terminated string (the name and the words of the argument string, in
  order), and two null words; all of it lies in the page that was allocated for it. The page is
  given back when the program has left.
\<close>

theorem usermode_builds_args:
  assumes alloc: "pmm_alloc_page p = (stack, p1)" "stack \<noteq> 0"
    and page: "unat stack mod 4096 = 0" "unat stack + 4096 < 2 ^ 64"
    and name: "no_nul name" "length name \<le> 31" and args: "no_nul args" "packed (words_of args) \<le> 256" "length (words_of args) \<le> 15"
    and scratch: "length scratch = 256"
  shows "\<exists>rsp m1 k. usermode_run_with_args jump scratch entry (Some name) (Some args) (p, m, w) =
      map_option (\<lambda>(p2, m2, w2). (pmm_free_page stack p2, m2, w2)) (jump entry rsp (p1, m1, w)) \<and>
    process_args m1 rsp (name # words_of args) \<and> rsp = stack + of_nat k \<and> k \<le> 4096"
proof -
  obtain tokens scratch1 where t: "tokenize (Some args) [Name name] scratch = (tokens, scratch1)"
      "list_all2 (\<lambda>t w. token_string scratch1 t = Some w) tokens (name # words_of args)"
    using tokenize_words [of scratch args 0 "[Name name]" "[name]"] args scratch by (auto simp: tokenize_def)
  have strs: "map (token_string scratch1) tokens = map Some (name # words_of args)"
    using all_some [OF t(2)] .
  then have the: "map (the \<circ> token_string scratch1) tokens = name # words_of args"
    by (metis list.map_comp list.map_id option.sel comp_apply map_idI)
  have some: "None \<notin> set (map (token_string scratch1) tokens)" unfolding strs by auto
  obtain rsp m1 where f: "user_frame (name # words_of args) stack m = (rsp, m1)" by force
  have fit: "packed (name # words_of args) + 8 * length (name # words_of args) + 40 \<le> 4096"
    using name args by simp
  have "unat stack mod 16 = 0" using page(1) mod_mod_cancel [of 16 4096 "unat stack"] by simp
  then have "process_args m1 rsp (name # words_of args) \<and> (\<exists>k \<le> 4096. rsp = stack + of_nat k)"
    using user_frame_args [OF _ page(2) fit, of m] f by auto
  moreover have "usermode_run_with_args jump scratch entry (Some name) (Some args) (p, m, w) =
      map_option (\<lambda>(p2, m2, w2). (pmm_free_page stack p2, m2, w2)) (jump entry rsp (p1, m1, w))"
    using alloc t(1) some by (simp add: usermode_run_with_args_def the f usermode_run_def del: set_map)
  ultimately show ?thesis by blast
qed

theorem usermode_builds_args_witness:
  "\<exists>rsp m1 k. usermode_run_with_args (\<lambda>_ _ x. Some x) (replicate 256 (CHR ''?'')) 0x400000 (Some ''echo'') (Some '' hi  you'')
      (pmm_demo, \<lambda>_. 0, ()) = Some (pmm_free_page (fst (pmm_alloc_page pmm_demo)) (snd (pmm_alloc_page pmm_demo)), m1, ()) \<and>
    process_args m1 rsp [''echo'', ''hi'', ''you''] \<and> rsp = fst (pmm_alloc_page pmm_demo) + of_nat k \<and> k \<le> 4096"
proof -
  obtain stack p1 where a: "pmm_alloc_page pmm_demo = (stack, p1)" by force
  have "fst (pmm_alloc_page pmm_demo) = 0x2000" by code_simp
  then have s: "stack = 0x2000" by (simp add: a)
  have w: "words_of '' hi  you'' = [''hi'', ''you'']"
    by (simp add: words_of.simps [of "CHR '' '' # _"] words_of.simps [of "[]"] words_of.simps is_blank_def Let_def)
  show ?thesis
    using usermode_builds_args [OF a, of "''echo''" "'' hi  you''" "replicate 256 (CHR ''?'')" "\<lambda>_ _ x. Some x" "0x400000" "\<lambda>_. 0" "()"]
    by (simp add: s a w NUL_def)
qed

text \<open>The convention asks for a stack pointer that is a multiple of 16; it is one for an odd number of arguments only.\<close>

lemma user_frame_misaligned:
  assumes "unat base mod 16 = 0" and "unat base + 4096 < 2 ^ 64" and "packed strs + 8 * length strs + 40 \<le> 4096"
    and "even (length strs)"
  shows "unat (fst (user_frame strs base m)) mod 16 = 8"
proof -
  obtain k where k: "k \<le> 4096" "fst (user_frame strs base m) = base + of_nat k" "k mod 16 = 8 * (length strs + 1) mod 16"
    using user_frame_args [OF assms(1-3), of m] by blast
  obtain j where "length strs = 2 * j" using assms(4) by (auto elim: evenE)
  then have "8 * (length strs + 1) = 8 + 16 * j" by simp
  then have "k mod 16 = 8" unfolding k(3) by simp
  moreover have "unat (base + of_nat k) = unat base + k" using k(1) assms(2) by (simp add: unat_word_ariths unat_of_nat)
  moreover have "(a + k) mod 16 = 8" if "a mod 16 = 0" "k mod 16 = 8" for a :: nat
    using that by (metis add_0 mod_add_left_eq)
  ultimately show ?thesis using assms(1) k(2) by simp
qed

text \<open>
  When the scratch buffer is full, the rest of the argument string is not skipped: it becomes one
  token after the other that points past the end of the buffer, until the table is full.
\<close>

lemma full_scratch_token:
  assumes "length scratch = 256" and "length tokens < 16" and "\<not> is_blank c"
  shows "tokenize_loop (c # p) tokens 256 scratch = tokenize_loop (c # p) (tokens @ [Scratch 256]) 256 scratch \<and>
    token_string scratch (Scratch 256) = None"
  using assms by (subst tokenize_loop.simps) (simp add: ARGMAX_def ARGBUF_CAP_def)

end
