(* ===== verification/Syscall.thy ===== *)
theory Syscall
  imports Timer Stdin Usermode
begin

text \<open>
  System calls, \<^verbatim>\<open>src/kernel/syscall.cpp\<close>: the table of sixteen entries, the dispatch, and
  the calls on the state of the components they use. A call returns, waits for the next
  interrupt, goes back to the kernel for good (\<open>usermode_return\<close> does not return) or halts. Memory
  is that of the heap in the process state.
\<close>

record kstate =
  k_timer :: timer
  k_procs :: procs
  k_stdin :: stdin
  k_vga :: vga
  k_user :: usermode

datatype 'a outcome = Ret u64 'a | Waits | User_left 'a | Halts 'a

definition k_mem :: "kstate \<Rightarrow> mem" where
  "k_mem k = hmem (kheap_of (k_procs k))"

definition set_mem :: "mem \<Rightarrow> kstate \<Rightarrow> kstate" where
  "set_mem m k = k\<lparr>k_procs := (k_procs k)\<lparr>kheap_of := (kheap_of (k_procs k))\<lparr>hmem := m\<rparr>\<rparr>\<rparr>"

definition SYS_READ :: nat where "SYS_READ = 0"
definition SYS_WRITE :: nat where "SYS_WRITE = 1"
definition SYS_EXIT :: nat where "SYS_EXIT = 4"
definition SYS_GETPID :: nat where "SYS_GETPID = 7"
definition SYS_SLEEP :: nat where "SYS_SLEEP = 8"
definition SYS_YIELD :: nat where "SYS_YIELD = 9"
definition SYS_HELLO :: nat where "SYS_HELLO = 10"
definition MAX_SYSCALLS :: nat where "MAX_SYSCALLS = 16"

section \<open>The calls\<close>

definition sys_read :: "u32 \<Rightarrow> u64 \<Rightarrow> u64 \<Rightarrow> kstate \<Rightarrow> kstate outcome" where
  "sys_read fd buf count k =
     (if fd = 0
      then case stdin_read_line count (k_stdin k) of
             None \<Rightarrow> Waits
           | Some (line, s) \<Rightarrow>
               Ret (of_nat (length line)) (set_mem (write_bytes (k_mem k) buf (bytes_of_string line)) (k\<lparr>k_stdin := s\<rparr>))
      else Ret (- 1) k)"

definition sys_write :: "u32 \<Rightarrow> u64 \<Rightarrow> u64 \<Rightarrow> kstate \<Rightarrow> kstate outcome" where
  "sys_write fd buf count k =
     (if fd = 1 \<or> fd = 2
      then Ret count (k\<lparr>k_vga := for_w 0 count (\<lambda>i. vga_putchar (char_of (unat (k_mem k (buf + i))))) (k_vga k)\<rparr>)
      else Ret (- 1) k)"

definition sys_exit :: "u32 \<Rightarrow> kstate \<Rightarrow> kstate outcome option" where
  "sys_exit status k =
     (if usermode_active (k_user k) then Some (User_left (k\<lparr>k_user := (k_user k)\<lparr>g_usermode_active := 0\<rparr>\<rparr>))
      else let current = process_get_current (k_procs k)
           in if current = 0 then Some (Ret 0 k)
              else map_option (\<lambda>s. Halts (k\<lparr>k_procs := scheduler_schedule s\<rparr>))
                     (scheduler_remove current (upd_pcb current (\<lambda>p. p\<lparr>pstate := PROCESS_TERMINATED\<rparr>) (k_procs k))))"

definition sys_hello :: "kstate \<Rightarrow> kstate outcome" where
  "sys_hello k =
     Ret 0 (k\<lparr>k_vga :=
       vga_print (''running in CPL=0, called by user code in CPL=3.'' @ [CHR 0x0A])
         (vga_print (''This message came out of an int 0x80 syscall handler'' @ [CHR 0x0A])
           (vga_print (''Hello from ring 3!'' @ [CHR 0x0A]) (k_vga k)))\<rparr>)"

text \<open>\<^verbatim>\<open>current ? current->pid : -1\<close> has the type of \<open>pid\<close>, an unsigned 32-bit integer.\<close>

definition sys_getpid :: "kstate \<Rightarrow> kstate outcome" where
  "sys_getpid k =
     (let current = process_get_current (k_procs k)
      in Ret (ucast (if current \<noteq> 0 then pid (pcbs (k_procs k) current) else (- 1 :: u32))) k)"

definition sys_sleep :: "u32 \<Rightarrow> kstate \<Rightarrow> kstate outcome" where
  "sys_sleep milliseconds k =
     (case timer_sleep milliseconds (k_timer k, k_procs k) of (t, s) \<Rightarrow> Ret 0 (k\<lparr>k_timer := t, k_procs := s\<rparr>))"

definition sys_yield :: "kstate \<Rightarrow> kstate outcome" where
  "sys_yield k = Ret 0 (k\<lparr>k_procs := process_yield (k_procs k)\<rparr>)"

section \<open>Table and dispatch\<close>

text \<open>An entry of the table is one of the wrappers; they cut the registers to the parameter types.\<close>

datatype syscall_fn = Fn_read | Fn_write | Fn_exit | Fn_getpid | Fn_sleep | Fn_yield | Fn_hello

fun call_wrapper :: "syscall_fn \<Rightarrow> u64 \<Rightarrow> u64 \<Rightarrow> u64 \<Rightarrow> kstate \<Rightarrow> kstate outcome option" where
  "call_wrapper Fn_read a b c k = Some (sys_read (ucast a) b c k)"
| "call_wrapper Fn_write a b c k = Some (sys_write (ucast a) b c k)"
| "call_wrapper Fn_exit a b c k = sys_exit (ucast a) k"
| "call_wrapper Fn_getpid a b c k = Some (sys_getpid k)"
| "call_wrapper Fn_sleep a b c k = Some (sys_sleep (ucast a) k)"
| "call_wrapper Fn_yield a b c k = Some (sys_yield k)"
| "call_wrapper Fn_hello a b c k = Some (sys_hello k)"

type_synonym syscall_table = "syscall_fn option list"

definition syscall_init :: "syscall_table \<Rightarrow> syscall_table" where
  "syscall_init t =
     (replicate MAX_SYSCALLS None)[SYS_READ := Some Fn_read, SYS_WRITE := Some Fn_write, SYS_EXIT := Some Fn_exit,
        SYS_GETPID := Some Fn_getpid, SYS_SLEEP := Some Fn_sleep, SYS_YIELD := Some Fn_yield, SYS_HELLO := Some Fn_hello]"

definition syscall_dispatch ::
  "syscall_table \<Rightarrow> u64 \<Rightarrow> u64 \<Rightarrow> u64 \<Rightarrow> u64 \<Rightarrow> u64 \<Rightarrow> u64 \<Rightarrow> kstate \<Rightarrow> kstate outcome option" where
  "syscall_dispatch t syscall_num rdi rsi rdx r10 r8 k =
     (if syscall_num \<ge> of_nat MAX_SYSCALLS then Some (Ret (- 1) k)
      else case t ! unat syscall_num of
             None \<Rightarrow> Some (Ret (- 1) k)
           | Some f \<Rightarrow> call_wrapper f rdi rsi rdx k)"

definition syscall_handler_c ::
  "syscall_table \<Rightarrow> u64 \<Rightarrow> u64 \<Rightarrow> u64 \<Rightarrow> u64 \<Rightarrow> u64 \<Rightarrow> u64 \<Rightarrow> kstate \<Rightarrow> kstate outcome option" where
  "syscall_handler_c t syscall_num rdi rsi rdx r10 r8 k = syscall_dispatch t syscall_num rdi rsi rdx r10 r8 k"

definition syscall_invoke :: "syscall_table \<Rightarrow> u64 \<Rightarrow> u64 \<Rightarrow> u64 \<Rightarrow> u64 \<Rightarrow> kstate \<Rightarrow> kstate outcome option" where
  "syscall_invoke t syscall_num arg1 arg2 arg3 k = syscall_dispatch t syscall_num arg1 arg2 arg3 0 0 k"

section \<open>What a program can rely on\<close>

definition known_call :: "u64 \<Rightarrow> bool" where
  "known_call n \<longleftrightarrow> n \<in> {0, 1, 4, 7, 8, 9, 10}"

lemma table_entry:
  assumes "n < 16"
  shows "syscall_init t ! n = (if n = 0 then Some Fn_read else if n = 1 then Some Fn_write else if n = 4 then Some Fn_exit
    else if n = 7 then Some Fn_getpid else if n = 8 then Some Fn_sleep else if n = 9 then Some Fn_yield
    else if n = 10 then Some Fn_hello else None)"
  using assms by (simp add: syscall_init_def MAX_SYSCALLS_def SYS_READ_def SYS_WRITE_def SYS_EXIT_def SYS_GETPID_def
      SYS_SLEEP_def SYS_YIELD_def SYS_HELLO_def nth_list_update)

lemma dispatch_unknown:
  assumes "\<not> known_call n"
  shows "syscall_dispatch (syscall_init t) n a b c d e k = Some (Ret (- 1) k)"
proof (cases "n < 16")
  case True
  then have "unat n < 16" by (simp add: word_less_nat_alt)
  moreover have "unat n \<noteq> 0" "unat n \<noteq> 1" "unat n \<noteq> 4" "unat n \<noteq> 7" "unat n \<noteq> 8" "unat n \<noteq> 9" "unat n \<noteq> 10"
    using assms by (auto simp: known_call_def unat_eq_0 dest!: arg_cong [of _ _ "of_nat :: nat \<Rightarrow> u64"])
  ultimately show ?thesis using True table_entry [of "unat n" t] by (simp add: syscall_dispatch_def MAX_SYSCALLS_def)
qed (auto simp: syscall_dispatch_def MAX_SYSCALLS_def not_less)

lemma fold_putchar_write:
  "for_w 0 count (\<lambda>i. vga_putchar (char_of (unat (m (buf + i))))) v =
     fold vga_putchar (map (\<lambda>b. char_of (unat b)) (read_bytes m buf (unat count))) v"
  by (simp add: for_w_fold read_bytes_eq_map fold_map comp_def)

text \<open>
  C36. After \<open>syscall_init\<close>, a call number that is not one of the seven gives -1 and changes nothing.
  A write to descriptor 1 or 2 returns the byte count and puts exactly the bytes of the buffer on the
  console, in order, NULs included; any other descriptor gives -1 and changes nothing. Neither
  touches memory, the processes or the input.
\<close>

theorem syscall_write_contract:
  shows "(\<not> known_call n \<longrightarrow> syscall_handler_c (syscall_init t) n a b c d e k = Some (Ret (- 1) k)) \<and>
    syscall_handler_c (syscall_init t) 1 fd buf count d e k =
      Some (if (ucast fd :: u32) = 1 \<or> (ucast fd :: u32) = 2
            then Ret count (k\<lparr>k_vga := console_run (map (\<lambda>x. Con_char (char_of (unat x))) (read_bytes (k_mem k) buf (unat count))) (k_vga k)\<rparr>)
            else Ret (- 1) k)"
proof -
  have "console_run (map (\<lambda>x. Con_char (char_of (unat x))) bs) v = fold vga_putchar (map (\<lambda>b. char_of (unat b)) bs) v"
    for bs :: "u8 list" and v
    by (induction bs arbitrary: v) (simp_all add: console_run_def)
  moreover have "syscall_handler_c (syscall_init t) 1 fd buf count d e k = Some (sys_write (ucast fd) buf count k)"
    using table_entry [of 1 t] by (simp add: syscall_handler_c_def syscall_dispatch_def MAX_SYSCALLS_def word_le_nat_alt)
  ultimately show ?thesis
    by (simp add: syscall_handler_c_def dispatch_unknown sys_write_def fold_putchar_write)
qed

definition kstate_demo :: kstate where
  "kstate_demo = \<lparr>k_timer = \<lparr>timer_ticks = 0, timer_frequency = 100\<rparr>, k_procs = procs_demo, k_stdin = stdin_demo,
     k_vga = vga_demo, k_user = \<lparr>g_usermode_active = 1\<rparr>\<rparr>"

theorem syscall_write_contract_witness:
  "syscall_handler_c (syscall_init []) 5 1 2 3 4 5 kstate_demo = Some (Ret (- 1) kstate_demo)"
  using syscall_write_contract [of 5 "[]" 1 2 3 4 5 kstate_demo] by (simp add: known_call_def)

text \<open>
  A program that reads descriptor 0 waits until a line was typed; then the call returns the
  number of bytes, at most as many as asked for, and these bytes of the line are in its buffer; the
  line is consumed and everything outside the buffer stays.
\<close>

theorem syscall_read_contract:
  assumes ok: "stdin_ok (k_stdin k)"
  shows "syscall_handler_c (syscall_init t) 0 0 buf count d e k =
    (if g_ready (k_stdin k)
     then Some (Ret (of_nat (min (unat count) (length (typed (k_stdin k)))))
            (set_mem (write_bytes (k_mem k) buf (bytes_of_string (take (unat count) (typed (k_stdin k)))))
               (k\<lparr>k_stdin := (k_stdin k)\<lparr>g_len := 0, g_ready := False\<rparr>\<rparr>)))
     else Some Waits)"
proof -
  have "syscall_handler_c (syscall_init t) 0 0 buf count d e k = Some (sys_read 0 buf count k)"
    using table_entry [of 0 t] by (simp add: syscall_handler_c_def syscall_dispatch_def MAX_SYSCALLS_def)
  moreover have "stdin_read_line count (k_stdin k) = None" if "\<not> g_ready (k_stdin k)"
    using that by (simp add: stdin_read_line_def)
  ultimately show ?thesis
    using ready_line_read [OF ok, of count] by (simp add: sys_read_def min.commute)
qed

theorem syscall_read_contract_witness:
  "syscall_handler_c (syscall_init []) 0 0 0x8000 64 0 0 kstate_demo = Some Waits"
proof -
  have "stdin_ok (k_stdin kstate_demo)" by (simp add: kstate_demo_def stdin_ok_def stdin_demo_def)
  then show ?thesis
    using syscall_read_contract [of kstate_demo "[]" "0x8000" 64 0 0]
    by (simp add: kstate_demo_def stdin_demo_def)
qed

text \<open>With no current process, \<open>getpid\<close> returns 4294967295, not -1.\<close>

lemma getpid_without_process:
  "process_get_current (k_procs k) = 0 \<Longrightarrow> sys_getpid k = Ret 4294967295 k"
proof -
  have "ucast (- 1 :: u32) = (4294967295 :: u64)" by code_simp
  then show "process_get_current (k_procs k) = 0 \<Longrightarrow> sys_getpid k = Ret 4294967295 k" by (simp add: sys_getpid_def)
qed

end
