(* ===== verification/Ata.thy ===== *)
theory Ata
  imports Serial
begin

text \<open>
  The polled ATA disk driver, \<^verbatim>\<open>src/kernel/ata.cpp\<close>, over the port accesses of
  theory Port. The waits keep their bound of a million polls. The lemmas show that on a drive that
  answers as the ATA standard says, \<open>ata_read\<close> and \<open>ata_write\<close> read and write exactly the sectors
  they are given. The drive of the standard is the function \<open>drive\<close> of the port accesses made so
  far; a working device is a hypothesis on the parameter \<open>dev\<close>.
\<close>

definition ATA_PRI_DATA :: u16 where "ATA_PRI_DATA = 0x1F0"
definition ATA_PRI_FEATURES :: u16 where "ATA_PRI_FEATURES = 0x1F1"
definition ATA_PRI_SECCOUNT :: u16 where "ATA_PRI_SECCOUNT = 0x1F2"
definition ATA_PRI_LBA0 :: u16 where "ATA_PRI_LBA0 = 0x1F3"
definition ATA_PRI_LBA1 :: u16 where "ATA_PRI_LBA1 = 0x1F4"
definition ATA_PRI_LBA2 :: u16 where "ATA_PRI_LBA2 = 0x1F5"
definition ATA_PRI_DRIVE :: u16 where "ATA_PRI_DRIVE = 0x1F6"
definition ATA_PRI_STATUS :: u16 where "ATA_PRI_STATUS = 0x1F7"
definition ATA_PRI_COMMAND :: u16 where "ATA_PRI_COMMAND = 0x1F7"
definition ATA_PRI_CTRL :: u16 where "ATA_PRI_CTRL = 0x3F6"
definition ATA_CMD_IDENTIFY :: u8 where "ATA_CMD_IDENTIFY = 0xEC"
definition ATA_CMD_READ_PIO :: u8 where "ATA_CMD_READ_PIO = 0x20"
definition ATA_CMD_WRITE_PIO :: u8 where "ATA_CMD_WRITE_PIO = 0x30"
definition ATA_CMD_FLUSH :: u8 where "ATA_CMD_FLUSH = 0xE7"
definition ATA_SR_BSY :: u8 where "ATA_SR_BSY = 0x80"
definition ATA_SR_DRQ :: u8 where "ATA_SR_DRQ = 0x08"
definition ATA_SR_ERR :: u8 where "ATA_SR_ERR = 0x01"

lemmas ata_ports = ATA_PRI_DATA_def ATA_PRI_FEATURES_def ATA_PRI_SECCOUNT_def ATA_PRI_LBA0_def ATA_PRI_LBA1_def
  ATA_PRI_LBA2_def ATA_PRI_DRIVE_def ATA_PRI_STATUS_def ATA_PRI_COMMAND_def ATA_PRI_CTRL_def

record ata_device =
  present :: bool
  sectors :: u64
  model :: string

section \<open>The driver\<close>

definition io_wait_400ns :: "device \<Rightarrow> history \<Rightarrow> history" where
  "io_wait_400ns dev h = ((\<lambda>h. snd (inb dev ATA_PRI_CTRL h)) ^^ 4) h"

fun wait_not_busy_loop :: "nat \<Rightarrow> device \<Rightarrow> history \<Rightarrow> bool \<times> history" where
  "wait_not_busy_loop 0 dev h = (False, h)"
| "wait_not_busy_loop (Suc n) dev h =
     (case inb dev ATA_PRI_STATUS h of (s, h1) \<Rightarrow>
        if s AND ATA_SR_BSY = 0 then (True, h1) else wait_not_busy_loop n dev h1)"

definition wait_not_busy :: "device \<Rightarrow> history \<Rightarrow> bool \<times> history" where
  "wait_not_busy dev h = wait_not_busy_loop 1000000 dev h"

fun wait_drq_loop :: "nat \<Rightarrow> device \<Rightarrow> history \<Rightarrow> bool \<times> history" where
  "wait_drq_loop 0 dev h = (False, h)"
| "wait_drq_loop (Suc n) dev h =
     (case inb dev ATA_PRI_STATUS h of (s, h1) \<Rightarrow>
        if s AND ATA_SR_ERR \<noteq> 0 then (False, h1)
        else if s AND ATA_SR_BSY = 0 \<and> s AND ATA_SR_DRQ \<noteq> 0 then (True, h1)
        else wait_drq_loop n dev h1)"

definition wait_drq :: "device \<Rightarrow> history \<Rightarrow> bool \<times> history" where
  "wait_drq dev h = wait_drq_loop 1000000 dev h"

fun read_words :: "nat \<Rightarrow> device \<Rightarrow> history \<Rightarrow> u16 list \<times> history" where
  "read_words 0 dev h = ([], h)"
| "read_words (Suc n) dev h =
     (case inw dev ATA_PRI_DATA h of (w, h1) \<Rightarrow> case read_words n dev h1 of (ws, h2) \<Rightarrow> (w # ws, h2))"

fun write_words :: "u16 list \<Rightarrow> history \<Rightarrow> history" where
  "write_words [] h = h"
| "write_words (w # ws) h = write_words ws (outw ATA_PRI_DATA w h)"

text \<open>The model name in the identification: swapped bytes per word, trailing spaces cut.\<close>

definition model_chars :: "u16 list \<Rightarrow> string" where
  "model_chars info =
     concat (map (\<lambda>w. [char_of (unat (drop_bit 8 (info ! (27 + w)))), char_of (unat (info ! (27 + w) AND 0xFF))]) [0..<20])"

definition model_name :: "u16 list \<Rightarrow> string" where
  "model_name info = rev (dropWhile (\<lambda>c. c = CHR '' '') (rev (model_chars info)))"

definition ata_init :: "device \<Rightarrow> ata_device \<times> history \<Rightarrow> (ata_device \<times> history) option" where
  "ata_init dev x =
     (let h1 = io_wait_400ns dev (outb ATA_PRI_DRIVE 0xA0 (snd x));
          h2 = outb ATA_PRI_LBA2 0 (outb ATA_PRI_LBA1 0 (outb ATA_PRI_LBA0 0 (outb ATA_PRI_SECCOUNT 0 h1)));
          h3 = io_wait_400ns dev (outb ATA_PRI_COMMAND ATA_CMD_IDENTIFY h2);
          fail = (\<lambda>why h. map_option (\<lambda>h. (fst x, h)) (serial_print dev (''ATA: '' @ why @ [CHR 0x0A]) h));
          not_ata = ''primary master is ATAPI/SATA - not supported''
      in case inb dev ATA_PRI_STATUS h3 of (status, h4) \<Rightarrow>
         if status = 0 then fail ''no primary master'' h4
         else case wait_not_busy dev h4 of (ready, h5) \<Rightarrow>
         if \<not> ready then fail ''identify timed out (busy)'' h5
         else case inb dev ATA_PRI_LBA1 h5 of (l1, h6) \<Rightarrow>
         if l1 \<noteq> 0 then fail not_ata h6
         else case inb dev ATA_PRI_LBA2 h6 of (l2, h7) \<Rightarrow>
         if l2 \<noteq> 0 then fail not_ata h7
         else case wait_drq dev h7 of (drq, h8) \<Rightarrow>
         if \<not> drq then fail ''identify did not produce DRQ'' h8
         else case read_words 256 dev h8 of (info, h9) \<Rightarrow>
         let d = \<lparr>present = True, sectors = ucast (info ! 60) OR push_bit 16 (ucast (info ! 61)), model = model_name info\<rparr>
         in Option.bind (serial_print dev (''ATA: primary master '' @ [CHR 0x22]) h9) (\<lambda>h10.
            Option.bind (serial_print dev (takeWhile (\<lambda>c. c \<noteq> CHR 0x00) (model d)) h10) (\<lambda>h11.
            map_option (Pair d) (serial_print dev ([CHR 0x22] @ '' online'' @ [CHR 0x0A]) h11))))"

definition ata_primary_master :: "ata_device \<Rightarrow> ata_device" where
  "ata_primary_master d = d"

text \<open>The registers of a transfer; the command comes last.\<close>

definition ata_command :: "u8 \<Rightarrow> u32 \<Rightarrow> u8 \<Rightarrow> history \<Rightarrow> history" where
  "ata_command cmd lba count h =
     outb ATA_PRI_COMMAND cmd
       (outb ATA_PRI_LBA2 (ucast (drop_bit 16 lba)) (outb ATA_PRI_LBA1 (ucast (drop_bit 8 lba))
         (outb ATA_PRI_LBA0 (ucast lba) (outb ATA_PRI_SECCOUNT count (outb ATA_PRI_FEATURES 0
           (outb ATA_PRI_DRIVE (0xE0 OR ucast (drop_bit 24 lba AND 0x0F)) h))))))"

fun read_sectors :: "nat \<Rightarrow> device \<Rightarrow> history \<Rightarrow> bool \<times> u16 list \<times> history" where
  "read_sectors 0 dev h = (True, [], h)"
| "read_sectors (Suc n) dev h =
     (case wait_drq dev h of (ok, h1) \<Rightarrow>
        if \<not> ok then (False, [], h1)
        else case read_words 256 dev h1 of (ws, h2) \<Rightarrow>
             case read_sectors n dev (io_wait_400ns dev h2) of (ok, ws', h3) \<Rightarrow> (ok, ws @ ws', h3))"

text \<open>The words that are stored in the buffer from its start, also when the transfer fails.\<close>

definition ata_read :: "device \<Rightarrow> ata_device \<Rightarrow> u32 \<Rightarrow> u8 \<Rightarrow> history \<Rightarrow> bool \<times> u16 list \<times> history" where
  "ata_read dev d lba count0 h =
     (if \<not> present d then (False, [], h)
      else let count = (if count0 = 0 then 1 else count0)
           in case wait_not_busy dev h of (ok, h1) \<Rightarrow>
                if \<not> ok then (False, [], h1)
                else read_sectors (unat count) dev (ata_command ATA_CMD_READ_PIO lba count h1))"

fun write_sectors :: "nat \<Rightarrow> u16 list \<Rightarrow> device \<Rightarrow> history \<Rightarrow> bool \<times> history" where
  "write_sectors 0 ws dev h = (True, h)"
| "write_sectors (Suc n) ws dev h =
     (case wait_drq dev h of (ok, h1) \<Rightarrow>
        if \<not> ok then (False, h1)
        else write_sectors n (drop 256 ws) dev (io_wait_400ns dev (write_words (take 256 ws) h1)))"

definition ata_write :: "device \<Rightarrow> ata_device \<Rightarrow> u32 \<Rightarrow> u8 \<Rightarrow> u16 list \<Rightarrow> history \<Rightarrow> bool \<times> history" where
  "ata_write dev d lba count0 buf h =
     (if \<not> present d then (False, h)
      else let count = (if count0 = 0 then 1 else count0)
           in case wait_not_busy dev h of (ok, h1) \<Rightarrow>
                if \<not> ok then (False, h1)
                else case write_sectors (unat count) buf dev (ata_command ATA_CMD_WRITE_PIO lba count h1) of (ok, h2) \<Rightarrow>
                  if \<not> ok then (False, h2)
                  else case wait_not_busy dev h2 of (ok, h3) \<Rightarrow>
                    if \<not> ok then (False, h3)
                    else wait_not_busy dev (outb ATA_PRI_COMMAND ATA_CMD_FLUSH h3))"

section \<open>The drive of the standard\<close>

text \<open>
  The task-file registers, the phase of a transfer (the word to be transferred next and the number
  of words left), and the disk as a function of the word number, 256 words to a sector.
\<close>

datatype phase = Idle | Reading nat nat | Writing nat nat

record drive =
  r_count :: u8
  r_lba0 :: u8
  r_lba1 :: u8
  r_lba2 :: u8
  r_drive :: u8
  phase :: phase
  disk :: "nat \<Rightarrow> u16"

definition addressed :: "drive \<Rightarrow> nat" where
  "addressed d = unat (r_lba0 d) + 2 ^ 8 * unat (r_lba1 d) + 2 ^ 16 * unat (r_lba2 d) + 2 ^ 24 * unat (r_drive d AND 0x0F)"

definition words_asked :: "drive \<Rightarrow> nat" where
  "words_asked d = 256 * (if r_count d = 0 then 256 else unat (r_count d))"

definition left_or_idle :: "(nat \<Rightarrow> nat \<Rightarrow> phase) \<Rightarrow> nat \<Rightarrow> nat \<Rightarrow> phase" where
  "left_or_idle ph pos n = (if n = 0 then Idle else ph pos n)"

fun drive_step :: "io_event \<Rightarrow> drive \<Rightarrow> drive" where
  "drive_step (Out8 p v) d =
     (if p = ATA_PRI_SECCOUNT then d\<lparr>r_count := v\<rparr>
      else if p = ATA_PRI_LBA0 then d\<lparr>r_lba0 := v\<rparr>
      else if p = ATA_PRI_LBA1 then d\<lparr>r_lba1 := v\<rparr>
      else if p = ATA_PRI_LBA2 then d\<lparr>r_lba2 := v\<rparr>
      else if p = ATA_PRI_DRIVE then d\<lparr>r_drive := v\<rparr>
      else if p = ATA_PRI_COMMAND then
        (if v = ATA_CMD_READ_PIO then d\<lparr>phase := Reading (256 * addressed d) (words_asked d)\<rparr>
         else if v = ATA_CMD_WRITE_PIO then d\<lparr>phase := Writing (256 * addressed d) (words_asked d)\<rparr>
         else if v = ATA_CMD_FLUSH then d\<lparr>phase := Idle\<rparr>
         else d)
      else d)"
| "drive_step (Out16 p v) d =
     (if p = ATA_PRI_DATA
      then case phase d of
             Writing pos n \<Rightarrow> d\<lparr>disk := (disk d)(pos := v), phase := left_or_idle Writing (pos + 1) (n - 1)\<rparr>
           | _ \<Rightarrow> d
      else d)"
| "drive_step (In16 p v) d =
     (if p = ATA_PRI_DATA
      then case phase d of Reading pos n \<Rightarrow> d\<lparr>phase := left_or_idle Reading (pos + 1) (n - 1)\<rparr> | _ \<Rightarrow> d
      else d)"
| "drive_step _ d = d"

definition drive_after :: "drive \<Rightarrow> history \<Rightarrow> drive" where
  "drive_after d0 h = fold drive_step h d0"

definition polled :: "device \<Rightarrow> nat \<Rightarrow> history \<Rightarrow> history" where
  "polled dev n h = ((\<lambda>h. snd (inb dev ATA_PRI_STATUS h)) ^^ n) h"

text \<open>
  A working device: data words are those of the disk; it never reports an error; when it is not
  busy it requests data exactly in the middle of a transfer; and it stops being busy before it
  was polled a million times.
\<close>

definition working :: "drive \<Rightarrow> device \<Rightarrow> bool" where
  "working d0 dev \<longleftrightarrow>
     (\<forall>h pos n. phase (drive_after d0 h) = Reading pos n \<longrightarrow> ucast (dev h ATA_PRI_DATA) = disk (drive_after d0 h) pos) \<and>
     (\<forall>h. (ucast (dev h ATA_PRI_STATUS) :: u8) AND ATA_SR_ERR = 0) \<and>
     (\<forall>h. (ucast (dev h ATA_PRI_STATUS) :: u8) AND ATA_SR_BSY = 0 \<longrightarrow>
        ((ucast (dev h ATA_PRI_STATUS) :: u8) AND ATA_SR_DRQ \<noteq> 0 \<longleftrightarrow> phase (drive_after d0 h) \<noteq> Idle)) \<and>
     (\<forall>h. \<exists>n < 1000000. (ucast (dev (polled dev n h) ATA_PRI_STATUS) :: u8) AND ATA_SR_BSY = 0)"

lemma drive_after_snoc: "drive_after d0 (h @ [e]) = drive_step e (drive_after d0 h)"
  by (simp add: drive_after_def)

lemma drive_after_append: "drive_after d0 (h @ h') = fold drive_step h' (drive_after d0 h)"
  by (simp add: drive_after_def)

lemma in8_keeps: "inb dev p h = (v, h1) \<Longrightarrow> drive_after d0 h1 = drive_after d0 h"
  by (auto simp: inb_def drive_after_snoc Let_def)

lemma wait_reads_keep: "drive_after d0 (((\<lambda>h. snd (inb dev p h)) ^^ n) h) = drive_after d0 h"
  by (induction n) (simp_all add: inb_def Let_def drive_after_snoc)

lemma wait400_keeps [simp]: "drive_after d0 (io_wait_400ns dev h) = drive_after d0 h"
  using wait_reads_keep by (simp add: io_wait_400ns_def)

lemma polled_Suc: "polled dev (Suc n) h = polled dev n (snd (inb dev ATA_PRI_STATUS h))"
  unfolding polled_def funpow_Suc_right o_apply ..

lemma not_busy_loop:
  assumes "(ucast (dev (polled dev k h) ATA_PRI_STATUS) :: u8) AND ATA_SR_BSY = 0" and "k < n"
  shows "\<exists>h1. wait_not_busy_loop n dev h = (True, h1) \<and> drive_after d0 h1 = drive_after d0 h"
  using assms
proof (induction n arbitrary: k h)
  case (Suc n)
  obtain s h1 where i: "inb dev ATA_PRI_STATUS h = (s, h1)" by force
  then have s: "s = ucast (dev h ATA_PRI_STATUS)" by (auto simp: inb_def Let_def)
  show ?case
  proof (cases k)
    case 0
    then show ?thesis using Suc.prems(1) i s in8_keeps [OF i] by (simp add: polled_def)
  next
    case (Suc j)
    have "polled dev k h = polled dev j h1" using i by (simp add: Suc polled_Suc)
    then obtain h2 where "wait_not_busy_loop n dev h1 = (True, h2)" "drive_after d0 h2 = drive_after d0 h1"
      using Suc.IH [of j h1] Suc.prems \<open>k = Suc j\<close> by auto
    then show ?thesis using i in8_keeps [OF i] by simp
  qed
qed simp

lemma wait_not_busy_ok:
  "working d0 dev \<Longrightarrow> \<exists>h1. wait_not_busy dev h = (True, h1) \<and> drive_after d0 h1 = drive_after d0 h"
  unfolding wait_not_busy_def
proof -
  assume "working d0 dev"
  then obtain k where "k < 1000000" "(ucast (dev (polled dev k h) ATA_PRI_STATUS) :: u8) AND ATA_SR_BSY = 0"
    unfolding working_def by blast
  then show "\<exists>h1. wait_not_busy_loop 1000000 dev h = (True, h1) \<and> drive_after d0 h1 = drive_after d0 h"
    by (intro not_busy_loop)
qed

lemma drq_loop:
  assumes w: "working d0 dev" and "(ucast (dev (polled dev k h) ATA_PRI_STATUS) :: u8) AND ATA_SR_BSY = 0" and "k < n"
    and "phase (drive_after d0 h) \<noteq> Idle"
  shows "\<exists>h1. wait_drq_loop n dev h = (True, h1) \<and> drive_after d0 h1 = drive_after d0 h"
  using assms(2-)
proof (induction n arbitrary: k h)
  case (Suc n)
  obtain s h1 where i: "inb dev ATA_PRI_STATUS h = (s, h1)" by force
  then have s: "s = ucast (dev h ATA_PRI_STATUS)" by (auto simp: inb_def Let_def)
  have err: "s AND ATA_SR_ERR = 0" using w s by (simp add: working_def)
  have drq: "s AND ATA_SR_BSY = 0 \<Longrightarrow> s AND ATA_SR_DRQ \<noteq> 0"
    using w s Suc.prems(3) unfolding working_def by blast
  show ?case
  proof (cases "s AND ATA_SR_BSY = 0")
    case True
    then show ?thesis using i err drq in8_keeps [OF i] by simp
  next
    case False
    then obtain j where j: "k = Suc j" using Suc.prems(1) s by (cases k) (simp_all add: polled_def)
    have "polled dev k h = polled dev j h1" using i by (simp add: j polled_Suc)
    then obtain h2 where "wait_drq_loop n dev h1 = (True, h2)" "drive_after d0 h2 = drive_after d0 h1"
      using Suc.IH [of j h1] Suc.prems j in8_keeps [OF i] by auto
    then show ?thesis using i err False in8_keeps [OF i] by simp
  qed
qed simp

lemma wait_drq_ok:
  assumes "working d0 dev" and "phase (drive_after d0 h) \<noteq> Idle"
  shows "\<exists>h1. wait_drq dev h = (True, h1) \<and> drive_after d0 h1 = drive_after d0 h"
proof -
  obtain k where "k < 1000000" "(ucast (dev (polled dev k h) ATA_PRI_STATUS) :: u8) AND ATA_SR_BSY = 0"
    using assms(1) unfolding working_def by blast
  then show ?thesis using drq_loop [OF assms(1) _ _ assms(2)] by (simp add: wait_drq_def)
qed


section \<open>Transfers\<close>

fun write_at :: "(nat \<Rightarrow> 'a) \<Rightarrow> nat \<Rightarrow> 'a list \<Rightarrow> nat \<Rightarrow> 'a" where
  "write_at f pos [] = f"
| "write_at f pos (w # ws) = write_at (f(pos := w)) (Suc pos) ws"

lemma write_at_eq:
  "write_at f pos ws = (\<lambda>i. if pos \<le> i \<and> i < pos + length ws then ws ! (i - pos) else f i)"
proof (induction ws arbitrary: f pos)
  case (Cons w ws)
  show ?case
  proof
    fix i
    show "write_at f pos (w # ws) i = (if pos \<le> i \<and> i < pos + length (w # ws) then (w # ws) ! (i - pos) else f i)"
      using Cons [of "f(pos := w)" "Suc pos"] by (auto simp: nth_Cons' not_le Suc_le_eq fun_upd_def)
  qed
qed (auto simp: fun_eq_iff)

lemma write_at_append: "write_at f pos (xs @ ys) = write_at (write_at f pos xs) (pos + length xs) ys"
  by (induction xs arbitrary: f pos) (simp_all add: fun_upd_def)

lemma read_words_ok:
  assumes w: "working d0 dev" and "drive_after d0 h = d\<lparr>phase := left_or_idle Reading pos k\<rparr>" and "n \<le> k"
  shows "\<exists>h1. read_words n dev h = (map (disk d) [pos..<pos + n], h1) \<and>
           drive_after d0 h1 = d\<lparr>phase := left_or_idle Reading (pos + n) (k - n)\<rparr>"
  using assms(2-)
proof (induction n arbitrary: pos k h)
  case (Suc n)
  obtain v h1 where i: "inw dev ATA_PRI_DATA h = (v, h1)" by force
  have p: "phase (drive_after d0 h) = Reading pos k" using Suc.prems by (simp add: left_or_idle_def)
  then have v: "v = disk d pos" using w i Suc.prems(1) by (auto simp: working_def inw_def Let_def)
  have "drive_after d0 h1 = d\<lparr>phase := left_or_idle Reading (Suc pos) (k - 1)\<rparr>"
    using i p Suc.prems(1) by (auto simp: inw_def Let_def drive_after_snoc)
  moreover have "n \<le> k - 1" using Suc.prems(2) by simp
  ultimately obtain h2 where "read_words n dev h1 = (map (disk d) [Suc pos..<Suc pos + n], h2)"
      "drive_after d0 h2 = d\<lparr>phase := left_or_idle Reading (Suc pos + n) (k - 1 - n)\<rparr>"
    using Suc.IH [of h1 "Suc pos" "k - 1"] by blast
  moreover have "[pos..<Suc (pos + n)] = pos # [Suc pos..<Suc (pos + n)]" by (rule upt_conv_Cons) simp
  ultimately show ?case using i v by (simp del: upt_Suc)
qed simp

lemma write_words_ok:
  assumes "drive_after d0 h = d\<lparr>phase := left_or_idle Writing pos k\<rparr>" and "length ws \<le> k"
  shows "drive_after d0 (write_words ws h) =
           d\<lparr>disk := write_at (disk d) pos ws, phase := left_or_idle Writing (pos + length ws) (k - length ws)\<rparr>"
  using assms
proof (induction ws arbitrary: pos k h d)
  case (Cons w ws)
  have "drive_after d0 (outw ATA_PRI_DATA w h) =
          d\<lparr>disk := (disk d)(pos := w), phase := left_or_idle Writing (Suc pos) (k - 1)\<rparr>"
    using Cons.prems by (simp add: outw_def drive_after_snoc left_or_idle_def)
  then show ?case
    using Cons.IH [of "outw ATA_PRI_DATA w h" "Suc pos" "k - 1" "d\<lparr>disk := (disk d)(pos := w)\<rparr>"] Cons.prems(2)
    by (simp add: fun_upd_def)
qed simp

lemma read_sectors_ok:
  assumes w: "working d0 dev" and "drive_after d0 h = d\<lparr>phase := left_or_idle Reading pos (256 * n)\<rparr>"
  shows "\<exists>h1. read_sectors n dev h = (True, map (disk d) [pos..<pos + 256 * n], h1) \<and>
           drive_after d0 h1 = d\<lparr>phase := Idle\<rparr>"
  using assms(2)
proof (induction n arbitrary: pos h)
  case (Suc n)
  have "phase (drive_after d0 h) \<noteq> Idle" using Suc.prems by (simp add: left_or_idle_def)
  then obtain h1 where h1: "wait_drq dev h = (True, h1)" "drive_after d0 h1 = drive_after d0 h"
    using wait_drq_ok [OF w] by blast
  obtain h2 where h2: "read_words 256 dev h1 = (map (disk d) [pos..<pos + 256], h2)"
      "drive_after d0 h2 = d\<lparr>phase := left_or_idle Reading (pos + 256) (256 * n)\<rparr>"
    using read_words_ok [OF w, of h1 pos "256 * Suc n" d 256] Suc.prems h1(2) by auto
  obtain h3 where h3: "read_sectors n dev (io_wait_400ns dev h2) = (True, map (disk d) [pos + 256..<pos + 256 + 256 * n], h3)"
      "drive_after d0 h3 = d\<lparr>phase := Idle\<rparr>"
    using Suc.IH [of "io_wait_400ns dev h2" "pos + 256"] h2(2) by auto
  have "map (disk d) [pos..<pos + 256] @ map (disk d) [pos + 256..<pos + 256 + 256 * n] = map (disk d) [pos..<pos + 256 * Suc n]"
    using upt_add_eq_append [of pos "pos + 256" "256 * n"] by (simp add: add.assoc flip: map_append)
  then show ?case using h1 h2 h3 by simp
qed (simp add: left_or_idle_def)

lemma write_sectors_ok:
  assumes w: "working d0 dev" and "drive_after d0 h = d\<lparr>phase := left_or_idle Writing pos (256 * n)\<rparr>" and "length ws = 256 * n"
  shows "\<exists>h1. write_sectors n ws dev h = (True, h1) \<and> drive_after d0 h1 = d\<lparr>disk := write_at (disk d) pos ws, phase := Idle\<rparr>"
  using assms(2-)
proof (induction n arbitrary: pos h ws d)
  case (Suc n)
  have "phase (drive_after d0 h) \<noteq> Idle" using Suc.prems by (simp add: left_or_idle_def)
  then obtain h1 where h1: "wait_drq dev h = (True, h1)" "drive_after d0 h1 = drive_after d0 h"
    using wait_drq_ok [OF w] by blast
  define d1 where "d1 = d\<lparr>disk := write_at (disk d) pos (take 256 ws)\<rparr>"
  have h2: "drive_after d0 (write_words (take 256 ws) h1) = d1\<lparr>phase := left_or_idle Writing (pos + 256) (256 * n)\<rparr>"
    using write_words_ok [of d0 h1 pos "256 * Suc n" d "take 256 ws"] h1(2) Suc.prems by (simp add: d1_def)
  obtain h3 where h3: "write_sectors n (drop 256 ws) dev (io_wait_400ns dev (write_words (take 256 ws) h1)) = (True, h3)"
      "drive_after d0 h3 = d1\<lparr>disk := write_at (disk d1) (pos + 256) (drop 256 ws), phase := Idle\<rparr>"
    using Suc.IH [of "io_wait_400ns dev (write_words (take 256 ws) h1)" "pos + 256" d1 "drop 256 ws"] h2 Suc.prems(2) by auto
  have "write_at (disk d1) (pos + 256) (drop 256 ws) = write_at (disk d) pos ws"
    using write_at_append [of "disk d" pos "take 256 ws" "drop 256 ws"] Suc.prems(2) by (simp add: d1_def)
  then show ?case using h1 h3 by (simp add: d1_def)
qed (simp add: left_or_idle_def)


text \<open>What the registers address after a command: the low 28 bits of the block number.\<close>

lemma low_bytes:
  "unat (ucast (x :: u32) :: u8) = unat x mod 2 ^ 8"
  "unat (ucast (drop_bit 8 (x :: u32)) :: u8) = unat x div 2 ^ 8 mod 2 ^ 8"
  "unat (ucast (drop_bit 16 (x :: u32)) :: u8) = unat x div 2 ^ 16 mod 2 ^ 8"
  by (simp_all add: unsigned_ucast_eq unsigned_drop_bit_eq take_bit_eq_mod drop_bit_eq_div unat_div_distrib)

lemma low_nibble: "(ucast ((x :: u32) AND 0x0F) :: u8) AND 0x0F = ucast (take_bit 4 x)"
proof -
  have m: "(0x0F :: u32) = mask 4" "(0x0F :: u8) = mask 4" by (simp_all add: mask_numeral)
  show ?thesis unfolding m by (rule bit_word_eqI) (auto simp: bit_simps)
qed

lemma drive_nibble:
  "unat ((0xE0 OR ucast (drop_bit 24 (x :: u32) AND 0x0F) :: u8) AND 0x0F) = unat x div 2 ^ 24 mod 2 ^ 4"
proof -
  have "(0xE0 OR ucast (drop_bit 24 x AND 0x0F) :: u8) AND 0x0F = ucast (take_bit 4 (drop_bit 24 x))"
    unfolding bit.conj_disj_distrib2 by (simp add: low_nibble)
  then show ?thesis
    by (simp add: unsigned_ucast_eq unsigned_take_bit_eq unsigned_drop_bit_eq take_bit_eq_mod drop_bit_eq_div
        unat_div_distrib unat_mod_distrib mod_less less_le_trans [OF mod_less_divisor])
qed

lemma lba_digits: "n < 2 ^ 28 \<Longrightarrow> n mod 2 ^ 8 + 2 ^ 8 * (n div 2 ^ 8 mod 2 ^ 8) + 2 ^ 16 * (n div 2 ^ 16 mod 2 ^ 8) + 2 ^ 24 * (n div 2 ^ 24 mod 2 ^ 4) = (n :: nat)"
proof -
  assume n: "n < 2 ^ 28"
  define q1 q2 q3 where q: "q1 = n div 2 ^ 8" "q2 = q1 div 2 ^ 8" "q3 = q2 div 2 ^ 8"
  have d: "n div 2 ^ 16 = q2" "n div 2 ^ 24 = q3" by (simp_all add: q flip: div_mult2_eq)
  have "n div 2 ^ 24 < 2 ^ 4" using n by (simp add: less_mult_imp_div_less)
  then have "q3 mod 2 ^ 4 = q3" unfolding d by (rule mod_less)
  moreover have "2 ^ 8 * q1 + n mod 2 ^ 8 = n" "2 ^ 8 * q2 + q1 mod 2 ^ 8 = q1" "2 ^ 8 * q3 + q2 mod 2 ^ 8 = q2"
    unfolding q by (rule mult_div_mod_eq)+
  ultimately show ?thesis unfolding d q(1) [symmetric] by simp
qed

lemma command_sets:
  fixes d0 :: drive and h :: history
  assumes "unat lba < 2 ^ 28" and "count \<noteq> 0" and "cmd = ATA_CMD_READ_PIO \<or> cmd = ATA_CMD_WRITE_PIO"
  defines "d \<equiv> drive_after d0 (ata_command cmd lba count h)"
  shows "phase d = (if cmd = ATA_CMD_READ_PIO then Reading else Writing) (256 * unat lba) (256 * unat count)"
    and "disk d = disk (drive_after d0 h)"
  using assms(1-3) lba_digits [of "unat lba"] low_bytes [of lba] drive_nibble [of lba]
  by (auto simp: d_def ata_command_def outb_def drive_after_append ata_ports addressed_def words_asked_def
      ATA_CMD_READ_PIO_def ATA_CMD_WRITE_PIO_def ATA_CMD_FLUSH_def)

lemma phase_self: "phase d = p \<Longrightarrow> d\<lparr>phase := p\<rparr> = d"
  by (cases d) simp

lemma command_reads:
  assumes "unat lba < 2 ^ 28" and "count \<noteq> 0"
  shows "\<exists>d. drive_after d0 (ata_command ATA_CMD_READ_PIO lba count h) = d\<lparr>phase := Reading (256 * unat lba) (256 * unat count)\<rparr> \<and>
           disk d = disk (drive_after d0 h)"
  using command_sets [OF assms, of ATA_CMD_READ_PIO d0 h]
  by (intro exI [of _ "drive_after d0 (ata_command ATA_CMD_READ_PIO lba count h)"]) (simp add: phase_self)

lemma command_writes:
  assumes "unat lba < 2 ^ 28" and "count \<noteq> 0"
  shows "\<exists>d. drive_after d0 (ata_command ATA_CMD_WRITE_PIO lba count h) = d\<lparr>phase := Writing (256 * unat lba) (256 * unat count)\<rparr> \<and>
           disk d = disk (drive_after d0 h)"
  using command_sets [OF assms, of ATA_CMD_WRITE_PIO d0 h]
  by (intro exI [of _ "drive_after d0 (ata_command ATA_CMD_WRITE_PIO lba count h)"])
    (simp add: phase_self ATA_CMD_READ_PIO_def ATA_CMD_WRITE_PIO_def)

text \<open>The sectors of a transfer: \<open>count\<close> of them, one where \<open>count\<close> is 0.\<close>

definition sector_count :: "u8 \<Rightarrow> nat" where
  "sector_count count = (if count = 0 then 1 else unat count)"

lemma flush_keeps: "disk (drive_after d0 (outb ATA_PRI_COMMAND ATA_CMD_FLUSH h)) = disk (drive_after d0 h)"
  by (simp add: outb_def drive_after_snoc ata_ports ATA_CMD_READ_PIO_def ATA_CMD_WRITE_PIO_def ATA_CMD_FLUSH_def)

lemma ata_read_ok:
  assumes w: "working d0 dev" and "present d" and "unat lba < 2 ^ 28"
  shows "\<exists>h1. ata_read dev d lba count h =
            (True, map (disk (drive_after d0 h)) [256 * unat lba..<256 * unat lba + 256 * sector_count count], h1) \<and>
           disk (drive_after d0 h1) = disk (drive_after d0 h)"
proof -
  define c where "c = (if count = 0 then 1 else count)"
  have c: "c \<noteq> 0" "unat c = sector_count count" "sector_count count \<noteq> 0"
    by (simp_all add: c_def sector_count_def unat_gt_0)
  obtain h1 where h1: "wait_not_busy dev h = (True, h1)" "drive_after d0 h1 = drive_after d0 h"
    using wait_not_busy_ok [OF w] by blast
  obtain e where e: "drive_after d0 (ata_command ATA_CMD_READ_PIO lba c h1) = e\<lparr>phase := Reading (256 * unat lba) (256 * unat c)\<rparr>"
      "disk e = disk (drive_after d0 h)"
    using command_reads [OF assms(3) c(1), of d0 h1] h1 by auto
  show ?thesis
    using read_sectors_ok [OF w, of "ata_command ATA_CMD_READ_PIO lba c h1" "256 * unat lba" "unat c" e] e c h1 assms(2)
    by (auto simp: ata_read_def left_or_idle_def c_def [symmetric])
qed

lemma ata_write_ok:
  assumes w: "working d0 dev" and "present d" and "unat lba < 2 ^ 28" and "length buf = 256 * sector_count count"
  shows "\<exists>h1. ata_write dev d lba count buf h = (True, h1) \<and>
           disk (drive_after d0 h1) = write_at (disk (drive_after d0 h)) (256 * unat lba) buf"
proof -
  define c where "c = (if count = 0 then 1 else count)"
  have c: "c \<noteq> 0" "unat c = sector_count count" "sector_count count \<noteq> 0"
    by (simp_all add: c_def sector_count_def unat_gt_0)
  obtain h1 where h1: "wait_not_busy dev h = (True, h1)" "drive_after d0 h1 = drive_after d0 h"
    using wait_not_busy_ok [OF w] by blast
  obtain e where e: "drive_after d0 (ata_command ATA_CMD_WRITE_PIO lba c h1) = e\<lparr>phase := Writing (256 * unat lba) (256 * unat c)\<rparr>"
      "disk e = disk (drive_after d0 h)"
    using command_writes [OF assms(3) c(1), of d0 h1] h1 by auto
  obtain h2 where h2: "write_sectors (unat c) buf dev (ata_command ATA_CMD_WRITE_PIO lba c h1) = (True, h2)"
      "drive_after d0 h2 = e\<lparr>disk := write_at (disk e) (256 * unat lba) buf, phase := Idle\<rparr>"
    using write_sectors_ok [OF w, of "ata_command ATA_CMD_WRITE_PIO lba c h1" "256 * unat lba" "unat c" e buf] e c assms(4)
    by (auto simp: left_or_idle_def)
  obtain h3 where h3: "wait_not_busy dev h2 = (True, h3)" "drive_after d0 h3 = drive_after d0 h2"
    using wait_not_busy_ok [OF w] by blast
  obtain h4 where h4: "wait_not_busy dev (outb ATA_PRI_COMMAND ATA_CMD_FLUSH h3) = (True, h4)"
      "drive_after d0 h4 = drive_after d0 (outb ATA_PRI_COMMAND ATA_CMD_FLUSH h3)"
    using wait_not_busy_ok [OF w] by blast
  show ?thesis using h1 h2 h3 h4 e assms(2) flush_keeps [of d0 h3] by (simp add: ata_write_def c_def [symmetric])
qed


section \<open>The driver as a block store\<close>

lemma interval_image: "map (\<lambda>i. if a \<le> i \<and> i < a + length xs then xs ! (i - a) else f i) [a..<a + length xs] = xs"
  by (rule nth_equalityI) simp_all

lemma interval_outside:
  "b + n \<le> a \<or> a + length xs \<le> b \<Longrightarrow>
     map (\<lambda>i. if a \<le> i \<and> i < a + length xs then xs ! (i - a) else f i) [b..<b + n] = map f [b..<b + n]"
  by (rule map_cong) auto

lemma sectors_apart:
  "x + m \<le> y \<or> y + n \<le> x \<Longrightarrow> 256 * x + 256 * m \<le> 256 * y \<or> 256 * y + 256 * n \<le> 256 * (x :: nat)"
  by linarith

text \<open>
  C17. On a working drive \<open>ata_write\<close> succeeds and stores its buffer: a following \<open>ata_read\<close> of the
  same sectors succeeds and returns the buffer, and one of sectors apart from those written returns
  what it would have returned before the write.
\<close>

theorem ata_write_then_read:
  assumes "working d0 dev" and "present d" and "unat lba < 2 ^ 28" and "length buf = 256 * sector_count count"
  shows "\<exists>h1 h2. ata_write dev d lba count buf h = (True, h1) \<and> ata_read dev d lba count h1 = (True, buf, h2) \<and>
     (\<forall>lba' count'. unat lba' < 2 ^ 28 \<and>
        (unat lba' + sector_count count' \<le> unat lba \<or> unat lba + sector_count count \<le> unat lba') \<longrightarrow>
        (\<exists>ws h3 h4. ata_read dev d lba' count' h = (True, ws, h3) \<and> ata_read dev d lba' count' h1 = (True, ws, h4)))"
proof -
  obtain h1 where h1: "ata_write dev d lba count buf h = (True, h1)"
      "disk (drive_after d0 h1) = write_at (disk (drive_after d0 h)) (256 * unat lba) buf"
    using ata_write_ok [OF assms] by blast
  obtain h2 where h2: "ata_read dev d lba count h1 = (True, buf, h2)"
    using ata_read_ok [OF assms(1-3), of count h1] h1(2) assms(4)
      interval_image [of "256 * unat lba" buf "disk (drive_after d0 h)"]
    by (auto simp: write_at_eq)
  have "\<exists>ws h3 h4. ata_read dev d lba' count' h = (True, ws, h3) \<and> ata_read dev d lba' count' h1 = (True, ws, h4)"
    if "unat lba' < 2 ^ 28"
      "unat lba' + sector_count count' \<le> unat lba \<or> unat lba + sector_count count \<le> unat lba'" for lba' count'
    using ata_read_ok [OF assms(1,2) that(1), of count' h] ata_read_ok [OF assms(1,2) that(1), of count' h1] h1(2)
      interval_outside [of "256 * unat lba'" "256 * sector_count count'" "256 * unat lba" buf "disk (drive_after d0 h)"]
      sectors_apart [OF that(2)] assms(4)
    by (auto simp: write_at_eq)
  then show ?thesis using h1(1) h2 by blast
qed

text \<open>A drive that is never busy.\<close>

definition ready_drive :: "drive \<Rightarrow> device" where
  "ready_drive d0 h p =
     (if p = ATA_PRI_STATUS then if phase (drive_after d0 h) = Idle then 0x40 else 0x48
      else if p = ATA_PRI_DATA
      then case phase (drive_after d0 h) of Reading pos n \<Rightarrow> ucast (disk (drive_after d0 h) pos) | _ \<Rightarrow> 0
      else 0)"

lemma ready_drive_working: "working d0 (ready_drive d0)"
proof -
  have "ucast (ucast (w :: u16) :: u32) = w" for w by (rule bit_word_eqI) (auto simp: bit_simps)
  moreover have "polled dev 0 h = h" for dev h by (simp add: polled_def)
  ultimately show ?thesis
    unfolding working_def by (auto simp: ready_drive_def ata_ports ATA_SR_BSY_def ATA_SR_DRQ_def ATA_SR_ERR_def intro!: exI [of _ 0])
qed

definition blank_drive :: drive where
  "blank_drive = \<lparr>r_count = 0, r_lba0 = 0, r_lba1 = 0, r_lba2 = 0, r_drive = 0, phase = Idle, disk = (\<lambda>_. 0)\<rparr>"

definition test_disk :: ata_device where
  "test_disk = \<lparr>present = True, sectors = 2048, model = ''QEMU HARDDISK''\<rparr>"

theorem ata_write_then_read_witness:
  "\<exists>h1 h2. ata_write (ready_drive blank_drive) test_disk 103 2 (replicate 512 0xABCD) [] = (True, h1) \<and>
     ata_read (ready_drive blank_drive) test_disk 103 2 h1 = (True, replicate 512 0xABCD, h2)"
  using ata_write_then_read [OF ready_drive_working, where d = test_disk and lba = 103 and count = 2 and h = "[]" and buf = "replicate 512 0xABCD" and ?d0.0 = blank_drive]
  by (auto simp: test_disk_def sector_count_def)

end
