(* ===== verification/Diskfs.thy ===== *)
theory Diskfs
  imports Ata Vfs
begin

text \<open>
  Files kept across reboots, \<^verbatim>\<open>src/kernel/diskfs.cpp\<close>: a superblock of 16
  entries in sectors 100 to 102 and eight sectors for each file from sector 103 on, read and
  written through the driver of theory Ata and restored into the file system of theory Vfs. The
  loops over sectors are lemmas of the interface \<open>sector_store\<close>, which the driver implements on a
  working drive. Buffers that each use fills completely (\<open>g_sector\<close>, \<open>buf\<close>) are not part of
  the state, and the serial log is left out. The lemmas show that a saved file is restored.
\<close>

definition DISKFS_MAGIC :: u32 where "DISKFS_MAGIC = 0x50465356"
definition DISKFS_VERSION :: u32 where "DISKFS_VERSION = 1"
definition DISKFS_MAX_FILES :: nat where "DISKFS_MAX_FILES = 16"
definition DISKFS_FILE_SECTORS :: nat where "DISKFS_FILE_SECTORS = 8"
definition DISKFS_SUPER_LBA :: u32 where "DISKFS_SUPER_LBA = 100"
definition DATA_START_LBA :: u32 where "DATA_START_LBA = 103"
definition SIZEOF_SUPER_BLOCK :: nat where "SIZEOF_SUPER_BLOCK = 1168"

section \<open>The superblock\<close>

record entry =
  epath :: "u8 list"
  esize :: u32
  eflags :: u32

record super_block =
  magic :: u32
  version :: u32
  count :: u32
  reserved :: u32
  entries :: "entry list"

text \<open>The packed structs as bytes.\<close>

definition entry_bytes :: "entry \<Rightarrow> u8 list" where
  "entry_bytes e = epath e @ bytes_of_word 4 (esize e) @ bytes_of_word 4 (eflags e)"

definition super_bytes :: "super_block \<Rightarrow> u8 list" where
  "super_bytes sb = bytes_of_word 4 (magic sb) @ bytes_of_word 4 (version sb) @ bytes_of_word 4 (count sb) @
     bytes_of_word 4 (reserved sb) @ concat (map entry_bytes (entries sb))"

definition entry_of_bytes :: "u8 list \<Rightarrow> entry" where
  "entry_of_bytes bs =
     \<lparr>epath = take 64 bs, esize = word_of_bytes (take 4 (drop 64 bs)), eflags = word_of_bytes (take 4 (drop 68 bs))\<rparr>"

definition super_of_bytes :: "u8 list \<Rightarrow> super_block" where
  "super_of_bytes bs =
     \<lparr>magic = word_of_bytes (take 4 bs), version = word_of_bytes (take 4 (drop 4 bs)),
      count = word_of_bytes (take 4 (drop 8 bs)), reserved = word_of_bytes (take 4 (drop 12 bs)),
      entries = map (\<lambda>i. entry_of_bytes (take 72 (drop (16 + 72 * i) bs))) [0..<16]\<rparr>"

definition super_shape :: "super_block \<Rightarrow> bool" where
  "super_shape sb \<longleftrightarrow> length (entries sb) = 16 \<and> (\<forall>e \<in> set (entries sb). length (epath e) = 64)"

section \<open>Sectors through the driver\<close>

type_synonym disk_io = "device \<times> ata_device \<times> history"

fun words_of_bytes :: "u8 list \<Rightarrow> u16 list" where
  "words_of_bytes (a # b # bs) = word_of_bytes [a, b] # words_of_bytes bs"
| "words_of_bytes bs = []"

definition bytes_of_words :: "u16 list \<Rightarrow> u8 list" where
  "bytes_of_words ws = concat (map (bytes_of_word 2) ws)"

definition sector_read :: "u32 \<Rightarrow> disk_io \<Rightarrow> bool \<times> u8 list \<times> disk_io" where
  "sector_read lba x =
     (case x of (dev, d, h) \<Rightarrow> case ata_read dev d lba 1 h of (ok, ws, h1) \<Rightarrow> (ok, bytes_of_words ws, dev, d, h1))"

definition sector_write :: "u32 \<Rightarrow> u8 list \<Rightarrow> disk_io \<Rightarrow> bool \<times> disk_io" where
  "sector_write lba bs x =
     (case x of (dev, d, h) \<Rightarrow> case ata_write dev d lba 1 (words_of_bytes bs) h of (ok, h1) \<Rightarrow> (ok, dev, d, h1))"

text \<open>
  The loops over consecutive sectors, with a read and a write of one sector as parameters; they
  stop at the first sector that fails, with the bytes of those before it.
\<close>

fun read_blocks :: "(u32 \<Rightarrow> 's \<Rightarrow> bool \<times> u8 list \<times> 's) \<Rightarrow> nat \<Rightarrow> u32 \<Rightarrow> 's \<Rightarrow> bool \<times> u8 list \<times> 's" where
  "read_blocks rd 0 lba s = (True, [], s)"
| "read_blocks rd (Suc n) lba s =
     (case rd lba s of (ok, bs, s1) \<Rightarrow>
        if \<not> ok then (False, [], s1)
        else case read_blocks rd n (lba + 1) s1 of (ok, bs', s2) \<Rightarrow> (ok, bs @ bs', s2))"

fun write_blocks :: "(u32 \<Rightarrow> u8 list \<Rightarrow> 's \<Rightarrow> bool \<times> 's) \<Rightarrow> nat \<Rightarrow> u32 \<Rightarrow> u8 list \<Rightarrow> 's \<Rightarrow> bool \<times> 's" where
  "write_blocks wr 0 lba bs s = (True, s)"
| "write_blocks wr (Suc n) lba bs s =
     (case wr lba (take 512 bs) s of (ok, s1) \<Rightarrow>
        if \<not> ok then (False, s1) else write_blocks wr n (lba + 1) (drop 512 bs) s1)"

section \<open>The operations\<close>

record diskfs =
  g_super :: super_block
  g_loaded :: bool
  fs :: vfs
  io :: disk_io

text \<open>The sectors before one that fails are copied into the superblock.\<close>

definition read_super :: "super_block \<Rightarrow> disk_io \<Rightarrow> bool \<times> super_block \<times> disk_io" where
  "read_super sb x =
     (case read_blocks sector_read 3 DISKFS_SUPER_LBA x of (ok, bs, x1) \<Rightarrow>
        (ok, super_of_bytes (take SIZEOF_SUPER_BLOCK bs @ drop (length bs) (super_bytes sb)), x1))"

definition write_super :: "super_block \<Rightarrow> disk_io \<Rightarrow> bool \<times> disk_io" where
  "write_super sb x =
     write_blocks sector_write 3 DISKFS_SUPER_LBA (super_bytes sb @ replicate (3 * 512 - SIZEOF_SUPER_BLOCK) 0) x"

text \<open>Comparison of C strings in buffers.\<close>

fun s_eq :: "u8 list \<Rightarrow> u8 list \<Rightarrow> bool" where
  "s_eq (a # as) (b # bs) = (if a \<noteq> 0 \<and> b \<noteq> 0 \<and> a = b then s_eq as bs else a = 0 \<and> b = 0)"
| "s_eq as bs = False"

definition entry_at :: "super_block \<Rightarrow> nat \<Rightarrow> u8 list" where
  "entry_at sb i = drop (16 + 72 * i) (super_bytes sb)"

text \<open>\<open>None\<close> where the count of the disk leads past the entries.\<close>

fun find_slot_loop :: "super_block \<Rightarrow> u8 list \<Rightarrow> nat \<Rightarrow> nat \<Rightarrow> int option" where
  "find_slot_loop sb path 0 i = Some (- 1)"
| "find_slot_loop sb path (Suc n) i =
     (if i \<ge> DISKFS_MAX_FILES then None
      else if s_eq (entry_at sb i) path then Some (int i) else find_slot_loop sb path n (i + 1))"

definition find_slot :: "string \<Rightarrow> super_block \<Rightarrow> int option" where
  "find_slot path sb = find_slot_loop sb (bytes_of_string path @ [0]) (unat (count sb)) 0"

definition set_entry :: "nat \<Rightarrow> (entry \<Rightarrow> entry) \<Rightarrow> super_block \<Rightarrow> super_block" where
  "set_entry i f sb = sb\<lparr>entries := (entries sb)[i := f (entries sb ! i)]\<rparr>"

definition alloc_slot :: "string \<Rightarrow> super_block \<Rightarrow> int \<times> super_block" where
  "alloc_slot path sb =
     (if count sb \<ge> of_nat DISKFS_MAX_FILES then (- 1, sb)
      else let idx = unat (count sb);
               n = (if length path \<ge> 64 then 63 else length path);
               put = (\<lambda>old. take n (bytes_of_string path) @ [0] @ drop (n + 1) old)
           in (int idx, set_entry idx (\<lambda>e. e\<lparr>epath := put (epath e), esize := 0, eflags := 0\<rparr>) (sb\<lparr>count := count sb + 1\<rparr>)))"

text \<open>The walk to a node that exists; 0 is null.\<close>

partial_function (option) ensure_loop :: "(u64 \<Rightarrow> vfs_node) \<Rightarrow> u64 \<Rightarrow> string \<Rightarrow> u64 option" where
  "ensure_loop nd cur p =
     (if p = [] then Some cur
      else Option.bind (find_child nd (fst (read_comp 31 p)) (first_child (nd cur)))
             (\<lambda>child. if child = 0 then Some 0
                      else ensure_loop nd child (skip_slash (snd (read_comp 31 p)))))"

definition ensure_home_file :: "string \<Rightarrow> vfs \<Rightarrow> u64 option" where
  "ensure_home_file path s =
     (case path of
        [] \<Rightarrow> Some 0
      | c # p \<Rightarrow> if c \<noteq> CHR ''/'' then Some 0
                 else if vfs_root s = 0 then Some 0
                 else ensure_loop (nodes s) (vfs_root s) p)"

text \<open>The path of an entry as a C string; \<open>None\<close> where no NUL follows in the superblock.\<close>

definition entry_string :: "super_block \<Rightarrow> nat \<Rightarrow> string option" where
  "entry_string sb i =
     (if 0 \<in> set (entry_at sb i) then Some (map (\<lambda>b. char_of (unat b)) (takeWhile (\<lambda>b. b \<noteq> 0) (entry_at sb i))) else None)"

definition file_lba :: "nat \<Rightarrow> u32" where
  "file_lba i = DATA_START_LBA + of_nat i * of_nat DISKFS_FILE_SECTORS"

definition cap_size :: "u32 \<Rightarrow> u32" where
  "cap_size n = (if n > of_nat (DISKFS_FILE_SECTORS * 512) then of_nat (DISKFS_FILE_SECTORS * 512) else n)"

text \<open>One turn of the restoring loop.\<close>

definition restore_entry :: "nat \<Rightarrow> diskfs \<Rightarrow> diskfs option" where
  "restore_entry i k =
     (let e = entries (g_super k) ! i
      in if esize e = 0 \<or> epath e ! 0 = 0 then Some k
         else Option.bind (entry_string (g_super k) i) (\<lambda>path.
              Option.bind (ensure_home_file path (fs k)) (\<lambda>n.
                if n = 0 then Some k
                else case read_blocks sector_read DISKFS_FILE_SECTORS (file_lba i) (io k) of (ok, buf, x) \<Rightarrow>
                     let k1 = k\<lparr>io := x\<rparr>
                     in if \<not> ok then Some k1
                        else map_option (\<lambda>w. k1\<lparr>fs := snd w\<rparr>) (vfs_write n buf (cap_size (esize e)) (fs k1)))))"

fun restore_loop :: "nat \<Rightarrow> nat \<Rightarrow> diskfs \<Rightarrow> diskfs option" where
  "restore_loop 0 i k = Some k"
| "restore_loop (Suc n) i k =
     (if i \<ge> DISKFS_MAX_FILES then None else Option.bind (restore_entry i k) (restore_loop n (i + 1)))"

definition blank_super :: super_block where
  "blank_super = \<lparr>magic = DISKFS_MAGIC, version = DISKFS_VERSION, count = 0, reserved = 0,
     entries = replicate DISKFS_MAX_FILES \<lparr>epath = replicate 64 0, esize = 0, eflags = 0\<rparr>\<rparr>"

definition diskfs_init :: "diskfs \<Rightarrow> diskfs option" where
  "diskfs_init k =
     (case read_super (g_super k) (io k) of (ok, sb, x) \<Rightarrow>
        let k1 = k\<lparr>g_super := sb, io := x\<rparr>
        in if \<not> ok then Some k1
           else if magic sb \<noteq> DISKFS_MAGIC \<or> version sb \<noteq> DISKFS_VERSION
           then Some (k1\<lparr>g_super := blank_super, io := snd (write_super blank_super x), g_loaded := True\<rparr>)
           else map_option (\<lambda>k2. k2\<lparr>g_loaded := True\<rparr>) (restore_loop (unat (count sb)) 0 k1))"

definition file_image :: "u64 \<Rightarrow> u32 \<Rightarrow> vfs \<Rightarrow> u8 list" where
  "file_image file sz s =
     read_bytes (hmem (vheap s)) (ncontent (nodes s file)) (unat sz) @ replicate (DISKFS_FILE_SECTORS * 512 - unat sz) 0"

definition diskfs_save :: "u64 \<Rightarrow> diskfs \<Rightarrow> (bool \<times> diskfs) option" where
  "diskfs_save file k =
     (if file = 0 \<or> \<not> g_loaded k then Some (False, k)
      else let path = vfs_path_of file 64 (fs k)
      in Option.bind (find_slot path (g_super k)) (\<lambda>found.
         case (if found < 0 then alloc_slot path (g_super k) else (found, g_super k)) of (idx, sb) \<Rightarrow>
         if idx < 0 then Some (False, k\<lparr>g_super := sb\<rparr>)
         else let sz = cap_size (nlen (nodes (fs k) file));
                  sb1 = set_entry (nat idx) (\<lambda>e. e\<lparr>esize := sz\<rparr>) sb
              in case write_blocks sector_write DISKFS_FILE_SECTORS (file_lba (nat idx)) (file_image file sz (fs k)) (io k) of (ok, x) \<Rightarrow>
                   if \<not> ok then Some (False, k\<lparr>g_super := sb1, io := x\<rparr>)
                   else case write_super sb1 x of (ok, x1) \<Rightarrow> Some (ok, k\<lparr>g_super := sb1, io := x1\<rparr>)))"


section \<open>A store of sectors\<close>

text \<open>
  What a client of the driver relies on: in a good state, reads give the sectors and change none,
  and writes change the sector that is written.
\<close>

locale sector_store =
  fixes ok :: "'s \<Rightarrow> bool" and block :: "'s \<Rightarrow> nat \<Rightarrow> u8 list"
    and rd :: "u32 \<Rightarrow> 's \<Rightarrow> bool \<times> u8 list \<times> 's" and wr :: "u32 \<Rightarrow> u8 list \<Rightarrow> 's \<Rightarrow> bool \<times> 's"
  assumes rd_ok: "ok s \<Longrightarrow> unat lba < 2 ^ 28 \<Longrightarrow>
      \<exists>s'. rd lba s = (True, block s (unat lba), s') \<and> ok s' \<and> block s' = block s"
    and wr_ok: "ok s \<Longrightarrow> unat lba < 2 ^ 28 \<Longrightarrow> length bs = 512 \<Longrightarrow>
      \<exists>s'. wr lba bs s = (True, s') \<and> ok s' \<and> block s' = (block s)(unat lba := bs)"
    and length_block: "length (block s b) = 512"
begin

lemma read_run:
  assumes "ok s" and "unat lba + n < 2 ^ 28"
  shows "\<exists>s'. read_blocks rd n lba s = (True, concat (map (block s) [unat lba..<unat lba + n]), s') \<and> ok s' \<and> block s' = block s"
  using assms
proof (induction n arbitrary: lba s)
  case (Suc n)
  have u: "unat (lba + 1) = unat lba + 1" using Suc.prems(2) by (simp add: unat_word_ariths)
  obtain s1 where s1: "rd lba s = (True, block s (unat lba), s1)" "ok s1" "block s1 = block s"
    using rd_ok [of s lba] Suc.prems by auto
  obtain s2 where s2: "read_blocks rd n (lba + 1) s1 = (True, concat (map (block s) [unat lba + 1..<unat lba + 1 + n]), s2)"
      "ok s2" "block s2 = block s"
    using Suc.IH [of s1 "lba + 1"] Suc.prems(2) s1 u by auto
  have "[unat lba..<unat lba + Suc n] = unat lba # [unat lba + 1..<unat lba + 1 + n]" by (simp add: upt_conv_Cons del: upt_Suc)
  then show ?case using s1 s2 by (simp del: upt_Suc)
qed simp

lemma write_run:
  assumes "ok s" and "unat lba + n < 2 ^ 28" and "length bs = 512 * n"
  shows "\<exists>s'. write_blocks wr n lba bs s = (True, s') \<and> ok s' \<and>
    concat (map (block s') [unat lba..<unat lba + n]) = bs \<and>
    (\<forall>b. b < unat lba \<or> unat lba + n \<le> b \<longrightarrow> block s' b = block s b)"
  using assms
proof (induction n arbitrary: lba s bs)
  case (Suc n)
  have u: "unat (lba + 1) = unat lba + 1" using Suc.prems(2) by (simp add: unat_word_ariths)
  obtain s1 where s1: "wr lba (take 512 bs) s = (True, s1)" "ok s1" "block s1 = (block s)(unat lba := take 512 bs)"
    using wr_ok [of s lba "take 512 bs"] Suc.prems by auto
  obtain s2 where s2: "write_blocks wr n (lba + 1) (drop 512 bs) s1 = (True, s2)" "ok s2"
      "concat (map (block s2) [unat lba + 1..<unat lba + 1 + n]) = drop 512 bs"
      "\<forall>b. b < unat lba + 1 \<or> unat lba + 1 + n \<le> b \<longrightarrow> block s2 b = block s1 b"
    using Suc.IH [of s1 "lba + 1" "drop 512 bs"] Suc.prems(2,3) s1 u by auto
  have "[unat lba..<unat lba + Suc n] = unat lba # [unat lba + 1..<unat lba + 1 + n]" by (simp add: upt_conv_Cons del: upt_Suc)
  moreover have "block s2 (unat lba) = take 512 bs" using s2(4) s1(3) by simp
  ultimately have "concat (map (block s2) [unat lba..<unat lba + Suc n]) = bs" using s2(3) by (simp del: upt_Suc)
  then show ?case using s1 s2 by (auto simp del: upt_Suc)
qed simp

lemma length_run: "length (concat (map (block s) [a..<a + n])) = 512 * n"
proof -
  have "length (concat (map (block s) xs)) = 512 * length xs" for xs
    by (induction xs) (simp_all add: length_block)
  then show ?thesis by simp
qed

end

section \<open>Bytes and words of a sector\<close>

lemma words_bytes_roundtrip: "even (length bs) \<Longrightarrow> bytes_of_words (words_of_bytes bs) = bs"
proof (induction bs rule: words_of_bytes.induct)
  case (1 a b bs)
  have "ucast (ucast a OR push_bit 8 (ucast b OR push_bit 8 0) :: u16) = a"
       "ucast (drop_bit 8 (ucast a OR push_bit 8 (ucast b OR push_bit 8 0) :: u16)) = b"
    by (rule bit_word_eqI; auto simp: bit_simps dest: bit_imp_le_length)+
  then have "bytes_of_word 2 (word_of_bytes [a, b] :: u16) = [a, b]" by (simp add: numeral_2_eq_2)
  then show ?case using 1 by (simp add: bytes_of_words_def)
qed (auto simp: bytes_of_words_def)

lemma length_words_of_bytes: "length (words_of_bytes bs) = length bs div 2"
  by (induction bs rule: words_of_bytes.induct) auto

lemma length_bytes_of_words: "length (bytes_of_words ws) = 2 * length ws"
  by (induction ws) (simp_all add: bytes_of_words_def)

definition disk_block :: "drive \<Rightarrow> disk_io \<Rightarrow> nat \<Rightarrow> u8 list" where
  "disk_block d0 x b = (case x of (dev, d, h) \<Rightarrow> bytes_of_words (map (disk (drive_after d0 h)) [256 * b..<256 * b + 256]))"

definition disk_ok :: "drive \<Rightarrow> disk_io \<Rightarrow> bool" where
  "disk_ok d0 x = (case x of (dev, d, h) \<Rightarrow> working d0 dev \<and> present d)"


lemma sector_read_ok:
  assumes "disk_ok d0 x" and "unat lba < 2 ^ 28"
  shows "\<exists>x'. sector_read lba x = (True, disk_block d0 x (unat lba), x') \<and> disk_ok d0 x' \<and> disk_block d0 x' = disk_block d0 x"
proof -
  obtain dev d h where x: "x = (dev, d, h)" by (cases x) auto
  then obtain h1 where "ata_read dev d lba 1 h = (True, map (disk (drive_after d0 h)) [256 * unat lba..<256 * unat lba + 256], h1)"
      "disk (drive_after d0 h1) = disk (drive_after d0 h)"
    using assms ata_read_ok [of d0 dev d lba 1 h] by (auto simp: disk_ok_def sector_count_def)
  moreover from this have "disk_block d0 (dev, d, h1) = disk_block d0 x" by (intro ext) (simp add: disk_block_def x)
  ultimately show ?thesis using assms(1) x by (simp add: sector_read_def disk_ok_def) (simp add: disk_block_def)
qed

lemma block_of_write:
  assumes "length ws = 256"
  shows "bytes_of_words (map (write_at f (256 * a) ws) [256 * b..<256 * b + 256]) =
    (if b = a then bytes_of_words ws else bytes_of_words (map f [256 * b..<256 * b + 256]))"
proof (cases "b = a")
  case True
  then show ?thesis using interval_image [of "256 * a" ws f] assms by (simp add: write_at_eq)
next
  case False
  then have "256 * b + 256 \<le> 256 * a \<or> 256 * a + length ws \<le> 256 * b" using assms by simp linarith
  from interval_outside [OF this, of f] show ?thesis using False by (simp only: write_at_eq if_False)
qed

lemma sector_write_ok:
  assumes "disk_ok d0 x" and "unat lba < 2 ^ 28" and "length bs = 512"
  shows "\<exists>x'. sector_write lba bs x = (True, x') \<and> disk_ok d0 x' \<and> disk_block d0 x' = (disk_block d0 x)(unat lba := bs)"
proof -
  obtain dev d h where x: "x = (dev, d, h)" by (cases x) auto
  have l: "length (words_of_bytes bs) = 256" using assms(3) by (simp add: length_words_of_bytes)
  then obtain h1 where h1: "ata_write dev d lba 1 (words_of_bytes bs) h = (True, h1)"
      "disk (drive_after d0 h1) = write_at (disk (drive_after d0 h)) (256 * unat lba) (words_of_bytes bs)"
    using assms(1,2) x ata_write_ok [of d0 dev d lba "words_of_bytes bs" 1 h] by (auto simp: disk_ok_def sector_count_def)
  have "disk_block d0 (dev, d, h1) = (disk_block d0 x)(unat lba := bs)"
    by (rule ext) (simp add: disk_block_def x h1(2) block_of_write [OF l] words_bytes_roundtrip assms(3))
  then show ?thesis using h1(1) assms(1) x by (auto simp: sector_write_def disk_ok_def)
qed

lemma length_disk_block: "length (disk_block d0 x b) = 512"
  by (cases x) (simp add: disk_block_def length_bytes_of_words)

interpretation ata: sector_store "disk_ok d0" "disk_block d0" sector_read sector_write for d0
  by unfold_locales (use sector_read_ok sector_write_ok length_disk_block in blast)+

section \<open>The superblock on disk\<close>

lemma length_super_bytes: "super_shape sb \<Longrightarrow> length (super_bytes sb) = 1168"
proof -
  have "\<forall>e \<in> set es. length (epath e) = 64 \<Longrightarrow> length (concat (map entry_bytes es)) = 72 * length es" for es
    by (induction es) (simp_all add: entry_bytes_def)
  then show "super_shape sb \<Longrightarrow> length (super_bytes sb) = 1168" by (simp add: super_shape_def super_bytes_def)
qed

lemma entry_bytes_roundtrip: "length (epath e) = 64 \<Longrightarrow> entry_of_bytes (entry_bytes e) = e"
  by (cases e) (simp add: entry_of_bytes_def entry_bytes_def bytes_word_roundtrip)

lemma concat_block:
  assumes "\<forall>x \<in> set xs. length (f x) = k" and "i < length xs"
  shows "take k (drop (k * i) (concat (map f xs))) = f (xs ! i)"
  using assms
proof (induction xs arbitrary: i)
  case (Cons x xs)
  then show ?case by (cases i) simp_all
qed simp

lemma super_roundtrip:
  assumes "super_shape sb"
  shows "super_of_bytes (super_bytes sb) = sb"
proof -
  have e: "take 72 (drop (72 * i) (concat (map entry_bytes (entries sb)))) = entry_bytes (entries sb ! i)" if "i < 16" for i
    using that assms by (intro concat_block) (auto simp: super_shape_def entry_bytes_def)
  have "map (\<lambda>i. entry_of_bytes (take 72 (drop (16 + 72 * i) (super_bytes sb)))) [0..<16] = entries sb"
  proof (rule nth_equalityI)
    fix i assume "i < length (map (\<lambda>i. entry_of_bytes (take 72 (drop (16 + 72 * i) (super_bytes sb)))) [0..<16])"
    then show "map (\<lambda>i. entry_of_bytes (take 72 (drop (16 + 72 * i) (super_bytes sb)))) [0..<16] ! i = entries sb ! i"
      using e [of i] assms by (simp add: super_bytes_def super_shape_def entry_bytes_roundtrip)
  qed (use assms in \<open>simp add: super_shape_def\<close>)
  then show ?thesis by (cases sb) (simp add: super_of_bytes_def super_bytes_def bytes_word_roundtrip)
qed

text \<open>The superblock of a disk, and the bytes it keeps for an entry.\<close>

definition disk_super :: "drive \<Rightarrow> disk_io \<Rightarrow> super_block" where
  "disk_super d0 x = super_of_bytes (take 1168 (concat (map (disk_block d0 x) [100..<103])))"

definition disk_file :: "drive \<Rightarrow> disk_io \<Rightarrow> nat \<Rightarrow> u8 list" where
  "disk_file d0 x i = concat (map (disk_block d0 x) [103 + 8 * i..<103 + 8 * i + 8])"


lemma length_disk_run: "length (concat (map (disk_block d0 x) [a..<b])) = 512 * (b - a)"
  using ata.length_run [of d0 x a "b - a"] by (cases "a \<le> b") simp_all

lemma super_of_bytes_shape: "1168 \<le> length bs \<Longrightarrow> super_shape (super_of_bytes bs)"
  by (auto simp: super_shape_def super_of_bytes_def entry_of_bytes_def)

lemma disk_super_shape: "super_shape (disk_super d0 x)"
  unfolding disk_super_def by (rule super_of_bytes_shape) (simp add: length_disk_run del: upt_Suc upt_rec_numeral)

lemma read_super_ok:
  assumes "disk_ok d0 x" and "super_shape sb"
  shows "\<exists>x'. read_super sb x = (True, disk_super d0 x, x') \<and> disk_ok d0 x' \<and> disk_block d0 x' = disk_block d0 x"
proof -
  define bs where "bs = concat (map (disk_block d0 x) [100..<103])"
  have "length bs = 1536" by (simp add: bs_def length_disk_run del: upt_rec_numeral)
  moreover obtain x' where "read_blocks sector_read 3 DISKFS_SUPER_LBA x = (True, bs, x')" "disk_ok d0 x'" "disk_block d0 x' = disk_block d0 x"
    using ata.read_run [OF assms(1), of DISKFS_SUPER_LBA 3] by (auto simp: bs_def DISKFS_SUPER_LBA_def simp del: upt_rec_numeral)
  moreover have "disk_super d0 x = super_of_bytes (take 1168 bs)" by (simp only: disk_super_def bs_def)
  ultimately show ?thesis using length_super_bytes [OF assms(2)]
    by (simp add: read_super_def SIZEOF_SUPER_BLOCK_def)
qed

lemma write_super_ok:
  assumes "disk_ok d0 x" and "super_shape sb"
  shows "\<exists>x'. write_super sb x = (True, x') \<and> disk_ok d0 x' \<and> disk_super d0 x' = sb \<and> disk_file d0 x' = disk_file d0 x"
proof -
  define bs where "bs = super_bytes sb @ replicate (3 * 512 - SIZEOF_SUPER_BLOCK) 0"
  have l: "length bs = 512 * 3" "take 1168 bs = super_bytes sb"
    using length_super_bytes [OF assms(2)] by (simp_all add: bs_def SIZEOF_SUPER_BLOCK_def)
  have lba: "unat DISKFS_SUPER_LBA = 100" by (simp add: DISKFS_SUPER_LBA_def)
  obtain x' where x': "write_blocks sector_write 3 DISKFS_SUPER_LBA bs x = (True, x')" "disk_ok d0 x'"
      "concat (map (disk_block d0 x') [100..<100 + 3]) = bs"
      "\<forall>b. b < 100 \<or> 100 + 3 \<le> b \<longrightarrow> disk_block d0 x' b = disk_block d0 x b"
    using ata.write_run [OF assms(1), of DISKFS_SUPER_LBA 3 bs] l(1) unfolding lba by (auto simp del: upt_rec_numeral)
  have "disk_file d0 x' = disk_file d0 x"
    unfolding disk_file_def by (intro ext arg_cong [of _ _ concat] map_cong refl) (simp add: x'(4))
  moreover have "disk_super d0 x' = sb"
    using x'(3) l(2) super_roundtrip [OF assms(2)] by (simp add: disk_super_def del: upt_rec_numeral)
  ultimately show ?thesis using x'(1,2) by (simp add: write_super_def bs_def)
qed

lemma unat_file_lba: "i < 16 \<Longrightarrow> unat (file_lba i) = 103 + 8 * i"
proof -
  assume i: "i < 16"
  have "file_lba i = of_nat (103 + 8 * i)" by (simp add: file_lba_def DATA_START_LBA_def DISKFS_FILE_SECTORS_def mult.commute)
  then show "unat (file_lba i) = 103 + 8 * i" using i by (simp only: unat_of_nat) simp
qed

lemma write_file_ok:
  assumes "disk_ok d0 x" and "i < 16" and "length buf = 4096"
  shows "\<exists>x'. write_blocks sector_write DISKFS_FILE_SECTORS (file_lba i) buf x = (True, x') \<and> disk_ok d0 x' \<and>
     disk_file d0 x' i = buf \<and> (\<forall>j. j \<noteq> i \<longrightarrow> disk_file d0 x' j = disk_file d0 x j)"
proof -
  obtain x' where x': "write_blocks sector_write DISKFS_FILE_SECTORS (file_lba i) buf x = (True, x')" "disk_ok d0 x'"
      "concat (map (disk_block d0 x') [103 + 8 * i..<103 + 8 * i + 8]) = buf"
      "\<forall>b. b < 103 + 8 * i \<or> 103 + 8 * i + 8 \<le> b \<longrightarrow> disk_block d0 x' b = disk_block d0 x b"
    using ata.write_run [OF assms(1), of "file_lba i" 8 buf] assms(2,3) unat_file_lba [OF assms(2)]
    by (auto simp: DISKFS_FILE_SECTORS_def simp del: upt_Suc)
  have "disk_file d0 x' j = disk_file d0 x j" if "j \<noteq> i" for j
  proof -
    have "8 * j + 8 \<le> 8 * i \<or> 8 * i + 8 \<le> 8 * j" using that by linarith
    then show ?thesis
      unfolding disk_file_def by (intro arg_cong [of _ _ concat] map_cong refl) (use x'(4) in auto)
  qed
  then show ?thesis using x' by (simp add: disk_file_def)
qed

lemma read_file_ok:
  assumes "disk_ok d0 x" and "i < 16"
  shows "\<exists>x'. read_blocks sector_read DISKFS_FILE_SECTORS (file_lba i) x = (True, disk_file d0 x i, x') \<and>
     disk_ok d0 x' \<and> disk_block d0 x' = disk_block d0 x"
  using ata.read_run [OF assms(1), of "file_lba i" 8] assms(2) unat_file_lba [OF assms(2)]
  by (auto simp: DISKFS_FILE_SECTORS_def disk_file_def simp del: upt_Suc)


section \<open>Slots\<close>

definition has_path :: "entry \<Rightarrow> string \<Rightarrow> bool" where
  "has_path e p \<longleftrightarrow> take (length p + 1) (epath e) = bytes_of_string p @ [0]"

lemma s_eq_iff:
  "0 \<notin> set bs \<Longrightarrow> length bs < length as \<Longrightarrow> s_eq as (bs @ [0]) \<longleftrightarrow> take (length bs + 1) as = bs @ [0]"
proof (induction bs arbitrary: as)
  case Nil
  then show ?case by (cases as) auto
next
  case (Cons b bs)
  then show ?case by (cases as) auto
qed

lemma entry_at_split:
  assumes "super_shape sb" and "i < 16"
  shows "\<exists>rest. entry_at sb i = epath (entries sb ! i) @ rest" and "length (epath (entries sb ! i)) = 64"
proof -
  have "take 72 (drop (72 * i) (concat (map entry_bytes (entries sb)))) = entry_bytes (entries sb ! i)"
    using assms by (intro concat_block) (auto simp: super_shape_def entry_bytes_def)
  then have "take 72 (entry_at sb i) = entry_bytes (entries sb ! i)" by (simp add: entry_at_def super_bytes_def)
  then have "entry_at sb i = epath (entries sb ! i) @ (bytes_of_word 4 (esize (entries sb ! i)) @
      bytes_of_word 4 (eflags (entries sb ! i)) @ drop 72 (entry_at sb i))"
    by (metis append_assoc append_take_drop_id entry_bytes_def)
  then show "\<exists>rest. entry_at sb i = epath (entries sb ! i) @ rest" by blast
  show "length (epath (entries sb ! i)) = 64" using assms by (simp add: super_shape_def)
qed

lemma no_zero_bytes: "no_nul p \<Longrightarrow> 0 \<notin> set (bytes_of_string p)"
proof -
  have "(of_char c :: u8) = 0 \<longleftrightarrow> c = NUL" for c by (cases c) (auto simp: NUL_def of_char_def)
  then show "no_nul p \<Longrightarrow> 0 \<notin> set (bytes_of_string p)" by (auto simp: bytes_of_string_def)
qed

lemma entry_matches:
  assumes "super_shape sb" and "i < 16" and "no_nul p" and "length p < 64"
  shows "s_eq (entry_at sb i) (bytes_of_string p @ [0]) \<longleftrightarrow> has_path (entries sb ! i) p"
proof -
  obtain rest where "entry_at sb i = epath (entries sb ! i) @ rest" using entry_at_split [OF assms(1,2)] by blast
  then show ?thesis
    using s_eq_iff [OF no_zero_bytes [OF assms(3)], of "entry_at sb i"] entry_at_split(2) [OF assms(1,2)] assms(4)
    by (simp add: has_path_def)
qed

lemma of_char_back: "char_of (unat (of_char c :: u8)) = c"
proof -
  have "unat (of_char c :: u8) = of_char c" by (cases c) simp
  then show ?thesis by simp
qed

lemma entry_string_path:
  assumes "super_shape sb" and "i < 16" and "no_nul p" and "length p < 64" and "has_path (entries sb ! i) p"
  shows "entry_string sb i = Some p"
proof -
  obtain rest where "entry_at sb i = epath (entries sb ! i) @ rest" using entry_at_split [OF assms(1,2)] by blast
  then have e: "entry_at sb i = bytes_of_string p @ 0 # (drop (length p + 1) (epath (entries sb ! i)) @ rest)"
    using assms(5) append_take_drop_id [of "length p + 1" "epath (entries sb ! i)"] by (simp add: has_path_def del: append_take_drop_id)
  have "takeWhile (\<lambda>b. b \<noteq> 0) (entry_at sb i) = bytes_of_string p"
    using no_zero_bytes [OF assms(3)] unfolding e by (subst takeWhile_append2) auto
  then show ?thesis unfolding entry_string_def by (simp add: e bytes_of_string_def of_char_back comp_def)
qed

lemma find_slot_loop_spec:
  assumes "super_shape sb" and "i + n \<le> 16" and "no_nul p" and "length p < 64"
  shows "find_slot_loop sb (bytes_of_string p @ [0]) n i =
    Some (case find (\<lambda>j. has_path (entries sb ! j) p) [i..<i + n] of None \<Rightarrow> - 1 | Some j \<Rightarrow> int j)"
  using assms(2)
proof (induction n arbitrary: i)
  case (Suc n)
  have "[i..<i + Suc n] = i # [i + 1..<i + 1 + n]" by (simp add: upt_conv_Cons del: upt_Suc)
  then show ?case
    using Suc.IH [of "i + 1"] Suc.prems entry_matches [OF assms(1) _ assms(3,4), of i]
    by (simp add: DISKFS_MAX_FILES_def del: upt_Suc)
qed simp

lemma find_slot_spec:
  assumes "super_shape sb" and "unat (count sb) \<le> 16" and "no_nul p" and "length p < 64"
  shows "find_slot p sb =
    Some (case find (\<lambda>j. has_path (entries sb ! j) p) [0..<unat (count sb)] of None \<Rightarrow> - 1 | Some j \<Rightarrow> int j)"
  using find_slot_loop_spec [of sb 0 "unat (count sb)" p] assms by (simp add: find_slot_def)

lemma put_chars_length: "length out < cap \<Longrightarrow> length (put_chars cap out cs) < cap"
  by (induction cap out cs rule: put_chars.induct) auto

lemma put_names_length: "length out < cap \<Longrightarrow> length (put_names cap out ws) < cap"
  by (induction cap out ws rule: put_names.induct) (auto simp: put_chars_length)

lemma path_of_length: "0 < cap \<Longrightarrow> length (vfs_path_of n cap s) < cap"
  using put_names_length [of "[]" cap] by (auto simp: vfs_path_of_def Let_def)


lemma set_entry_shape:
  "super_shape sb \<Longrightarrow> length (epath (f (entries sb ! i))) = 64 \<Longrightarrow> super_shape (set_entry i f sb)"
  by (auto simp: super_shape_def set_entry_def dest!: set_update_subset_insert [THEN subsetD])

lemma set_entry_simps [simp]:
  "magic (set_entry i f sb) = magic sb" "version (set_entry i f sb) = version sb" "count (set_entry i f sb) = count sb"
  "length (entries (set_entry i f sb)) = length (entries sb)"
  "i < length (entries sb) \<Longrightarrow> entries (set_entry i f sb) ! j = (if j = i then f (entries sb ! i) else entries sb ! j)"
  by (auto simp: set_entry_def)

text \<open>A new slot is the one after the last; it carries the path, and the others keep their entries.\<close>

lemma alloc_slot_spec:
  assumes "super_shape sb" and "unat (count sb) < 16" and "length p < 64"
  shows "\<exists>sb'. alloc_slot p sb = (int (unat (count sb)), sb') \<and> super_shape sb' \<and> magic sb' = magic sb \<and> version sb' = version sb \<and>
    unat (count sb') = unat (count sb) + 1 \<and> has_path (entries sb' ! unat (count sb)) p \<and>
    (\<forall>j. j \<noteq> unat (count sb) \<longrightarrow> entries sb' ! j = entries sb ! j)"
proof -
  define i where "i = unat (count sb)"
  define e where "e = entries sb ! i"
  have i: "i < 16" "i < length (entries sb)" "length (epath e) = 64"
    using assms by (auto simp: i_def e_def super_shape_def)
  define e' where "e' = e\<lparr>epath := bytes_of_string p @ [0] @ drop (length p + 1) (epath e), esize := 0, eflags := 0\<rparr>"
  define sb' where "sb' = (sb\<lparr>count := count sb + 1\<rparr>)\<lparr>entries := (entries sb)[i := e']\<rparr>"
  have "\<not> count sb \<ge> of_nat DISKFS_MAX_FILES" using assms(2) by (simp add: DISKFS_MAX_FILES_def word_le_nat_alt)
  then have "alloc_slot p sb = (int i, sb')"
    using assms(3) by (simp add: alloc_slot_def set_entry_def sb'_def e'_def e_def i_def Let_def)
  moreover have "length (epath e') = 64" using i(3) assms(3) by (simp add: e'_def)
  then have "super_shape sb'"
    using assms(1) by (auto simp: super_shape_def sb'_def dest!: set_update_subset_insert [THEN subsetD])
  moreover have "unat (count sb + 1) = i + 1" using assms(2) by (simp add: unat_word_ariths i_def)
  moreover have "has_path e' p" by (simp add: has_path_def e'_def)
  ultimately show ?thesis using i by (intro exI [of _ sb']) (auto simp: sb'_def i_def)
qed

section \<open>Saving\<close>

text \<open>A mounted file system: what \<open>diskfs_init\<close> leaves, and every save keeps.\<close>

definition mounted :: "diskfs \<Rightarrow> bool" where
  "mounted k \<longleftrightarrow> g_loaded k \<and> super_shape (g_super k) \<and> magic (g_super k) = DISKFS_MAGIC \<and>
     version (g_super k) = DISKFS_VERSION \<and> unat (count (g_super k)) \<le> 16"

definition path_known :: "super_block \<Rightarrow> string \<Rightarrow> bool" where
  "path_known sb p \<longleftrightarrow> (\<exists>j < unat (count sb). has_path (entries sb ! j) p)"

text \<open>Entry \<open>i\<close> of the disk is the file \<open>p\<close> with the size and the padded contents \<open>bs\<close>.\<close>

definition file_on_disk :: "drive \<Rightarrow> disk_io \<Rightarrow> nat \<Rightarrow> string \<Rightarrow> u32 \<Rightarrow> u8 list \<Rightarrow> bool" where
  "file_on_disk d0 x i p n bs \<longleftrightarrow> i < unat (count (disk_super d0 x)) \<and> has_path (entries (disk_super d0 x) ! i) p \<and>
     esize (entries (disk_super d0 x) ! i) = n \<and> disk_file d0 x i = bs"

lemma cap_size_le: "unat (cap_size n) \<le> 4096" "unat n \<le> 4096 \<Longrightarrow> cap_size n = n"
  by (auto simp: cap_size_def DISKFS_FILE_SECTORS_def word_less_nat_alt)

lemma length_file_image: "length (file_image f (cap_size n) s) = 4096"
  using cap_size_le(1) [of n] by (simp add: file_image_def DISKFS_FILE_SECTORS_def)

lemma store_file:
  assumes "disk_ok d0 x" and "super_shape sb" and "i < 16" and "length buf = 4096"
  shows "\<exists>x1 x2. write_blocks sector_write DISKFS_FILE_SECTORS (file_lba i) buf x = (True, x1) \<and>
     write_super sb x1 = (True, x2) \<and> disk_ok d0 x2 \<and> disk_super d0 x2 = sb \<and> disk_file d0 x2 i = buf \<and>
     (\<forall>j. j \<noteq> i \<longrightarrow> disk_file d0 x2 j = disk_file d0 x j)"
  using write_file_ok [OF assms(1,3,4)] write_super_ok [OF _ assms(2)] by metis

lemma save_in_slot:
  assumes m: "mounted k" and d: "disk_ok d0 (io k)" and f: "file \<noteq> 0"
    and p: "p = vfs_path_of file 64 (fs k)" "no_nul p" and room: "path_known (g_super k) p \<or> unat (count (g_super k)) < 16"
  shows "\<exists>i sb x. diskfs_save file k = Some (True, k\<lparr>g_super := sb, io := x\<rparr>) \<and> disk_ok d0 x \<and> disk_super d0 x = sb \<and>
     mounted (k\<lparr>g_super := sb, io := x\<rparr>) \<and>
     file_on_disk d0 x i p (cap_size (nlen (nodes (fs k) file))) (file_image file (cap_size (nlen (nodes (fs k) file))) (fs k)) \<and>
     unat (count (g_super k)) \<le> unat (count sb) \<and>
     (\<forall>j < unat (count sb). j \<noteq> i \<longrightarrow> j < unat (count (g_super k)) \<and> entries sb ! j = entries (g_super k) ! j \<and>
        disk_file d0 x j = disk_file d0 (io k) j)"
proof -
  let ?sb = "g_super k" and ?n = "cap_size (nlen (nodes (fs k) file))"
  have sh: "super_shape ?sb" "unat (count ?sb) \<le> 16" using m by (simp_all add: mounted_def)
  have l: "length p < 64" using path_of_length [of 64 "file" "fs k"] p(1) by simp
  define found where "found = (case find (\<lambda>j. has_path (entries ?sb ! j) p) [0..<unat (count ?sb)] of None \<Rightarrow> - 1 | Some j \<Rightarrow> int j)"
  have fs: "find_slot p ?sb = Some found" using find_slot_spec [OF sh p(2) l] by (simp add: found_def)
  have "\<exists>i sb. (if found < 0 then alloc_slot p ?sb else (found, ?sb)) = (int i, sb) \<and> i < 16 \<and> super_shape sb \<and>
      magic sb = magic ?sb \<and> version sb = version ?sb \<and> unat (count ?sb) \<le> unat (count sb) \<and> unat (count sb) \<le> 16 \<and> i < unat (count sb) \<and>
      has_path (entries sb ! i) p \<and> (\<forall>j < unat (count sb). j \<noteq> i \<longrightarrow> j < unat (count ?sb) \<and> entries sb ! j = entries ?sb ! j)"
  proof (cases "find (\<lambda>j. has_path (entries ?sb ! j) p) [0..<unat (count ?sb)]")
    case None
    then have "\<not> path_known ?sb p" by (auto simp: path_known_def find_None_iff)
    then have "unat (count ?sb) < 16" using room by blast
    from alloc_slot_spec [OF sh(1) this l] this None show ?thesis
      by (intro exI [of _ "unat (count ?sb)"]) (auto simp: found_def)
  next
    case (Some j)
    then have "j < unat (count ?sb)" "has_path (entries ?sb ! j) p" by (auto simp: find_Some_iff)
    then show ?thesis using Some sh by (intro exI [of _ j] exI [of _ ?sb]) (auto simp: found_def)
  qed
  then obtain i sb where slot: "(if found < 0 then alloc_slot p ?sb else (found, ?sb)) = (int i, sb)" "i < 16" "super_shape sb"
      "magic sb = magic ?sb" "version sb = version ?sb" "unat (count ?sb) \<le> unat (count sb)" "unat (count sb) \<le> 16" "i < unat (count sb)"
      "has_path (entries sb ! i) p" "\<forall>j < unat (count sb). j \<noteq> i \<longrightarrow> j < unat (count ?sb) \<and> entries sb ! j = entries ?sb ! j" by blast
  define sb1 where "sb1 = set_entry i (\<lambda>e. e\<lparr>esize := ?n\<rparr>) sb"
  have len: "length (entries sb) = 16" "length (epath (entries sb ! i)) = 64" using slot(2,3) by (auto simp: super_shape_def)
  have sb1: "super_shape sb1" "magic sb1 = magic ?sb" "version sb1 = version ?sb" "count sb1 = count sb"
      "entries sb1 ! i = (entries sb ! i)\<lparr>esize := ?n\<rparr>" "\<forall>j. j \<noteq> i \<longrightarrow> entries sb1 ! j = entries sb ! j"
    using slot len by (simp_all add: sb1_def set_entry_shape)
  obtain x1 x2 where w: "write_blocks sector_write DISKFS_FILE_SECTORS (file_lba i) (file_image file ?n (fs k)) (io k) = (True, x1)"
      "write_super sb1 x1 = (True, x2)" "disk_ok d0 x2" "disk_super d0 x2 = sb1" "disk_file d0 x2 i = file_image file ?n (fs k)"
      "\<forall>j. j \<noteq> i \<longrightarrow> disk_file d0 x2 j = disk_file d0 (io k) j"
    using store_file [OF d sb1(1) slot(2) length_file_image] by blast
  have "diskfs_save file k = Some (True, k\<lparr>g_super := sb1, io := x2\<rparr>)"
    using f m slot(1) w(1,2) fs by (simp add: diskfs_save_def mounted_def flip: p(1) sb1_def)
  moreover have "file_on_disk d0 x2 i p ?n (file_image file ?n (fs k))"
    using w(4,5) slot(8,9) sb1(4,5) by (simp add: file_on_disk_def has_path_def)
  moreover have "mounted (k\<lparr>g_super := sb1, io := x2\<rparr>)" using m sb1 slot(7) by (simp add: mounted_def)
  ultimately show ?thesis using w(3,4,6) slot(6,10) sb1(4,6)
    by (intro exI [of _ i] exI [of _ sb1] exI [of _ x2]) auto
qed


section \<open>Restoring\<close>

text \<open>On a well-formed tree the walk of \<open>ensure_home_file\<close> is the lookup of the file system.\<close>

lemma ensure_loop_resolve:
  assumes "tree_ok s N ch" and "d \<in> N"
  shows "ensure_loop (nodes s) d p = Some (resolve (nodes s) ch d (comps p))"
  using assms(2)
proof (induction p arbitrary: d rule: comps.induct)
  case (1 p)
  let ?w = "fst (read_comp 31 p)" and ?r = "skip_slash (snd (read_comp 31 p))"
  have ch: "chain (nodes s) (first_child (nodes s d)) (ch d)" "set (ch d) \<subseteq> N" "ch d \<noteq> [] \<longrightarrow> nkind (nodes s d) = VFS_DIR" and z: "0 \<notin> N"
    using assms(1) "1.prems" by (auto simp: tree_ok_def)
  show ?case
  proof (cases "p = []")
    case True
    then show ?thesis by (simp add: comps.simps [of "[]"] ensure_loop.simps)
  next
    case False
    then have c: "comps p = ?w # comps ?r" by (simp add: comps.simps [of p])
    have un: "ensure_loop (nodes s) d p =
        (let x = (case find (\<lambda>x. nname (nodes s x) = ?w) (ch d) of None \<Rightarrow> 0 | Some x \<Rightarrow> x)
         in if x = 0 then Some 0 else ensure_loop (nodes s) x ?r)"
      using False by (simp add: ensure_loop.simps [of _ d p] find_child_chain [OF ch(1)])
    show ?thesis
    proof (cases "find (\<lambda>x. nname (nodes s x) = ?w) (ch d)")
      case None
      then show ?thesis by (simp add: un c)
    next
      case (Some x)
      then have x: "x \<in> set (ch d)" by (auto simp: find_Some_iff)
      then have "x \<in> N" "x \<noteq> 0" "nkind (nodes s d) = VFS_DIR" using ch z by auto
      then show ?thesis using False Some "1.IH" by (simp add: un c)
    qed
  qed
qed

lemma resolve_in: "tree_ok s N ch \<Longrightarrow> d \<in> N \<Longrightarrow> resolve (nodes s) ch d ws = 0 \<or> resolve (nodes s) ch d ws \<in> N"
proof (induction ws arbitrary: d)
  case (Cons w ws)
  then have "set (ch d) \<subseteq> N" by (auto simp: tree_ok_def)
  moreover have "find P xs = Some x \<Longrightarrow> x \<in> set xs" for P x and xs :: "u64 list" by (auto simp: find_Some_iff)
  ultimately show ?case using Cons by (fastforce split: option.split)
qed simp

lemma lookup_in: "tree_ok s N ch \<Longrightarrow> vfs_lookup path s = Some f \<Longrightarrow> f \<noteq> 0 \<Longrightarrow> f \<in> N"
  using resolve_in [of s N ch "g_root s" "comps (tl path)"] lookup_resolve [of s N ch path]
  by (auto simp: tree_ok_def split: if_splits)

lemma ensure_home_file_lookup:
  assumes "tree_ok s N ch"
  shows "ensure_home_file path s = vfs_lookup path s"
proof -
  have r: "g_root s \<in> N" "g_root s \<noteq> 0" using assms by (auto simp: tree_ok_def)
  then show ?thesis using ensure_loop_resolve [OF assms r(1)] lookup_resolve [OF assms, of path]
    by (cases path) (auto simp: ensure_home_file_def vfs_root_def)
qed

lemma vfs_write_nodes: "vfs_write f data n s = Some (b, s') \<Longrightarrow> g \<noteq> f \<Longrightarrow> nodes s' g = nodes s g"
  by (auto simp: vfs_write_def ensure_cap_def upd_node_def poke_def Let_def split: if_splits option.splits prod.splits)

lemma vfs_write_fits:
  "f \<noteq> 0 \<Longrightarrow> nkind (nodes s f) = VFS_FILE \<Longrightarrow> n + 1 \<le> ncap (nodes s f) \<Longrightarrow> \<exists>s'. vfs_write f data n s = Some (True, s')"
  by (simp add: vfs_write_def ensure_cap_def Let_def)

text \<open>Entry \<open>i\<close> is restored to node \<open>g\<close>.\<close>

definition target :: "super_block \<Rightarrow> vfs \<Rightarrow> nat \<Rightarrow> u64 \<Rightarrow> bool" where
  "target sb s i g \<longleftrightarrow> esize (entries sb ! i) \<noteq> 0 \<and> epath (entries sb ! i) ! 0 \<noteq> 0 \<and>
     (\<exists>path. entry_string sb i = Some path \<and> vfs_lookup path s = Some g)"

definition restored :: "u32 \<Rightarrow> u8 list \<Rightarrow> u64 \<Rightarrow> vfs \<Rightarrow> vfs \<Rightarrow> bool" where
  "restored n bs g s s' \<longleftrightarrow>
     (file_data s' g = take (unat n) bs \<or> file_data s' g = file_data s g) \<and>
     (n + 1 \<le> ncap (nodes s g) \<longrightarrow> file_data s' g = take (unat n) bs)"

definition readable_entry :: "super_block \<Rightarrow> nat \<Rightarrow> bool" where
  "readable_entry sb i \<longleftrightarrow> esize (entries sb ! i) = 0 \<or> epath (entries sb ! i) ! 0 = 0 \<or> entry_string sb i \<noteq> None"

definition keeps :: "drive \<Rightarrow> u64 set \<Rightarrow> (u64 \<Rightarrow> u64 list) \<Rightarrow> diskfs \<Rightarrow> diskfs \<Rightarrow> bool" where
  "keeps d0 N ch k k' \<longleftrightarrow> g_super k' = g_super k \<and> g_loaded k' = g_loaded k \<and> disk_ok d0 (io k') \<and>
     disk_block d0 (io k') = disk_block d0 (io k) \<and> vfs_ok (fs k') N ch \<and> same_tree (fs k) (fs k')"

definition same_file :: "vfs \<Rightarrow> vfs \<Rightarrow> u64 \<Rightarrow> bool" where
  "same_file s s' g \<longleftrightarrow> nodes s' g = nodes s g \<and> file_data s' g = file_data s g"

lemma restore_entry_spec:
  assumes d: "disk_ok d0 (io k)" and i: "i < 16" and v: "vfs_ok (fs k) N ch" and r: "readable_entry (g_super k) i"
  defines "n \<equiv> cap_size (esize (entries (g_super k) ! i))"
  shows "\<exists>k'. restore_entry i k = Some k' \<and> keeps d0 N ch k k' \<and>
    (\<forall>g \<in> N. \<not> target (g_super k) (fs k) i g \<longrightarrow> same_file (fs k) (fs k') g) \<and>
    (\<forall>g \<in> N. target (g_super k) (fs k) i g \<and> nkind (nodes (fs k) g) = VFS_FILE \<longrightarrow>
       restored n (disk_file d0 (io k) i) g (fs k) (fs k'))"
proof (cases "esize (entries (g_super k) ! i) = 0 \<or> epath (entries (g_super k) ! i) ! 0 = 0")
  case True
  then show ?thesis using d v by (auto simp: restore_entry_def keeps_def target_def same_file_def)
next
  case False
  then obtain path where path: "entry_string (g_super k) i = Some path" using r by (auto simp: readable_entry_def)
  have T: "tree_ok (fs k) N ch" using v by (simp add: vfs_ok_def)
  obtain f where f: "vfs_lookup path (fs k) = Some f" using lookup_resolve [OF T] by blast
  have tg: "target (g_super k) (fs k) i g \<longleftrightarrow> g = f" for g using False path f by (auto simp: target_def)
  show ?thesis
  proof (cases "f = 0")
    case True
    then show ?thesis using False path f d v T
      by (auto simp: restore_entry_def ensure_home_file_lookup [OF T] keeps_def same_file_def tg tree_ok_def)
  next
    case f0: False
    obtain x' where x': "read_blocks sector_read DISKFS_FILE_SECTORS (file_lba i) (io k) = (True, disk_file d0 (io k) i, x')"
        "disk_ok d0 x'" "disk_block d0 x' = disk_block d0 (io k)"
      using read_file_ok [OF d i] by blast
    have e: "restore_entry i k = map_option (\<lambda>w. k\<lparr>io := x', fs := snd w\<rparr>) (vfs_write f (disk_file d0 (io k) i) n (fs k))"
      using False path f f0 x'(1) by (simp add: restore_entry_def ensure_home_file_lookup [OF T] n_def Let_def)
    show ?thesis
    proof (cases "f \<in> N \<and> nkind (nodes (fs k) f) = VFS_FILE")
      case True
      have len: "unat n < 2 ^ 31" "unat n \<le> length (disk_file d0 (io k) i)"
        using cap_size_le(1) [of "esize (entries (g_super k) ! i)"] by (simp_all add: n_def disk_file_def length_disk_run del: upt_Suc)
      obtain b s' where w: "vfs_write f (disk_file d0 (io k) i) n (fs k) = Some (b, s')" "vfs_ok s' N ch" "same_tree (fs k) s'"
          "\<forall>g \<in> N. g \<noteq> f \<longrightarrow> file_data s' g = file_data (fs k) g"
          "if b then file_data s' f = take (unat n) (disk_file d0 (io k) i) else s' = fs k"
        using vfs_write_spec [OF v _ _ len] True by blast
      have "n + 1 \<le> ncap (nodes (fs k) f) \<Longrightarrow> b" using vfs_write_fits [OF f0, of "fs k" n "disk_file d0 (io k) i"] True w(1) by auto
      then have "restored n (disk_file d0 (io k) i) f (fs k) s'" using w(5) by (auto simp: restored_def split: if_splits)
      then show ?thesis using e w(1-4) x'(2,3) vfs_write_nodes [OF w(1)] by (auto simp: keeps_def tg same_file_def)
    next
      case no: False
      have "f \<in> N" using lookup_in [OF T f f0] .
      then have "vfs_write f (disk_file d0 (io k) i) n (fs k) = Some (False, fs k)" using no f0 by (simp add: vfs_write_def)
      then show ?thesis using e v x'(2,3) no by (auto simp: keeps_def tg same_file_def)
    qed
  qed
qed


lemma keeps_refl: "disk_ok d0 (io k) \<Longrightarrow> vfs_ok (fs k) N ch \<Longrightarrow> keeps d0 N ch k k"
  by (simp add: keeps_def)

lemma keeps_trans: "keeps d0 N ch k k1 \<Longrightarrow> keeps d0 N ch k1 k2 \<Longrightarrow> keeps d0 N ch k k2"
  by (auto simp: keeps_def intro: same_tree_trans)

lemma same_file_trans: "same_file s s1 g \<Longrightarrow> same_file s1 s2 g \<Longrightarrow> same_file s s2 g"
  by (simp add: same_file_def)

lemma target_keeps: "keeps d0 N ch k k' \<Longrightarrow> vfs_ok (fs k) N ch \<Longrightarrow> target sb (fs k') i g \<longleftrightarrow> target sb (fs k) i g"
  using lookup_same_tree [of "fs k" "fs k'" N ch] by (simp add: keeps_def target_def vfs_ok_def)

lemma disk_file_keeps: "keeps d0 N ch k k' \<Longrightarrow> disk_file d0 (io k') i = disk_file d0 (io k) i"
  by (simp add: keeps_def disk_file_def)

lemma restore_loop_spec:
  assumes "disk_ok d0 (io k)" and "i + n \<le> 16" and "vfs_ok (fs k) N ch"
    and "\<forall>j. i \<le> j \<and> j < i + n \<longrightarrow> readable_entry (g_super k) j"
  shows "\<exists>k'. restore_loop n i k = Some k' \<and> keeps d0 N ch k k' \<and>
    (\<forall>g \<in> N. (\<forall>j. i \<le> j \<and> j < i + n \<longrightarrow> \<not> target (g_super k) (fs k) j g) \<longrightarrow> same_file (fs k) (fs k') g) \<and>
    (\<forall>g \<in> N. \<forall>j. i \<le> j \<and> j < i + n \<and> target (g_super k) (fs k) j g \<and> nkind (nodes (fs k) g) = VFS_FILE \<and>
       (\<forall>l. i \<le> l \<and> l < i + n \<and> l \<noteq> j \<longrightarrow> \<not> target (g_super k) (fs k) l g) \<longrightarrow>
       restored (cap_size (esize (entries (g_super k) ! j))) (disk_file d0 (io k) j) g (fs k) (fs k'))"
  using assms
proof (induction n arbitrary: i k)
  case 0
  then show ?case by (auto simp: keeps_refl same_file_def)
next
  case (Suc n)
  let ?t = "target (g_super k) (fs k)"
  obtain k1 where k1: "restore_entry i k = Some k1" "keeps d0 N ch k k1"
      "\<forall>g \<in> N. \<not> ?t i g \<longrightarrow> same_file (fs k) (fs k1) g"
      "\<forall>g \<in> N. ?t i g \<and> nkind (nodes (fs k) g) = VFS_FILE \<longrightarrow>
         restored (cap_size (esize (entries (g_super k) ! i))) (disk_file d0 (io k) i) g (fs k) (fs k1)"
    using restore_entry_spec [of d0 k i N ch] Suc.prems by auto
  have eq: "g_super k1 = g_super k" "disk_ok d0 (io k1)" "vfs_ok (fs k1) N ch" using k1(2) by (auto simp: keeps_def)
  have t1: "target (g_super k) (fs k1) j g \<longleftrightarrow> ?t j g" for j g
    by (rule target_keeps [OF k1(2) Suc.prems(3)])
  have kind: "nkind (nodes (fs k1) g) = nkind (nodes (fs k) g)" for g using k1(2) by (simp add: keeps_def same_tree_def)
  obtain k2 where k2: "restore_loop n (i + 1) k1 = Some k2" "keeps d0 N ch k1 k2"
      "\<forall>g \<in> N. (\<forall>j. i + 1 \<le> j \<and> j < i + 1 + n \<longrightarrow> \<not> ?t j g) \<longrightarrow> same_file (fs k1) (fs k2) g"
      "\<forall>g \<in> N. \<forall>j. i + 1 \<le> j \<and> j < i + 1 + n \<and> ?t j g \<and> nkind (nodes (fs k) g) = VFS_FILE \<and>
         (\<forall>l. i + 1 \<le> l \<and> l < i + 1 + n \<and> l \<noteq> j \<longrightarrow> \<not> ?t l g) \<longrightarrow>
         restored (cap_size (esize (entries (g_super k) ! j))) (disk_file d0 (io k) j) g (fs k1) (fs k2)"
    using Suc.IH [of k1 "i + 1"] Suc.prems(2,4) eq(2,3) unfolding eq(1) t1 kind disk_file_keeps [OF k1(2)] by auto
  have unt: "same_file (fs k) (fs k2) g" if "g \<in> N" "\<forall>j. i \<le> j \<and> j < i + Suc n \<longrightarrow> \<not> ?t j g" for g
  proof (rule same_file_trans)
    show "same_file (fs k) (fs k1) g" using that k1(3) by auto
    show "same_file (fs k1) (fs k2) g" using that k2(3) by auto
  qed
  have tgt: "restored (cap_size (esize (entries (g_super k) ! j))) (disk_file d0 (io k) j) g (fs k) (fs k2)"
    if g: "g \<in> N" "nkind (nodes (fs k) g) = VFS_FILE" and j: "i \<le> j" "j < i + Suc n" "?t j g"
      and others: "\<forall>l. i \<le> l \<and> l < i + Suc n \<and> l \<noteq> j \<longrightarrow> \<not> ?t l g" for g j
  proof (cases "j = i")
    case True
    then have "same_file (fs k1) (fs k2) g" using k2(3) g(1) others by auto
    then show ?thesis using k1(4) g j(3) True by (simp add: restored_def same_file_def)
  next
    case False
    then have "same_file (fs k) (fs k1) g" using k1(3) g(1) others j by auto
    moreover have "restored (cap_size (esize (entries (g_super k) ! j))) (disk_file d0 (io k) j) g (fs k1) (fs k2)"
      using k2(4) g j others False by auto
    ultimately show ?thesis by (simp add: restored_def same_file_def)
  qed
  have "restore_loop (Suc n) i k = Some k2" using k1(1) k2(1) Suc.prems(2) by (simp add: DISKFS_MAX_FILES_def)
  then show ?case using keeps_trans [OF k1(2) k2(2)] unt tgt by blast
qed


lemma diskfs_init_restores:
  assumes d: "disk_ok d0 (io k)" and sh: "super_shape (g_super k)" and v: "vfs_ok (fs k) N ch"
    and sb: "sb = disk_super d0 (io k)" "magic sb = DISKFS_MAGIC" "version sb = DISKFS_VERSION" "unat (count sb) \<le> 16"
    and r: "\<forall>j < unat (count sb). readable_entry sb j"
  shows "\<exists>k'. diskfs_init k = Some k' \<and> mounted k' \<and> g_super k' = sb \<and> vfs_ok (fs k') N ch \<and> same_tree (fs k) (fs k') \<and>
    (\<forall>g \<in> N. \<forall>j < unat (count sb). target sb (fs k) j g \<and> nkind (nodes (fs k) g) = VFS_FILE \<and>
       (\<forall>l < unat (count sb). l \<noteq> j \<longrightarrow> \<not> target sb (fs k) l g) \<longrightarrow>
       restored (cap_size (esize (entries sb ! j))) (disk_file d0 (io k) j) g (fs k) (fs k'))"
proof -
  obtain x where x: "read_super (g_super k) (io k) = (True, sb, x)" "disk_ok d0 x" "disk_block d0 x = disk_block d0 (io k)"
    using read_super_ok [OF d sh] sb(1) by blast
  define k1 where "k1 = k\<lparr>g_super := sb, io := x\<rparr>"
  have k1: "g_super k1 = sb" "io k1 = x" "fs k1 = fs k" by (simp_all add: k1_def)
  have df: "disk_file d0 x j = disk_file d0 (io k) j" for j by (simp add: disk_file_def x(3))
  obtain k2 where k2: "restore_loop (unat (count sb)) 0 k1 = Some k2" "keeps d0 N ch k1 k2"
      "\<forall>g \<in> N. \<forall>j. 0 \<le> j \<and> j < 0 + unat (count sb) \<and> target sb (fs k) j g \<and> nkind (nodes (fs k) g) = VFS_FILE \<and>
       (\<forall>l. 0 \<le> l \<and> l < 0 + unat (count sb) \<and> l \<noteq> j \<longrightarrow> \<not> target sb (fs k) l g) \<longrightarrow>
       restored (cap_size (esize (entries sb ! j))) (disk_file d0 (io k) j) g (fs k) (fs k2)"
    using restore_loop_spec [of d0 k1 0 "unat (count sb)" N ch] x(2) v r sb(4) unfolding k1 df by auto
  have "diskfs_init k = Some (k2\<lparr>g_loaded := True\<rparr>)"
    using x(1) k2(1) sb(2,3) by (simp add: diskfs_init_def flip: k1_def)
  moreover have "g_super k2 = sb" "super_shape sb" using k2(2) k1 sb(1) disk_super_shape by (simp_all add: keeps_def)
  ultimately show ?thesis using k2(2,3) sb(2-4) k1 by (simp add: mounted_def keeps_def)
qed

lemma save_without_room:
  assumes m: "mounted k" and f: "file \<noteq> 0" "no_nul (vfs_path_of file 64 (fs k))"
    and full: "\<not> (path_known (g_super k) (vfs_path_of file 64 (fs k)) \<or> unat (count (g_super k)) < 16)"
  shows "diskfs_save file k = Some (False, k)"
proof -
  define p where "p = vfs_path_of file 64 (fs k)"
  have l: "length p < 64" using path_of_length [of 64 "file" "fs k"] by (simp add: p_def)
  have c: "unat (count (g_super k)) = 16" and sh: "super_shape (g_super k)" using full m by (auto simp: mounted_def)
  have "find (\<lambda>j. has_path (entries (g_super k) ! j) p) [0..<16] = None"
    using full c by (auto simp: find_None_iff path_known_def p_def)
  then have "find_slot p (g_super k) = Some (- 1)" using find_slot_spec [OF sh _ f(2) [folded p_def] l] c by simp
  moreover have "alloc_slot p (g_super k) = (- 1, g_super k)"
    using c by (simp add: alloc_slot_def DISKFS_MAX_FILES_def word_le_nat_alt)
  ultimately show ?thesis using m f(1) by (simp add: diskfs_save_def mounted_def flip: p_def)
qed

text \<open>
  On a mounted file system over a working drive, \<open>diskfs_save\<close> succeeds if the path of the file
  is on the disk already or a slot is free, and otherwise fails without a change. A success leaves
  the file mounted, with its path, its size and its contents up to 4096 bytes in one entry of the
  superblock on the disk; every other entry and its data are as before.
\<close>

theorem diskfs_save_stores_file:
  assumes "mounted k" and "disk_ok d0 (io k)" and "file \<noteq> 0" and "no_nul (vfs_path_of file 64 (fs k))"
  shows "let p = vfs_path_of file 64 (fs k); n = cap_size (nlen (nodes (fs k) file)) in
    if path_known (g_super k) p \<or> unat (count (g_super k)) < 16
    then \<exists>i sb x. diskfs_save file k = Some (True, k\<lparr>g_super := sb, io := x\<rparr>) \<and> disk_ok d0 x \<and> disk_super d0 x = sb \<and>
      mounted (k\<lparr>g_super := sb, io := x\<rparr>) \<and> file_on_disk d0 x i p n (file_image file n (fs k)) \<and>
      (\<forall>j < unat (count (g_super k)). j \<noteq> i \<longrightarrow> j < unat (count sb) \<and> entries sb ! j = entries (g_super k) ! j \<and>
         disk_file d0 x j = disk_file d0 (io k) j)
    else diskfs_save file k = Some (False, k)"
proof (cases "path_known (g_super k) (vfs_path_of file 64 (fs k)) \<or> unat (count (g_super k)) < 16")
  case True
  obtain i sb x where "diskfs_save file k = Some (True, k\<lparr>g_super := sb, io := x\<rparr>)" "disk_ok d0 x" "disk_super d0 x = sb"
     "mounted (k\<lparr>g_super := sb, io := x\<rparr>)"
     "file_on_disk d0 x i (vfs_path_of file 64 (fs k)) (cap_size (nlen (nodes (fs k) file)))
        (file_image file (cap_size (nlen (nodes (fs k) file))) (fs k))"
     "unat (count (g_super k)) \<le> unat (count sb)"
     "\<forall>j < unat (count sb). j \<noteq> i \<longrightarrow> j < unat (count (g_super k)) \<and> entries sb ! j = entries (g_super k) ! j \<and>
        disk_file d0 x j = disk_file d0 (io k) j"
    using save_in_slot [OF assms(1-3) refl assms(4) True] by blast
  then show ?thesis unfolding Let_def if_P [OF True] by (intro exI [of _ i] exI [of _ sb] exI [of _ x]) auto
next
  case False
  then show ?thesis unfolding Let_def if_not_P [OF False] by (intro save_without_room [OF assms(1,3,4)])
qed


text \<open>A disk with no file system, and the small tree of theory Vfs saved to it.\<close>

definition diskfs_demo :: diskfs where
  "diskfs_demo = \<lparr>g_super = blank_super, g_loaded = True, fs = vfs_demo, io = (ready_drive blank_drive, test_disk, [])\<rparr>"

lemma diskfs_demo_mounted: "mounted diskfs_demo"
  by (simp add: mounted_def diskfs_demo_def blank_super_def super_shape_def DISKFS_MAX_FILES_def)

lemma diskfs_demo_ok: "disk_ok blank_drive (io diskfs_demo)"
  by (simp add: disk_ok_def diskfs_demo_def test_disk_def ready_drive_working)

lemma diskfs_demo_path: "vfs_path_of 4339 64 vfs_demo = ''/home/notes.txt''"
  using path_of_join [OF demo_tree, of "[4226, 4339]" 64]
  by (simp add: demo_children_def new_node_def str_copy_n_def NAME_CAP_def join_path_def)

lemma diskfs_demo_lookup: "vfs_lookup ''/home/notes.txt'' vfs_demo = Some 4339"
proof -
  have c: "comps ''home/notes.txt'' = [''home'', ''notes.txt'']"
    using comps_join [of "[''home'', ''notes.txt'']"] by (simp add: join_path_def ok_name_def)
  show ?thesis
    using lookup_resolve [OF demo_tree, of "''/home/notes.txt''"] c
    by (simp add: demo_children_def new_node_def str_copy_n_def NAME_CAP_def)
qed

theorem diskfs_save_stores_file_witness:
  "\<exists>i sb x. diskfs_save 4339 diskfs_demo = Some (True, diskfs_demo\<lparr>g_super := sb, io := x\<rparr>) \<and>
     file_on_disk blank_drive x i ''/home/notes.txt'' 2 (file_image 4339 2 vfs_demo)"
proof -
  have "cap_size 2 = 2" by (simp add: cap_size_def DISKFS_FILE_SECTORS_def)
  then show ?thesis
    using diskfs_save_stores_file [OF diskfs_demo_mounted diskfs_demo_ok, of 4339]
    by (auto simp: diskfs_demo_def diskfs_demo_path NUL_def blank_super_def)
qed



text \<open>
  Limits of the code: a file that was emptied and saved is skipped, so its contents of before come
  back; and a count above 16 on the disk leads the loop past the entries.
\<close>

lemma empty_file_not_restored: "esize (entries (g_super k) ! i) = 0 \<Longrightarrow> restore_entry i k = Some k"
  by (simp add: restore_entry_def)

lemma large_count_leaves_entries: "restore_loop (Suc n) 16 k = None"
  by (simp add: DISKFS_MAX_FILES_def)

end
