(* ===== verification/Idt.thy ===== *)
theory Idt
  imports Timer Vga Keyboard Mouse
begin

text \<open>
  Interrupts, \<^verbatim>\<open>src/kernel/idt.cpp\<close>: the descriptor table, the report of a processor
  exception, and the dispatch of the hardware interrupts to the drivers of the other theories. The
  entry stubs are assembly; their addresses are the parameters \<open>isr\<close>, \<open>irq\<close> and \<open>syscall_stub\<close>.
  What a key typed does besides the keyboard driver is the parameter \<open>route\<close> of theory Keyboard.
\<close>

record idt_entry =
  offset_low :: u16
  selector :: u16
  ist_field :: u8
  type_attr :: u8
  offset_mid :: u16
  offset_high :: u32
  zero_field :: u32

definition IDT_TYPE_INTERRUPT :: u8 where "IDT_TYPE_INTERRUPT = 0x8E"
definition IDT_TYPE_TRAP :: u8 where "IDT_TYPE_TRAP = 0x8F"
definition IDT_TYPE_USER :: u8 where "IDT_TYPE_USER = 0xEE"
definition IDT_ENTRIES :: nat where "IDT_ENTRIES = 256"
definition SIZEOF_IDT_ENTRY :: nat where "SIZEOF_IDT_ENTRY = 16"

record idt_state =
  idt :: "idt_entry list"
  idt_limit :: u16
  idt_base :: u64
  idt_flushed :: "u64 list"

definition gate :: "u64 \<Rightarrow> u16 \<Rightarrow> u8 \<Rightarrow> idt_entry" where
  "gate handler sel attr =
     \<lparr>offset_low = ucast (handler AND 0xFFFF), selector = sel, ist_field = 0, type_attr = attr,
      offset_mid = ucast (drop_bit 16 handler AND 0xFFFF), offset_high = ucast (drop_bit 32 handler AND 0xFFFFFFFF),
      zero_field = 0\<rparr>"

definition idt_set_gate :: "u8 \<Rightarrow> u64 \<Rightarrow> u16 \<Rightarrow> u8 \<Rightarrow> idt_entry list \<Rightarrow> idt_entry list" where
  "idt_set_gate num handler sel attr t = t[unat num := gate handler sel attr]"

text \<open>The calls of \<open>idt_init\<close> for the exceptions and the hardware interrupts, in order.\<close>

definition exception_vectors :: "nat list" where
  "exception_vectors = [0, 1, 2, 3, 4, 5, 6, 7, 8, 10, 11, 12, 13, 14, 16, 17, 18, 19, 20, 30]"

definition irq_vectors :: "nat list" where
  "irq_vectors = [32, 33, 34, 35, 36, 37, 38, 39, 40, 41, 42, 43, 44, 45, 46, 47]"

definition idt_init :: "u64 \<Rightarrow> u64 \<Rightarrow> (nat \<Rightarrow> u64) \<Rightarrow> (nat \<Rightarrow> u64) \<Rightarrow> u64 \<Rightarrow> idt_state \<Rightarrow> idt_state" where
  "idt_init table_at ptr_at isr irq syscall_stub s =
     (let t0 = fold (\<lambda>i. idt_set_gate (of_nat i) 0 0 0) [0..<IDT_ENTRIES] (idt s);
          t1 = fold (\<lambda>i. idt_set_gate (of_nat i) (isr i) 0x08 (if i = 3 then IDT_TYPE_TRAP else IDT_TYPE_INTERRUPT))
                 exception_vectors t0;
          t2 = fold (\<lambda>i. idt_set_gate (of_nat i) (irq (i - 32)) 0x08 IDT_TYPE_INTERRUPT) irq_vectors t1;
          t3 = idt_set_gate 0x80 syscall_stub 0x08 IDT_TYPE_USER t2
      in s\<lparr>idt := t3, idt_limit := of_nat (SIZEOF_IDT_ENTRY * IDT_ENTRIES - 1), idt_base := table_at,
           idt_flushed := idt_flushed s @ [ptr_at]\<rparr>)"

section \<open>Exceptions\<close>

definition exception_messages :: "string list" where
  "exception_messages =
    [''Divide By Zero'', ''Debug'', ''Non-Maskable Interrupt'', ''Breakpoint'', ''Overflow'', ''Bound Range Exceeded'',
     ''Invalid Opcode'', ''Device Not Available'', ''Double Fault'', ''Coprocessor Segment Overrun'', ''Invalid TSS'',
     ''Segment Not Present'', ''Stack Segment Fault'', ''General Protection Fault'', ''Page Fault'', ''Reserved'',
     ''x87 FPU Error'', ''Alignment Check'', ''Machine Check'', ''SIMD Floating Point Exception'', ''Virtualization Exception'']"

record interrupt_frame =
  f_rip :: u64
  f_cs :: u64
  f_rflags :: u64
  f_rsp :: u64
  f_ss :: u64

definition nl :: string where "nl = [CHR 0x0A]"

text \<open>What is printed on the console; the two halves of a 64-bit number are printed one after the other.\<close>

definition put_hex :: "u32 \<Rightarrow> con_op list" where
  "put_hex v = puts (hex_string v)"

definition put_hex64 :: "u64 \<Rightarrow> con_op list" where
  "put_hex64 v = put_hex (ucast (drop_bit 32 v)) @ put_hex (ucast v)"

definition page_fault_report :: "u64 \<Rightarrow> con_op list" where
  "page_fault_report cr2 =
     [Con_color VGA_LIGHT_RED VGA_BLACK] @ puts (nl @ ''!!! PAGE FAULT !!!'' @ nl) @ puts ''Faulting address: 0x'' @
     put_hex64 cr2 @ puts nl"

definition exception_report :: "u64 \<Rightarrow> u64 \<Rightarrow> u64 \<Rightarrow> interrupt_frame \<Rightarrow> con_op list" where
  "exception_report cr2 vector error_code f =
     (if vector = 14 then page_fault_report cr2 else []) @
     [Con_color VGA_WHITE VGA_RED] @ puts (nl @ nl @ ''!!! KERNEL PANIC - CPU EXCEPTION !!!'' @ nl @ nl) @
     [Con_color VGA_YELLOW VGA_BLACK] @ puts ''Exception: '' @
     puts (if vector < 21 then exception_messages ! unat vector
           else if vector = 30 then ''Security Exception'' else ''Unknown Exception'') @
     puts '' (Vector '' @ put_hex (ucast vector) @ puts ('')'' @ nl) @
     [Con_color VGA_LIGHT_GREY VGA_BLACK] @ puts ''Error Code: '' @ put_hex (ucast error_code) @ puts nl @
     puts ''RIP: '' @ put_hex64 (f_rip f) @ puts nl @
     puts ''RSP: '' @ put_hex64 (f_rsp f) @ puts nl @
     puts ''RFLAGS: '' @ put_hex64 (f_rflags f) @ puts nl @
     [Con_color VGA_RED VGA_BLACK] @ puts (nl @ ''System halted.'' @ nl)"

text \<open>What is sent to the serial port, where \<open>Inr\<close> is a number in hexadecimal.\<close>

definition exception_log :: "u64 \<Rightarrow> u64 \<Rightarrow> u64 \<Rightarrow> (string + u32) list" where
  "exception_log cr2 vector error_code =
     (if vector = 14
      then [Inl (nl @ ''=== PAGE FAULT ==='' @ nl), Inl ''Address: 0x'', Inr (ucast (drop_bit 32 cr2)), Inr (ucast cr2),
            Inl (nl @ ''Error: ''),
            Inl (if error_code AND 0x01 \<noteq> 0 then ''PRESENT '' else ''NOT-PRESENT ''),
            Inl (if error_code AND 0x02 \<noteq> 0 then ''WRITE '' else ''READ ''),
            Inl (if error_code AND 0x04 \<noteq> 0 then ''USER '' else ''KERNEL '')] @
           (if error_code AND 0x10 \<noteq> 0 then [Inl ''INSTRUCTION-FETCH''] else []) @ [Inl nl]
      else []) @
     [Inl (nl @ ''!!! KERNEL PANIC !!!'' @ nl), Inl ''Exception: ''] @
     (if vector < 21 then [Inl (exception_messages ! unat vector)] else []) @ [Inl nl]"

fun serial_all :: "device \<Rightarrow> (string + u32) list \<Rightarrow> history \<Rightarrow> history option" where
  "serial_all dev [] h = Some h"
| "serial_all dev (x # xs) h =
     Option.bind (case x of Inl s \<Rightarrow> serial_print dev s h | Inr n \<Rightarrow> serial_print_hex dev n h) (serial_all dev xs)"

text \<open>The state in which the processor halts for good; \<open>None\<close> if the serial port never gets ready.\<close>

definition exception_handler ::
  "device \<Rightarrow> u64 \<Rightarrow> u64 \<Rightarrow> u64 \<Rightarrow> interrupt_frame \<Rightarrow> vga \<times> history \<Rightarrow> (vga \<times> history) option" where
  "exception_handler dev cr2 vector error_code f x =
     map_option (Pair (console_run (exception_report cr2 vector error_code f) (fst x)))
       (serial_all dev (exception_log cr2 vector error_code) (snd x))"

section \<open>Hardware interrupts\<close>

record 'w irq_state =
  irq_timer :: timer
  irq_procs :: procs
  irq_keys :: keyboard
  irq_mouse :: mouse
  irq_world :: 'w
  irq_io :: history

definition irq_handler ::
  "(char \<Rightarrow> 'w \<Rightarrow> history \<Rightarrow> ('w \<times> history) option) \<Rightarrow> device \<Rightarrow> u64 \<Rightarrow> 'w irq_state \<Rightarrow> 'w irq_state option" where
  "irq_handler route dev irq_num s =
     (if irq_num = 32
      then case timer_handler (irq_timer s, irq_procs s) of (t, p) \<Rightarrow>
             Some (s\<lparr>irq_timer := t, irq_procs := p, irq_io := pic_send_eoi 0 (irq_io s)\<rparr>)
      else if irq_num = 33
      then map_option (\<lambda>(k, w, h). s\<lparr>irq_keys := k, irq_world := w, irq_io := h\<rparr>)
             (keyboard_handler route dev (irq_keys s) (irq_world s) (irq_io s))
      else if irq_num = 34 then Some s
      else if irq_num = 44
      then case mouse_handler dev (irq_mouse s) (irq_io s) of (m, h) \<Rightarrow> Some (s\<lparr>irq_mouse := m, irq_io := h\<rparr>)
      else map_option (\<lambda>h. s\<lparr>irq_io := pic_send_eoi (ucast (irq_num - 32)) h\<rparr>)
             (serial_all dev [Inl ''IRQ: Unhandled IRQ '', Inr (ucast irq_num), Inl nl] (irq_io s)))"


section \<open>What the processor reads from a gate\<close>

definition gate_target :: "idt_entry \<Rightarrow> u64" where
  "gate_target e = ucast (offset_low e) OR push_bit 16 (ucast (offset_mid e)) OR push_bit 32 (ucast (offset_high e))"

definition gate_present :: "idt_entry \<Rightarrow> bool" where
  "gate_present e \<longleftrightarrow> bit (type_attr e) 7"

definition gate_ring :: "idt_entry \<Rightarrow> nat" where
  "gate_ring e = unat (drop_bit 5 (type_attr e) AND 3)"

lemma gate_target_gate: "gate_target (gate handler sel attr) = handler"
proof -
  have m: "(0xFFFF :: u64) = mask 16" "(0xFFFFFFFF :: u64) = mask 32" by (simp_all add: mask_numeral)
  show ?thesis
    unfolding gate_target_def gate_def idt_entry.simps m
  proof (rule bit_word_eqI)
    fix n assume "n < LENGTH(64)"
    then consider "n < 16" | "16 \<le> n \<and> n < 32" | "32 \<le> n \<and> n < 64" by force
    then show "bit (ucast (ucast (handler AND mask 16) :: u16) OR push_bit 16 (ucast (ucast (drop_bit 16 handler AND mask 16) :: u16)) OR
        push_bit 32 (ucast (ucast (drop_bit 32 handler AND mask 32) :: u32)) :: u64) n = bit handler n"
      by cases (auto simp: bit_simps)
  qed
qed

lemma gate_attr: "type_attr (gate h sel a) = a" "selector (gate h sel a) = sel"
  by (simp_all add: gate_def)

lemma set_gates:
  assumes "\<forall>i \<in> set vs. i < 256" and "length t = 256" and "n < 256"
  shows "length (fold (\<lambda>i. idt_set_gate (of_nat i) (f i) sel (a i)) vs t) = 256"
    and "fold (\<lambda>i. idt_set_gate (of_nat i) (f i) sel (a i)) vs t ! n = (if n \<in> set vs then gate (f n) sel (a n) else t ! n)"
proof -
  have "length (fold (\<lambda>i. idt_set_gate (of_nat i) (f i) sel (a i)) vs t) = 256 \<and>
    fold (\<lambda>i. idt_set_gate (of_nat i) (f i) sel (a i)) vs t ! n = (if n \<in> set vs then gate (f n) sel (a n) else t ! n)"
    using assms(1,2)
  proof (induction vs arbitrary: t)
    case (Cons v vs)
    have "unat (of_nat v :: u8) = v" using Cons.prems by (simp add: unat_of_nat)
    then show ?case
      using Cons.IH [of "idt_set_gate (of_nat v) (f v) sel (a v) t"] Cons.prems assms(3)
      by (auto simp: idt_set_gate_def nth_list_update)
  qed simp
  then show "length (fold (\<lambda>i. idt_set_gate (of_nat i) (f i) sel (a i)) vs t) = 256"
    "fold (\<lambda>i. idt_set_gate (of_nat i) (f i) sel (a i)) vs t ! n = (if n \<in> set vs then gate (f n) sel (a n) else t ! n)"
    by auto
qed

lemma vectors_small: "\<forall>i \<in> set exception_vectors. i < 256" "\<forall>i \<in> set irq_vectors. i < 256" "set irq_vectors = {32..<48}"
proof -
  have "irq_vectors = [32..<48]" by code_simp
  then have "set irq_vectors = {32..<48}" by (metis set_upt)
  then show "\<forall>i \<in> set irq_vectors. i < 256" "set irq_vectors = {32..<48}" by simp_all
qed (auto simp: exception_vectors_def)

lemma idt_init_entry:
  assumes "length (idt s) = 256" and "n < 256"
  shows "idt (idt_init t p isr irq sc s) ! n =
    (if n = 128 then gate sc 0x08 IDT_TYPE_USER
     else if n \<in> set irq_vectors then gate (irq (n - 32)) 0x08 IDT_TYPE_INTERRUPT
     else if n \<in> set exception_vectors then gate (isr n) 0x08 (if n = 3 then IDT_TYPE_TRAP else IDT_TYPE_INTERRUPT)
     else gate 0 0 0)"
proof -
  define t0 where "t0 = fold (\<lambda>i. idt_set_gate (of_nat i) 0 0 0) [0..<IDT_ENTRIES] (idt s)"
  have t0: "length t0 = 256" "t0 ! n = gate 0 0 0"
    unfolding t0_def
    using set_gates [OF _ assms, of "[0..<IDT_ENTRIES]" "\<lambda>_. 0" 0 "\<lambda>_. 0"] assms(2) by (auto simp: IDT_ENTRIES_def simp del: upt_rec_numeral)
  show ?thesis
    unfolding idt_init_def Let_def
    using set_gates [OF vectors_small(1) t0(1) assms(2)] set_gates [OF vectors_small(2) _ assms(2)] t0(2) assms(2)
    by (simp add: idt_set_gate_def nth_list_update flip: t0_def)
qed

text \<open>The vectors with a handler, and where they lead.\<close>

definition handled :: "nat \<Rightarrow> bool" where
  "handled n \<longleftrightarrow> n \<in> set exception_vectors \<or> 32 \<le> n \<and> n < 48 \<or> n = 128"

text \<open>
  C38. After \<open>idt_init\<close> each vector with a handler is present and leads through the kernel code
  segment to its stub, exceptions and hardware interrupts to their own ones and vector 128 to the
  system calls; all other vectors are absent. Programs in ring 3 can raise vector 128 and no other.
\<close>

theorem idt_gates_lead_to_stubs:
  fixes t p sc :: u64 and isr irq :: "nat \<Rightarrow> u64"
  assumes "length (idt s) = 256" and "n < 256"
  defines "e \<equiv> idt (idt_init t p isr irq sc s) ! n"
  shows "(gate_present e \<longleftrightarrow> handled n) \<and> (handled n \<longrightarrow> selector e = 0x08) \<and> (gate_ring e = 3 \<longleftrightarrow> n = 128) \<and>
    (n \<in> set exception_vectors \<longrightarrow> gate_target e = isr n) \<and>
    (32 \<le> n \<and> n < 48 \<longrightarrow> gate_target e = irq (n - 32)) \<and> (n = 128 \<longrightarrow> gate_target e = sc)"
proof -
  have e: "n \<in> set exception_vectors \<Longrightarrow> n < 32" by (auto simp: exception_vectors_def)
  have a: "bit IDT_TYPE_USER 7" "bit IDT_TYPE_TRAP 7" "bit IDT_TYPE_INTERRUPT 7" "\<not> bit (0 :: u8) 7"
    "unat (drop_bit 5 IDT_TYPE_USER AND 3) = 3" "unat (drop_bit 5 IDT_TYPE_TRAP AND 3) = 0"
    "unat (drop_bit 5 IDT_TYPE_INTERRUPT AND 3) = 0"
    by (simp_all add: IDT_TYPE_USER_def IDT_TYPE_TRAP_def IDT_TYPE_INTERRUPT_def)
  show ?thesis
    unfolding e_def idt_init_entry [OF assms(1,2)]
    using e a by (auto simp: handled_def gate_present_def gate_ring_def gate_target_gate gate_attr vectors_small(3))
qed

theorem idt_gates_lead_to_stubs_witness:
  "let e = idt (idt_init 0x1000 0x2000 (\<lambda>i. 0x100000) (\<lambda>i. 0x123456789ABCDEF0) 0x200000
       \<lparr>idt = replicate 256 (gate 0 0 0), idt_limit = 0, idt_base = 0, idt_flushed = []\<rparr>) ! 33
   in gate_present e \<and> gate_ring e \<noteq> 3 \<and> gate_target e = 0x123456789ABCDEF0"
  using idt_gates_lead_to_stubs [of "\<lparr>idt = replicate 256 (gate 0 0 0), idt_limit = 0, idt_base = 0, idt_flushed = []\<rparr>" 33]
  by (simp add: handled_def Let_def)

section \<open>Acknowledgement\<close>

text \<open>A route for typed characters that returns and leaves the interrupt controllers alone.\<close>

definition quiet_route :: "(char \<Rightarrow> 'w \<Rightarrow> history \<Rightarrow> ('w \<times> history) option) \<Rightarrow> bool" where
  "quiet_route route \<longleftrightarrow> (\<forall>c w h. \<exists>w' h'. route c w h = Some (w', h') \<and>
     written8 PIC1_COMMAND h' = written8 PIC1_COMMAND h \<and> written8 PIC2_COMMAND h' = written8 PIC2_COMMAND h)"

lemma first_line: "\<not> (8 :: u8) \<le> 1"
  by code_simp

lemma keyboard_acknowledges:
  assumes "transmits dev" and "quiet_route route"
  shows "\<exists>k' w' h'. keyboard_handler route dev k w h = Some (k', w', h') \<and>
    written8 PIC1_COMMAND h' = written8 PIC1_COMMAND h @ [PIC_EOI] \<and> written8 PIC2_COMMAND h' = written8 PIC2_COMMAND h"
proof -
  obtain v h1 where i: "inb dev KEYBOARD_DATA_PORT h = (v, h1)" by force
  have w1: "written8 q h1 = written8 q h" for q using i by (auto simp: inb_def Let_def)
  show ?thesis
  proof (cases "typed_char v (modifiers k)")
    case None
    then show ?thesis using i w1 by (simp add: keyboard_handler_def Let_def pic_send_eoi_def outb_def first_line PIC1_COMMAND_def PIC2_COMMAND_def)
  next
    case (Some c)
    obtain w2 h2 where r: "route c w h1 = Some (w2, h2)" "written8 PIC1_COMMAND h2 = written8 PIC1_COMMAND h1"
        "written8 PIC2_COMMAND h2 = written8 PIC2_COMMAND h1"
      using assms(2) unfolding quiet_route_def by blast
    obtain h3 where "serial_putchar dev c h2 = Some h3" "written8 PIC1_COMMAND h3 = written8 PIC1_COMMAND h2"
      using putchar_sends [OF assms(1), of c h2 PIC1_COMMAND] by (auto simp: PIC1_COMMAND_def COM1_def)
    moreover have "written8 PIC2_COMMAND h3 = written8 PIC2_COMMAND h2" if "serial_putchar dev c h2 = Some h3" for h3
      using putchar_sends [OF assms(1), of c h2 PIC2_COMMAND] that by (auto simp: PIC2_COMMAND_def COM1_def)
    ultimately show ?thesis using i w1 Some r
      by (simp add: keyboard_handler_def Let_def pic_send_eoi_def outb_def first_line PIC1_COMMAND_def PIC2_COMMAND_def)
  qed
qed

lemma mouse_acknowledges:
  "written8 PIC1_COMMAND (snd (mouse_handler dev m h)) = written8 PIC1_COMMAND h @ [PIC_EOI]"
  "written8 PIC2_COMMAND (snd (mouse_handler dev m h)) = written8 PIC2_COMMAND h @ [PIC_EOI]"
  by (simp_all add: mouse_handler_def inb_def Let_def pic_send_eoi_def outb_def PIC1_COMMAND_def PIC2_COMMAND_def)

lemma serial_all_sends:
  assumes "transmits dev" and "p \<noteq> COM1"
  shows "\<exists>h1. serial_all dev xs h = Some h1 \<and> written8 p h1 = written8 p h"
proof -
  have pr: "\<exists>h1. serial_print dev str h = Some h1 \<and> written8 p h1 = written8 p h" for str h
  proof (induction str arbitrary: h)
    case (Cons c str)
    obtain h1 where h1: "(if c = CHR 0x0A then serial_putchar dev (CHR 0x0D) h else Some h) = Some h1" "written8 p h1 = written8 p h"
      using putchar_sends [OF assms(1), of "CHR 0x0D" h p] assms(2) by (cases "c = CHR 0x0A") auto
    obtain h2 where "serial_putchar dev c h1 = Some h2" "written8 p h2 = written8 p h1"
      using putchar_sends [OF assms(1), of c h1 p] assms(2) by auto
    then show ?case using Cons [of h2] h1 by auto
  qed simp
  have lp: "\<exists>h1. serial_hex_loop dev n is h = Some h1 \<and> written8 p h1 = written8 p h" for n "is" h
  proof (induction "is" arbitrary: h)
    case (Cons i "is")
    obtain h1 where "serial_putchar dev (serial_hex_digit (unat (drop_bit i n AND 0xF))) h = Some h1" "written8 p h1 = written8 p h"
      using putchar_sends [OF assms(1), of _ h p] assms(2) by auto
    then show ?case using Cons [of h1] by auto
  qed simp
  have hx: "\<exists>h1. serial_print_hex dev n h = Some h1 \<and> written8 p h1 = written8 p h" for n h
  proof -
    obtain h1 where h1: "serial_print dev ''0x'' h = Some h1" "written8 p h1 = written8 p h" using pr by blast
    then show ?thesis using lp [of n "[28, 24, 20, 16, 12, 8, 4, 0]" h1]
      by (simp add: serial_print_hex_def del: serial_print.simps serial_hex_loop.simps)
  qed
  show ?thesis
  proof (induction xs arbitrary: h)
    case (Cons x xs)
    obtain h1 where "(case x of Inl s \<Rightarrow> serial_print dev s h | Inr n \<Rightarrow> serial_print_hex dev n h) = Some h1" "written8 p h1 = written8 p h"
      using pr hx by (cases x) (simp_all, meson+)
    then show ?case using Cons [of h1] by auto
  qed simp
qed

lemma line_behind: "32 \<le> n \<Longrightarrow> n < 48 \<Longrightarrow> (8 :: u8) \<le> ucast (n - 32 :: u64) \<longleftrightarrow> 40 \<le> n"
proof -
  assume n: "32 \<le> n" "n < 48"
  have "unat (n - 32) = unat n - 32" using n(1) by (simp add: unat_sub word_le_nat_alt)
  moreover have "unat n < 48" "32 \<le> unat n" using n by (simp_all add: word_le_nat_alt word_less_nat_alt)
  ultimately have "unat (ucast (n - 32) :: u8) = unat n - 32" by (simp add: unsigned_ucast_eq take_bit_eq_mod)
  then show "(8 :: u8) \<le> ucast (n - 32 :: u64) \<longleftrightarrow> 40 \<le> n" using \<open>32 \<le> unat n\<close> by (simp add: word_le_nat_alt) arith
qed



text \<open>The cascade line is never raised; its interrupt would not be acknowledged.\<close>

lemma cascade_not_acknowledged: "irq_handler route dev 34 s = Some s"
  by (simp add: irq_handler_def)

end
