(* ===== verification/Programs.thy ===== *)
theory Programs
  imports Vfs Syscall Elf
begin

text \<open>
  The commands behind the executable nodes of the tree, the \<open>cmd_*\<close> functions of
  \<^verbatim>\<open>src/kernel/vfs.cpp\<close>: three print a line, one runs a few instructions in ring 3, and three
  load an ELF image that the build links into the kernel and run it with the arguments. The images
  and the addresses the linker gives are the record \<open>env\<close>, with the assembly that enters ring 3.
  A run is \<open>None\<close> if the program never leaves ring 3. The lemmas show that the
  digits of these lines are those of the console's own routine, and that the page lent to a
  program as its stack comes back.
\<close>

section \<open>What the commands run on\<close>

record env =
  env_dev :: device
  env_jump :: "u64 \<Rightarrow> u64 \<Rightarrow> kstate \<Rightarrow> kstate option"
  env_scratch :: "char list"
  user_hello_at :: u64
  elf_hello_image :: "u64 \<times> u64"
  elf_echo_image :: "u64 \<times> u64"
  elf_cat_image :: "u64 \<times> u64"
  env_test_process :: u64
  env_cr3 :: u64
  env_msg :: u64

definition user_hello_bin :: "u8 list" where
  "user_hello_bin =
     [0x48, 0xc7, 0xc0, 0x0a, 0x00, 0x00, 0x00,
      0xcd, 0x80,
      0x48, 0xc7, 0xc0, 0x04, 0x00, 0x00, 0x00,
      0x48, 0x31, 0xff,
      0xcd, 0x80,
      0xeb, 0xfe]"

definition to_machine :: "kstate \<Rightarrow> kstate machine" where
  "to_machine k = (pages_of (k_procs k), k_mem k, k)"

definition of_machine :: "kstate machine \<Rightarrow> kstate" where
  "of_machine x = (case x of (p, m, k) \<Rightarrow> set_mem m (k\<lparr>k_procs := (k_procs k)\<lparr>pages_of := p\<rparr>\<rparr>))"

definition machine_jump :: "env \<Rightarrow> u64 \<Rightarrow> u64 \<Rightarrow> kstate machine \<Rightarrow> kstate machine option" where
  "machine_jump e entry rsp x = map_option to_machine (env_jump e entry rsp (of_machine x))"

definition say :: "con_op list \<Rightarrow> kstate \<Rightarrow> kstate" where
  "say os k = k\<lparr>k_vga := console_run os (k_vga k)\<rparr>"

definition set_pages :: "pmm \<Rightarrow> kstate \<Rightarrow> kstate" where
  "set_pages p k = k\<lparr>k_procs := (k_procs k)\<lparr>pages_of := p\<rparr>\<rparr>"

section \<open>Commands that print\<close>

text \<open>\<^verbatim>\<open>tmp\<close> holds the digits from the last one on.\<close>

function tmp_digits :: "u64 \<Rightarrow> string" where
  "tmp_digits v = (if v \<noteq> 0 then char_of (48 + unat (v mod 10)) # tmp_digits (v div 10) else [])"
  by pat_completeness auto
termination
  by (relation "measure unat") (auto simp: unat_div word_neq_0_conv word_less_nat_alt)

declare tmp_digits.simps [simp del]

text \<open>Copies them, last first, while \<open>line\<close> has room; the line buffer has 80 bytes.\<close>

definition append_num :: "u64 \<Rightarrow> string \<Rightarrow> string" where
  "append_num v line = line @ take (79 - length line) (rev (if v = 0 then ''0'' else tmp_digits v))"

definition bin_clear :: "kstate \<Rightarrow> kstate" where
  "bin_clear k = say (puts (LF @ ''--- terminal cleared ---'' @ LF @ LF)) k"

definition uptime_line :: "u64 \<Rightarrow> string" where
  "uptime_line ticks =
     (let s = ticks div 100;
          l1 = append_num (s div 3600) ''uptime: '' @ ''h '';
          l2 = append_num (s div 60 mod 60) l1 @ ''m ''
      in append_num (s mod 60) l2 @ ''s'' @ LF)"

definition bin_uptime :: "kstate \<Rightarrow> kstate" where
  "bin_uptime k = say (puts (uptime_line (timer_get_ticks (k_timer k)))) k"

definition meminfo_line :: "pmm \<Rightarrow> string" where
  "meminfo_line p =
     (let fr = pmm_get_free_memory p div (1024 * 1024);
          tot = pmm_get_managed_memory p div (1024 * 1024)
      in append_num tot (append_num fr ''RAM free / total : '' @ '' / '') @ '' MiB'' @ LF)"

definition bin_meminfo :: "kstate \<Rightarrow> kstate" where
  "bin_meminfo k = say (puts (meminfo_line (pages_of (k_procs k)))) k"

section \<open>Commands that enter ring 3\<close>

definition bin_hello :: "env \<Rightarrow> kstate \<Rightarrow> kstate option" where
  "bin_hello e k =
     (case pmm_alloc_page (pages_of (k_procs k)) of (stack, p1) \<Rightarrow>
        let k1 = set_pages p1 k
        in if stack = 0 then Some (say (puts (''/bin/hello: out of memory for user stack'' @ LF)) k1)
           else let k2 = set_mem (write_bytes (k_mem k1) stack (replicate 4096 0xCC)) k1;
                    k3 = say (puts (LF @ ''[/bin/hello] dropping to ring 3...'' @ LF)) k2
                in case usermode_run (machine_jump e) (user_hello_at e) (stack + 4096) (to_machine k3) of
                     None \<Rightarrow> None
                   | Some x \<Rightarrow>
                       let k4 = say (puts (''[/bin/hello] returned from ring 3 cleanly.'' @ LF @ LF)) (of_machine x)
                       in Some (set_pages (pmm_free_page stack (pages_of (k_procs k4))) k4))"

definition run_user_elf :: "env \<Rightarrow> u64 \<times> u64 \<Rightarrow> string \<Rightarrow> string option \<Rightarrow> kstate \<Rightarrow> kstate option" where
  "run_user_elf e img prog_name args k =
     (case elf_load (fst img) (ucast (snd img - fst img)) (k_mem k) of (entry, m) \<Rightarrow>
        let k1 = set_mem m k
        in if entry = 0 then Some (say (puts (''['' @ prog_name @ ''] ELF load failed.'' @ LF)) k1)
           else let k2 = say (puts (LF @ ''['' @ prog_name @ ''] -> ring 3'' @ LF)) k1
                in case usermode_run_with_args (machine_jump e) (env_scratch e) entry (Some prog_name) args (to_machine k2) of
                     None \<Rightarrow> None
                   | Some x \<Rightarrow> Some (say (puts (''['' @ prog_name @ ''] returned.'' @ LF @ LF)) (of_machine x)))"

definition bin_elf_hello :: "env \<Rightarrow> string option \<Rightarrow> kstate \<Rightarrow> kstate option" where
  "bin_elf_hello e args k = run_user_elf e (elf_hello_image e) ''/bin/elf-hello'' args k"

definition bin_echo :: "env \<Rightarrow> string option \<Rightarrow> kstate \<Rightarrow> kstate option" where
  "bin_echo e args k = run_user_elf e (elf_echo_image e) ''/bin/echo'' args k"

definition bin_cat :: "env \<Rightarrow> string option \<Rightarrow> kstate \<Rightarrow> kstate option" where
  "bin_cat e args k = run_user_elf e (elf_cat_image e) ''/bin/cat'' args k"

text \<open>The call \<^verbatim>\<open>n->exec_fn(args)\<close> of \<open>vfs_run\<close>.\<close>

fun call_exec :: "env \<Rightarrow> vfs_exec_fn \<Rightarrow> string option \<Rightarrow> kstate \<Rightarrow> kstate option" where
  "call_exec e cmd_hello args k = bin_hello e k"
| "call_exec e cmd_elf_hello args k = bin_elf_hello e args k"
| "call_exec e cmd_echo args k = bin_echo e args k"
| "call_exec e cmd_cat args k = bin_cat e args k"
| "call_exec e cmd_clear args k = Some (bin_clear k)"
| "call_exec e cmd_uptime args k = Some (bin_uptime k)"
| "call_exec e cmd_meminfo args k = Some (bin_meminfo k)"

definition run_node :: "env \<Rightarrow> u64 \<Rightarrow> string option \<Rightarrow> vfs \<Rightarrow> kstate \<Rightarrow> kstate option" where
  "run_node e n args s k = (case vfs_run n s of None \<Rightarrow> Some k | Some f \<Rightarrow> call_exec e f args k)"

section \<open>The lines they print\<close>

lemma console_run_append [simp]: "console_run (xs @ ys) v = console_run ys (console_run xs v)"
  by (simp add: console_run_def)

lemma console_run_puts: "console_run (puts s) v = vga_print s v"
proof -
  have "(\<lambda>c. console_step (Con_char c)) = vga_putchar" by (intro ext) simp
  then have "fold console_step (map Con_char s) v = fold vga_putchar s v" by (simp add: fold_map comp_def)
  moreover have "fold vga_putchar s v = v\<lparr>forwarded := forwarded v @ s\<rparr>" if "redirect_to_gui v"
    using that by (induction s arbitrary: v) (simp_all add: vga_putchar_def)
  ultimately show ?thesis by (simp add: console_run_def puts_def vga_print_def)
qed

lemma tmp_digits_0 [simp]: "tmp_digits 0 = []"
  by (simp add: tmp_digits.simps)

lemma dec_loop_tmp: "unat v < 10 ^ i \<Longrightarrow> dec_loop i v acc = rev (tmp_digits v) @ acc"
proof (induction i arbitrary: v acc)
  case (Suc i)
  have "unat (v div 10) < 10 ^ i" using Suc.prems by (simp add: unat_div)
  then show ?case using Suc.IH [of "v div 10"]
    by (cases "v = 0") (simp_all add: tmp_digits.simps [of v] word_neq_0_conv)
qed (simp add: tmp_digits.simps unat_eq_0)

lemma dec_loop_length: "length (dec_loop i v acc) \<le> i + length acc"
proof (induction i arbitrary: v acc)
  case (Suc i)
  show ?case using Suc.IH [of "v div 10" "char_of (48 + unat (v mod 10)) # acc"] by simp
qed simp

lemma dec_string_length: "length (dec_string v) \<le> 20"
  using dec_loop_length [of 20 v "[]"] by (simp add: dec_string_def)

lemma dec_string_tmp: "dec_string v = rev (if v = 0 then ''0'' else tmp_digits v)"
  using dec_loop_tmp [of v 20 "[]"] unat_lt_64 [of v] by (simp add: dec_string_def)

lemma append_num_dec: "length line \<le> 59 \<Longrightarrow> append_num v line = line @ dec_string v"
  using dec_string_length [of v] by (simp add: append_num_def dec_string_tmp)

section \<open>What a program may do\<close>

text \<open>
  One thing that happens while a program is in ring 3: it stores to memory, a system call
  of it returns or ends it, the timer ticks, or a key is typed. What a run of a program leaves
  behind is the result of such steps.
\<close>

inductive ring3_step :: "syscall_table \<Rightarrow> kstate \<Rightarrow> kstate \<Rightarrow> bool" for t where
  Store: "ring3_step t k (set_mem m k)"
| Call: "syscall_handler_c t n a b c d e k = Some (Ret v k') \<Longrightarrow> ring3_step t k k'"
| Exit: "syscall_handler_c t n a b c d e k = Some (User_left k') \<Longrightarrow> ring3_step t k k'"
| Tick: "timer_handler (k_timer k, k_procs k) = (tm, ps) \<Longrightarrow> ring3_step t k (k\<lparr>k_timer := tm, k_procs := ps\<rparr>)"
| Key: "stdin_push ch (k_stdin k, k_vga k) = (s, v) \<Longrightarrow> ring3_step t k (k\<lparr>k_stdin := s, k_vga := v\<rparr>)"

definition ring3_env :: "syscall_table \<Rightarrow> env \<Rightarrow> bool" where
  "ring3_env t e \<longleftrightarrow> (\<forall>entry rsp k k'. env_jump e entry rsp k = Some k' \<longrightarrow> (ring3_step t)\<^sup>*\<^sup>* k k')"

definition pages_in :: "kstate \<Rightarrow> pmm" where
  "pages_in k = pages_of (k_procs k)"

lemma schedule_pages [simp]: "pages_of (scheduler_schedule s) = pages_of s"
  by (simp add: scheduler_schedule_def scheduler_next_def scheduler_add_def upd_pcb_def Let_def split: prod.splits)

lemma remove_pages: "scheduler_remove p s = Some s' \<Longrightarrow> pages_of s' = pages_of s"
  by (auto simp: scheduler_remove_def upd_pcb_def Let_def split: if_splits option.splits)

lemma handler_pages [simp]: "pages_of (snd (timer_handler x)) = pages_of (snd x)"
  by (simp add: timer_handler_def Let_def)

lemma sleep_pages: "pages_of (snd (sleep_until target x)) = pages_of (snd x)"
proof (induction target x rule: sleep_until.induct)
  case (1 target x)
  then show ?case by (subst sleep_until.simps) simp
qed

lemma pages_in_simps [simp]:
  "pages_in (set_mem m k) = pages_in k" "pages_in (say os k) = pages_in k" "pages_in (set_pages p k) = p"
  "pages_in (k\<lparr>k_timer := tm\<rparr>) = pages_in k" "pages_in (k\<lparr>k_stdin := si\<rparr>) = pages_in k"
  "pages_in (k\<lparr>k_vga := v\<rparr>) = pages_in k" "pages_in (k\<lparr>k_user := u\<rparr>) = pages_in k"
  "pages_in (k\<lparr>k_procs := ps\<rparr>) = pages_of ps"
  by (simp_all add: pages_in_def set_mem_def say_def set_pages_def)

text \<open>The state a call leaves, when it comes back to the program or ends it.\<close>

fun left_by :: "kstate outcome \<Rightarrow> kstate option" where
  "left_by (Ret v k) = Some k"
| "left_by (User_left k) = Some k"
| "left_by _ = None"

lemma sys_sleep_pages: "left_by (sys_sleep ms k) = Some k' \<Longrightarrow> pages_in k' = pages_in k"
  using sleep_pages [of "sleep_target ms (k_timer k)" "(k_timer k, k_procs k)"]
  by (cases "timer_sleep ms (k_timer k, k_procs k)")
    (auto simp: sys_sleep_def timer_sleep_def pages_in_def)

lemma sys_exit_pages: "sys_exit st k = Some o' \<Longrightarrow> left_by o' = Some k' \<Longrightarrow> pages_in k' = pages_in k"
  by (auto simp: sys_exit_def Let_def split: if_splits)

lemma sys_read_pages: "left_by (sys_read fd buf n k) = Some k' \<Longrightarrow> pages_in k' = pages_in k"
  by (auto simp: sys_read_def split: if_splits option.splits)

lemma wrapper_pages:
  assumes "call_wrapper f a b c k = Some o'" and "left_by o' = Some k'"
  shows "pages_in k' = pages_in k"
proof (cases f)
  case Fn_read
  then show ?thesis using assms sys_read_pages by auto
next
  case Fn_exit
  then show ?thesis using assms sys_exit_pages by auto
next
  case Fn_sleep
  then show ?thesis using assms sys_sleep_pages by auto
next
  case Fn_write
  then show ?thesis using assms by (auto simp: sys_write_def split: if_splits)
next
  case Fn_yield
  then show ?thesis using assms by (auto simp: sys_yield_def process_yield_def) (simp add: pages_in_def)
qed (use assms in \<open>auto simp: sys_getpid_def sys_hello_def Let_def\<close>)

lemma syscall_pages:
  "syscall_handler_c t n a b c d e k = Some o' \<Longrightarrow> left_by o' = Some k' \<Longrightarrow> pages_in k' = pages_in k"
  by (auto simp: syscall_handler_c_def syscall_dispatch_def split: if_splits option.splits intro: wrapper_pages)

lemma ring3_pages: "(ring3_step t)\<^sup>*\<^sup>* k k' \<Longrightarrow> pages_in k' = pages_in k"
proof (induction rule: rtranclp_induct)
  case (step k1 k2)
  have "pages_in k2 = pages_in k1"
    using step(2)
  proof cases
    case (Tick tm ps)
    then show ?thesis using handler_pages [of "(k_timer k1, k_procs k1)"] by (simp add: pages_in_def)
  qed (use syscall_pages [where k = k1] in auto)
  then show ?case using step(3) by simp
qed simp

lemma of_to_machine [simp]: "of_machine (to_machine k) = k"
  by (simp add: of_machine_def to_machine_def set_mem_def k_mem_def)

lemma pages_of_machine: "pages_in (of_machine x) = fst x"
  by (cases x) (simp add: of_machine_def)

lemma jump_pages:
  assumes "ring3_env t e" and "machine_jump e entry rsp x = Some (p', m', k')"
  shows "p' = fst x"
proof -
  obtain k1 where k1: "env_jump e entry rsp (of_machine x) = Some k1" "to_machine k1 = (p', m', k')"
    using assms(2) by (auto simp: machine_jump_def)
  then have "(ring3_step t)\<^sup>*\<^sup>* (of_machine x) k1" using assms(1) unfolding ring3_env_def by blast
  then have "pages_in k1 = pages_in (of_machine x)" by (rule ring3_pages)
  moreover have "p' = pages_in k1" using k1(2) by (auto simp: to_machine_def pages_in_def)
  ultimately show ?thesis by (simp add: pages_of_machine)
qed

lemma lent_page_back:
  assumes "pmm_inv s" and "pmm_alloc_page s = (a, s')" and "a \<noteq> 0"
  shows "pmm_free_page a s' = s"
  using assms(2)
proof (cases rule: pmm_alloc_page_cases)
  case (page i)
  then show ?thesis using assms(1) free_after_take [OF _ page(4)] by (simp add: pmm_inv_def)
qed (use assms in simp)

lemma alloc_none_same:
  assumes "pmm_inv s" and "pmm_alloc_page s = (0, s')"
  shows "s' = s"
  using assms(2)
proof (cases rule: pmm_alloc_page_cases)
  case (page i)
  have "i < total_pages s" using page by (simp add: free_set_iff)
  then have "i = 0" using page page_addr_zero [of s i] assms(1) by (simp add: pmm_inv_def)
  then show ?thesis using page by simp
qed

lemma with_args_pages:
  assumes "ring3_env t e" and "pmm_inv (fst x)"
    and "usermode_run_with_args (machine_jump e) sc entry nm args x = Some (p', m', k')"
  shows "p' = fst x"
proof -
  obtain p m k where x: "x = (p, m, k)" by (cases x)
  obtain stack p1 where a: "pmm_alloc_page p = (stack, p1)" by (cases "pmm_alloc_page p")
  show ?thesis
  proof (cases "stack = 0")
    case True
    then show ?thesis using assms a alloc_none_same [of p p1] by (simp add: x usermode_run_with_args_def)
  next
    case False
    then obtain sp m1 p2 m2 where j: "machine_jump e entry sp (p1, m1, k) = Some (p2, m2, k')" and p': "p' = pmm_free_page stack p2"
      using assms(3) a by (auto simp: x usermode_run_with_args_def usermode_run_def split: prod.splits if_splits)
    have "p2 = p1" using jump_pages [OF assms(1) j] by simp
    then show ?thesis using p' lent_page_back [OF _ a False] assms(2) by (simp add: x)
  qed
qed

lemma run_elf_pages:
  assumes "ring3_env t e" and "pmm_inv (pages_in k)" and "run_user_elf e img nm args k = Some k'"
  shows "pages_in k' = pages_in k"
proof -
  obtain entry m where l: "elf_load (fst img) (ucast (snd img - fst img)) (k_mem k) = (entry, m)"
    by (cases "elf_load (fst img) (ucast (snd img - fst img)) (k_mem k)")
  show ?thesis
  proof (cases "entry = 0")
    case True
    then show ?thesis using assms(3) l by (auto simp: run_user_elf_def Let_def)
  next
    case False
    define k2 where "k2 = say (puts (LF @ ''['' @ nm @ ''] -> ring 3'' @ LF)) (set_mem m k)"
    obtain x where x: "usermode_run_with_args (machine_jump e) (env_scratch e) entry (Some nm) args (to_machine k2) = Some x"
        "k' = say (puts (''['' @ nm @ ''] returned.'' @ LF @ LF)) (of_machine x)"
      using assms(3) l False by (auto simp: run_user_elf_def Let_def k2_def split: option.splits)
    have "fst (to_machine k2) = pages_in k" by (simp add: to_machine_def pages_in_def [symmetric] k2_def)
    then have "fst x = pages_in k"
      using with_args_pages [OF assms(1), of "to_machine k2" _ _ _ _ "fst x" "fst (snd x)" "snd (snd x)"] x(1) assms(2) by simp
    then show ?thesis using x(2) by (simp add: pages_of_machine)
  qed
qed

lemma bin_hello_returns:
  assumes "\<forall>entry rsp k. env_jump e entry rsp k \<noteq> None"
  shows "bin_hello e k \<noteq> None"
proof -
  have "env_jump e a b k = Some (the (env_jump e a b k))" for a b k using assms by simp
  then have "usermode_run (machine_jump e) a b x = Some (to_machine (the (env_jump e a b (of_machine x))))" for a b x
    unfolding usermode_run_def machine_jump_def by (metis option.simps(9))
  then show ?thesis unfolding bin_hello_def Let_def by (simp split: prod.split)
qed

lemma bin_hello_pages:
  assumes "ring3_env t e" and "pmm_inv (pages_in k)" and "bin_hello e k = Some k'"
  shows "pages_in k' = pages_in k"
proof -
  obtain stack p1 where a: "pmm_alloc_page (pages_in k) = (stack, p1)" by (cases "pmm_alloc_page (pages_in k)")
  note a' = a [unfolded pages_in_def]
  show ?thesis
  proof (cases "stack = 0")
    case True
    then show ?thesis using assms(3) a' alloc_none_same [OF assms(2)] a by (auto simp: bin_hello_def Let_def)
  next
    case False
    define k3 where "k3 = say (puts (LF @ ''[/bin/hello] dropping to ring 3...'' @ LF))
      (set_mem (write_bytes (k_mem (set_pages p1 k)) stack (replicate 4096 0xCC)) (set_pages p1 k))"
    obtain x where x: "machine_jump e (user_hello_at e) (stack + 4096) (to_machine k3) = Some x"
        "pages_in k' = pmm_free_page stack (pages_in (of_machine x))"
      using assms(3) a' False
      by (auto simp: bin_hello_def Let_def k3_def usermode_run_def pages_in_def [symmetric] split: option.splits)
    have "fst x = p1"
      using jump_pages [OF assms(1), of _ _ _ "fst x" "fst (snd x)" "snd (snd x)"] x(1)
      by (simp add: to_machine_def pages_in_def [symmetric] k3_def)
    then show ?thesis using x(2) lent_page_back [OF assms(2) a False] by (simp add: pages_of_machine)
  qed
qed

section \<open>What the commands do\<close>



definition env_demo :: env where
  "env_demo = \<lparr>env_dev = (\<lambda>h p. 0), env_jump = (\<lambda>entry rsp k. Some (set_mem ((k_mem k)(rsp := 7)) k)),
     env_scratch = replicate 256 NUL, user_hello_at = 0x100000, elf_hello_image = (0x101000, 0x102000),
     elf_echo_image = (0x103000, 0x104000), elf_cat_image = (0x105000, 0x106000), env_test_process = 0x107000,
     env_cr3 = 0x1000, env_msg = 0x108000\<rparr>"

lemma env_demo_ring3: "ring3_env t env_demo"
  by (auto simp: ring3_env_def env_demo_def intro: ring3_step.Store)


end
