(* ===== verification/Shell.thy ===== *)
theory Shell
  imports Programs Pci
begin

text \<open>
  The shell, \<^verbatim>\<open>src/kernel/shell.cpp\<close>: the line that is being typed, the built-in commands, the
  dispatch, and scripts. The record \<open>world\<close> is the state a command can reach: the state of the
  system calls, the tree of nodes, the current directory, the list of PCI devices, the system call
  table and the port accesses so far. The heap of the tree is that of the process state.
  A command comes back, halts the machine (\<open>reboot\<close>), or is \<open>Lost\<close>: it never returns, or it
  follows a null pointer. The lemmas show what a typed line executes, that the current directory
  stays a directory of the tree, that \<open>cd\<close> and \<open>pwd\<close> agree, and that a script is its lines.
\<close>

record world =
  w_k :: kstate
  w_nodes :: "u64 \<Rightarrow> vfs_node"
  w_root :: u64
  g_cwd :: u64
  w_pci :: pci
  w_syscalls :: syscall_table
  w_io :: history
  command_buffer :: "char list"
  buffer_pos :: u16

datatype 'a result = Back 'a | Halted 'a | Lost

fun then_do :: "'a result \<Rightarrow> ('a \<Rightarrow> 'a result) \<Rightarrow> 'a result" where
  "then_do (Back w) f = f w"
| "then_do (Halted w) f = Halted w"
| "then_do Lost f = Lost"

definition tree_of :: "world \<Rightarrow> vfs" where
  "tree_of w = \<lparr>nodes = w_nodes w, g_root = w_root w, vheap = kheap_of (k_procs (w_k w))\<rparr>"

definition out :: "con_op list \<Rightarrow> world \<Rightarrow> world" where
  "out os w = w\<lparr>w_k := say os (w_k w)\<rparr>"

definition SHELL_MAX_COMMAND_LENGTH :: nat where "SHELL_MAX_COMMAND_LENGTH = 256"
definition SHELL_PROMPT :: string where "SHELL_PROMPT = ''paradox> ''"

text \<open>The colours the shell uses, on black.\<close>

definition ink :: "u8 \<Rightarrow> con_op list" where
  "ink fg = [Con_color fg VGA_BLACK]"

definition shell_cwd :: "world \<Rightarrow> u64 \<times> world" where
  "shell_cwd w = (let c = (if g_cwd w = 0 then w_root w else g_cwd w) in (c, w\<lparr>g_cwd := c\<rparr>))"

section \<open>Strings\<close>

fun char_at :: "string \<Rightarrow> char" where
  "char_at [] = NUL"
| "char_at (c # s) = c"

text \<open>The difference of the first differing bytes, as the C library has it.\<close>

fun strcmp :: "string \<Rightarrow> string \<Rightarrow> int" where
  "strcmp (a # as) (b # bs) = (if a = b then strcmp as bs else of_char a - of_char b)"
| "strcmp as bs = of_char (char_at as) - of_char (char_at bs)"

fun strncmp :: "nat \<Rightarrow> string \<Rightarrow> string \<Rightarrow> int" where
  "strncmp 0 as bs = 0"
| "strncmp (Suc n) (a # as) (b # bs) = (if a = b then strncmp n as bs else of_char a - of_char b)"
| "strncmp (Suc n) as bs = of_char (char_at as) - of_char (char_at bs)"

text \<open>The test of the dispatch: the word has the length of the command's name and its characters.\<close>

definition IS :: "string \<Rightarrow> string \<Rightarrow> bool" where
  "IS word s \<longleftrightarrow> length word = length s \<and> strncmp (length s) word s = 0"

section \<open>Commands that print\<close>

definition show_prompt :: "con_op list" where
  "show_prompt = ink VGA_LIGHT_CYAN @ puts SHELL_PROMPT @ ink VGA_WHITE"

definition shell_init :: "world \<Rightarrow> world" where
  "shell_init w =
     out (ink VGA_LIGHT_GREEN @ puts (''Shell initialized. Type '' @ [CHR 0x27] @ ''help'' @ [CHR 0x27] @
            '' for available commands.'' @ LF @ LF) @ show_prompt)
       (w\<lparr>buffer_pos := 0, command_buffer := (command_buffer w)[0 := NUL]\<rparr>)"

definition heading :: "u8 \<Rightarrow> string \<Rightarrow> con_op list" where
  "heading colour title = ink colour @ puts (LF @ title @ LF) @ ink VGA_WHITE"

definition cmd_help :: "con_op list" where
  "cmd_help =
     heading VGA_YELLOW ''Available Commands:'' @
     puts (''  help      - Show this help message'' @ LF @
           ''  clear     - Clear the screen'' @ LF @
           ''  echo      - Echo text to screen'' @ LF @
           ''  info      - Show system information'' @ LF @
           ''  memory    - Show memory statistics'' @ LF @
           ''  ps        - List running processes'' @ LF @
           ''  uptime    - Show system uptime'' @ LF @
           ''  spawn     - Spawn a test process'' @ LF @
           ''  syscall   - Test system calls'' @ LF @
           ''  lspci     - List PCI devices'' @ LF @
           ''  reboot    - Reboot the system'' @ LF @ LF)"

definition sh_clear :: "con_op list" where
  "sh_clear = [Con_clear]"

definition sh_echo :: "string \<Rightarrow> con_op list" where
  "sh_echo args = ink VGA_LIGHT_GREEN @ puts args @ puts LF @ ink VGA_WHITE"

definition cmd_info :: "con_op list" where
  "cmd_info =
     heading VGA_LIGHT_CYAN ''=== ParadoxOS System Information ==='' @
     puts (''OS Name:      ParadoxOS'' @ LF @
           ''Architecture: x86_64'' @ LF @
           ''Mode:         Long Mode (64-bit)'' @ LF @
           ''Bootloader:   Multiboot2'' @ LF @
           ''VGA Mode:     Text 80x25'' @ LF @
           ''Interrupts:   Enabled (IDT + PIC)'' @ LF @
           ''Timer:        PIT @ 100 Hz'' @ LF @
           ''Memory:       Physical + Heap allocators'' @ LF @
           ''Processes:    Round-robin scheduler'' @ LF @ LF)"

definition sh_uptime :: "u64 \<Rightarrow> con_op list" where
  "sh_uptime ticks =
     (let seconds = ticks div 100; minutes = seconds div 60; hours = minutes div 60
      in heading VGA_LIGHT_CYAN ''=== System Uptime ==='' @
         puts (''Ticks:   '' @ dec_string ticks @ LF @
               ''Uptime:  '' @ dec_string hours @ ''h '' @ dec_string (minutes mod 60) @ ''m '' @
               dec_string (seconds mod 60) @ ''s'' @ LF @ ''Processes:    Round-robin scheduler'' @ LF @ LF))"

definition cmd_ps :: "procs \<Rightarrow> con_op list" where
  "cmd_ps s =
     heading VGA_LIGHT_CYAN ''=== Process List ==='' @
     puts (''PID  NAME                STATE'' @ LF @ ''---  ----------------    -----'' @ LF) @
     (let current = process_get_current s
      in if current = 0 then []
         else puts (dec_string (ucast (pid (pcbs s current))) @ ''    '' @ pname (pcbs s current) @ ''            '') @
              ink VGA_LIGHT_GREEN @ puts (''RUNNING'' @ LF) @ ink VGA_WHITE) @
     puts LF"

definition cmd_memory :: "pmm \<Rightarrow> con_op list" where
  "cmd_memory p =
     (let all = pmm_get_managed_memory p; used = pmm_get_used_memory p; free = pmm_get_free_memory p
      in heading VGA_LIGHT_CYAN ''=== Memory Statistics ==='' @
         puts ''Total:  '' @ ink VGA_LIGHT_GREEN @ puts (dec_string (all div (1024 * 1024)) @ '' MB'' @ LF) @
         ink VGA_WHITE @
         puts ''Used:   '' @ ink VGA_LIGHT_RED @ puts (dec_string (used div (1024 * 1024)) @ '' MB'' @ LF) @
         ink VGA_WHITE @
         puts ''Free:   '' @ ink VGA_LIGHT_GREEN @ puts (dec_string (free div (1024 * 1024)) @ '' MB'' @ LF) @
         ink VGA_WHITE @
         puts (''Pages:  '' @ dec_string (free div PAGE_SIZE) @ '' available'' @ LF @ LF))"

definition lspci_row :: "pci_device \<Rightarrow> string" where
  "lspci_row d =
     hex_byte_string (pci_bus d) @ ''  '' @ hex_byte_string (pci_dev d) @ ''  '' @ hex_byte_string (pci_function d) @ '' '' @
     hex_word_string (vendor_id d) @ '' '' @ hex_word_string (device_id d) @ '' '' @
     pci_get_class_name (class_code d) @ replicate (11 - length (pci_get_class_name (class_code d))) (CHR '' '') @
     pci_get_vendor_name (vendor_id d) @ LF"

definition cmd_lspci :: "pci \<Rightarrow> con_op list" where
  "cmd_lspci p =
     heading VGA_LIGHT_CYAN ''=== PCI Devices ==='' @
     (let count = pci_get_device_count p
      in if count = 0 then puts (''No PCI devices found.'' @ LF @ LF)
         else puts (''Bus Dev Fn VendID DevID Class      Vendor'' @ LF @
                    ''--- --- -- ------ ------ ---------- ------'' @ LF) @
              puts (concat (map (\<lambda>i. case pci_get_device (of_nat i) p of None \<Rightarrow> [] | Some d \<Rightarrow> lspci_row d)
                                [0..<unat count])) @
              puts (LF @ ''Total: '' @ dec_string (ucast count) @ '' devices'' @ LF @ LF))"

section \<open>Commands that act\<close>

text \<open>The keyboard controller is polled until its input buffer is empty.\<close>

partial_function (option) kbc_wait :: "device \<Rightarrow> history \<Rightarrow> history option" where
  "kbc_wait dev h = (case inb dev 0x64 h of (good, h1) \<Rightarrow> if good AND 0x02 \<noteq> 0 then kbc_wait dev h1 else Some h1)"

definition cmd_reboot :: "env \<Rightarrow> world \<Rightarrow> world result" where
  "cmd_reboot e w =
     (let w1 = out (ink VGA_LIGHT_RED @ puts (LF @ ''Rebooting system...'' @ LF)) w
      in case kbc_wait (env_dev e) (w_io w1) of
           None \<Rightarrow> Lost
         | Some h \<Rightarrow> Halted (w1\<lparr>w_io := outb 0x64 0xFE h\<rparr>))"

definition set_procs :: "procs \<Rightarrow> world \<Rightarrow> world" where
  "set_procs s w = w\<lparr>w_k := (w_k w)\<lparr>k_procs := s\<rparr>\<rparr>"

definition cmd_spawn :: "env \<Rightarrow> world \<Rightarrow> world result" where
  "cmd_spawn e w =
     (case process_create_test (env_test_process e) (env_cr3 e) (k_procs (w_k w)) of
        None \<Rightarrow> Lost
      | Some (proc, s) \<Rightarrow>
          Back (out (if proc \<noteq> 0
                     then heading VGA_LIGHT_GREEN ''=== Process Spawned ==='' @
                          puts (''PID: '' @ dec_string (ucast (pid (pcbs s proc))) @ LF @ ''Name: '' @
                                pname (pcbs s proc) @ LF @ ''State: READY'' @ LF @ LF)
                     else ink VGA_LIGHT_RED @ puts (LF @ ''Error: Failed to spawn process'' @ LF @ LF))
                (set_procs s w)))"

definition call_kernel :: "u64 \<Rightarrow> u64 \<Rightarrow> u64 \<Rightarrow> u64 \<Rightarrow> world \<Rightarrow> (u64 \<times> world) result" where
  "call_kernel n a b c w =
     (case syscall_invoke (w_syscalls w) n a b c (w_k w) of
        Some (Ret v k) \<Rightarrow> Back (v, w\<lparr>w_k := k\<rparr>)
      | _ \<Rightarrow> Lost)"

text \<open>The result is cut to 32 bits before it is printed.\<close>

definition low_dec :: "u64 \<Rightarrow> string" where
  "low_dec v = dec_string (ucast (ucast v :: u32))"

fun with_value :: "('b \<times> 'a) result \<Rightarrow> ('b \<Rightarrow> 'a \<Rightarrow> 'a result) \<Rightarrow> 'a result" where
  "with_value (Back (v, w)) f = f v w"
| "with_value (Halted (v, w)) f = Halted w"
| "with_value Lost f = Lost"

definition cmd_syscall :: "env \<Rightarrow> world \<Rightarrow> world result" where
  "cmd_syscall e w =
     with_value (call_kernel 7 0 0 0 (out (heading VGA_LIGHT_CYAN ''=== Testing System Calls ==='' @
                                       puts (LF @ ''Test 1: SYS_GETPID'' @ LF)) w))
       (\<lambda>p w. with_value (call_kernel 1 1 (env_msg e) 21 (out (puts (''Current PID: '' @ low_dec p @ LF @
                                       LF @ ''Test 2: SYS_WRITE'' @ LF)) w))
         (\<lambda>n w. with_value (call_kernel 9 0 0 0 (out (puts (''Bytes written: '' @ low_dec n @ LF @
                                       LF @ ''Test 3: SYS_YIELD'' @ LF)) w))
           (\<lambda>y w. Back (out (puts (''Returned from yield'' @ LF) @ ink VGA_LIGHT_GREEN @
                            puts (LF @ ''* System calls working!'' @ LF @ LF) @ ink VGA_WHITE) w))))"

section \<open>Files and directories\<close>

definition cmd_pwd :: "world \<Rightarrow> world" where
  "cmd_pwd w = (case shell_cwd w of (c, w1) \<Rightarrow> out (puts (vfs_path_of c 128 (tree_of w1) @ LF)) w1)"

text \<open>The list \<^verbatim>\<open>c, c->next, ...\<close>; \<open>None\<close> if it never ends.\<close>

partial_function (option) siblings :: "(u64 \<Rightarrow> vfs_node) \<Rightarrow> u64 \<Rightarrow> u64 list option" where
  "siblings nd c = (if c = 0 then Some [] else Option.bind (siblings nd (nnext (nd c))) (\<lambda>cs. Some (c # cs)))"

definition ls_row :: "vfs_node \<Rightarrow> string" where
  "ls_row n =
     (case nkind n of VFS_DIR \<Rightarrow> ''DIR '' | VFS_EXEC \<Rightarrow> ''EXEC'' | VFS_FILE \<Rightarrow> ''FILE'') @ ''  '' @ nname n @
     (if nkind n = VFS_EXEC \<and> ndescription n \<noteq> [] then ''    '' @ ndescription n else []) @ LF"

definition list_node :: "u64 \<Rightarrow> world \<Rightarrow> world result" where
  "list_node dir w =
     (if dir = 0 then Lost
      else if nkind (w_nodes w dir) \<noteq> VFS_DIR then Back (out (puts (nname (w_nodes w dir) @ LF)) w)
      else case siblings (w_nodes w) (first_child (w_nodes w dir)) of
             None \<Rightarrow> Lost
           | Some cs \<Rightarrow> Back (out (puts (concat (map (\<lambda>c. ls_row (w_nodes w c)) cs))) w))"

definition cmd_ls :: "string \<Rightarrow> world \<Rightarrow> world result" where
  "cmd_ls args w =
     (case shell_cwd w of (dir, w1) \<Rightarrow>
        if args = [] then list_node dir w1
        else case vfs_lookup args (tree_of w1) of
               None \<Rightarrow> Lost
             | Some target \<Rightarrow>
                 if target \<noteq> 0 then list_node target w1
                 else Back (out (puts (''ls: no such path: '' @ args @ LF)) w1))"

definition sh_cat :: "string \<Rightarrow> world \<Rightarrow> world result" where
  "sh_cat args w =
     (if args = [] then Back (out (puts (''usage: cat <path>'' @ LF)) w)
      else case vfs_lookup args (tree_of w) of
             None \<Rightarrow> Lost
           | Some n \<Rightarrow>
               if n = 0 then Back (out (puts (''cat: no such file: '' @ args @ LF)) w)
               else if nkind (w_nodes w n) \<noteq> VFS_FILE then Back (out (puts (''cat: not a regular file'' @ LF)) w)
               else let bytes = file_data (tree_of w) n
                    in Back (out (puts (map (char_of \<circ> unat) bytes @
                                        (if bytes \<noteq> [] \<and> last bytes \<noteq> 0x0A then LF else []))) w))"

text \<open>The path a relative argument stands for, in a buffer of 160 bytes.\<close>

definition relative_path :: "string \<Rightarrow> string \<Rightarrow> string" where
  "relative_path cwd args =
     (let p = (if cwd = [] \<or> last cwd \<noteq> CHR ''/'' then (if length cwd + 1 < 160 then cwd @ ''/'' else cwd) else cwd)
      in p @ take (159 - length p) args)"

definition go_to :: "string \<Rightarrow> u64 \<Rightarrow> world \<Rightarrow> world" where
  "go_to args target w =
     (if target = 0 then out (puts (''cd: no such path: '' @ args @ LF)) w
      else if nkind (w_nodes w target) \<noteq> VFS_DIR then out (puts (''cd: not a directory'' @ LF)) w
      else w\<lparr>g_cwd := target\<rparr>)"

definition cmd_cd :: "string \<Rightarrow> world \<Rightarrow> world result" where
  "cmd_cd args w =
     (if args = [] \<or> args = ''/'' then Back (w\<lparr>g_cwd := w_root w\<rparr>)
      else if args = ''..'' \<or> take 3 args = ''../''
           then Back (if g_cwd w \<noteq> 0 \<and> nparent (w_nodes w (g_cwd w)) \<noteq> 0
                      then w\<lparr>g_cwd := nparent (w_nodes w (g_cwd w))\<rparr> else w)
      else if char_at args = CHR ''/''
           then (case vfs_lookup args (tree_of w) of None \<Rightarrow> Lost | Some target \<Rightarrow> Back (go_to args target w))
      else case shell_cwd w of (c, w1) \<Rightarrow>
             (case vfs_lookup (relative_path (vfs_path_of c 160 (tree_of w1)) args) (tree_of w1) of
                None \<Rightarrow> Lost
              | Some target \<Rightarrow> Back (go_to args target w1)))"

section \<open>Scripts and dispatch\<close>

definition is_sep :: "char \<Rightarrow> bool" where
  "is_sep c \<longleftrightarrow> c = CHR 0x0A \<or> c = CHR 0x0D"

text \<open>A line is run unless it is blank or a comment.\<close>

definition worth_running :: "string \<Rightarrow> bool" where
  "worth_running line \<longleftrightarrow> (let p = dropWhile is_blank line in p \<noteq> [] \<and> char_at p \<noteq> CHR ''#'')"

definition run_line :: "(string \<Rightarrow> world \<Rightarrow> world result) \<Rightarrow> string \<Rightarrow> world \<Rightarrow> world result" where
  "run_line exec line w =
     (if worth_running line then exec line (out (puts (SHELL_PROMPT @ line @ LF)) w) else Back w)"

text \<open>
  The loop of \<open>cmd_sh\<close> over the characters \<open>i, ..., len\<close> of the script, one past its end being a
  line end; a character is read when the loop comes to it, so from the memory of that moment.
\<close>

definition script_char :: "u64 \<Rightarrow> nat \<Rightarrow> world \<Rightarrow> char" where
  "script_char n i w =
     (if i < unat (nlen (w_nodes w n)) then char_of (unat (k_mem (w_k w) (ncontent (w_nodes w n) + of_nat i)))
      else CHR 0x0A)"

text \<open>A NUL of the script ends its line early, since the line buffer is read as a string.\<close>

fun sh_loop :: "(string \<Rightarrow> world \<Rightarrow> world result) \<Rightarrow> u64 \<Rightarrow> nat \<Rightarrow> nat \<Rightarrow> string \<Rightarrow> world \<Rightarrow> world result" where
  "sh_loop exec n 0 i line w = Back w"
| "sh_loop exec n (Suc todo) i line w =
     (let c = script_char n i w
      in if is_sep c then then_do (run_line exec (takeWhile (\<lambda>c. c \<noteq> NUL) line) w) (sh_loop exec n todo (i + 1) [])
         else sh_loop exec n todo (i + 1)
                (if length line + 1 < SHELL_MAX_COMMAND_LENGTH then line @ [c] else line) w)"

definition cmd_sh :: "(string \<Rightarrow> world \<Rightarrow> world result) \<Rightarrow> string \<Rightarrow> world \<Rightarrow> world result" where
  "cmd_sh exec args w =
     (if args = [] then Back (out (puts (''usage: sh <script-path>'' @ LF)) w)
      else case vfs_lookup args (tree_of w) of
             None \<Rightarrow> Lost
           | Some n \<Rightarrow>
               if n = 0 \<or> nkind (w_nodes w n) \<noteq> VFS_FILE
               then Back (out (puts (''sh: no such script: '' @ args @ LF)) w)
               else sh_loop exec n (Suc (unat (nlen (w_nodes w n)))) 0 []
                      (out (puts (''[sh] '' @ args @ LF)) w))"

definition program_path :: "string \<Rightarrow> string" where
  "program_path name =
     (if char_at name = CHR ''/'' then take 79 name else ''/bin/'' @ take 74 name)"

definition run_program :: "env \<Rightarrow> string \<Rightarrow> string \<Rightarrow> world \<Rightarrow> world result" where
  "run_program e name args w =
     (case vfs_lookup (program_path name) (tree_of w) of
        None \<Rightarrow> Lost
      | Some n \<Rightarrow>
          if n \<noteq> 0 \<and> nkind (w_nodes w n) = VFS_EXEC
          then (case run_node e n (Some args) (tree_of w) (w_k w) of None \<Rightarrow> Lost | Some k \<Rightarrow> Back (w\<lparr>w_k := k\<rparr>))
          else Back (out (puts (''Unknown command: '' @ take 63 name @ LF @ ''Type '' @ [CHR 0x27] @ ''help'' @ [CHR 0x27] @
                 '' for built-ins, '' @ [CHR 0x27] @ ''ls /bin'' @ [CHR 0x27] @ '' for programs.'' @ LF)) w))"

definition run_builtin :: "env \<Rightarrow> (string \<Rightarrow> world \<Rightarrow> world result) \<Rightarrow> string \<Rightarrow> string \<Rightarrow> world \<Rightarrow> world result" where
  "run_builtin e exec name args w =
     (if IS name ''help'' then Back (out cmd_help w)
      else if IS name ''clear'' then Back (out sh_clear w)
      else if IS name ''echo'' then Back (out (sh_echo args) w)
      else if IS name ''info'' then Back (out cmd_info w)
      else if IS name ''memory'' then Back (out (cmd_memory (pages_of (k_procs (w_k w)))) w)
      else if IS name ''ps'' then Back (out (cmd_ps (k_procs (w_k w))) w)
      else if IS name ''uptime'' then Back (out (sh_uptime (timer_get_ticks (k_timer (w_k w)))) w)
      else if IS name ''spawn'' then cmd_spawn e w
      else if IS name ''syscall'' then cmd_syscall e w
      else if IS name ''lspci'' then Back (out (cmd_lspci (w_pci w)) w)
      else if IS name ''reboot'' then cmd_reboot e w
      else if IS name ''pwd'' then Back (cmd_pwd w)
      else if IS name ''ls'' then cmd_ls args w
      else if IS name ''cat'' then sh_cat args w
      else if IS name ''cd'' then cmd_cd args w
      else if IS name ''sh'' then cmd_sh exec args w
      else run_program e name args w)"

text \<open>
  The first word of the command, and the rest without the blanks before it. The nesting of
  scripts is bounded by the first argument, since a script that runs itself never returns (the
  kernel stack overflows).
\<close>

fun shell_execute_no_prompt :: "nat \<Rightarrow> env \<Rightarrow> string \<Rightarrow> world \<Rightarrow> world result" where
  "shell_execute_no_prompt 0 e command w = Lost"
| "shell_execute_no_prompt (Suc d) e command w =
     (let cmd = dropWhile (\<lambda>c. c = CHR '' '') command
      in if cmd = [] then Back w
         else run_builtin e (shell_execute_no_prompt d e) (takeWhile (\<lambda>c. c \<noteq> CHR '' '') cmd)
                (dropWhile (\<lambda>c. c = CHR '' '') (dropWhile (\<lambda>c. c \<noteq> CHR '' '') cmd)) w)"

definition shell_execute :: "nat \<Rightarrow> env \<Rightarrow> string \<Rightarrow> world \<Rightarrow> world result" where
  "shell_execute d e command w = then_do (shell_execute_no_prompt d e command w) (\<lambda>w1. Back (out show_prompt w1))"

section \<open>The line that is typed\<close>

definition typed_line :: "world \<Rightarrow> string" where
  "typed_line w = take (unat (buffer_pos w)) (command_buffer w)"

definition shell_process_char :: "nat \<Rightarrow> env \<Rightarrow> char \<Rightarrow> world \<Rightarrow> world result" where
  "shell_process_char d e c w =
     (if c = CHR 0x0A
      then let w1 = (out (puts LF) w)\<lparr>command_buffer := (command_buffer w)[unat (buffer_pos w) := NUL]\<rparr>
           in then_do (shell_execute d e (takeWhile (\<lambda>c. c \<noteq> NUL) (command_buffer w1)) w1) (\<lambda>w2. Back (w2\<lparr>buffer_pos := 0\<rparr>))
      else if c = CHR 0x08
           then Back (if buffer_pos w > 0 then out (puts [CHR 0x08]) (w\<lparr>buffer_pos := buffer_pos w - 1\<rparr>) else w)
      else if c = CHR 0x09 then Back w
      else if 32 \<le> (of_char c :: nat) \<and> (of_char c :: nat) < 127
           then Back (if unat (buffer_pos w) < SHELL_MAX_COMMAND_LENGTH - 1
                      then out (puts [c]) (w\<lparr>command_buffer := (command_buffer w)[unat (buffer_pos w) := c],
                                            buffer_pos := buffer_pos w + 1\<rparr>)
                      else w)
      else Back w)"

section \<open>Dispatch\<close>

lemma strncmp_0_iff: "length a = length b \<Longrightarrow> strncmp (length b) a b = 0 \<longleftrightarrow> a = b"
proof (induction a b rule: list_induct2')
  case (4 x xs y ys)
  then show ?case by simp
qed simp_all

lemma IS_iff: "IS word s \<longleftrightarrow> word = s"
  using strncmp_0_iff [of word s] by (auto simp: IS_def)

lemma out_simps [simp]:
  "w_nodes (out os w) = w_nodes w" "w_root (out os w) = w_root w" "g_cwd (out os w) = g_cwd w"
  "command_buffer (out os w) = command_buffer w" "buffer_pos (out os w) = buffer_pos w"
  "tree_of (out os w) = tree_of w" "k_procs (w_k (out os w)) = k_procs (w_k w)" "k_mem (w_k (out os w)) = k_mem (w_k w)"
  by (simp_all add: out_def tree_of_def say_def k_mem_def)

lemma then_do_Back: "then_do r f = Back w \<longleftrightarrow> (\<exists>w1. r = Back w1 \<and> f w1 = Back w)"
  by (cases r) auto

lemma then_do_assoc: "then_do (then_do r f) g = then_do r (\<lambda>w. then_do (f w) g)"
  by (cases r) auto

section \<open>The current directory\<close>

definition reachable :: "(u64 \<Rightarrow> u64 list) \<Rightarrow> u64 \<Rightarrow> u64 \<Rightarrow> bool" where
  "reachable ch root n \<longleftrightarrow> (\<exists>ns. path_nodes ch root ns \<and> last (root # ns) = n)"

text \<open>The current directory is not set yet, or it is a directory that a path leads to.\<close>

definition cwd_ok :: "(u64 \<Rightarrow> u64 list) \<Rightarrow> world \<Rightarrow> bool" where
  "cwd_ok ch w \<longleftrightarrow> nkind (w_nodes w (w_root w)) = VFS_DIR \<and> nparent (w_nodes w (w_root w)) = 0 \<and>
     (g_cwd w = 0 \<or> nkind (w_nodes w (g_cwd w)) = VFS_DIR \<and> reachable ch (w_root w) (g_cwd w))"

lemma reachable_root [simp]: "reachable ch r r"
  unfolding reachable_def by (rule exI [of _ "[]"]) simp

lemma reachable_step: "reachable ch r n \<Longrightarrow> c \<in> set (ch n) \<Longrightarrow> reachable ch r c"
  unfolding reachable_def by (metis last.simps last_snoc list.distinct(1) path_nodes_snoc append_Cons)

lemma reachable_in: "tree_ok s N ch \<Longrightarrow> reachable ch (g_root s) n \<Longrightarrow> n \<in> N"
  unfolding reachable_def by (metis path_nodes_in tree_ok_def)

lemma reachable_parent:
  assumes T: "tree_ok s N ch" and r: "reachable ch (g_root s) n" and n: "n \<noteq> g_root s"
  shows "nkind (nodes s (nparent (nodes s n))) = VFS_DIR \<and> reachable ch (g_root s) (nparent (nodes s n))"
proof -
  obtain ns where ns: "path_nodes ch (g_root s) ns" "last (g_root s # ns) = n" using r by (auto simp: reachable_def)
  with n have "ns \<noteq> []" by auto
  then obtain ms where ms: "ns = ms @ [n]" using ns(2) by (metis append_butlast_last_id last.simps)
  let ?d = "last (g_root s # ms)"
  have d: "path_nodes ch (g_root s) ms" "n \<in> set (ch ?d)" using ns(1) by (auto simp: ms path_nodes_snoc)
  then have "?d \<in> N" using path_nodes_in [OF T _ d(1)] T by (auto simp: tree_ok_def)
  then have "nparent (nodes s n) = ?d" "nkind (nodes s ?d) = VFS_DIR"
    using T d(2) unfolding tree_ok_def by (fastforce, metis empty_iff empty_set)
  then show ?thesis using d(1) by (auto simp: reachable_def)
qed

lemma resolve_reachable:
  "reachable ch r d \<Longrightarrow> resolve nd ch d ws \<noteq> 0 \<Longrightarrow> reachable ch r (resolve nd ch d ws)"
proof (induction ws arbitrary: d)
  case (Cons w ws)
  then obtain c where c: "find (\<lambda>x. nname (nd x) = w) (ch d) = Some c" "nkind (nd d) = VFS_DIR"
    by (auto split: option.splits if_splits)
  then have "c \<in> set (ch d)" by (auto simp: find_Some_iff)
  then have "reachable ch r c" by (rule reachable_step [OF Cons.prems(1)])
  then show ?case using Cons c by simp
qed simp

lemma lookup_reachable:
  assumes "tree_ok s N ch" and "vfs_lookup path s = Some n" and "n \<noteq> 0"
  shows "reachable ch (g_root s) n"
  using assms(2,3) resolve_reachable [of ch "g_root s" "g_root s" "nodes s" "comps (tl path)"]
  by (auto simp: lookup_resolve [OF assms(1)] split: if_splits)

text \<open>A command keeps the tree, and the current directory is again a directory of it.\<close>

definition dirs_kept :: "(u64 \<Rightarrow> u64 list) \<Rightarrow> world \<Rightarrow> world \<Rightarrow> bool" where
  "dirs_kept ch w w' \<longleftrightarrow> w_nodes w' = w_nodes w \<and> w_root w' = w_root w \<and> (cwd_ok ch w \<longrightarrow> cwd_ok ch w')"

definition same_dirs :: "world \<Rightarrow> world \<Rightarrow> bool" where
  "same_dirs w w' \<longleftrightarrow> w_nodes w' = w_nodes w \<and> w_root w' = w_root w \<and> g_cwd w' = g_cwd w"

lemma same_dirs_kept: "same_dirs w w' \<Longrightarrow> dirs_kept ch w w'"
  by (simp add: same_dirs_def dirs_kept_def cwd_ok_def)

lemma same_dirs_simps [simp]:
  "same_dirs w w" "same_dirs w (out os w)" "same_dirs w (w\<lparr>w_k := k\<rparr>)" "same_dirs w (set_procs ps w)"
  "same_dirs w (out os (set_procs ps w))"
  by (simp_all add: same_dirs_def set_procs_def)

lemma same_dirs_trans: "same_dirs w1 w2 \<Longrightarrow> same_dirs w2 w3 \<Longrightarrow> same_dirs w1 w3"
  by (simp add: same_dirs_def)

lemma dirs_kept_trans: "dirs_kept ch w1 w2 \<Longrightarrow> dirs_kept ch w2 w3 \<Longrightarrow> dirs_kept ch w1 w3"
  by (simp add: dirs_kept_def)

lemma dirs_kept_tree: "dirs_kept ch w w' \<Longrightarrow> tree_ok (tree_of w) N ch \<Longrightarrow> tree_ok (tree_of w') N ch"
  by (simp add: dirs_kept_def tree_of_def tree_ok_def)

lemma dirs_kept_out [simp]: "dirs_kept ch w (out os w')  = dirs_kept ch w w'"
  by (simp add: dirs_kept_def cwd_ok_def)

lemma dirs_kept_refl [simp]: "dirs_kept ch w w"
  by (simp add: dirs_kept_def)

lemma dirs_kept_same: "dirs_kept ch w w1 \<Longrightarrow> same_dirs w1 w2 \<Longrightarrow> dirs_kept ch w w2"
  using dirs_kept_trans same_dirs_kept by blast

lemma shell_cwd_kept: "shell_cwd w = (c, w1) \<Longrightarrow> dirs_kept ch w w1"
  by (auto simp: shell_cwd_def Let_def dirs_kept_def cwd_ok_def)

lemma call_kernel_same: "call_kernel n a b c w = Back (v, w') \<Longrightarrow> same_dirs w w'"
  by (auto simp: call_kernel_def split: option.splits outcome.splits)

lemma with_value_Back: "with_value r f = Back w' \<longleftrightarrow> (\<exists>v w. r = Back (v, w) \<and> f v w = Back w')"
  by (cases r) auto

lemma syscall_same: "cmd_syscall e w = Back w' \<Longrightarrow> same_dirs w w'"
  unfolding cmd_syscall_def with_value_Back
  by (elim exE conjE) (drule call_kernel_same; fastforce dest: call_kernel_same simp: same_dirs_def)

lemma spawn_same: "cmd_spawn e w = Back w' \<Longrightarrow> same_dirs w w'"
  by (auto simp: cmd_spawn_def split: option.splits)

lemma list_node_same: "list_node d w = Back w' \<Longrightarrow> same_dirs w w'"
  by (auto simp: list_node_def split: option.splits if_splits)

lemma ls_kept: "cmd_ls args w = Back w' \<Longrightarrow> dirs_kept ch w w'"
  by (auto simp: cmd_ls_def split: prod.splits option.splits if_splits dest!: list_node_same
      dest: shell_cwd_kept intro: dirs_kept_same)

lemma cat_same: "sh_cat args w = Back w' \<Longrightarrow> same_dirs w w'"
  by (auto simp: sh_cat_def Let_def split: option.splits if_splits)

lemma program_same: "run_program e name args w = Back w' \<Longrightarrow> same_dirs w w'"
  by (auto simp: run_program_def split: option.splits if_splits)

lemma pwd_kept: "dirs_kept ch w (cmd_pwd w)"
  by (auto simp: cmd_pwd_def split: prod.splits dest: shell_cwd_kept)

lemma go_to_kept:
  assumes T: "tree_ok (tree_of w) N ch" and t: "vfs_lookup path (tree_of w) = Some target"
  shows "dirs_kept ch w (go_to args target w)"
proof -
  have "target \<noteq> 0 \<Longrightarrow> reachable ch (w_root w) target"
    using lookup_reachable [OF T t] by (simp add: tree_of_def)
  then show ?thesis by (auto simp: go_to_def) (auto simp: dirs_kept_def cwd_ok_def)
qed

lemma cd_kept:
  assumes T: "tree_ok (tree_of w) N ch" and r: "cmd_cd args w = Back w'"
  shows "dirs_kept ch w w'"
proof -
  have root: "dirs_kept ch w (w\<lparr>g_cwd := w_root w\<rparr>)" by (auto simp: dirs_kept_def cwd_ok_def)
  have up: "dirs_kept ch w (w\<lparr>g_cwd := nparent (w_nodes w (g_cwd w))\<rparr>)" if a: "g_cwd w \<noteq> 0" "nparent (w_nodes w (g_cwd w)) \<noteq> 0"
  proof -
    have "cwd_ok ch (w\<lparr>g_cwd := nparent (w_nodes w (g_cwd w))\<rparr>)" if ok: "cwd_ok ch w"
    proof -
      have "g_cwd w \<noteq> w_root w" "reachable ch (w_root w) (g_cwd w)" using ok a by (auto simp: cwd_ok_def)
      then show ?thesis using reachable_parent [OF T, of "g_cwd w"] ok by (simp add: tree_of_def cwd_ok_def)
    qed
    then show ?thesis by (simp add: dirs_kept_def)
  qed
  obtain c w1 where c: "shell_cwd w = (c, w1)" by (cases "shell_cwd w")
  have k: "dirs_kept ch w w1" using c by (rule shell_cwd_kept)
  have rel: "dirs_kept ch w (go_to args target w1)" if "vfs_lookup p (tree_of w1) = Some target" for p target
    using dirs_kept_trans [OF k go_to_kept [OF dirs_kept_tree [OF k T] that]] .
  show ?thesis
    using r root up rel go_to_kept [OF T] by (auto simp: cmd_cd_def c split: if_splits option.splits)
qed

lemma sh_loop_kept:
  assumes exec: "\<And>l w w'. tree_ok (tree_of w) N ch \<Longrightarrow> exec l w = Back w' \<Longrightarrow> dirs_kept ch w w'"
  shows "tree_ok (tree_of w) N ch \<Longrightarrow> sh_loop exec n todo i line w = Back w' \<Longrightarrow> dirs_kept ch w w'"
proof (induction todo arbitrary: i line w)
  case (Suc todo)
  show ?case
  proof (cases "is_sep (script_char n i w)")
    case True
    let ?l = "takeWhile (\<lambda>c. c \<noteq> NUL) line"
    obtain w1 where w1: "run_line exec ?l w = Back w1" "sh_loop exec n todo (i + 1) [] w1 = Back w'"
      using Suc.prems(2) True by (auto simp: then_do_Back)
    have "dirs_kept ch w w1"
    proof (cases "worth_running ?l")
      case w: True
      then have e: "exec ?l (out (puts (SHELL_PROMPT @ ?l @ LF)) w) = Back w1" using w1(1) by (simp add: run_line_def)
      have "dirs_kept ch (out (puts (SHELL_PROMPT @ ?l @ LF)) w) w1"
        by (rule exec [OF _ e]) (simp add: Suc.prems(1))
      then show ?thesis by (rule dirs_kept_trans [OF same_dirs_kept [OF same_dirs_simps(2)]])
    qed (use w1(1) in \<open>simp add: run_line_def\<close>)
    moreover have "dirs_kept ch w1 w'"
      using Suc.IH [OF dirs_kept_tree [OF calculation Suc.prems(1)] w1(2)] .
    ultimately show ?thesis by (rule dirs_kept_trans)
  next
    case False
    then show ?thesis using Suc.IH [OF Suc.prems(1)] Suc.prems(2) by (simp split: if_splits)
  qed
qed simp

lemma cmd_sh_kept:
  assumes exec: "\<And>l w w'. tree_ok (tree_of w) N ch \<Longrightarrow> exec l w = Back w' \<Longrightarrow> dirs_kept ch w w'"
    and T: "tree_ok (tree_of w) N ch" and r: "cmd_sh exec args w = Back w'"
  shows "dirs_kept ch w w'"
proof -
  have loop: "dirs_kept ch w w'" if "sh_loop exec n todo 0 [] (out os w) = Back w'" for n todo os
    using dirs_kept_trans [OF same_dirs_kept [OF same_dirs_simps(2)] sh_loop_kept [OF exec _ that]] T by simp
  show ?thesis
    using r loop by (auto simp: cmd_sh_def simp del: sh_loop.simps split: if_splits option.splits)
qed

lemma builtin_kept:
  assumes exec: "\<And>l w w'. tree_ok (tree_of w) N ch \<Longrightarrow> exec l w = Back w' \<Longrightarrow> dirs_kept ch w w'"
    and T: "tree_ok (tree_of w) N ch" and r: "run_builtin e exec name args w = Back w'"
  shows "dirs_kept ch w w'"
  using r spawn_same [THEN same_dirs_kept] syscall_same [THEN same_dirs_kept] cat_same [THEN same_dirs_kept]
    program_same [THEN same_dirs_kept] ls_kept pwd_kept cd_kept [OF T] cmd_sh_kept [OF exec T]
  unfolding run_builtin_def
  by (auto simp: cmd_reboot_def Let_def split: if_split_asm option.split_asm)

lemma execute_kept:
  "tree_ok (tree_of w) N ch \<Longrightarrow> shell_execute_no_prompt d e command w = Back w' \<Longrightarrow> dirs_kept ch w w'"
proof (induction d arbitrary: command w w')
  case (Suc d)
  show ?case
    using Suc.prems(2) builtin_kept [OF Suc.IH Suc.prems(1)] by (auto simp: Let_def split: if_splits)
qed simp

section \<open>The typed line\<close>

definition shell_key :: "char \<Rightarrow> bool" where
  "shell_key c \<longleftrightarrow> c = CHR 0x08 \<or> 32 \<le> (of_char c :: nat) \<and> (of_char c :: nat) < 127"

definition shell_ok :: "world \<Rightarrow> bool" where
  "shell_ok w \<longleftrightarrow> length (command_buffer w) = 256 \<and> unat (buffer_pos w) \<le> 255 \<and> NUL \<notin> set (typed_line w)"

fun shell_keys :: "nat \<Rightarrow> env \<Rightarrow> string \<Rightarrow> world \<Rightarrow> world result" where
  "shell_keys d e [] w = Back w"
| "shell_keys d e (c # cs) w = then_do (shell_process_char d e c w) (shell_keys d e cs)"

lemma shell_keys_append: "shell_keys d e (cs @ ds) w = then_do (shell_keys d e cs w) (shell_keys d e ds)"
proof (induction cs arbitrary: w)
  case (Cons c cs)
  then show ?case by (cases "shell_process_char d e c w") simp_all
qed simp

text \<open>Only the screen and the line buffer change.\<close>

definition echoed :: "world \<Rightarrow> world \<Rightarrow> bool" where
  "echoed w w' \<longleftrightarrow> (\<exists>os b p. w' = (out os w)\<lparr>command_buffer := b, buffer_pos := p\<rparr>)"

lemma out_out: "out xs (out os w) = out (os @ xs) w"
  by (simp add: out_def say_def)

lemma out_buffers: "out xs (w\<lparr>command_buffer := b, buffer_pos := p\<rparr>) = (out xs w)\<lparr>command_buffer := b, buffer_pos := p\<rparr>"
  by (simp add: out_def)

lemma echoed_refl: "echoed w w"
  unfolding echoed_def by (rule exI [of _ "[]"], rule exI [of _ "command_buffer w"], rule exI [of _ "buffer_pos w"])
    (simp add: out_def say_def console_run_def)

lemma echoed_trans: "echoed w1 w2 \<Longrightarrow> echoed w2 w3 \<Longrightarrow> echoed w1 w3"
  unfolding echoed_def by (elim exE) (auto simp: out_buffers out_out)

lemma key_edits:
  assumes ok: "shell_ok w" and c: "c \<noteq> CHR 0x0A"
  shows "\<exists>w'. shell_process_char d e c w = Back w' \<and> shell_ok w' \<and> echoed w w' \<and>
    typed_line w' = edited (typed_line w) (if shell_key c then [c] else [])"
proof -
  let ?p = "buffer_pos w" and ?b = "command_buffer w"
  have b: "length ?b = 256" "unat ?p \<le> 255" and nn: "NUL \<notin> set (take (unat ?p) ?b)"
    using ok by (auto simp: shell_ok_def typed_line_def)
  have l: "length (typed_line w) = unat ?p" using b by (simp add: typed_line_def)
  have ech: "echoed w ((out os w)\<lparr>command_buffer := b', buffer_pos := p'\<rparr>)" for os b' p'
    unfolding echoed_def by blast
  consider (bs) "c = CHR 0x08" | (ch) "c \<noteq> CHR 0x08" "shell_key c" | (no) "\<not> shell_key c"
    by (auto simp: shell_key_def)
  then show ?thesis
  proof cases
    case bs
    show ?thesis
    proof (cases "?p > 0")
      case True
      have u: "unat (?p - 1) = unat ?p - 1" using True by (intro unat_minus_one) auto
      let ?w = "out (puts [CHR 0x08]) (w\<lparr>buffer_pos := ?p - 1\<rparr>)"
      have t: "typed_line ?w = butlast (typed_line w)" using b u by (simp add: typed_line_def butlast_take)
      have "NUL \<notin> set (typed_line ?w)" unfolding t using nn in_set_butlastD [of NUL "typed_line w"]
        unfolding typed_line_def by blast
      then have "shell_ok ?w" using b u by (simp add: shell_ok_def)
      moreover have "?w = (out (puts [CHR 0x08]) w)\<lparr>command_buffer := ?b, buffer_pos := ?p - 1\<rparr>"
        by (simp add: out_def)
      then have "echoed w ?w" using ech by simp
      ultimately show ?thesis using True t bs by (simp add: shell_process_char_def shell_key_def)
    next
      case False
      then have "?p = 0" by (simp add: word_gt_0)
      then show ?thesis using bs ok echoed_refl by (simp add: shell_process_char_def shell_key_def typed_line_def)
    qed
  next
    case ch
    then have pr: "32 \<le> (of_char c :: nat)" "(of_char c :: nat) < 127" by (auto simp: shell_key_def)
    have "of_char NUL = (0 :: nat)" by code_simp
    then have ncs: "c \<noteq> CHR 0x09" "c \<noteq> NUL" using pr by auto
    show ?thesis
    proof (cases "unat ?p < 255")
      case True
      have u: "unat (?p + 1) = unat ?p + 1" using True by (simp add: unat_word_ariths)
      let ?w = "out (puts [c]) (w\<lparr>command_buffer := ?b[unat ?p := c], buffer_pos := ?p + 1\<rparr>)"
      have t: "typed_line ?w = typed_line w @ [c]" using b u by (simp add: typed_line_def take_Suc_conv_app_nth)
      have "shell_ok ?w" using b u True nn ncs by (simp add: shell_ok_def t) (simp add: typed_line_def)
      moreover have "echoed w ?w" unfolding out_buffers by (rule ech)
      ultimately show ?thesis using True t ch pr ncs c l
        by (simp add: shell_process_char_def SHELL_MAX_COMMAND_LENGTH_def)
    next
      case False
      then show ?thesis using ok echoed_refl ch pr ncs c l b
        by (simp add: shell_process_char_def SHELL_MAX_COMMAND_LENGTH_def)
    qed
  next
    case no
    then show ?thesis using ok echoed_refl c by (auto simp: shell_process_char_def shell_key_def)
  qed
qed

lemma edited_append: "edited line (xs @ ys) = edited (edited line xs) ys"
  by (induction xs arbitrary: line) simp_all

lemma keys_edit_line:
  "shell_ok w \<Longrightarrow> CHR 0x0A \<notin> set cs \<Longrightarrow>
    \<exists>w'. shell_keys d e cs w = Back w' \<and> shell_ok w' \<and> echoed w w' \<and>
      typed_line w' = edited (typed_line w) (List.filter shell_key cs)"
proof (induction cs arbitrary: w)
  case (Cons c cs)
  obtain w1 where w1: "shell_process_char d e c w = Back w1" "shell_ok w1" "echoed w w1"
      "typed_line w1 = edited (typed_line w) (if shell_key c then [c] else [])"
    using key_edits [of w c d e] Cons.prems by auto
  obtain w' where w': "shell_keys d e cs w1 = Back w'" "shell_ok w'" "echoed w1 w'"
      "typed_line w' = edited (typed_line w1) (List.filter shell_key cs)"
    using Cons.IH [OF w1(2)] Cons.prems by auto
  have "typed_line w' = edited (typed_line w) (List.filter shell_key (c # cs))"
    using w1(4) w'(4) edited_append [of "typed_line w" "[c]" "List.filter shell_key cs"] by simp
  then show ?case using w1 w' echoed_trans by auto
qed (simp add: echoed_refl)

lemma newline_executes:
  assumes ok: "shell_ok w"
  shows "\<exists>w1. echoed w w1 \<and> shell_process_char d e (CHR 0x0A) w =
    then_do (shell_execute d e (typed_line w) w1) (\<lambda>w2. Back (w2\<lparr>buffer_pos := 0\<rparr>))"
proof -
  let ?n = "unat (buffer_pos w)" and ?b = "command_buffer w"
  let ?w1 = "(out (puts LF) w)\<lparr>command_buffer := ?b[?n := NUL]\<rparr>"
  have b: "length ?b = 256" "?n \<le> 255" and nn: "NUL \<notin> set (take ?n ?b)"
    using ok by (auto simp: shell_ok_def typed_line_def)
  have "takeWhile (\<lambda>c. c \<noteq> NUL) (?b[?n := NUL]) = take ?n ?b"
  proof -
    have "?b[?n := NUL] = take ?n ?b @ NUL # drop (Suc ?n) ?b" using b by (simp add: upd_conv_take_nth_drop)
    moreover have "takeWhile (\<lambda>c. c \<noteq> NUL) (take ?n ?b) = take ?n ?b" using nn by (auto simp: takeWhile_eq_all_conv)
    ultimately show ?thesis using nn by (simp add: takeWhile_append)
  qed
  moreover have "?w1 = (out (puts LF) w)\<lparr>command_buffer := ?b[?n := NUL], buffer_pos := buffer_pos w\<rparr>"
    by simp
  then have "echoed w ?w1" unfolding echoed_def by metis
  ultimately show ?thesis by (intro exI [of _ ?w1]) (simp add: shell_process_char_def Let_def typed_line_def)
qed

section \<open>Walking the tree\<close>

fun run_cds :: "string list \<Rightarrow> world \<Rightarrow> world result" where
  "run_cds [] w = Back w"
| "run_cds (a # as) w = then_do (cmd_cd a w) (run_cds as)"

lemma run_cds_snoc: "run_cds (as @ [a]) w = then_do (run_cds as w) (cmd_cd a)"
proof (induction as arbitrary: w)
  case Nil
  then show ?case by (cases "cmd_cd a w") simp_all
next
  case (Cons b as)
  then show ?case by (cases "cmd_cd b w") simp_all
qed

definition names_of :: "world \<Rightarrow> u64 list \<Rightarrow> string list" where
  "names_of w ns = map (\<lambda>n. nname (w_nodes w n)) ns"

text \<open>\<open>ns\<close> is a way down from the root over directories with legal names.\<close>

definition dir_path :: "(u64 \<Rightarrow> u64 list) \<Rightarrow> world \<Rightarrow> u64 list \<Rightarrow> bool" where
  "dir_path ch w ns \<longleftrightarrow> path_nodes ch (w_root w) ns \<and> length ns \<le> 16 \<and> length (join_path (names_of w ns)) < 128 \<and>
     (\<forall>n \<in> set ns. nkind (w_nodes w n) = VFS_DIR \<and> ok_name (nname (w_nodes w n)) \<and> nname (w_nodes w n) \<noteq> ''..'')"

lemma tree_of_simps [simp]: "nodes (tree_of w) = w_nodes w" "g_root (tree_of w) = w_root w"
    "tree_of (w\<lparr>g_cwd := c\<rparr>) = tree_of w"
  by (simp_all add: tree_of_def)

lemma dir_path_snoc: "dir_path ch w (ns @ [n]) \<Longrightarrow> dir_path ch w ns \<and> n \<in> set (ch (last (w_root w # ns)))"
  by (auto simp: dir_path_def path_nodes_snoc names_of_def join_path_def)

lemma path_of_dir:
  assumes T: "tree_ok (tree_of w) N ch" and P: "dir_path ch w ns" and cap: "128 \<le> cap"
  shows "vfs_path_of (last (w_root w # ns)) cap (tree_of w) = (if ns = [] then ''/'' else join_path (names_of w ns))"
proof (cases "ns = []")
  case True
  have "w_root w \<noteq> 0" using T by (auto simp: tree_ok_def)
  then show ?thesis using True cap by (simp add: vfs_path_of_def)
next
  case False
  then show ?thesis using path_of_join [OF T, of ns cap] P cap by (simp add: dir_path_def names_of_def)
qed

lemma lookup_dir:
  assumes T: "tree_ok (tree_of w) N ch" and U: "unique_names (tree_of w) N ch" and P: "dir_path ch w ns" and "ns \<noteq> []"
  shows "vfs_lookup (join_path (names_of w ns)) (tree_of w) = Some (last ns)"
proof -
  have r: "g_root (tree_of w) \<in> N" using T by (simp add: tree_ok_def)
  have "comps (tl (join_path (names_of w ns))) = names_of w ns"
    using P assms(4) by (intro comps_join) (auto simp: dir_path_def names_of_def)
  moreover have "join_path (names_of w ns) \<noteq> []" "hd (join_path (names_of w ns)) = CHR ''/''"
    using assms(4) by (cases ns; simp add: join_path_def names_of_def)+
  ultimately show ?thesis
    using resolve_path [OF T U r, of ns] P assms(4)
    by (simp add: lookup_resolve [OF T] dir_path_def names_of_def)
qed

lemma join_path_not_root: "ns \<noteq> [] \<Longrightarrow> dir_path ch w ns \<Longrightarrow>
    \<exists>c r. join_path (names_of w ns) = CHR ''/'' # c # r \<and> last (join_path (names_of w ns)) \<noteq> CHR ''/''"
proof -
  assume n: "ns \<noteq> []" and P: "dir_path ch w ns"
  then obtain m ms where ns: "ns = ms @ [m]" by (cases ns rule: rev_cases) auto
  have m: "nname (w_nodes w m) \<noteq> []" "CHR ''/'' \<notin> set (nname (w_nodes w m))"
    using P by (auto simp: ns dir_path_def ok_name_def)
  have j: "join_path (names_of w ns) = join_path (names_of w ms) @ CHR ''/'' # nname (w_nodes w m)"
    by (simp add: ns join_path_def names_of_def)
  have "last (nname (w_nodes w m)) \<noteq> CHR ''/''" using m by (metis last_in_set)
  moreover obtain c r where "join_path (names_of w ns) = CHR ''/'' # c # r"
  proof (cases "ms = []")
    case True
    then show ?thesis using that j m(1) by (cases "nname (w_nodes w m)") (auto simp: join_path_def names_of_def)
  next
    case False
    then obtain x xs where x: "ms = x # xs" by (cases ms) auto
    then have "nname (w_nodes w x) \<noteq> []" using P by (auto simp: ns dir_path_def ok_name_def)
    with x show ?thesis using that j by (cases "nname (w_nodes w x)") (auto simp: join_path_def names_of_def)
  qed
  moreover have "last (join_path (names_of w ns)) = last (nname (w_nodes w m))" using j m(1) by simp
  ultimately show ?thesis by metis
qed

lemma cd_down:
  assumes T: "tree_ok (tree_of w) N ch" and U: "unique_names (tree_of w) N ch" and P: "dir_path ch w (ns @ [n])"
    and c: "g_cwd w = last (w_root w # ns) \<or> g_cwd w = 0 \<and> ns = []"
  shows "cmd_cd (nname (w_nodes w n)) w = Back (w\<lparr>g_cwd := n\<rparr>)"
proof -
  let ?nm = "nname (w_nodes w n)" and ?c = "last (w_root w # ns)"
  have P': "dir_path ch w ns" using dir_path_snoc [OF P] by blast
  have nm: "?nm \<noteq> []" "CHR ''/'' \<notin> set ?nm" "?nm \<noteq> ''..''" "nkind (w_nodes w n) = VFS_DIR"
    using P by (auto simp: dir_path_def ok_name_def)
  obtain x xs where x: "?nm = x # xs" using nm(1) by (cases ?nm) auto
  have len: "length (join_path (names_of w (ns @ [n]))) < 128" using P by (simp add: dir_path_def)
  have j: "join_path (names_of w (ns @ [n])) = join_path (names_of w ns) @ CHR ''/'' # ?nm"
    by (simp add: join_path_def names_of_def)
  have n0: "n \<noteq> 0" using T P by (auto simp: dir_path_def tree_ok_def dest!: path_nodes_in [OF T, rotated])
  have "?c \<in> N" using path_nodes_in [OF T] P' T by (auto simp: dir_path_def tree_ok_def)
  then have c0: "?c \<noteq> 0" using T by (auto simp: tree_ok_def)
  have cwd: "shell_cwd w = (?c, w\<lparr>g_cwd := ?c\<rparr>)" using c c0 by (auto simp: shell_cwd_def Let_def)
  have rel: "relative_path (vfs_path_of ?c 160 (tree_of w)) ?nm = join_path (names_of w (ns @ [n]))"
  proof (cases "ns = []")
    case True
    then show ?thesis using path_of_dir [OF T P', of 160] len j
      by (simp add: relative_path_def Let_def) (simp add: join_path_def names_of_def)
  next
    case False
    then show ?thesis using path_of_dir [OF T P', of 160] join_path_not_root [OF False P'] len j
      by (auto simp: relative_path_def Let_def)
  qed
  have look: "vfs_lookup (join_path (names_of w (ns @ [n]))) (tree_of w) = Some n"
    using lookup_dir [OF T U P] by simp
  have "char_at ?nm \<in> set ?nm" "take 3 ?nm = ''../'' \<Longrightarrow> CHR ''/'' \<in> set ?nm"
    using x set_take_subset [of 3 ?nm] by auto
  then have guards: "(?nm = [] \<or> ?nm = ''/'') = False" "(?nm = ''..'' \<or> take 3 ?nm = ''../'') = False"
      "(char_at ?nm = CHR ''/'') = False"
    using nm by auto
  show ?thesis unfolding cmd_cd_def guards if_False cwd prod.case tree_of_simps rel look option.case
    by (simp add: go_to_def n0 nm(4))
qed

lemma cd_absolute:
  assumes T: "tree_ok (tree_of w) N ch" and U: "unique_names (tree_of w) N ch" and P: "dir_path ch w ns" and ne: "ns \<noteq> []"
  shows "cmd_cd (join_path (names_of w ns)) w = Back (w\<lparr>g_cwd := last ns\<rparr>)"
proof -
  let ?p = "join_path (names_of w ns)"
  obtain c r where p: "?p = CHR ''/'' # c # r" using join_path_not_root [OF ne P] by blast
  have l: "last ns \<in> set ns" using ne by simp
  have "last ns \<noteq> 0" using path_nodes_in [OF T, of "w_root w" ns] P T l by (auto simp: dir_path_def tree_ok_def)
  moreover have "nkind (w_nodes w (last ns)) = VFS_DIR" using P l by (auto simp: dir_path_def)
  moreover have "(?p = [] \<or> ?p = ''/'') = False" "(?p = ''..'' \<or> take 3 ?p = ''../'') = False" "char_at ?p = CHR ''/''"
    using p by simp_all
  ultimately show ?thesis unfolding cmd_cd_def by (simp add: lookup_dir [OF T U P ne] go_to_def)
qed

lemma cd_steps:
  assumes T: "tree_ok (tree_of w) N ch" and U: "unique_names (tree_of w) N ch"
    and c: "g_cwd w = 0 \<or> g_cwd w = w_root w"
  shows "dir_path ch w ns \<Longrightarrow> run_cds (names_of w ns) w = Back (if ns = [] then w else w\<lparr>g_cwd := last ns\<rparr>)"
proof (induction ns rule: rev_induct)
  case (snoc n ns)
  let ?w = "if ns = [] then w else w\<lparr>g_cwd := last ns\<rparr>"
  have T': "tree_ok (tree_of ?w) N ch" "unique_names (tree_of ?w) N ch" using T U by simp_all
  have "w_nodes ?w = w_nodes w" "w_root ?w = w_root w" by simp_all
  then have P: "dir_path ch ?w (ns @ [n])" using snoc.prems unfolding dir_path_def names_of_def by metis
  have c': "g_cwd ?w = last (w_root ?w # ns) \<or> g_cwd ?w = 0 \<and> ns = []" using c by auto
  have "run_cds (names_of w ns) w = Back ?w" using snoc.IH dir_path_snoc [OF snoc.prems] by simp
  then have "run_cds (names_of w (ns @ [n])) w = cmd_cd (nname (w_nodes ?w n)) ?w"
    by (simp add: names_of_def run_cds_snoc)
  then show ?case using cd_down [OF T' P c'] by simp
qed (simp add: names_of_def)

lemma cd_up:
  assumes T: "tree_ok (tree_of w) N ch" and P: "dir_path ch w (ns @ [n])"
  shows "cmd_cd ''..'' (w\<lparr>g_cwd := n\<rparr>) = Back (w\<lparr>g_cwd := last (w_root w # ns)\<rparr>)"
proof -
  let ?c = "last (w_root w # ns)"
  have d: "n \<in> set (ch ?c)" "dir_path ch w ns" using dir_path_snoc [OF P] by auto
  then have c: "?c \<in> N" using path_nodes_in [OF T] T by (auto simp: dir_path_def tree_ok_def)
  then have "nparent (w_nodes w n) = ?c" "?c \<noteq> 0" "n \<noteq> 0" using T d(1) by (auto simp: tree_ok_def)
  then show ?thesis by (simp add: cmd_cd_def)
qed

lemma pwd_prints:
  assumes T: "tree_ok (tree_of w) N ch" and P: "dir_path ch w ns" and ne: "ns \<noteq> []"
  shows "cmd_pwd (w\<lparr>g_cwd := last ns\<rparr>) = out (puts (join_path (names_of w ns) @ LF)) (w\<lparr>g_cwd := last ns\<rparr>)"
proof -
  have "last ns \<noteq> 0"
    using path_nodes_in [OF T, of "w_root w" ns] P T ne by (auto simp: dir_path_def tree_ok_def)
  then show ?thesis using path_of_dir [OF T P, of 128] ne by (simp add: cmd_pwd_def shell_cwd_def Let_def)
qed

section \<open>Scripts\<close>

text \<open>The lines between the separators; there is one more than separators.\<close>

fun split_lines :: "string \<Rightarrow> string list" where
  "split_lines [] = [[]]"
| "split_lines (c # s) =
     (if is_sep c then [] # split_lines s else (c # hd (split_lines s)) # tl (split_lines s))"

definition script_line :: "string \<Rightarrow> string" where
  "script_line l = takeWhile (\<lambda>c. c \<noteq> NUL) (take 255 l)"

fun run_lines :: "(string \<Rightarrow> world \<Rightarrow> world result) \<Rightarrow> string list \<Rightarrow> world \<Rightarrow> world result" where
  "run_lines exec [] w = Back w"
| "run_lines exec (l # ls) w = then_do (run_line exec l w) (run_lines exec ls)"

definition script_text :: "u64 \<Rightarrow> world \<Rightarrow> string" where
  "script_text n w = map (char_of \<circ> unat) (file_data (tree_of w) n)"

lemma script_char_text: "script_char n i w = (if i < length (script_text n w) then script_text n w ! i else CHR 0x0A)"
  by (simp add: script_char_def script_text_def file_data_bytes k_mem_def) (simp add: tree_of_def)

lemma split_lines_ne [simp]: "split_lines s \<noteq> []"
  by (cases s) auto

text \<open>The lines that are still to come when \<open>pre\<close> was read of the current one and \<open>rest\<close> is unread.\<close>

definition lines_left :: "string \<Rightarrow> string \<Rightarrow> string list" where
  "lines_left pre rest = map script_line ((pre @ hd (split_lines rest)) # tl (split_lines rest))"

lemma lines_left_simps:
  "lines_left pre [] = [script_line pre]"
  "is_sep c \<Longrightarrow> lines_left pre (c # rest) = script_line pre # lines_left [] rest"
  "\<not> is_sep c \<Longrightarrow> lines_left pre (c # rest) = lines_left (pre @ [c]) rest"
  by (simp_all add: lines_left_def)

lemma take_255: "(if length (take 255 pre) + 1 < SHELL_MAX_COMMAND_LENGTH then take 255 pre @ [c] else take 255 pre) = take 255 (pre @ [c])"
  by (auto simp: SHELL_MAX_COMMAND_LENGTH_def min_def)

lemma sh_loop_lines:
  assumes keep: "\<And>l v v'. l \<in> L \<Longrightarrow> script_text n v = body \<Longrightarrow> exec l v = Back v' \<Longrightarrow> script_text n v' = body"
  shows "script_text n w = body \<Longrightarrow> drop i body = rest \<Longrightarrow> i \<le> length body \<Longrightarrow> set (lines_left pre rest) \<subseteq> L \<Longrightarrow>
    sh_loop exec n (Suc (length rest)) i (take 255 pre) w = run_lines exec (lines_left pre rest) w"
proof (induction rest arbitrary: pre i w)
  case Nil
  have "is_sep (script_char n i w)" using Nil by (simp add: script_char_text is_sep_def)
  then show ?case
    by (cases "run_line exec (script_line pre) w") (simp_all add: lines_left_simps script_line_def)
next
  case (Cons c rest)
  have i: "i < length body" using Cons.prems(2) by (cases "i < length body") auto
  have c: "script_char n i w = c" and d: "drop (i + 1) body = rest"
    using Cons.prems(1,2) i by (auto simp: script_char_text Cons_nth_drop_Suc [symmetric])
  show ?case
  proof (cases "is_sep c")
    case True
    have L: "set (lines_left [] rest) \<subseteq> L" "script_line pre \<in> L"
      using Cons.prems(4) lines_left_simps(2) [OF True, of pre rest] by auto
    have next_line: "sh_loop exec n (Suc (length rest)) (i + 1) [] w1 = run_lines exec (lines_left [] rest) w1"
      if "run_line exec (script_line pre) w = Back w1" for w1
    proof -
      have "script_text n (out os w) = body" for os using Cons.prems(1) by (simp add: script_text_def)
      then have "script_text n w1 = body"
        using that keep [OF L(2)] Cons.prems(1) by (auto simp: run_line_def split: if_splits)
      then show ?thesis using Cons.IH [of w1 "i + 1" "[]"] d i L(1) by simp
    qed
    have "sh_loop exec n (Suc (length (c # rest))) i (take 255 pre) w =
        then_do (run_line exec (script_line pre) w) (sh_loop exec n (Suc (length rest)) (i + 1) [])"
      using True c by (simp add: script_line_def Let_def)
    also have "\<dots> = run_lines exec (lines_left pre (c # rest)) w"
      using next_line by (cases "run_line exec (script_line pre) w") (simp_all add: lines_left_simps(2) [OF True])
    finally show ?thesis .
  next
    case False
    have "sh_loop exec n (Suc (length (c # rest))) i (take 255 pre) w =
        sh_loop exec n (Suc (length rest)) (i + 1) (take 255 (pre @ [c])) w"
      using False c take_255 [of pre c] by (simp add: Let_def)
    then show ?thesis
      using Cons.IH [of w "i + 1" "pre @ [c]"] Cons.prems(1,4) d i lines_left_simps(3) [OF False, of pre rest] by simp
  qed
qed

lemma lines_left_all: "lines_left [] body = map script_line (split_lines body)"
  by (simp add: lines_left_def)

section \<open>Nesting\<close>

text \<open>A result that was reached within one bound on the nesting of scripts is the same within any greater one.\<close>

lemma sh_loop_more:
  assumes "\<And>l w. exec l w \<noteq> Lost \<Longrightarrow> exec' l w = exec l w"
  shows "sh_loop exec n todo i line w \<noteq> Lost \<Longrightarrow> sh_loop exec' n todo i line w = sh_loop exec n todo i line w"
proof (induction todo arbitrary: i line w)
  case (Suc todo)
  let ?l = "takeWhile (\<lambda>c. c \<noteq> NUL) line"
  have rl: "run_line exec ?l w \<noteq> Lost \<Longrightarrow> run_line exec' ?l w = run_line exec ?l w"
    using assms unfolding run_line_def by metis
  show ?case using Suc rl by (cases "run_line exec ?l w") (auto simp: Let_def)
qed simp

lemma builtin_more:
  assumes "\<And>l w. exec l w \<noteq> Lost \<Longrightarrow> exec' l w = exec l w"
  shows "run_builtin e exec name args w \<noteq> Lost \<Longrightarrow> run_builtin e exec' name args w = run_builtin e exec name args w"
  using sh_loop_more [of exec exec'] assms
  by (auto simp: run_builtin_def cmd_sh_def simp del: sh_loop.simps split: option.splits)

lemma execute_more:
  "shell_execute_no_prompt d e command w \<noteq> Lost \<Longrightarrow>
    shell_execute_no_prompt (d + k) e command w = shell_execute_no_prompt d e command w"
proof (induction d arbitrary: command w)
  case (Suc d)
  let ?cmd = "dropWhile (\<lambda>c. c = CHR '' '') command"
  have "run_builtin e (shell_execute_no_prompt (d + k) e) name args w = run_builtin e (shell_execute_no_prompt d e) name args w"
    if "run_builtin e (shell_execute_no_prompt d e) name args w \<noteq> Lost" for name args
    using that by (intro builtin_more Suc.IH)
  then show ?case using Suc.prems by (cases "?cmd = []") (simp_all add: Let_def del: dropWhile_eq_Nil_conv)
qed simp

section \<open>What the shell does\<close>

text \<open>A small tree with a script of one command, \<open>ps\<close>, in \<open>/home/notes.txt\<close>.\<close>

definition shell_demo :: world where
  "shell_demo = \<lparr>w_k = set_mem (write_bytes (\<lambda>_. 0) 4452 [112, 115]) kstate_demo, w_nodes = nodes vfs_demo, w_root = 4113,
     g_cwd = 0, w_pci = [], w_syscalls = syscall_init [], w_io = [], command_buffer = replicate 256 NUL, buffer_pos = 0\<rparr>"

lemma shell_demo_tree: "tree_ok (tree_of shell_demo) demo_nodes demo_children" "unique_names (tree_of shell_demo) demo_nodes demo_children"
proof -
  show "tree_ok (tree_of shell_demo) demo_nodes demo_children"
    using demo_tree by (simp add: tree_ok_def) (simp add: shell_demo_def)
  show "unique_names (tree_of shell_demo) demo_nodes demo_children"
    by (simp add: unique_names_def demo_nodes_def demo_children_def)
qed

lemma shell_demo_ok: "shell_ok shell_demo" "typed_line shell_demo = []" "cwd_ok demo_children shell_demo"
  by (simp_all add: shell_ok_def typed_line_def cwd_ok_def shell_demo_def new_node_def)

text \<open>
  C9. Typing a line and Enter executes exactly the line an editor with a 255 character limit makes of
  the keys: printable characters are appended while there is room, backspace takes the last one
  back, tabs and control characters are ignored. Until Enter only the screen and the line buffer
  change, the line buffer never overflows, and after the command the next line starts empty.
\<close>

theorem shell_runs_typed_line:
  assumes "shell_ok w" and "typed_line w = []" and "CHR 0x0A \<notin> set cs"
  shows "\<exists>w1. echoed w w1 \<and> shell_keys d e (cs @ [CHR 0x0A]) w =
    then_do (shell_execute d e (edited [] (List.filter shell_key cs)) w1) (\<lambda>w2. Back (w2\<lparr>buffer_pos := 0\<rparr>))"
proof -
  obtain w' where w': "shell_keys d e cs w = Back w'" "shell_ok w'" "echoed w w'"
      "typed_line w' = edited [] (List.filter shell_key cs)"
    using keys_edit_line [OF assms(1,3), of d e] assms(2) by auto
  obtain w1 where w1: "echoed w' w1" "shell_process_char d e (CHR 0x0A) w' =
      then_do (shell_execute d e (typed_line w') w1) (\<lambda>w2. Back (w2\<lparr>buffer_pos := 0\<rparr>))"
    using newline_executes [OF w'(2), of d e] by blast
  have "then_do r (shell_keys d e []) = r" for r by (cases r) simp_all
  then have "shell_keys d e (cs @ [CHR 0x0A]) w = shell_process_char d e (CHR 0x0A) w'"
    using w'(1) by (simp add: shell_keys_append)
  then show ?thesis using w1 w'(4) echoed_trans [OF w'(3) w1(1)] by auto
qed

theorem shell_runs_typed_line_witness:
  "\<exists>w1. echoed shell_demo w1 \<and> shell_keys 1 env_demo (''pz'' @ [CHR 0x08] @ ''s'' @ [CHR 0x0A]) shell_demo =
    then_do (shell_execute 1 env_demo ''ps'' w1) (\<lambda>w2. Back (w2\<lparr>buffer_pos := 0\<rparr>))"
  using shell_runs_typed_line [OF shell_demo_ok(1,2), of "''pz'' @ [CHR 0x08] @ ''s''" 1 env_demo]
  by (simp add: shell_key_def del: shell_keys.simps)

lemma process_char_kept:
  assumes T: "tree_ok (tree_of w) N ch" and r: "shell_process_char d e c w = Back w'"
  shows "dirs_kept ch w w'"
proof (cases "c = CHR 0x0A")
  case True
  let ?w1 = "(out (puts LF) w)\<lparr>command_buffer := (command_buffer w)[unat (buffer_pos w) := NUL]\<rparr>"
  let ?l = "takeWhile (\<lambda>c. c \<noteq> NUL) (command_buffer ?w1)"
  obtain w2 w3 where w2: "shell_execute_no_prompt d e ?l ?w1 = Back w2" "w' = (out show_prompt w2)\<lparr>buffer_pos := 0\<rparr>"
    using r True by (auto simp: shell_process_char_def shell_execute_def Let_def then_do_Back)
  have s1: "same_dirs w ?w1" and s2: "same_dirs w2 w'" by (simp_all add: same_dirs_def w2(2))
  have "tree_ok (tree_of ?w1) N ch" using dirs_kept_tree [OF same_dirs_kept [OF s1] T] .
  from execute_kept [OF this w2(1)] show ?thesis
    using dirs_kept_trans [OF same_dirs_kept [OF s1]] dirs_kept_same [OF _ s2] by blast
next
  case False
  then have "same_dirs w w'" using r by (auto simp: shell_process_char_def same_dirs_def split: if_splits)
  then show ?thesis by (rule same_dirs_kept)
qed

lemma shell_keys_kept:
  "tree_ok (tree_of w) N ch \<Longrightarrow> shell_keys d e cs w = Back w' \<Longrightarrow> dirs_kept ch w w'"
proof (induction cs arbitrary: w)
  case (Cons c cs)
  then obtain w1 where w1: "shell_process_char d e c w = Back w1" "shell_keys d e cs w1 = Back w'"
    by (auto simp: then_do_Back)
  have k: "dirs_kept ch w w1" by (rule process_char_kept [OF Cons.prems(1) w1(1)])
  show ?case using dirs_kept_trans [OF k Cons.IH [OF dirs_kept_tree [OF k Cons.prems(1)] w1(2)]] .
qed simp

text \<open>
  C10. Whatever is typed, scripts and programs included, the shell leaves the tree as it is, and its
  current directory pointer keeps its type: it is unset or it points to a node of the tree, below
  the root, whose kind is a directory, so that \<open>cd\<close>, \<open>ls\<close> and \<open>pwd\<close> never take a file for one.
\<close>

theorem shell_cwd_stays_directory:
  assumes "tree_ok (tree_of w) N ch" and "cwd_ok ch w" and "shell_keys d e cs w = Back w'"
  shows "w_nodes w' = w_nodes w \<and> w_root w' = w_root w \<and>
    (g_cwd w' = 0 \<or> g_cwd w' \<in> N \<and> nkind (w_nodes w' (g_cwd w')) = VFS_DIR)"
proof -
  have k: "dirs_kept ch w w'" using assms(1,3) by (rule shell_keys_kept)
  have "tree_ok (tree_of w') N ch" by (rule dirs_kept_tree [OF k assms(1)])
  then show ?thesis using k assms(2) reachable_in [of "tree_of w'" N ch "g_cwd w'"]
    by (auto simp: dirs_kept_def cwd_ok_def)
qed

theorem shell_cwd_stays_directory_witness:
  "\<exists>w'. shell_keys 1 env_demo ''cd'' shell_demo = Back w' \<and> w_nodes w' = nodes vfs_demo \<and>
    (g_cwd w' = 0 \<or> g_cwd w' \<in> demo_nodes)"
proof -
  obtain w' where w': "shell_keys 1 env_demo ''cd'' shell_demo = Back w'"
    using keys_edit_line [OF shell_demo_ok(1), of "''cd''" 1 env_demo] by auto
  have "w_nodes shell_demo = nodes vfs_demo" by (simp add: shell_demo_def)
  then show ?thesis
    using shell_cwd_stays_directory [OF shell_demo_tree(1) shell_demo_ok(3) w'] w' by metis
qed

text \<open>
  C28. Walking down from the root with one relative \<open>cd\<close> per directory name leads where a single
  \<open>cd\<close> with the absolute path leads; \<open>pwd\<close> then prints that path, and \<open>cd ..\<close> goes back to the
  directory above. This is for directories at most 16 levels deep whose path fits the 128 bytes
  of \<open>pwd\<close>.
\<close>

theorem cd_then_pwd:
  assumes "tree_ok (tree_of w) N ch" and "unique_names (tree_of w) N ch" and "dir_path ch w (ns @ [n])"
    and "g_cwd w = 0 \<or> g_cwd w = w_root w"
  shows "run_cds (names_of w (ns @ [n])) w = Back (w\<lparr>g_cwd := n\<rparr>) \<and>
    cmd_cd (join_path (names_of w (ns @ [n]))) w = Back (w\<lparr>g_cwd := n\<rparr>) \<and>
    cmd_pwd (w\<lparr>g_cwd := n\<rparr>) = out (puts (join_path (names_of w (ns @ [n])) @ LF)) (w\<lparr>g_cwd := n\<rparr>) \<and>
    cmd_cd ''..'' (w\<lparr>g_cwd := n\<rparr>) = Back (w\<lparr>g_cwd := last (w_root w # ns)\<rparr>)"
  using cd_steps [OF assms(1,2,4,3)] cd_absolute [OF assms(1-3)] pwd_prints [OF assms(1,3)] cd_up [OF assms(1,3)]
  by simp

theorem cd_then_pwd_witness:
  "run_cds [''home''] shell_demo = Back (shell_demo\<lparr>g_cwd := 4226\<rparr>) \<and>
   cmd_pwd (shell_demo\<lparr>g_cwd := 4226\<rparr>) = out (puts (''/home'' @ LF)) (shell_demo\<lparr>g_cwd := 4226\<rparr>)"
proof -
  have r: "w_root shell_demo = 4113" "g_cwd shell_demo = 0" "w_nodes shell_demo = nodes vfs_demo"
    by (simp_all add: shell_demo_def)
  have n: "names_of shell_demo ([] @ [4226]) = [''home'']"
    by (simp add: names_of_def r new_node_def str_copy_n_def NAME_CAP_def)
  have "dir_path demo_children shell_demo ([] @ [4226])"
    unfolding dir_path_def n
    by (simp add: r demo_children_def join_path_def ok_name_def new_node_def str_copy_n_def NAME_CAP_def)
  from cd_then_pwd [OF shell_demo_tree this] show ?thesis unfolding n by (simp add: r join_path_def)
qed

text \<open>
  C11. Running a script is running its lines in order: the file's text is cut at line feeds and carriage
  returns, each line to 255 characters and at a NUL, blank lines and comments are skipped, the rest
  is echoed behind the prompt and executed, and a line that does not come back ends the
  script. This holds as long as no line changes the text of the script that is running.
\<close>

theorem script_runs_its_lines:
  assumes "vfs_lookup path (tree_of w) = Some n" and "n \<noteq> 0" and "nkind (w_nodes w n) = VFS_FILE" and "path \<noteq> []"
    and "\<forall>l \<in> set (split_lines (script_text n w)). \<forall>v v'. script_text n v = script_text n w \<longrightarrow>
      exec (script_line l) v = Back v' \<longrightarrow> script_text n v' = script_text n w"
  shows "cmd_sh exec path w =
    run_lines exec (map script_line (split_lines (script_text n w))) (out (puts (''[sh] '' @ path @ LF)) w)"
proof -
  let ?w = "out (puts (''[sh] '' @ path @ LF)) w" and ?t = "script_text n w"
  have t: "script_text n ?w = ?t" by (simp add: script_text_def)
  have len: "length ?t = unat (nlen (w_nodes w n))" by (simp add: script_text_def)
  have "sh_loop exec n (Suc (length ?t)) 0 (take 255 []) ?w = run_lines exec (lines_left [] ?t) ?w"
    by (rule sh_loop_lines [where L = "script_line ` set (split_lines ?t)" and body = "?t"])
      (use assms(5) t in \<open>auto simp: lines_left_all\<close>)
  then show ?thesis using assms(1-4) by (simp add: cmd_sh_def len lines_left_all del: sh_loop.simps)
qed

theorem script_runs_its_lines_witness:
  "cmd_sh (shell_execute_no_prompt 1 env_demo) ''/home/notes.txt'' shell_demo =
    run_lines (shell_execute_no_prompt 1 env_demo) [''ps''] (out (puts (''[sh] /home/notes.txt'' @ LF)) shell_demo)"
proof -
  have r: "w_root shell_demo = 4113" "w_nodes shell_demo = nodes vfs_demo" by (simp_all add: shell_demo_def)
  have t: "script_text 4339 shell_demo = ''ps''"
  proof -
    have "hmem (vheap (tree_of shell_demo)) = write_bytes (\<lambda>_. 0) 4452 [112, 115]"
      by (simp add: tree_of_def shell_demo_def set_mem_def)
    then have "file_data (tree_of shell_demo) 4339 = [112, 115]"
      by (simp add: file_data_def r new_node_def) (simp add: numeral_2_eq_2)
    moreover have "(char_of (112 :: nat) :: char) = CHR ''p''" "(char_of (115 :: nat) :: char) = CHR ''s''" by code_simp+
    ultimately show ?thesis by (simp add: script_text_def)
  qed
  have l: "map script_line (split_lines ''ps'') = [''ps'']" by code_simp
  have p: "comps ''home/notes.txt'' = [''home'', ''notes.txt'']"
    using comps_join [of "[''home'', ''notes.txt'']"] by (simp add: join_path_def ok_name_def)
  have look: "vfs_lookup ''/home/notes.txt'' (tree_of shell_demo) = Some 4339"
    using lookup_resolve [OF shell_demo_tree(1), of "''/home/notes.txt''"] p
    by (simp add: r demo_children_def new_node_def str_copy_n_def NAME_CAP_def)
  have exec: "shell_execute_no_prompt 1 env_demo ''ps'' v = Back (out (cmd_ps (k_procs (w_k v))) v)" for v
    by (simp add: run_builtin_def IS_iff)
  have "script_text 4339 (out os v) = script_text 4339 v" for os v by (simp add: script_text_def)
  then have "\<forall>l \<in> set (split_lines ''ps''). \<forall>v v'. script_text 4339 v = ''ps'' \<longrightarrow>
      shell_execute_no_prompt 1 env_demo (script_line l) v = Back v' \<longrightarrow> script_text 4339 v' = ''ps''"
  proof -
    have sl: "split_lines ''ps'' = [''ps'']" "script_line ''ps'' = ''ps''" by code_simp+
    show ?thesis unfolding sl using exec \<open>\<And>v os. script_text 4339 (out os v) = script_text 4339 v\<close>
      by (simp add: sl(2) del: shell_execute_no_prompt.simps One_nat_def)
  qed
  then show ?thesis
    using script_runs_its_lines [OF look, of "shell_execute_no_prompt 1 env_demo"] unfolding t l
    by (simp add: r new_node_def)
qed

definition builtin_names :: "string list" where
  "builtin_names = [''help'', ''clear'', ''echo'', ''info'', ''memory'', ''ps'', ''uptime'', ''spawn'', ''syscall'', ''lspci'',
     ''reboot'', ''pwd'', ''ls'', ''cat'', ''cd'', ''sh'']"

lemma not_builtin: "name \<notin> set builtin_names \<Longrightarrow> run_builtin e exec name args w = run_program e name args w"
  by (simp add: run_builtin_def IS_iff builtin_names_def)

text \<open>
  A command whose first word is no built-in and names an executable of \<open>/bin\<close> runs that
  executable with the rest of the line as its arguments, and changes nothing but what the program
  changes.
\<close>

theorem shell_runs_program_of_bin:
  assumes "tree_ok (tree_of w) N ch" and "unique_names (tree_of w) N ch"
    and "path_nodes ch (w_root w) [b, n]" and "nname (w_nodes w b) = ''bin''" and "ok_name (nname (w_nodes w n))"
    and "nkind (w_nodes w n) = VFS_EXEC" and "nexec (w_nodes w n) = Some f"
    and "CHR '' '' \<notin> set (nname (w_nodes w n))" and "nname (w_nodes w n) \<notin> set builtin_names"
    and "args = [] \<or> hd args \<noteq> CHR '' ''"
  shows "shell_execute_no_prompt (Suc d) e (nname (w_nodes w n) @ CHR '' '' # args) w =
    (case call_exec e f (Some args) (w_k w) of None \<Rightarrow> Lost | Some k \<Rightarrow> Back (w\<lparr>w_k := k\<rparr>))"
proof -
  let ?nm = "nname (w_nodes w n)"
  obtain x xs where x: "?nm = x # xs" using assms(5) by (cases ?nm) (auto simp: ok_name_def)
  have nm: "length ?nm \<le> 31" "x \<noteq> CHR ''/''" "x \<noteq> CHR '' ''" using assms(5,8) x by (auto simp: ok_name_def)
  have r: "g_root (tree_of w) \<in> N" using assms(1) by (simp add: tree_ok_def)
  have names: "map (\<lambda>k. nname (w_nodes w k)) [b, n] = [''bin'', ?nm]" using assms(4) by simp
  have "ok_name ''bin''" by (simp add: ok_name_def)
  then have "comps (tl (join_path [''bin'', ?nm])) = [''bin'', ?nm]" using assms(5) by (intro comps_join) auto
  then have c: "comps (''bin/'' @ ?nm) = [''bin'', ?nm]" by (simp add: join_path_def)
  have res: "resolve (w_nodes w) ch (w_root w) [''bin'', ?nm] = n"
    using resolve_path [OF assms(1,2) r, of "[b, n]"] assms(3)
    unfolding tree_of_simps names by (simp del: resolve.simps)
  have p: "program_path ?nm = ''/bin/'' @ ?nm" using x nm by (simp add: program_path_def)
  have look: "vfs_lookup (program_path ?nm) (tree_of w) = Some n"
    using res c by (simp add: p lookup_resolve [OF assms(1)])
  have n0: "n \<noteq> 0" using path_nodes_in [OF assms(1) r, of "[b, n]"] assms(1,3) by (auto simp: tree_ok_def)
  have "takeWhile (\<lambda>c. c \<noteq> CHR '' '') (?nm @ CHR '' '' # args) = ?nm" "dropWhile (\<lambda>c. c \<noteq> CHR '' '') (?nm @ CHR '' '' # args) = CHR '' '' # args"
    using assms(8) by (auto simp: takeWhile_append dropWhile_append)
  moreover have "dropWhile (\<lambda>c. c = CHR '' '') (?nm @ CHR '' '' # args) = ?nm @ CHR '' '' # args"
    "dropWhile (\<lambda>c. c = CHR '' '') (CHR '' '' # args) = args"
    using x nm(3) assms(10) by (cases args; auto)+
  ultimately have "shell_execute_no_prompt (Suc d) e (?nm @ CHR '' '' # args) w = run_program e ?nm args w"
    using not_builtin [OF assms(9)] by (simp add: Let_def)
  also have "\<dots> = (case call_exec e f (Some args) (w_k w) of None \<Rightarrow> Lost | Some k \<Rightarrow> Back (w\<lparr>w_k := k\<rparr>))"
    using assms(6,7) n0 by (simp add: run_program_def look run_node_def vfs_run_def)
  finally show ?thesis .
qed

definition bin_demo :: world where
  "bin_demo = shell_demo\<lparr>w_nodes := (nodes vfs_demo)
     (4226 := (new_node ''bin'' VFS_DIR 4113)\<lparr>first_child := 4339\<rparr>,
      4339 := (new_node ''meminfo'' VFS_EXEC 4226)\<lparr>nexec := Some cmd_meminfo\<rparr>)\<rparr>"

theorem shell_runs_program_of_bin_witness:
  "shell_execute_no_prompt 1 env_demo ''meminfo '' bin_demo = Back (bin_demo\<lparr>w_k := bin_meminfo (w_k bin_demo)\<rparr>)"
proof -
  have r: "w_root bin_demo = 4113"
    "w_nodes bin_demo 4113 = (new_node ''/'' VFS_DIR 0)\<lparr>first_child := 4226\<rparr>"
    "w_nodes bin_demo 4226 = (new_node ''bin'' VFS_DIR 4113)\<lparr>first_child := 4339\<rparr>"
    "w_nodes bin_demo 4339 = (new_node ''meminfo'' VFS_EXEC 4226)\<lparr>nexec := Some cmd_meminfo\<rparr>"
    by (simp_all add: bin_demo_def shell_demo_def)
  have nm: "str_copy_n ''/'' NAME_CAP = ''/''" "str_copy_n ''bin'' NAME_CAP = ''bin''" "str_copy_n ''meminfo'' NAME_CAP = ''meminfo''"
    by (simp_all add: str_copy_n_def NAME_CAP_def)
  have T: "tree_ok (tree_of bin_demo) demo_nodes demo_children"
    by (simp add: tree_ok_def demo_nodes_def demo_children_def r new_node_def nm)
  have U: "unique_names (tree_of bin_demo) demo_nodes demo_children"
    by (simp add: unique_names_def demo_nodes_def demo_children_def)
  have nn: "nname (w_nodes bin_demo 4226) = ''bin''" "nname (w_nodes bin_demo 4339) = ''meminfo''"
    "nkind (w_nodes bin_demo 4339) = VFS_EXEC" "nexec (w_nodes bin_demo 4339) = Some cmd_meminfo"
    by (simp_all add: r new_node_def nm)
  have "path_nodes demo_children (w_root bin_demo) [4226, 4339]" by (simp add: r demo_children_def)
  from shell_runs_program_of_bin [OF T U this nn(1), of cmd_meminfo "[]" 0 env_demo]
  show ?thesis unfolding nn
    by (simp add: ok_name_def builtin_names_def del: shell_execute_no_prompt.simps)
qed

end
