(* ===== verification/Canvas.thy ===== *)
theory Canvas
  imports Framebuffer
begin

text \<open>
  Drawing as data. The desktop and the font give what they draw as a list of the calls they make
  to the framebuffer, in order; \<open>paint\<close> performs such a list. The lemma here is that no list
  of calls, whatever its coordinates, changes memory outside the back buffer.
\<close>

datatype draw_op =
    Clear u32
  | Put i32 i32 u32
  | Fill i32 i32 i32 i32 u32
  | Outline i32 i32 i32 i32 u32
  | Blit u64 i32 i32 i32 i32 i32 u32

fun draw_step :: "fb_info \<Rightarrow> draw_op \<Rightarrow> mem \<Rightarrow> mem" where
  "draw_step fb (Clear c) m = fb_clear c fb m"
| "draw_step fb (Put x y c) m = fb_put_pixel x y c fb m"
| "draw_step fb (Fill x y w h c) m = fb_fill_rect x y w h c fb m"
| "draw_step fb (Outline x y w h c) m = fb_rect_outline x y w h c fb m"
| "draw_step fb (Blit src p x y w h key) m = fb_blit_keyed src p x y w h key fb m"

definition paint :: "fb_info \<Rightarrow> draw_op list \<Rightarrow> mem \<Rightarrow> mem" where
  "paint fb ops m = fold (draw_step fb) ops m"

lemma paint_simps [simp]:
  "paint fb [] m = m" "paint fb (a # as) m = paint fb as (draw_step fb a m)"
  "paint fb (xs @ ys) m = paint fb ys (paint fb xs m)"
  by (simp_all add: paint_def)

section \<open>Clipping, for any coordinates\<close>

lemma clip_any:
  fixes x1 w1 W :: u32
  assumes "x1 < W" and "0 < sint w1" and "unat W \<le> 2 ^ 15"
  shows "\<exists>X n. x1 = of_nat X \<and> (if x1 + w1 > W then W - x1 else w1) = of_nat n \<and> X + n \<le> unat W"
proof -
  let ?w2 = "if x1 + w1 > W then W - x1 else w1"
  have w: "int (unat w1) = sint w1" using assms(2) by (intro sint_nonneg_unat) simp
  then have "nat (uint w1) < 2 ^ 31" using sint_less [of w1] by (simp add: nat_less_iff)
  then have "unat w1 < 2 ^ 31" by (simp only: unat_eq_nat_uint)
  then have s: "unat (x1 + w1) = unat x1 + unat w1" using assms(1,3) by (simp add: unat_word_ariths word_less_nat_alt)
  have "unat x1 + unat ?w2 \<le> unat W"
    using assms(1) s by (auto simp: word_less_nat_alt unat_sub word_le_nat_alt)
  then show ?thesis by (intro exI [of _ "unat x1"] exI [of _ "unat ?w2"]) simp
qed

lemma outside_fold:
  assumes "\<And>k m. k < n \<Longrightarrow> outside_same fb m (f k m)"
  shows "outside_same fb m (fold f [0..<n] m)"
  using assms
proof (induction n)
  case (Suc n)
  have "outside_same fb m (fold f [0..<n] m)" by (rule Suc.IH) (simp add: Suc.prems)
  then show ?case using outside_trans Suc.prems [of n] by simp
qed simp

text \<open>Two nested loops that write one pixel of the clipped rectangle at a time.\<close>

lemma outside_loops:
  assumes ok: "fb_ok fb" and "X + n \<le> unat (fb_w fb)" and "Y + k \<le> unat (fb_h fb)"
    and step: "\<And>r j m. r < k \<Longrightarrow> j < n \<Longrightarrow>
      f (of_nat r) (of_nat j) m = m \<or> (\<exists>c. f (of_nat r) (of_nat j) m =
        write32 m (back_row fb (of_nat Y + of_nat r) + 4 * scast (of_nat X :: i32) + 4 * scast (of_nat j :: i32)) c)"
  shows "outside_same fb m (for_i (of_nat k) (\<lambda>row. for_i (of_nat n) (f row)) m)"
proof -
  have small: "n < 2 ^ 31" "k < 2 ^ 31" using assms(1-3) by (auto simp: fb_ok_def)
  have one: "outside_same fb m (f (of_nat r) (of_nat j) m)" if "r < k" "j < n" for r j m
  proof -
    have "(Y + r) * unat (fb_w fb) + X + j < pixels fb"
      using row_fits [of "X + j" 1 "unat (fb_w fb)" "Y + r" "unat (fb_h fb)"] that assms(2,3) by (simp add: pixels_def)
    moreover have "Y + r < unat (fb_h fb)" "X + j < unat (fb_w fb)" using that assms(2,3) by simp_all
    ultimately show ?thesis
      using step [OF that, of m] outside_set_pixel [OF ok, of "(Y + r) * unat (fb_w fb) + X + j" m]
        row_address [OF ok, of Y r X j]
      by (auto simp: set_pixel_def)
  qed
  show ?thesis
    unfolding for_i_def sint_of_nat [OF small(1)] sint_of_nat [OF small(2)]
    by (intro outside_fold) (simp, intro outside_fold one, simp_all)
qed

lemma fill_outside:
  assumes ok: "fb_ok fb"
  shows "outside_same fb m (fb_fill_rect x y w h c fb m)"
proof -
  define w1 where "w1 = (if sint x < 0 then w + x else w)"
  define x1 where "x1 = (if sint x < 0 then 0 else x)"
  define h1 where "h1 = (if sint y < 0 then h + y else h)"
  define y1 where "y1 = (if sint y < 0 then 0 else y)"
  let ?skip = "sint w1 \<le> 0 \<or> sint h1 \<le> 0 \<or> x1 \<ge> fb_w fb \<or> y1 \<ge> fb_h fb"
  have eq: "fb_fill_rect x y w h c fb m = (if ?skip then m else
      for_i (if y1 + h1 > fb_h fb then fb_h fb - y1 else h1) (\<lambda>row.
        for_i (if x1 + w1 > fb_w fb then fb_w fb - x1 else w1)
          (\<lambda>col m. write32 m (back_row fb (y1 + row) + 4 * scast x1 + 4 * scast col) c)) m)"
    using ok unfolding fb_fill_rect_def Let_def w1_def x1_def h1_def y1_def by (auto simp: fb_ok_def)
  show ?thesis
  proof (cases ?skip)
    case False
    have W: "unat (fb_w fb) \<le> 2 ^ 15" "unat (fb_h fb) \<le> 2 ^ 15" using ok by (simp_all add: fb_ok_def)
    obtain X n where X: "x1 = of_nat X" "(if x1 + w1 > fb_w fb then fb_w fb - x1 else w1) = of_nat n" "X + n \<le> unat (fb_w fb)"
      using clip_any [OF _ _ W(1), of x1 w1] False by (auto simp: not_le)
    obtain Y k where Y: "y1 = of_nat Y" "(if y1 + h1 > fb_h fb then fb_h fb - y1 else h1) = of_nat k" "Y + k \<le> unat (fb_h fb)"
      using clip_any [OF _ _ W(2), of y1 h1] False by (auto simp: not_le)
    show ?thesis unfolding eq [unfolded if_not_P [OF False]] X(2) Y(2)
      by (rule outside_loops [OF ok X(3) Y(3)]) (auto simp: X(1) Y(1))
  qed (simp add: eq)
qed

lemma outline_outside: "fb_ok fb \<Longrightarrow> outside_same fb m (fb_rect_outline x y w h c fb m)"
  unfolding fb_rect_outline_def
  using outside_trans [OF outside_trans [OF outside_trans [OF fill_outside fill_outside] fill_outside] fill_outside] by simp

lemma blit_outside:
  assumes ok: "fb_ok fb"
  shows "outside_same fb m (fb_blit_keyed src p x y w h key fb m)"
proof -
  define w1 where "w1 = (if sint x < 0 then w + x else w)"
  define x1 where "x1 = (if sint x < 0 then 0 else x)"
  define h1 where "h1 = (if sint y < 0 then h + y else h)"
  define y1 where "y1 = (if sint y < 0 then 0 else y)"
  define s where "s row = src + 4 * scast (((if sint y < 0 then - y else 0) + row) * p + (if sint x < 0 then - x else 0))" for row :: i32
  define f where "f row col m = (let px = read32 m (s row + 4 * scast col)
      in if px \<noteq> key then write32 m (back_row fb (y1 + row) + 4 * scast x1 + 4 * scast col) px else m)" for row col :: i32 and m
  let ?skip = "sint w1 \<le> 0 \<or> sint h1 \<le> 0 \<or> x1 \<ge> fb_w fb \<or> y1 \<ge> fb_h fb"
  have eq: "fb_blit_keyed src p x y w h key fb m = (if ?skip then m else
      for_i (if y1 + h1 > fb_h fb then fb_h fb - y1 else h1) (\<lambda>row.
        for_i (if x1 + w1 > fb_w fb then fb_w fb - x1 else w1) (f row)) m)"
    using ok unfolding fb_blit_keyed_def Let_def w1_def x1_def h1_def y1_def f_def s_def by (auto simp: fb_ok_def)
  show ?thesis
  proof (cases ?skip)
    case False
    have W: "unat (fb_w fb) \<le> 2 ^ 15" "unat (fb_h fb) \<le> 2 ^ 15" using ok by (simp_all add: fb_ok_def)
    obtain X n where X: "x1 = of_nat X" "(if x1 + w1 > fb_w fb then fb_w fb - x1 else w1) = of_nat n" "X + n \<le> unat (fb_w fb)"
      using clip_any [OF _ _ W(1), of x1 w1] False by (auto simp: not_le)
    obtain Y k where Y: "y1 = of_nat Y" "(if y1 + h1 > fb_h fb then fb_h fb - y1 else h1) = of_nat k" "Y + k \<le> unat (fb_h fb)"
      using clip_any [OF _ _ W(2), of y1 h1] False by (auto simp: not_le)
    show ?thesis unfolding eq [unfolded if_not_P [OF False]] X(2) Y(2)
      by (rule outside_loops [OF ok X(3) Y(3)]) (auto simp: X(1) Y(1) f_def Let_def)
  qed (simp add: eq)
qed

lemma put_outside:
  assumes ok: "fb_ok fb"
  shows "outside_same fb m (fb_put_pixel x y c fb m)"
proof (cases "sint x < 0 \<or> sint y < 0 \<or> x \<ge> fb_w fb \<or> y \<ge> fb_h fb")
  case False
  have "back_row fb y + 4 * scast x = fb_back fb + 4 * of_nat (unat y * unat (fb_w fb) + unat x)"
    using row_address [OF ok, of "unat y" 0 0 "unat x"] False by (simp add: word_less_nat_alt not_le)
  moreover have "unat y * unat (fb_w fb) + unat x < pixels fb"
    using row_fits [of "unat x" 1 "unat (fb_w fb)" "unat y" "unat (fb_h fb)"] False
    by (simp add: pixels_def word_less_nat_alt not_le)
  ultimately have "outside_same fb m (write32 m (back_row fb y + 4 * scast x) c)"
    using outside_set_pixel [OF ok, of "unat y * unat (fb_w fb) + unat x" m c] by (simp only: set_pixel_def)
  then show ?thesis by (simp add: fb_put_pixel_def)
qed (auto simp: fb_put_pixel_def)

lemma clear_outside:
  assumes ok: "fb_ok fb"
  shows "outside_same fb m (fb_clear c fb m)"
proof -
  have p: "unat (fb_w fb * fb_h fb) = pixels fb"
    using pixels_bound [OF ok] by (simp add: pixels_def unat_word_ariths)
  have "write32 m (fb_back fb + 4 * ucast (of_nat i :: u32)) c = set_pixel fb i c m" if "i < pixels fb" for i m
    using that pixels_bound [OF ok] zext_of_nat [of i] by (simp add: set_pixel_def)
  then show ?thesis
    using ok by (auto simp: fb_clear_def for_w_fold p fb_ok_def intro!: outside_fold outside_set_pixel [OF ok])
qed

lemma step_outside: "fb_ok fb \<Longrightarrow> outside_same fb m (draw_step fb a m)"
  by (cases a) (simp_all add: clear_outside put_outside fill_outside outline_outside blit_outside)

lemma paint_outside: "fb_ok fb \<Longrightarrow> outside_same fb m (paint fb ops m)"
proof (induction ops arbitrary: m)
  case (Cons a ops)
  then show ?case using outside_trans [OF step_outside Cons.IH] by simp
qed simp

end
