(* ===== verification/Glyphs.thy ===== *)
theory Glyphs
  imports Prelude
begin

text \<open>
  The glyph table of \<^verbatim>\<open>src/kernel/font.cpp\<close>: 95 glyphs for the characters 0x20 to 0x7E, each of
  16 rows of eight pixels, the leftmost the high bit, as they are drawn in the source, and the
  hollow box for all other characters.
\<close>

section \<open>The glyphs\<close>

definition FIRST_GLYPH :: u8 where "FIRST_GLYPH = 0x20"
definition LAST_GLYPH :: u8 where "LAST_GLYPH = 0x7E"

definition glyphs_20_2A :: "u8 list list" where
  "glyphs_20_2A =
    [
     [0, 0, 0, 0, 0, 0, 0, 0,
      0, 0, 0, 0, 0, 0, 0, 0],
     [0, 0, 0b00011000, 0b00011000, 0b00011000, 0b00011000, 0b00011000, 0b00011000,
      0b00011000, 0b00011000, 0, 0b00011000, 0b00011000, 0, 0, 0],
     [0, 0, 0b01101100, 0b01101100, 0b01101100, 0b01101100, 0, 0,
      0, 0, 0, 0, 0, 0, 0, 0],
     [0, 0, 0, 0b00110110, 0b00110110, 0b01111111, 0b00110110, 0b00110110,
      0b01111111, 0b00110110, 0b00110110, 0, 0, 0, 0, 0],
     [0, 0, 0b00011000, 0b00111110, 0b01101000, 0b01101000, 0b00111100, 0b00001110,
      0b00001011, 0b01001011, 0b01111110, 0b00011000, 0, 0, 0, 0],
     [0, 0, 0, 0b01100010, 0b10010010, 0b10010100, 0b01100100, 0b00001000,
      0b00010000, 0b00100110, 0b00101001, 0b01001001, 0b01000110, 0, 0, 0],
     [0, 0, 0, 0b00111000, 0b01101100, 0b01101100, 0b00111000, 0b01110110,
      0b11011100, 0b11001100, 0b01110111, 0, 0, 0, 0, 0],
     [0, 0, 0b00011000, 0b00011000, 0b00010000, 0, 0, 0,
      0, 0, 0, 0, 0, 0, 0, 0],
     [0, 0, 0b00001100, 0b00011000, 0b00110000, 0b00110000, 0b01100000, 0b01100000,
      0b01100000, 0b01100000, 0b00110000, 0b00110000, 0b00011000, 0b00001100, 0, 0],
     [0, 0, 0b00110000, 0b00011000, 0b00001100, 0b00001100, 0b00000110, 0b00000110,
      0b00000110, 0b00000110, 0b00001100, 0b00001100, 0b00011000, 0b00110000, 0, 0],
     [0, 0, 0, 0, 0b00011000, 0b01011010, 0b00111100, 0b01111110,
      0b00111100, 0b01011010, 0b00011000, 0, 0, 0, 0, 0]]"

definition glyphs_2B_34 :: "u8 list list" where
  "glyphs_2B_34 =
    [
     [0, 0, 0, 0, 0, 0b00011000, 0b00011000, 0b00011000,
      0b01111111, 0b00011000, 0b00011000, 0b00011000, 0, 0, 0, 0],
     [0, 0, 0, 0, 0, 0, 0, 0,
      0, 0, 0, 0b00011000, 0b00011000, 0b00001000, 0b00010000, 0],
     [0, 0, 0, 0, 0, 0, 0, 0b01111111,
      0, 0, 0, 0, 0, 0, 0, 0],
     [0, 0, 0, 0, 0, 0, 0, 0,
      0, 0, 0, 0b00011000, 0b00011000, 0, 0, 0],
     [0, 0b00000011, 0b00000110, 0b00000110, 0b00001100, 0b00001100, 0b00011000, 0b00011000,
      0b00110000, 0b00110000, 0b01100000, 0b01100000, 0b11000000, 0, 0, 0],
     [0, 0, 0b00111100, 0b01100110, 0b01100110, 0b01101110, 0b01101110, 0b01111110,
      0b01110110, 0b01110110, 0b01100110, 0b01100110, 0b00111100, 0, 0, 0],
     [0, 0, 0b00011000, 0b00111000, 0b01111000, 0b00011000, 0b00011000, 0b00011000,
      0b00011000, 0b00011000, 0b00011000, 0b00011000, 0b01111110, 0, 0, 0],
     [0, 0, 0b00111100, 0b01100110, 0b01100110, 0b00000110, 0b00001100, 0b00011000,
      0b00110000, 0b01100000, 0b01100000, 0b01111111, 0, 0, 0, 0],
     [0, 0, 0b00111100, 0b01100110, 0b00000110, 0b00000110, 0b00011100, 0b00000110,
      0b00000110, 0b00000110, 0b01100110, 0b00111100, 0, 0, 0, 0],
     [0, 0, 0b00001110, 0b00011110, 0b00110110, 0b01100110, 0b01100110, 0b01111111,
      0b00000110, 0b00000110, 0b00000110, 0b00011111, 0, 0, 0, 0]]"

definition glyphs_35_3E :: "u8 list list" where
  "glyphs_35_3E =
    [
     [0, 0, 0b01111110, 0b01100000, 0b01100000, 0b01111100, 0b00000110, 0b00000110,
      0b00000110, 0b00000110, 0b01100110, 0b00111100, 0, 0, 0, 0],
     [0, 0, 0b00011100, 0b00110000, 0b01100000, 0b01100000, 0b01111100, 0b01100110,
      0b01100110, 0b01100110, 0b01100110, 0b00111100, 0, 0, 0, 0],
     [0, 0, 0b01111110, 0b00000110, 0b00000110, 0b00001100, 0b00001100, 0b00011000,
      0b00011000, 0b00110000, 0b00110000, 0b01100000, 0, 0, 0, 0],
     [0, 0, 0b00111100, 0b01100110, 0b01100110, 0b01100110, 0b00111100, 0b01100110,
      0b01100110, 0b01100110, 0b01100110, 0b00111100, 0, 0, 0, 0],
     [0, 0, 0b00111100, 0b01100110, 0b01100110, 0b01100110, 0b01100110, 0b00111110,
      0b00000110, 0b00000110, 0b00001100, 0b00111000, 0, 0, 0, 0],
     [0, 0, 0, 0, 0, 0b00011000, 0b00011000, 0,
      0, 0, 0b00011000, 0b00011000, 0, 0, 0, 0],
     [0, 0, 0, 0, 0, 0b00011000, 0b00011000, 0,
      0, 0, 0b00011000, 0b00011000, 0b00001000, 0b00010000, 0, 0],
     [0, 0, 0, 0b00000110, 0b00011100, 0b01110000, 0b11000000, 0b01110000,
      0b00011100, 0b00000110, 0, 0, 0, 0, 0, 0],
     [0, 0, 0, 0, 0, 0b01111110, 0, 0,
      0b01111110, 0, 0, 0, 0, 0, 0, 0],
     [0, 0, 0, 0b01100000, 0b00111000, 0b00001110, 0b00000011, 0b00001110,
      0b00111000, 0b01100000, 0, 0, 0, 0, 0, 0]]"

definition glyphs_3F_47 :: "u8 list list" where
  "glyphs_3F_47 =
    [
     [0, 0, 0b00111100, 0b01100110, 0b00000110, 0b00001100, 0b00011000, 0b00011000,
      0, 0b00011000, 0b00011000, 0, 0, 0, 0, 0],
     [0, 0, 0b00111100, 0b01100110, 0b01101110, 0b01110110, 0b01110110, 0b01110110,
      0b01110110, 0b01111000, 0b01100000, 0b00111100, 0, 0, 0, 0],
     [0, 0, 0b00011000, 0b00011000, 0b00111100, 0b00111100, 0b01100110, 0b01100110,
      0b01111110, 0b01100110, 0b01100110, 0b01100110, 0, 0, 0, 0],
     [0, 0, 0b01111100, 0b01100110, 0b01100110, 0b01100110, 0b01111100, 0b01100110,
      0b01100110, 0b01100110, 0b01100110, 0b01111100, 0, 0, 0, 0],
     [0, 0, 0b00111100, 0b01100110, 0b01100000, 0b01100000, 0b01100000, 0b01100000,
      0b01100000, 0b01100000, 0b01100110, 0b00111100, 0, 0, 0, 0],
     [0, 0, 0b01111100, 0b01100110, 0b01100110, 0b01100110, 0b01100110, 0b01100110,
      0b01100110, 0b01100110, 0b01100110, 0b01111100, 0, 0, 0, 0],
     [0, 0, 0b01111110, 0b01100000, 0b01100000, 0b01100000, 0b01111100, 0b01100000,
      0b01100000, 0b01100000, 0b01100000, 0b01111110, 0, 0, 0, 0],
     [0, 0, 0b01111110, 0b01100000, 0b01100000, 0b01100000, 0b01111100, 0b01100000,
      0b01100000, 0b01100000, 0b01100000, 0b01100000, 0, 0, 0, 0],
     [0, 0, 0b00111100, 0b01100110, 0b01100000, 0b01100000, 0b01101110, 0b01100110,
      0b01100110, 0b01100110, 0b01100110, 0b00111110, 0, 0, 0, 0]]"

definition glyphs_48_50 :: "u8 list list" where
  "glyphs_48_50 =
    [
     [0, 0, 0b01100110, 0b01100110, 0b01100110, 0b01100110, 0b01111110, 0b01100110,
      0b01100110, 0b01100110, 0b01100110, 0b01100110, 0, 0, 0, 0],
     [0, 0, 0b00111100, 0b00011000, 0b00011000, 0b00011000, 0b00011000, 0b00011000,
      0b00011000, 0b00011000, 0b00011000, 0b00111100, 0, 0, 0, 0],
     [0, 0, 0b00011110, 0b00001100, 0b00001100, 0b00001100, 0b00001100, 0b00001100,
      0b00001100, 0b01101100, 0b01101100, 0b00111000, 0, 0, 0, 0],
     [0, 0, 0b01100110, 0b01101100, 0b01111000, 0b01110000, 0b01110000, 0b01111000,
      0b01101100, 0b01100110, 0b01100110, 0b01100011, 0, 0, 0, 0],
     [0, 0, 0b01100000, 0b01100000, 0b01100000, 0b01100000, 0b01100000, 0b01100000,
      0b01100000, 0b01100000, 0b01100000, 0b01111110, 0, 0, 0, 0],
     [0, 0, 0b11000011, 0b11100111, 0b11100111, 0b11111111, 0b11011011, 0b11011011,
      0b11000011, 0b11000011, 0b11000011, 0b11000011, 0, 0, 0, 0],
     [0, 0, 0b01100110, 0b01110110, 0b01110110, 0b01111110, 0b01111110, 0b01101110,
      0b01101110, 0b01100110, 0b01100110, 0b01100110, 0, 0, 0, 0],
     [0, 0, 0b00111100, 0b01100110, 0b01100110, 0b01100110, 0b01100110, 0b01100110,
      0b01100110, 0b01100110, 0b01100110, 0b00111100, 0, 0, 0, 0],
     [0, 0, 0b01111100, 0b01100110, 0b01100110, 0b01100110, 0b01111100, 0b01100000,
      0b01100000, 0b01100000, 0b01100000, 0b01100000, 0, 0, 0, 0]]"

definition glyphs_51_59 :: "u8 list list" where
  "glyphs_51_59 =
    [
     [0, 0, 0b00111100, 0b01100110, 0b01100110, 0b01100110, 0b01100110, 0b01100110,
      0b01101110, 0b01111110, 0b00111110, 0b00000011, 0, 0, 0, 0],
     [0, 0, 0b01111100, 0b01100110, 0b01100110, 0b01100110, 0b01111100, 0b01111000,
      0b01101100, 0b01101100, 0b01100110, 0b01100110, 0, 0, 0, 0],
     [0, 0, 0b00111100, 0b01100110, 0b01100000, 0b01100000, 0b00111100, 0b00000110,
      0b00000110, 0b00000110, 0b01100110, 0b00111100, 0, 0, 0, 0],
     [0, 0, 0b01111111, 0b10011001, 0b10011001, 0b00011000, 0b00011000, 0b00011000,
      0b00011000, 0b00011000, 0b00011000, 0b00111100, 0, 0, 0, 0],
     [0, 0, 0b01100110, 0b01100110, 0b01100110, 0b01100110, 0b01100110, 0b01100110,
      0b01100110, 0b01100110, 0b01100110, 0b00111100, 0, 0, 0, 0],
     [0, 0, 0b01100110, 0b01100110, 0b01100110, 0b01100110, 0b01100110, 0b01100110,
      0b01100110, 0b00111100, 0b00111100, 0b00011000, 0, 0, 0, 0],
     [0, 0, 0b11000011, 0b11000011, 0b11000011, 0b11000011, 0b11011011, 0b11011011,
      0b11011011, 0b11111111, 0b01111110, 0b01100110, 0, 0, 0, 0],
     [0, 0, 0b01100110, 0b01100110, 0b00111100, 0b00111100, 0b00011000, 0b00111100,
      0b00111100, 0b01100110, 0b01100110, 0b11000011, 0, 0, 0, 0],
     [0, 0, 0b11000011, 0b01100110, 0b01100110, 0b00111100, 0b00111100, 0b00011000,
      0b00011000, 0b00011000, 0b00011000, 0b00111100, 0, 0, 0, 0]]"

definition glyphs_5A_64 :: "u8 list list" where
  "glyphs_5A_64 =
    [
     [0, 0, 0b01111111, 0b01000110, 0b00000110, 0b00001100, 0b00011000, 0b00110000,
      0b01100000, 0b01100010, 0b11000010, 0b11111110, 0, 0, 0, 0],
     [0, 0, 0b00111100, 0b00110000, 0b00110000, 0b00110000, 0b00110000, 0b00110000,
      0b00110000, 0b00110000, 0b00110000, 0b00110000, 0b00110000, 0b00111100, 0, 0],
     [0, 0b11000000, 0b01100000, 0b01100000, 0b00110000, 0b00110000, 0b00011000, 0b00011000,
      0b00001100, 0b00001100, 0b00000110, 0b00000110, 0b00000011, 0, 0, 0],
     [0, 0, 0b00111100, 0b00001100, 0b00001100, 0b00001100, 0b00001100, 0b00001100,
      0b00001100, 0b00001100, 0b00001100, 0b00001100, 0b00001100, 0b00111100, 0, 0],
     [0, 0b00011000, 0b00111100, 0b01100110, 0, 0, 0, 0,
      0, 0, 0, 0, 0, 0, 0, 0],
     [0, 0, 0, 0, 0, 0, 0, 0,
      0, 0, 0, 0, 0, 0, 0, 0b11111111],
     [0, 0b00011000, 0b00011000, 0b00001100, 0, 0, 0, 0,
      0, 0, 0, 0, 0, 0, 0, 0],
     [0, 0, 0, 0, 0, 0b00111100, 0b00000110, 0b00111110,
      0b01100110, 0b01100110, 0b01100110, 0b00111111, 0, 0, 0, 0],
     [0, 0, 0b01100000, 0b01100000, 0b01100000, 0b01111100, 0b01100110, 0b01100110,
      0b01100110, 0b01100110, 0b01100110, 0b01111100, 0, 0, 0, 0],
     [0, 0, 0, 0, 0, 0b00111100, 0b01100110, 0b01100000,
      0b01100000, 0b01100000, 0b01100110, 0b00111100, 0, 0, 0, 0],
     [0, 0, 0b00000110, 0b00000110, 0b00000110, 0b00111110, 0b01100110, 0b01100110,
      0b01100110, 0b01100110, 0b01100110, 0b00111110, 0, 0, 0, 0]]"

definition glyphs_65_6D :: "u8 list list" where
  "glyphs_65_6D =
    [
     [0, 0, 0, 0, 0, 0b00111100, 0b01100110, 0b01111110,
      0b01100000, 0b01100000, 0b01100110, 0b00111100, 0, 0, 0, 0],
     [0, 0, 0b00011100, 0b00110110, 0b00110000, 0b00110000, 0b01111100, 0b00110000,
      0b00110000, 0b00110000, 0b00110000, 0b01111000, 0, 0, 0, 0],
     [0, 0, 0, 0, 0, 0b00111110, 0b01100110, 0b01100110,
      0b01100110, 0b01100110, 0b01100110, 0b00111110, 0b00000110, 0b01100110, 0b00111100, 0],
     [0, 0, 0b01100000, 0b01100000, 0b01100000, 0b01111100, 0b01100110, 0b01100110,
      0b01100110, 0b01100110, 0b01100110, 0b01100110, 0, 0, 0, 0],
     [0, 0, 0b00011000, 0b00011000, 0, 0b00111100, 0b00011000, 0b00011000,
      0b00011000, 0b00011000, 0b00011000, 0b00111100, 0, 0, 0, 0],
     [0, 0, 0b00001100, 0b00001100, 0, 0b00011100, 0b00001100, 0b00001100,
      0b00001100, 0b00001100, 0b00001100, 0b01101100, 0b00111000, 0, 0, 0],
     [0, 0, 0b01100000, 0b01100000, 0b01100000, 0b01101100, 0b01111000, 0b01110000,
      0b01111000, 0b01111000, 0b01101100, 0b01100110, 0, 0, 0, 0],
     [0, 0, 0b00111000, 0b00011000, 0b00011000, 0b00011000, 0b00011000, 0b00011000,
      0b00011000, 0b00011000, 0b00011000, 0b00111100, 0, 0, 0, 0],
     [0, 0, 0, 0, 0, 0b01101100, 0b11111110, 0b11011011,
      0b11011011, 0b11011011, 0b11011011, 0b11011011, 0, 0, 0, 0]]"

definition glyphs_6E_78 :: "u8 list list" where
  "glyphs_6E_78 =
    [
     [0, 0, 0, 0, 0, 0b01111100, 0b01100110, 0b01100110,
      0b01100110, 0b01100110, 0b01100110, 0b01100110, 0, 0, 0, 0],
     [0, 0, 0, 0, 0, 0b00111100, 0b01100110, 0b01100110,
      0b01100110, 0b01100110, 0b01100110, 0b00111100, 0, 0, 0, 0],
     [0, 0, 0, 0, 0, 0b01111100, 0b01100110, 0b01100110,
      0b01100110, 0b01100110, 0b01100110, 0b01111100, 0b01100000, 0b01100000, 0b01111000, 0],
     [0, 0, 0, 0, 0, 0b00111110, 0b01100110, 0b01100110,
      0b01100110, 0b01100110, 0b01100110, 0b00111110, 0b00000110, 0b00000110, 0b00011110, 0],
     [0, 0, 0, 0, 0, 0b01101100, 0b01111110, 0b01110011,
      0b01100000, 0b01100000, 0b01100000, 0b01100000, 0, 0, 0, 0],
     [0, 0, 0, 0, 0, 0b00111110, 0b01100110, 0b00110000,
      0b00011100, 0b00000110, 0b01100110, 0b00111100, 0, 0, 0, 0],
     [0, 0, 0b00011000, 0b00011000, 0b00011000, 0b01111100, 0b00011000, 0b00011000,
      0b00011000, 0b00011000, 0b00011011, 0b00001110, 0, 0, 0, 0],
     [0, 0, 0, 0, 0, 0b01100110, 0b01100110, 0b01100110,
      0b01100110, 0b01100110, 0b01100110, 0b00111110, 0, 0, 0, 0],
     [0, 0, 0, 0, 0, 0b01100110, 0b01100110, 0b01100110,
      0b01100110, 0b01100110, 0b00111100, 0b00011000, 0, 0, 0, 0],
     [0, 0, 0, 0, 0, 0b11000011, 0b11000011, 0b11000011,
      0b11011011, 0b11011011, 0b11111111, 0b01100110, 0, 0, 0, 0],
     [0, 0, 0, 0, 0, 0b01100110, 0b01100110, 0b00111100,
      0b00011000, 0b00111100, 0b01100110, 0b01100110, 0, 0, 0, 0]]"

definition glyphs_79_7E :: "u8 list list" where
  "glyphs_79_7E =
    [
     [0, 0, 0, 0, 0, 0b01100110, 0b01100110, 0b01100110,
      0b01100110, 0b01100110, 0b01100110, 0b00111110, 0b00000110, 0b01100110, 0b00111100, 0],
     [0, 0, 0, 0, 0, 0b01111110, 0b01100110, 0b00001100,
      0b00011000, 0b00110000, 0b01100110, 0b01111110, 0, 0, 0, 0],
     [0, 0, 0b00001110, 0b00011000, 0b00011000, 0b00011000, 0b00110000, 0b00011000,
      0b00011000, 0b00011000, 0b00011000, 0b00011000, 0b00001110, 0, 0, 0],
     [0, 0b00011000, 0b00011000, 0b00011000, 0b00011000, 0b00011000, 0b00011000, 0b00011000,
      0b00011000, 0b00011000, 0b00011000, 0b00011000, 0b00011000, 0b00011000, 0, 0],
     [0, 0, 0b01110000, 0b00011000, 0b00011000, 0b00011000, 0b00001100, 0b00011000,
      0b00011000, 0b00011000, 0b00011000, 0b00011000, 0b01110000, 0, 0, 0],
     [0, 0, 0, 0, 0, 0b01110010, 0b11011011, 0b10001110,
      0, 0, 0, 0, 0, 0, 0, 0]]"

definition font8x16 :: "u8 list list" where
  "font8x16 =
     glyphs_20_2A @ glyphs_2B_34 @ glyphs_35_3E @ glyphs_3F_47 @
     glyphs_48_50 @ glyphs_51_59 @ glyphs_5A_64 @ glyphs_65_6D @
     glyphs_6E_78 @ glyphs_79_7E"

definition glyph_missing :: "u8 list" where
  "glyph_missing =
     [0, 0b01111110, 0b01000010, 0b01000010, 0b01000010, 0b01000010, 0b01000010, 0b01000010,
      0b01000010, 0b01000010, 0b01000010, 0b01000010, 0b01000010, 0b01111110, 0, 0]"

definition glyph_for :: "char \<Rightarrow> u8 list" where
  "glyph_for c =
     (let u = of_char c :: u8
      in if u < FIRST_GLYPH \<or> u > LAST_GLYPH then glyph_missing else font8x16 ! unat (u - FIRST_GLYPH))"

lemma font_length: "length font8x16 = 95"
  by code_simp

lemma glyphs_distinct: "distinct (glyph_missing # font8x16)"
  by code_simp

lemma glyph_rows: "\<forall>g \<in> set (glyph_missing # font8x16). length g = 16"
  by code_simp

end
