(* ===== verification/Font.thy ===== *)
theory Font
  imports Canvas Glyphs
begin

text \<open>
  The renderer of the 8 by 16 bitmap font, \<^verbatim>\<open>src/kernel/font.cpp\<close>; its glyphs are in theory Glyphs.
  Drawing gives the list of framebuffer calls. The lemmas show which pixels a character changes, on the screen and at
  its edges, and that any two printable characters look different.
\<close>

section \<open>Drawing\<close>

definition FONT_WIDTH :: i32 where "FONT_WIDTH = 8"
definition FONT_HEIGHT :: i32 where "FONT_HEIGHT = 16"

definition FB_RGB :: "u32 \<Rightarrow> u32 \<Rightarrow> u32 \<Rightarrow> u32" where
  "FB_RGB r g b = push_bit 16 r OR push_bit 8 g OR b"

definition lit :: "u8 \<Rightarrow> nat \<Rightarrow> bool" where
  "lit bits col \<longleftrightarrow> bits AND drop_bit col 0x80 \<noteq> 0"

definition char_pixel :: "i32 \<Rightarrow> i32 \<Rightarrow> u8 list \<Rightarrow> u32 \<Rightarrow> u32 \<Rightarrow> bool \<Rightarrow> nat \<Rightarrow> nat \<Rightarrow> draw_op list" where
  "char_pixel x y g fg bg bg_opaque row col =
     (if lit (g ! row) col then [Put (x + of_nat col) (y + of_nat row) fg]
      else if bg_opaque then [Put (x + of_nat col) (y + of_nat row) bg] else [])"

definition font_draw_char :: "i32 \<Rightarrow> i32 \<Rightarrow> char \<Rightarrow> u32 \<Rightarrow> u32 \<Rightarrow> bool \<Rightarrow> draw_op list" where
  "font_draw_char x y c fg bg bg_opaque =
     concat (map (\<lambda>row. concat (map (char_pixel x y (glyph_for c) fg bg bg_opaque row) [0..<8])) [0..<16])"

fun font_draw_n :: "i32 \<Rightarrow> i32 \<Rightarrow> string \<Rightarrow> nat \<Rightarrow> u32 \<Rightarrow> u32 \<Rightarrow> bool \<Rightarrow> draw_op list" where
  "font_draw_n cx y s 0 fg bg bg_opaque = []"
| "font_draw_n cx y [] (Suc n) fg bg bg_opaque = []"
| "font_draw_n cx y (c # s) (Suc n) fg bg bg_opaque =
     (if c = CHR 0x00 \<or> c = CHR 0x0A then []
      else font_draw_char cx y c fg bg bg_opaque @ font_draw_n (cx + FONT_WIDTH) y s n fg bg bg_opaque)"

definition font_draw_char_scaled :: "i32 \<Rightarrow> i32 \<Rightarrow> char \<Rightarrow> u32 \<Rightarrow> i32 \<Rightarrow> draw_op list" where
  "font_draw_char_scaled x y c fg scale =
     concat (map (\<lambda>row. concat (map (\<lambda>col.
         if lit (glyph_for c ! row) col
         then [Fill (x + of_nat col * scale) (y + of_nat row * scale) scale scale fg] else []) [0..<8])) [0..<16])"

fun scaled_loop :: "i32 \<Rightarrow> i32 \<Rightarrow> i32 \<Rightarrow> string \<Rightarrow> u32 \<Rightarrow> i32 \<Rightarrow> draw_op list" where
  "scaled_loop x cx y [] fg scale = []"
| "scaled_loop x cx y (c # s) fg scale =
     (if c = CHR 0x0A then scaled_loop x x (y + FONT_HEIGHT * scale) s fg scale
      else font_draw_char_scaled cx y c fg scale @ scaled_loop x (cx + FONT_WIDTH * scale) y s fg scale)"

definition font_draw_string_scaled :: "i32 \<Rightarrow> i32 \<Rightarrow> string \<Rightarrow> u32 \<Rightarrow> i32 \<Rightarrow> draw_op list" where
  "font_draw_string_scaled x y s fg scale = scaled_loop x x y s fg scale"

text \<open>\<open>font_draw_string\<close> also returns the row of the last line.\<close>

fun string_loop :: "i32 \<Rightarrow> i32 \<Rightarrow> i32 \<Rightarrow> string \<Rightarrow> u32 \<Rightarrow> u32 \<Rightarrow> bool \<Rightarrow> i32 \<times> draw_op list" where
  "string_loop x cx cy [] fg bg bg_opaque = (cy, [])"
| "string_loop x cx cy (c # s) fg bg bg_opaque =
     (if c = CHR 0x0A then string_loop x x (cy + FONT_HEIGHT) s fg bg bg_opaque
      else case string_loop x (cx + FONT_WIDTH) cy s fg bg bg_opaque of
             (r, ops) \<Rightarrow> (r, font_draw_char cx cy c fg bg bg_opaque @ ops))"

definition font_draw_string :: "i32 \<Rightarrow> i32 \<Rightarrow> string \<Rightarrow> u32 \<Rightarrow> u32 \<Rightarrow> bool \<Rightarrow> i32 \<times> draw_op list" where
  "font_draw_string x y s fg bg bg_opaque = string_loop x x y s fg bg bg_opaque"

section \<open>The pixels of a character\<close>

lemma sint_unat: "sint (x :: i32) = int n \<Longrightarrow> unat x = n"
  by (metis of_nat_0_le_iff of_nat_eq_iff sint_nonneg_unat)

lemma put_pixel_at:
  assumes ok: "fb_ok fb" and p: "px < unat (fb_w fb)" "py < unat (fb_h fb)"
  shows "pixel fb (fb_put_pixel x y c fb m) (py * unat (fb_w fb) + px) =
    (if sint x = int px \<and> sint y = int py then c else pixel fb m (py * unat (fb_w fb) + px))"
proof (cases "sint x < 0 \<or> sint y < 0 \<or> x \<ge> fb_w fb \<or> y \<ge> fb_h fb")
  case True
  have "sint x = int px \<Longrightarrow> sint y = int py \<Longrightarrow> False"
    using True p sint_unat [of x px] sint_unat [of y py] by (auto simp: word_le_nat_alt)
  then show ?thesis using True by (auto simp: fb_put_pixel_def)
next
  case False
  let ?W = "unat (fb_w fb)"
  have xy: "unat x < ?W" "unat y < unat (fb_h fb)" "int (unat x) = sint x" "int (unat y) = sint y"
    using False sint_nonneg_unat [of x] sint_nonneg_unat [of y] by (auto simp: word_less_nat_alt not_le not_less)
  have a: "back_row fb y + 4 * scast x = fb_back fb + 4 * of_nat (unat y * ?W + unat x)"
    using row_address [OF ok, of "unat y" 0 0 "unat x"] xy by simp
  have i: "unat y * ?W + unat x < pixels fb" "py * ?W + px < pixels fb"
    using row_fits [of "unat x" 1 ?W "unat y" "unat (fb_h fb)"] row_fits [of px 1 ?W py "unat (fb_h fb)"] xy p
    by (simp_all add: pixels_def)
  have "pixel fb (set_pixel fb (unat y * ?W + unat x) c m) (py * ?W + px) =
      (if py * ?W + px = unat y * ?W + unat x then c else pixel fb m (py * ?W + px))"
    using pixel_set_pixel [OF ok i] by simp
  moreover have "py * ?W + px = unat y * ?W + unat x \<longleftrightarrow> sint x = int px \<and> sint y = int py"
  proof -
    have "py * ?W + px = unat y * ?W + unat x \<longleftrightarrow> unat y = py \<and> unat x = px"
      using row_index_unique [of px ?W 0 "unat x" py "unat y"] p xy(1) by auto
    moreover have "sint x = int px \<longleftrightarrow> unat x = px" "sint y = int py \<longleftrightarrow> unat y = py"
      using xy(3,4) by (metis of_nat_eq_iff)+
    ultimately show ?thesis by blast
  qed
  moreover have "fb_put_pixel x y c fb m = set_pixel fb (unat y * ?W + unat x) c m"
    using False ok a by (simp add: fb_put_pixel_def set_pixel_def fb_ok_def)
  ultimately show ?thesis by simp
qed

text \<open>What a list of single pixels leaves at a place.\<close>

fun left_at :: "nat \<Rightarrow> nat \<Rightarrow> draw_op list \<Rightarrow> u32 \<Rightarrow> u32" where
  "left_at px py [] old = old"
| "left_at px py (Put x y c # ops) old = left_at px py ops (if sint x = int px \<and> sint y = int py then c else old)"
| "left_at px py (op # ops) old = left_at px py ops old"

definition only_puts :: "draw_op list \<Rightarrow> bool" where
  "only_puts ops \<longleftrightarrow> (\<forall>a \<in> set ops. \<exists>x y c. a = Put x y c)"

lemma paint_puts:
  assumes ok: "fb_ok fb" and p: "px < unat (fb_w fb)" "py < unat (fb_h fb)"
  shows "only_puts ops \<Longrightarrow> pixel fb (paint fb ops m) (py * unat (fb_w fb) + px) =
    left_at px py ops (pixel fb m (py * unat (fb_w fb) + px))"
proof (induction ops arbitrary: m)
  case (Cons a ops)
  then obtain x y c where "a = Put x y c" "only_puts ops" by (auto simp: only_puts_def)
  then show ?case using Cons.IH put_pixel_at [OF ok p] by simp
qed simp

lemma left_at_append: "left_at px py (xs @ ys) old = left_at px py ys (left_at px py xs old)"
  by (induction px py xs old rule: left_at.induct) auto

lemma left_at_one:
  assumes "distinct ks" and "\<And>k old. k \<in> set ks \<Longrightarrow> k \<noteq> k0 \<Longrightarrow> left_at px py (f k) old = old"
  shows "left_at px py (concat (map f ks)) old = (if k0 \<in> set ks then left_at px py (f k0) old else old)"
  using assms
proof (induction ks arbitrary: old)
  case (Cons k ks)
  show ?case
  proof (cases "k = k0")
    case True
    then have "k0 \<notin> set ks" using Cons.prems by simp
    then show ?thesis using Cons True by (simp add: left_at_append)
  next
    case False
    then show ?thesis using Cons by (simp add: left_at_append)
  qed
qed simp

lemma sint_add_small:
  assumes "small_coord x" and "n < 100"
  shows "sint (x + of_nat n) = sint x + int n"
proof -
  have "sint (of_nat n :: i32) = int n" using assms(2) by (intro sint_of_nat) simp
  then show ?thesis using assms by (simp add: small_coord_def sint_word_ariths signed_take_bit_int_eq_self)
qed

text \<open>The cell of a character at \<open>(x, y)\<close>, and whether one of its pixels is lit.\<close>

definition in_cell :: "i32 \<Rightarrow> i32 \<Rightarrow> nat \<Rightarrow> nat \<Rightarrow> bool" where
  "in_cell x y px py \<longleftrightarrow> in_rect x y FONT_WIDTH FONT_HEIGHT px py"

definition glyph_lit :: "char \<Rightarrow> nat \<Rightarrow> nat \<Rightarrow> bool" where
  "glyph_lit c col row \<longleftrightarrow> lit (glyph_for c ! row) col"

lemma char_pixel_at:
  assumes "small_coord x" and "small_coord y" and "col < 8" and "row < 16"
  shows "left_at px py (char_pixel x y g fg bg op row col) old =
    (if sint x + int col = int px \<and> sint y + int row = int py
     then (if lit (g ! row) col then fg else if op then bg else old) else old)"
  using sint_add_small [OF assms(1), of col] sint_add_small [OF assms(2), of row] assms(3,4)
  by (simp add: char_pixel_def)

lemma char_left_at:
  assumes s: "small_coord x" "small_coord y"
  shows "left_at px py (font_draw_char x y c fg bg op) old =
    (if in_cell x y px py
     then (if glyph_lit c (nat (int px - sint x)) (nat (int py - sint y)) then fg else if op then bg else old) else old)"
proof -
  let ?f = "char_pixel x y (glyph_for c) fg bg op"
  let ?c = "nat (int px - sint x)" and ?r = "nat (int py - sint y)"
  have cols: "left_at px py (concat (map (?f row) [0..<8])) old =
      (if ?c \<in> set [0..<8] then left_at px py (?f row ?c) old else old)" if "row < 16" for row old
    using that by (intro left_at_one) (auto simp: char_pixel_at [OF s])
  have rows: "left_at px py (concat (map (\<lambda>row. concat (map (?f row) [0..<8])) [0..<16])) old =
      (if ?r \<in> set [0..<16] then left_at px py (concat (map (?f ?r) [0..<8])) old else old)"
    by (intro left_at_one) (auto simp: cols char_pixel_at [OF s] simp del: upt_rec_numeral)
  have cell: "in_cell x y px py \<longleftrightarrow> sint x + int ?c = int px \<and> sint y + int ?r = int py \<and> ?c < 8 \<and> ?r < 16"
    by (auto simp: in_cell_def in_rect_def FONT_WIDTH_def FONT_HEIGHT_def)
  show ?thesis
    unfolding font_draw_char_def rows cell
    using cols [of ?r old] char_pixel_at [OF s, of ?c ?r px py "glyph_for c" fg bg op old]
    by (auto simp: glyph_lit_def simp del: upt_rec_numeral)
qed

lemma only_puts_concat: "(\<And>k. k \<in> set ks \<Longrightarrow> only_puts (f k)) \<Longrightarrow> only_puts (concat (map f ks))"
  by (auto simp: only_puts_def)

lemma char_only_puts: "only_puts (font_draw_char x y c fg bg op)"
  unfolding font_draw_char_def by (intro only_puts_concat) (auto simp: only_puts_def char_pixel_def)

section \<open>What drawing a character does\<close>

text \<open>
  Drawing a character colours, of its 8 by 16 cell, exactly the pixels of its glyph that lie on the
  screen, and the others of the cell only if the background is opaque; all other pixels and all
  memory outside the back buffer stay. The cell may lie across the edge of the screen.
\<close>

theorem draw_char_paints_glyph:
  assumes "fb_ok fb" and "small_coord x" and "small_coord y"
  shows "(\<forall>px < unat (fb_w fb). \<forall>py < unat (fb_h fb).
      pixel fb (paint fb (font_draw_char x y c fg bg bg_opaque) m) (py * unat (fb_w fb) + px) =
      (if in_cell x y px py \<and> glyph_lit c (nat (int px - sint x)) (nat (int py - sint y)) then fg
       else if in_cell x y px py \<and> bg_opaque then bg else pixel fb m (py * unat (fb_w fb) + px))) \<and>
    outside_same fb m (paint fb (font_draw_char x y c fg bg bg_opaque) m)"
  using paint_puts [OF assms(1) _ _ char_only_puts] char_left_at [OF assms(2,3)] paint_outside [OF assms(1)]
  by simp

theorem draw_char_paints_glyph_witness:
  "pixel fb_demo (paint fb_demo (font_draw_char (- 3) 100 (CHR 0x21) 0xFF 0 False) (\<lambda>_. 0)) (102 * 1024 + 0) = 0xFF"
proof -
  have s: "small_coord (- 3)" "small_coord 100" by (simp_all add: small_coord_def)
  have d: "0 < unat (fb_w fb_demo)" "102 < unat (fb_h fb_demo)" by (simp_all add: fb_demo_def)
  have "in_cell (- 3) 100 0 102" by (simp add: in_cell_def in_rect_def FONT_WIDTH_def FONT_HEIGHT_def)
  moreover have "glyph_lit (CHR 0x21) 3 2" by code_simp
  ultimately show ?thesis
    using draw_char_paints_glyph [OF fb_demo_ok s, of "CHR 0x21" "0xFF" 0 False "\<lambda>_. 0",
        THEN conjunct1, rule_format, OF d]
    by (simp add: fb_demo_def)
qed

text \<open>Any two characters with a glyph of their own differ in some pixel, and from the hollow box.\<close>

lemma printable_glyphs_differ:
  assumes "of_char c \<in> {FIRST_GLYPH..LAST_GLYPH}" and "c \<noteq> d"
  shows "glyph_for c \<noteq> glyph_for d"
proof -
  have n: "unat (of_char e :: u8) = of_char e" for e by (cases e) simp
  have u: "(of_char c :: u8) \<noteq> of_char d"
  proof
    assume "(of_char c :: u8) = of_char d"
    then have "(of_char c :: nat) = of_char d" using n by metis
    then show False using assms(2) by simp
  qed
  let ?i = "\<lambda>c. unat (of_char c - FIRST_GLYPH :: u8)"
  have g: "glyph_for c = font8x16 ! ?i c" using assms(1) by (auto simp: glyph_for_def Let_def not_less)
  have i: "?i c < 95"
    using assms(1) by (auto simp: FIRST_GLYPH_def LAST_GLYPH_def word_le_nat_alt unat_sub)
  show ?thesis
  proof (cases "(of_char d :: u8) \<in> {FIRST_GLYPH..LAST_GLYPH}")
    case True
    have h: "glyph_for d = font8x16 ! ?i d" using True by (auto simp: glyph_for_def Let_def not_less)
    have j: "?i d < 95" using True by (auto simp: FIRST_GLYPH_def LAST_GLYPH_def word_le_nat_alt unat_sub)
    have "?i c \<noteq> ?i d"
    proof
      assume "?i c = ?i d"
      then have "of_char c - FIRST_GLYPH = of_char d - FIRST_GLYPH" by (rule word_unat_eq_iff [THEN iffD2])
      then show False using u by simp
    qed
    then show ?thesis
      using i j glyphs_distinct by (simp add: g h font_length nth_eq_iff_index_eq)
  next
    case False
    then have "glyph_for d = glyph_missing" by (auto simp: glyph_for_def Let_def not_less not_le)
    moreover have "font8x16 ! ?i c \<in> set font8x16" using i by (simp add: font_length)
    ultimately show ?thesis using glyphs_distinct g by auto
  qed
qed

end
