(* ===== verification/Terminal.thy ===== *)
theory Terminal
  imports Programs
begin

text \<open>
  The terminal of the desktop and the text helpers of \<^verbatim>\<open>src/kernel/gui.cpp\<close>: a grid of 36 rows of
  96 characters with a cursor. The specification is a page that only grows: rows are added at
  the end and nothing scrolls. The lemmas show that the grid is the last 36 rows of that page,
  and that the numbers of the desktop are written as the console writes them.
\<close>

definition TERM_COLS :: nat where "TERM_COLS = 96"
definition TERM_ROWS :: nat where "TERM_ROWS = 36"

record term_state =
  term_cells :: "string list"
  cur_row :: nat
  cur_col :: nat
  term_dirty :: bool

section \<open>Text helpers\<close>

text \<open>Each gives what it writes before the terminating NUL; \<open>cap\<close> is the room in bytes.\<close>

definition fmt_u64 :: "nat \<Rightarrow> u64 \<Rightarrow> string" where
  "fmt_u64 cap v = take (cap - 1) (rev (if v = 0 then ''0'' else tmp_digits v))"

fun fmt_hex_loop :: "nat \<Rightarrow> nat \<Rightarrow> u64 \<Rightarrow> string" where
  "fmt_hex_loop room 0 v = []"
| "fmt_hex_loop room (Suc d) v =
     (if room = 0 then [] else hex_char (unat (drop_bit (4 * d) v AND 0xF)) # fmt_hex_loop (room - 1) d v)"

definition fmt_hex :: "nat \<Rightarrow> u64 \<Rightarrow> nat \<Rightarrow> string" where
  "fmt_hex cap v digits =
     (if 2 < cap then ''0x'' @ fmt_hex_loop (cap - 3) digits v else fmt_hex_loop (cap - 1) digits v)"

text \<open>\<open>cat\<close> and \<open>fmt_u64\<close> at the end of a line in a buffer of \<open>cap\<close> bytes.\<close>

definition cat :: "nat \<Rightarrow> string \<Rightarrow> string \<Rightarrow> string" where
  "cat cap line src = line @ take (cap - 1 - length line) src"

definition cat_u64 :: "nat \<Rightarrow> u64 \<Rightarrow> string \<Rightarrow> string" where
  "cat_u64 cap v line = line @ fmt_u64 (cap - length line) v"

section \<open>The grid\<close>

definition blank_row :: string where
  "blank_row = replicate TERM_COLS (CHR '' '')"

definition term_clear :: "term_state \<Rightarrow> term_state" where
  "term_clear t = t\<lparr>term_cells := replicate TERM_ROWS blank_row, cur_row := 0, cur_col := 0, term_dirty := True\<rparr>"

definition term_scroll_one :: "term_state \<Rightarrow> term_state" where
  "term_scroll_one t =
     t\<lparr>term_cells := map (\<lambda>r. if r < TERM_ROWS - 1 then term_cells t ! (r + 1) else blank_row) [0..<TERM_ROWS]\<rparr>"

definition term_newline :: "term_state \<Rightarrow> term_state" where
  "term_newline t =
     (let t1 = t\<lparr>cur_col := 0, cur_row := cur_row t + 1\<rparr>
      in if cur_row t1 \<ge> TERM_ROWS then (term_scroll_one t1)\<lparr>cur_row := TERM_ROWS - 1\<rparr> else t1)"

definition set_cell :: "nat \<Rightarrow> nat \<Rightarrow> char \<Rightarrow> string list \<Rightarrow> string list" where
  "set_cell r k c cells = cells[r := (cells ! r)[k := c]]"

text \<open>Every character but the tab.\<close>

definition term_plain :: "char \<Rightarrow> term_state \<Rightarrow> term_state" where
  "term_plain c t =
     (if c = CHR 0x0A then term_newline t
      else if c = CHR 0x0D then t\<lparr>cur_col := 0\<rparr>
      else if c = CHR 0x08
           then (if cur_col t > 0
                 then t\<lparr>term_cells := set_cell (cur_row t) (cur_col t - 1) (CHR '' '') (term_cells t), cur_col := cur_col t - 1\<rparr>
                 else t)
      else if 32 \<le> (of_char c :: nat) \<and> (of_char c :: nat) < 127
           then let t1 = (if cur_col t \<ge> TERM_COLS then term_newline t else t)
                in t1\<lparr>term_cells := set_cell (cur_row t1) (cur_col t1) c (term_cells t1), cur_col := cur_col t1 + 1\<rparr>
      else t)\<lparr>term_dirty := True\<rparr>"

lemma plain_blank_col:
  "cur_col (term_plain (CHR '' '') t) = (if cur_col t \<ge> TERM_COLS then 1 else cur_col t + 1)"
  by (simp add: term_plain_def term_newline_def term_scroll_one_def Let_def)

text \<open>A tab writes blanks up to the next tab stop, at least one.\<close>

function term_tab :: "term_state \<Rightarrow> term_state" where
  "term_tab t = (let t1 = term_plain (CHR '' '') t in if cur_col t1 mod 8 \<noteq> 0 then term_tab t1 else t1)"
  by pat_completeness auto
termination
proof (relation "measure (\<lambda>t. if cur_col t \<ge> TERM_COLS then 9 else 8 - cur_col t mod 8)", simp)
  fix t t1
  assume t1: "t1 = term_plain (CHR '' '') t" "cur_col t1 mod 8 \<noteq> 0"
  show "(t1, t) \<in> measure (\<lambda>t. if cur_col t \<ge> TERM_COLS then 9 else 8 - cur_col t mod 8)"
  proof (cases "cur_col t \<ge> TERM_COLS")
    case False
    then have c: "cur_col t1 = cur_col t + 1" using t1(1) plain_blank_col by simp
    have "(cur_col t + 1) mod 8 = cur_col t mod 8 + 1" using t1(2) unfolding c by (simp add: mod_Suc split: if_splits)
    moreover have "cur_col t1 \<noteq> TERM_COLS" using t1(2) by (auto simp: TERM_COLS_def)
    moreover have "cur_col t mod 8 < 8" by simp
    ultimately show ?thesis using False c by auto
  qed (use t1(1) plain_blank_col in \<open>auto simp: TERM_COLS_def\<close>)
qed

declare term_tab.simps [simp del]

definition gui_term_putc :: "char \<Rightarrow> term_state \<Rightarrow> term_state" where
  "gui_term_putc c t = (if c = CHR 0x09 then (term_tab t)\<lparr>term_dirty := True\<rparr> else term_plain c t)"

definition gui_term_puts :: "string \<Rightarrow> term_state \<Rightarrow> term_state" where
  "gui_term_puts s t = fold gui_term_putc s t"

section \<open>A page that grows\<close>

record page =
  page_rows :: "string list"
  page_col :: nat

text \<open>A page has at least one row; the cursor is in the last one.\<close>

definition page_newline :: "page \<Rightarrow> page" where
  "page_newline p = p\<lparr>page_rows := page_rows p @ [blank_row], page_col := 0\<rparr>"

definition page_set :: "nat \<Rightarrow> char \<Rightarrow> page \<Rightarrow> page" where
  "page_set k c p = p\<lparr>page_rows := butlast (page_rows p) @ [(last (page_rows p))[k := c]]\<rparr>"

definition page_type :: "char \<Rightarrow> page \<Rightarrow> page" where
  "page_type c p =
     (let p1 = (if page_col p \<ge> TERM_COLS then page_newline p else p)
      in (page_set (page_col p1) c p1)\<lparr>page_col := page_col p1 + 1\<rparr>)"

text \<open>The number of blanks a tab writes from a column.\<close>

definition tab_width :: "nat \<Rightarrow> nat" where
  "tab_width k = (if k \<ge> TERM_COLS then 8 else 8 - k mod 8)"

definition page_putc :: "char \<Rightarrow> page \<Rightarrow> page" where
  "page_putc c p =
     (if c = CHR 0x0A then page_newline p
      else if c = CHR 0x0D then p\<lparr>page_col := 0\<rparr>
      else if c = CHR 0x08
           then (if page_col p > 0 then (page_set (page_col p - 1) (CHR '' '') p)\<lparr>page_col := page_col p - 1\<rparr> else p)
      else if c = CHR 0x09 then (page_type (CHR '' '') ^^ tab_width (page_col p)) p
      else if 32 \<le> (of_char c :: nat) \<and> (of_char c :: nat) < 127 then page_type c p
      else p)"

definition page_puts :: "string \<Rightarrow> page \<Rightarrow> page" where
  "page_puts s p = fold page_putc s p"

definition empty_page :: page where
  "empty_page = \<lparr>page_rows = [blank_row], page_col = 0\<rparr>"

text \<open>What a window of 36 rows shows of it.\<close>

definition last_rows :: "string list \<Rightarrow> string list" where
  "last_rows rs = (if length rs \<le> TERM_ROWS then rs @ replicate (TERM_ROWS - length rs) blank_row
     else drop (length rs - TERM_ROWS) rs)"

definition displays :: "term_state \<Rightarrow> page \<Rightarrow> bool" where
  "displays t p \<longleftrightarrow> page_rows p \<noteq> [] \<and> term_cells t = last_rows (page_rows p) \<and>
     cur_row t = min (length (page_rows p) - 1) (TERM_ROWS - 1) \<and> cur_col t = page_col p"

section \<open>The grid is the end of the page\<close>

lemma length_last_rows [simp]: "length (last_rows rs) = TERM_ROWS"
  by (simp add: last_rows_def TERM_ROWS_def)

lemma scroll_cells: "length (term_cells t) = TERM_ROWS \<Longrightarrow> term_cells (term_scroll_one t) = tl (term_cells t) @ [blank_row]"
  by (rule nth_equalityI) (auto simp: term_scroll_one_def TERM_ROWS_def nth_append nth_tl simp del: upt_rec_numeral)

lemma last_rows_snoc:
  "last_rows (rs @ [blank_row]) = (if length rs < TERM_ROWS then last_rows rs else tl (last_rows rs) @ [blank_row])"
proof (cases "length rs < TERM_ROWS")
  case True
  then have "replicate (TERM_ROWS - length rs) blank_row = blank_row # replicate (TERM_ROWS - length rs - 1) blank_row"
    by (metis Suc_diff_1 replicate_Suc zero_less_diff)
  then show ?thesis using True by (simp add: last_rows_def)
next
  case False
  then obtain k where k: "length rs = TERM_ROWS + k" by (metis le_Suc_ex not_less)
  have "tl (drop k rs) = drop (Suc k) rs" by (simp add: drop_Suc tl_drop)
  then show ?thesis using k by (cases k) (auto simp: last_rows_def TERM_ROWS_def)
qed

lemma newline_displays:
  assumes d: "displays t p"
  shows "displays (term_newline t) (page_newline p)"
proof -
  have c: "term_cells t = last_rows (page_rows p)" "cur_row t = min (length (page_rows p) - 1) (TERM_ROWS - 1)"
      "page_rows p \<noteq> []" using d by (simp_all add: displays_def)
  have l: "0 < length (page_rows p)" using c(3) by simp
  show ?thesis
  proof (cases "length (page_rows p) < TERM_ROWS")
    case True
    then show ?thesis using c l
      by (auto simp: displays_def term_newline_def page_newline_def Let_def last_rows_snoc TERM_ROWS_def)
  next
    case False
    then have "cur_row t + 1 = TERM_ROWS" using c(2) by (simp add: TERM_ROWS_def)
    then show ?thesis using c False
      by (simp add: displays_def term_newline_def page_newline_def Let_def last_rows_snoc scroll_cells min_def)
        (simp add: TERM_ROWS_def term_scroll_one_def)
  qed
qed

lemma last_rows_update:
  assumes "rs \<noteq> []"
  shows "last_rows (butlast rs @ [x]) = (last_rows rs)[min (length rs - 1) (TERM_ROWS - 1) := x]"
    and "last_rows rs ! min (length rs - 1) (TERM_ROWS - 1) = last rs"
proof -
  obtain bs b where rs: "rs = bs @ [b]" using assms by (cases rs rule: rev_cases) auto
  show "last_rows (butlast rs @ [x]) = (last_rows rs)[min (length rs - 1) (TERM_ROWS - 1) := x]"
    by (rule nth_equalityI) (auto simp: rs last_rows_def TERM_ROWS_def nth_append nth_list_update min_def split: if_splits)
  show "last_rows rs ! min (length rs - 1) (TERM_ROWS - 1) = last rs"
    by (auto simp: rs last_rows_def TERM_ROWS_def nth_append min_def)
qed

lemma set_displays:
  assumes d: "displays t p"
  shows "displays (t\<lparr>term_cells := set_cell (cur_row t) k c (term_cells t)\<rparr>) (page_set k c p)"
proof -
  have r: "page_rows p \<noteq> []" "term_cells t = last_rows (page_rows p)" "cur_row t = min (length (page_rows p) - 1) (TERM_ROWS - 1)"
    using d by (simp_all add: displays_def)
  have "length (butlast (page_rows p) @ [y]) = length (page_rows p)" for y using r(1) by simp
  then show ?thesis
    using d last_rows_update(1) [OF r(1), of "(last (page_rows p))[k := c]"] last_rows_update(2) [OF r(1)] r
    by (simp add: displays_def set_cell_def page_set_def)
qed

lemma displays_frame [simp]:
  "displays (t\<lparr>term_dirty := b\<rparr>) p = displays t p"
  "displays t p \<Longrightarrow> displays (t\<lparr>cur_col := k\<rparr>) (p\<lparr>page_col := k\<rparr>)"
  by (simp_all add: displays_def)

lemma displays_col: "displays t p \<Longrightarrow> cur_col t = page_col p"
  by (simp add: displays_def)

lemma type_displays:
  assumes d: "displays t p"
  defines "t1 \<equiv> (if cur_col t \<ge> TERM_COLS then term_newline t else t)"
  shows "displays (t1\<lparr>term_cells := set_cell (cur_row t1) (cur_col t1) c (term_cells t1), cur_col := cur_col t1 + 1\<rparr>) (page_type c p)"
proof -
  let ?p1 = "if page_col p \<ge> TERM_COLS then page_newline p else p"
  have d1: "displays t1 ?p1" using d newline_displays displays_col [OF d] by (auto simp: t1_def)
  show ?thesis
    using displays_frame(2) [OF set_displays [OF d1, of "page_col ?p1" c], of "page_col ?p1 + 1"] displays_col [OF d1]
    by (simp add: page_type_def Let_def)
qed

lemma plain_displays:
  assumes d: "displays t p" and c: "c \<noteq> CHR 0x09"
  shows "displays (term_plain c t) (page_putc c p)"
proof -
  have bk: "displays (t\<lparr>term_cells := set_cell (cur_row t) (cur_col t - 1) (CHR '' '') (term_cells t), cur_col := cur_col t - 1\<rparr>)
      ((page_set (page_col p - 1) (CHR '' '') p)\<lparr>page_col := page_col p - 1\<rparr>)"
    using displays_frame(2) [OF set_displays [OF d, of "page_col p - 1" "CHR '' ''"], of "page_col p - 1"] displays_col [OF d]
    by simp
  consider "c = CHR 0x0A" | "c = CHR 0x0D" | "c = CHR 0x08"
    | (pr) "32 \<le> (of_char c :: nat)" "(of_char c :: nat) < 127" "c \<noteq> CHR 0x0A" "c \<noteq> CHR 0x0D" "c \<noteq> CHR 0x08"
    | (no) "\<not> (32 \<le> (of_char c :: nat) \<and> (of_char c :: nat) < 127)" "c \<noteq> CHR 0x0A" "c \<noteq> CHR 0x0D" "c \<noteq> CHR 0x08"
    by blast
  then show ?thesis
  proof cases
    case 1
    then show ?thesis using newline_displays [OF d] by (simp add: term_plain_def page_putc_def)
  next
    case 2
    then show ?thesis using displays_frame(2) [OF d, of 0] by (simp add: term_plain_def page_putc_def)
  next
    case 3
    then show ?thesis using bk d displays_col [OF d] by (simp add: term_plain_def page_putc_def)
  next
    case pr
    have "page_putc c p = page_type c p" using pr c by (simp add: page_putc_def)
    then show ?thesis using type_displays [OF d, of c] pr by (simp add: term_plain_def Let_def cong: if_cong)
  next
    case no
    then have "page_putc c p = p" "term_plain c t = t\<lparr>term_dirty := True\<rparr>" using c
      by (auto simp: term_plain_def page_putc_def)
    then show ?thesis using d by simp
  qed
qed

lemma page_type_col: "page_col (page_type c p) = (if page_col p \<ge> TERM_COLS then 1 else page_col p + 1)"
  by (simp add: page_type_def page_newline_def Let_def)

lemma tab_width_step:
  fixes k :: nat
  defines "k' \<equiv> (if k \<ge> TERM_COLS then 1 else k + 1)"
  shows "k' mod 8 = 0 \<Longrightarrow> tab_width k = 1" and "k' mod 8 \<noteq> 0 \<Longrightarrow> tab_width k = Suc (tab_width k')"
proof -
  have m: "(k + 1) mod 8 = (if k mod 8 = 7 then 0 else k mod 8 + 1)" by (simp add: mod_Suc)
  show "k' mod 8 = 0 \<Longrightarrow> tab_width k = 1" using m by (auto simp: k'_def tab_width_def split: if_splits)
  assume n: "k' mod 8 \<noteq> 0"
  show "tab_width k = Suc (tab_width k')"
  proof (cases "k \<ge> TERM_COLS")
    case False
    have "k + 1 \<noteq> TERM_COLS" using n False by (auto simp: k'_def TERM_COLS_def)
    moreover have "k mod 8 < 8" by simp
    ultimately show ?thesis using n m False by (auto simp: k'_def tab_width_def split: if_splits)
  qed (simp add: k'_def tab_width_def TERM_COLS_def)
qed

lemma tab_displays: "displays t p \<Longrightarrow> displays (term_tab t) ((page_type (CHR '' '') ^^ tab_width (cur_col t)) p)"
proof (induction t arbitrary: p rule: term_tab.induct)
  case (1 t)
  let ?t1 = "term_plain (CHR '' '') t" and ?p1 = "page_type (CHR '' '') p"
  have "page_putc (CHR '' '') p = ?p1" by (simp add: page_putc_def)
  then have d1: "displays ?t1 ?p1" using plain_displays [OF 1(2), of "CHR '' ''"] by simp
  have col: "cur_col ?t1 = (if cur_col t \<ge> TERM_COLS then 1 else cur_col t + 1)" by (rule plain_blank_col)
  show ?case
  proof (cases "cur_col ?t1 mod 8 = 0")
    case True
    have w: "tab_width (cur_col t) = 1"
      using True unfolding col by (rule tab_width_step(1))
    show ?thesis using d1 True unfolding w by (subst term_tab.simps) (simp add: Let_def)
  next
    case False
    have w: "tab_width (cur_col t) = Suc (tab_width (cur_col ?t1))"
      using False unfolding col by (rule tab_width_step(2))
    have "displays (term_tab ?t1) ((page_type (CHR '' '') ^^ tab_width (cur_col ?t1)) ?p1)"
      using 1(1) [OF refl _ d1] False by simp
    then show ?thesis unfolding w using False
      by (subst term_tab.simps) (simp add: Let_def funpow_swap1)
  qed
qed

lemma putc_displays:
  assumes "displays t p"
  shows "displays (gui_term_putc c t) (page_putc c p)"
proof (cases "c = CHR 0x09")
  case True
  then show ?thesis using tab_displays [OF assms] displays_col [OF assms] by (simp add: gui_term_putc_def page_putc_def)
next
  case False
  then show ?thesis using plain_displays [OF assms] by (simp add: gui_term_putc_def)
qed

lemma puts_displays: "displays t p \<Longrightarrow> displays (gui_term_puts s t) (page_puts s p)"
  unfolding gui_term_puts_def page_puts_def
  by (induction s arbitrary: t p) (auto intro: putc_displays)

lemma clear_displays: "displays (term_clear t) empty_page"
  by (simp add: displays_def empty_page_def term_clear_def last_rows_def TERM_ROWS_def eval_nat_numeral)

lemma displays_room:
  assumes "displays t p"
  shows "length (term_cells t) = TERM_ROWS \<and> cur_row t < TERM_ROWS"
  using assms by (simp add: displays_def TERM_ROWS_def min_def)

lemma page_set_rows: "\<forall>r \<in> set (page_rows p). length r = n \<Longrightarrow> page_rows p \<noteq> [] \<Longrightarrow>
    (\<forall>r \<in> set (page_rows (page_set k c p)). length r = n) \<and> page_rows (page_set k c p) \<noteq> [] \<and> page_col (page_set k c p) = page_col p"
  by (auto simp: page_set_def dest: in_set_butlastD)

text \<open>Every row of a page has 96 cells, and the cursor is at most one past the last.\<close>

definition page_ok :: "page \<Rightarrow> bool" where
  "page_ok p \<longleftrightarrow> page_rows p \<noteq> [] \<and> (\<forall>r \<in> set (page_rows p). length r = TERM_COLS) \<and> page_col p \<le> TERM_COLS"

lemma page_newline_ok: "page_ok p \<Longrightarrow> page_ok (page_newline p)"
  by (auto simp: page_ok_def page_newline_def blank_row_def)

lemma page_set_ok: "page_ok p \<Longrightarrow> k \<le> TERM_COLS \<Longrightarrow> page_ok ((page_set j c p)\<lparr>page_col := k\<rparr>)"
  using page_set_rows [of p TERM_COLS j c] by (auto simp: page_ok_def)

lemma page_type_ok: "page_ok p \<Longrightarrow> page_ok (page_type c p)"
proof -
  assume ok: "page_ok p"
  let ?p = "if page_col p \<ge> TERM_COLS then page_newline p else p"
  have "page_ok ?p" "page_col ?p + 1 \<le> TERM_COLS"
    using ok page_newline_ok by (auto simp: page_newline_def TERM_COLS_def)
  then show ?thesis unfolding page_type_def Let_def by (rule page_set_ok)
qed

lemma page_tab_ok: "page_ok p \<Longrightarrow> page_ok ((page_type (CHR '' '') ^^ n) p)"
  by (induction n) (simp_all add: page_type_ok)

lemma page_putc_ok: "page_ok p \<Longrightarrow> page_ok (page_putc c p)"
proof -
  assume ok: "page_ok p"
  then have "page_col p - 1 \<le> TERM_COLS" "page_ok (p\<lparr>page_col := 0\<rparr>)" by (auto simp: page_ok_def)
  then show ?thesis
    using ok unfolding page_putc_def by (auto intro: page_newline_ok page_set_ok page_type_ok page_tab_ok)
qed

lemma page_puts_ok: "page_ok p \<Longrightarrow> page_ok (page_puts s p)"
  unfolding page_puts_def by (induction s arbitrary: p) (auto intro: page_putc_ok)

lemma empty_page_ok: "page_ok empty_page"
  by (simp add: page_ok_def empty_page_def blank_row_def)

lemma displays_grid:
  assumes "displays t p" and "page_ok p"
  shows "(\<forall>r \<in> set (term_cells t). length r = TERM_COLS) \<and> cur_col t \<le> TERM_COLS"
  using assms by (auto simp: displays_def page_ok_def last_rows_def blank_row_def split: if_splits dest: in_set_dropD)

section \<open>What the terminal does\<close>

text \<open>
  C12. After it was cleared, the terminal shows the last 36 rows of the page that the text written to it
  makes, with line ends, tab stops every eight columns, backspaces that blank, and lines that
  wrap after 96 characters; rows above are gone. The grid keeps its size, and the cursor stays in
  it, at most one past the last column.
\<close>

theorem terminal_shows_end_of_text:
  "displays (gui_term_puts s (term_clear t)) (page_puts s empty_page) \<and>
   length (term_cells (gui_term_puts s (term_clear t))) = TERM_ROWS \<and>
   list_all (\<lambda>r. length r = TERM_COLS) (term_cells (gui_term_puts s (term_clear t))) \<and>
   cur_row (gui_term_puts s (term_clear t)) < TERM_ROWS \<and> cur_col (gui_term_puts s (term_clear t)) \<le> TERM_COLS"
proof -
  have d: "displays (gui_term_puts s (term_clear t)) (page_puts s empty_page)" by (rule puts_displays [OF clear_displays])
  then show ?thesis using displays_room [OF d] displays_grid [OF d page_puts_ok [OF empty_page_ok]] by (simp add: list_all_iff)
qed

text \<open>The number helper writes the console's digits, as far as they fit.\<close>

lemma fmt_u64_dec: "fmt_u64 cap v = take (cap - 1) (dec_string v)"
  by (simp add: fmt_u64_def dec_string_tmp)

lemma fmt_u64_fits: "21 \<le> cap \<Longrightarrow> fmt_u64 cap v = dec_string v"
  using dec_string_length [of v] by (simp add: fmt_u64_dec)

end
