(* ===== verification/Windows.thy ===== *)
theory Windows
  imports Terminal Font "HOL-Library.Signed_Division"
begin

text \<open>
  The window manager of \<^verbatim>\<open>src/kernel/gui.cpp\<close>: eight window slots, the order in which the open
  ones lie on each other, opening, raising and closing, and the buttons of the taskbar. The lemmas
  show that this order always lists exactly the open windows, each once, that no two windows show
  the same application, and that opening an application always brings it to the top.
\<close>

datatype app_type = APP_TERMINAL | APP_FILES | APP_MONITOR | APP_ABOUT | APP_EDITOR | APP_CALCULATOR

record window_t =
  win_used :: bool
  win_x :: i32
  win_y :: i32
  win_w :: i32
  win_h :: i32
  win_type :: app_type
  win_title :: string

text \<open>\<open>z_order\<close> is the used part of the array, bottom window first; its length is \<^verbatim>\<open>z_count\<close>.\<close>

record wm =
  wm_term :: term_state
  windows :: "window_t list"
  z_order :: "nat list"
  g_next_cascade :: i32

definition MAX_WINDOWS :: nat where "MAX_WINDOWS = 8"
definition TITLE_H :: i32 where "TITLE_H = 24"
definition WIN_PAD :: i32 where "WIN_PAD = 8"
definition CLOSE_W :: i32 where "CLOSE_W = 12"
definition CLOSE_H :: i32 where "CLOSE_H = 12"
definition CLOSE_INSET :: i32 where "CLOSE_INSET = 10"
definition TASKBAR_H :: i32 where "TASKBAR_H = 32"
definition TASKBAR_BTN_W :: i32 where "TASKBAR_BTN_W = 140"
definition TASKBAR_BTN_H :: i32 where "TASKBAR_BTN_H = 24"
definition TASKBAR_BTN_GAP :: i32 where "TASKBAR_BTN_GAP = 6"
definition TASKBAR_BTN_LEFT :: i32 where "TASKBAR_BTN_LEFT = 110"

text \<open>Signed division, as the machine has it: towards zero.\<close>

definition idiv :: "i32 \<Rightarrow> i32 \<Rightarrow> i32" where
  "idiv a b = word_of_int (sint a sdiv sint b)"

definition irem :: "i32 \<Rightarrow> i32 \<Rightarrow> i32" where
  "irem a b = word_of_int (sint a smod sint b)"

section \<open>Operations\<close>

definition set_dirty :: "wm \<Rightarrow> wm" where
  "set_dirty g = g\<lparr>wm_term := (wm_term g)\<lparr>term_dirty := True\<rparr>\<rparr>"

definition z_bring_to_top :: "nat \<Rightarrow> nat list \<Rightarrow> nat list" where
  "z_bring_to_top idx zs =
     (case dropWhile (\<lambda>i. i \<noteq> idx) zs of [] \<Rightarrow> zs | _ # ys \<Rightarrow> takeWhile (\<lambda>i. i \<noteq> idx) zs @ ys @ [idx])"

definition z_remove :: "nat \<Rightarrow> nat list \<Rightarrow> nat list" where
  "z_remove idx zs =
     (case dropWhile (\<lambda>i. i \<noteq> idx) zs of [] \<Rightarrow> zs | _ # ys \<Rightarrow> takeWhile (\<lambda>i. i \<noteq> idx) zs @ ys)"

definition find_window_of_type :: "app_type \<Rightarrow> window_t list \<Rightarrow> nat option" where
  "find_window_of_type t ws = find (\<lambda>i. win_used (ws ! i) \<and> win_type (ws ! i) = t) [0..<MAX_WINDOWS]"

definition alloc_window :: "window_t list \<Rightarrow> nat option" where
  "alloc_window ws = find (\<lambda>i. \<not> win_used (ws ! i)) [0..<MAX_WINDOWS]"

fun title_for :: "app_type \<Rightarrow> string" where
  "title_for APP_TERMINAL = ''Terminal''"
| "title_for APP_FILES = ''Files''"
| "title_for APP_MONITOR = ''System Monitor''"
| "title_for APP_ABOUT = ''About ParadoxOS''"
| "title_for APP_EDITOR = ''Editor''"
| "title_for APP_CALCULATOR = ''Calculator''"

fun app_size :: "app_type \<Rightarrow> i32 \<times> i32" where
  "app_size APP_TERMINAL = (of_nat TERM_COLS * FONT_WIDTH + 2 * WIN_PAD, of_nat TERM_ROWS * FONT_HEIGHT + TITLE_H + 2 * WIN_PAD)"
| "app_size APP_FILES = (760, 520)"
| "app_size APP_MONITOR = (540, 380)"
| "app_size APP_ABOUT = (500, 340)"
| "app_size APP_EDITOR = (720, 520)"
| "app_size APP_CALCULATOR = (280, 360)"

text \<open>Size and place of a new window on a screen of \<open>W\<close> by \<open>H\<close> pixels; \<open>k\<close> counts the windows opened so far.\<close>

definition fit_size :: "app_type \<Rightarrow> i32 \<Rightarrow> i32 \<Rightarrow> i32 \<times> i32" where
  "fit_size t W H =
     (case app_size t of (w, h) \<Rightarrow>
        (if sint w > sint (W - 40) then W - 40 else w, if sint h > sint (H - 80) then H - 80 else h))"

definition place_window :: "i32 \<Rightarrow> i32 \<Rightarrow> i32 \<Rightarrow> i32 \<Rightarrow> i32 \<Rightarrow> i32 \<times> i32" where
  "place_window k w h W H =
     (let base_x = 160 + irem k 4 * 26; base_y = 60 + irem k 4 * 26
      in (if sint (base_x + w) > sint (W - 10) then W - w - 10 else base_x,
          if sint (base_y + h) > sint (H - 50) then H - h - 50 else base_y))"

definition open_app :: "fb_info \<Rightarrow> app_type \<Rightarrow> wm \<Rightarrow> wm" where
  "open_app fb t g =
     (case find_window_of_type t (windows g) of
        Some existing \<Rightarrow> set_dirty (g\<lparr>z_order := z_bring_to_top existing (z_order g)\<rparr>)
      | None \<Rightarrow>
          (case alloc_window (windows g) of
             None \<Rightarrow> g
           | Some idx \<Rightarrow>
               (case fit_size t (fb_width fb) (fb_height fb) of (w, h) \<Rightarrow>
                case place_window (g_next_cascade g) w h (fb_width fb) (fb_height fb) of (x, y) \<Rightarrow>
                  set_dirty (g\<lparr>g_next_cascade := g_next_cascade g + 1,
                    windows := (windows g)[idx := \<lparr>win_used = True, win_x = x, win_y = y, win_w = w, win_h = h,
                                                    win_type = t, win_title = title_for t\<rparr>],
                    z_order := z_order g @ [idx]\<rparr>))))"

definition close_window :: "nat \<Rightarrow> wm \<Rightarrow> wm" where
  "close_window idx g =
     (if idx \<ge> MAX_WINDOWS \<or> \<not> win_used (windows g ! idx) then g
      else set_dirty (g\<lparr>windows := (windows g)[idx := (windows g ! idx)\<lparr>win_used := False\<rparr>],
                        z_order := z_remove idx (z_order g)\<rparr>))"

definition raise_window :: "nat \<Rightarrow> wm \<Rightarrow> wm" where
  "raise_window idx g = g\<lparr>z_order := z_bring_to_top idx (z_order g)\<rparr>"

definition taskbar_btn_rect :: "fb_info \<Rightarrow> nat \<Rightarrow> wm \<Rightarrow> (i32 \<times> i32 \<times> i32 \<times> i32) option" where
  "taskbar_btn_rect fb z_idx g =
     (if z_idx \<ge> length (z_order g) then None
      else Some (TASKBAR_BTN_LEFT + of_nat z_idx * (TASKBAR_BTN_W + TASKBAR_BTN_GAP),
                 fb_height fb - TASKBAR_H + idiv (TASKBAR_H - TASKBAR_BTN_H) 2, TASKBAR_BTN_W, TASKBAR_BTN_H))"

definition point_in :: "i32 \<Rightarrow> i32 \<Rightarrow> i32 \<Rightarrow> i32 \<Rightarrow> i32 \<Rightarrow> i32 \<Rightarrow> bool" where
  "point_in px py x y w h \<longleftrightarrow>
     sint px \<ge> sint x \<and> sint px < sint (x + w) \<and> sint py \<ge> sint y \<and> sint py < sint (y + h)"

definition point_in_close_btn :: "window_t \<Rightarrow> i32 \<Rightarrow> i32 \<Rightarrow> bool" where
  "point_in_close_btn w px py =
     point_in px py (win_x w + win_w w - CLOSE_INSET - CLOSE_W) (win_y w + idiv (TITLE_H - CLOSE_H) 2) CLOSE_W CLOSE_H"

definition point_in_titlebar :: "window_t \<Rightarrow> i32 \<Rightarrow> i32 \<Rightarrow> bool" where
  "point_in_titlebar w px py = point_in px py (win_x w) (win_y w) (win_w w) TITLE_H"

definition set_title :: "nat \<Rightarrow> string \<Rightarrow> wm \<Rightarrow> wm" where
  "set_title idx s g = g\<lparr>windows := (windows g)[idx := (windows g ! idx)\<lparr>win_title := s\<rparr>]\<rparr>"

definition move_window :: "nat \<Rightarrow> i32 \<Rightarrow> i32 \<Rightarrow> wm \<Rightarrow> wm" where
  "move_window idx x y g = g\<lparr>windows := (windows g)[idx := (windows g ! idx)\<lparr>win_x := x, win_y := y\<rparr>]\<rparr>"

section \<open>The windows that are open\<close>

definition open_windows :: "wm \<Rightarrow> nat set" where
  "open_windows g = {i. i < MAX_WINDOWS \<and> win_used (windows g ! i)}"

definition wm_ok :: "wm \<Rightarrow> bool" where
  "wm_ok g \<longleftrightarrow> length (windows g) = MAX_WINDOWS \<and> distinct (z_order g) \<and> set (z_order g) = open_windows g \<and>
     inj_on (\<lambda>i. win_type (windows g ! i)) (open_windows g)"

text \<open>The three loops over the order, as list operations: what they find is one split of the list.\<close>

lemma split_at: "k \<notin> set xs \<Longrightarrow> dropWhile (\<lambda>i. i \<noteq> k) (xs @ k # ys) = k # ys" "k \<notin> set xs \<Longrightarrow> takeWhile (\<lambda>i. i \<noteq> k) (xs @ k # ys) = xs"
  by (induction xs) auto

lemma not_found: "k \<notin> set zs \<Longrightarrow> dropWhile (\<lambda>i. i \<noteq> k) zs = []"
  by (induction zs) auto

lemma filter_out: "k \<notin> set zs \<Longrightarrow> List.filter (\<lambda>i. i \<noteq> k) zs = zs"
  by (induction zs) auto

lemma bring_to_top:
  assumes "distinct zs"
  shows "z_bring_to_top k zs = (if k \<in> set zs then List.filter (\<lambda>i. i \<noteq> k) zs @ [k] else zs)"
proof (cases "k \<in> set zs")
  case True
  then obtain xs ys where zs: "zs = xs @ k # ys" by (meson split_list)
  with assms have "k \<notin> set xs" "k \<notin> set ys" by auto
  then show ?thesis by (simp add: zs z_bring_to_top_def split_at filter_out)
qed (simp add: z_bring_to_top_def not_found)

lemma remove_from_order:
  assumes "distinct zs"
  shows "z_remove k zs = List.filter (\<lambda>i. i \<noteq> k) zs"
proof (cases "k \<in> set zs")
  case True
  then obtain xs ys where zs: "zs = xs @ k # ys" by (meson split_list)
  with assms have "k \<notin> set xs" "k \<notin> set ys" by auto
  then show ?thesis by (simp add: zs z_remove_def split_at filter_out)
qed (simp add: z_remove_def not_found filter_out)

lemma bring_to_top_keeps:
  assumes "distinct zs"
  shows "distinct (z_bring_to_top k zs)" and "set (z_bring_to_top k zs) = set zs"
  using assms by (auto simp: bring_to_top)

subsection \<open>Every operation keeps the window table in order\<close>

lemma open_windows_simps [simp]:
  "open_windows (g\<lparr>z_order := z\<rparr>) = open_windows g" "open_windows (set_dirty g) = open_windows g"
  by (auto simp: open_windows_def set_dirty_def)

lemma set_dirty_fields [simp]:
  "windows (set_dirty g) = windows g" "z_order (set_dirty g) = z_order g" "g_next_cascade (set_dirty g) = g_next_cascade g"
  "wm_ok (set_dirty g) \<longleftrightarrow> wm_ok g"
  by (simp_all add: set_dirty_def wm_ok_def open_windows_def)

lemma raise_window_ok: "wm_ok g \<Longrightarrow> wm_ok (raise_window k g)"
  by (simp add: wm_ok_def raise_window_def bring_to_top_keeps)

lemma wm_ok_same_types:
  assumes "wm_ok g" and "windows g' = (windows g)[k := w]" and "z_order g' = z_order g"
    and "win_used w = win_used (windows g ! k)" and "win_type w = win_type (windows g ! k)"
  shows "wm_ok g'"
proof -
  have "win_used (windows g' ! i) = win_used (windows g ! i) \<and> win_type (windows g' ! i) = win_type (windows g ! i)"
    if "i < length (windows g)" for i using assms that by (cases "i = k") auto
  then show ?thesis using assms by (auto simp: wm_ok_def open_windows_def inj_on_def)
qed

lemma set_title_ok: "wm_ok g \<Longrightarrow> wm_ok (set_title k s g)"
  by (erule wm_ok_same_types [where k = k and w = "(windows g ! k)\<lparr>win_title := s\<rparr>"]) (simp_all add: set_title_def)

lemma move_window_ok: "wm_ok g \<Longrightarrow> wm_ok (move_window k x y g)"
  by (erule wm_ok_same_types [where k = k and w = "(windows g ! k)\<lparr>win_x := x, win_y := y\<rparr>"]) (simp_all add: move_window_def)

lemma close_window_open:
  assumes "length (windows g) = MAX_WINDOWS"
  shows "open_windows (close_window k g) = open_windows g - {k}"
  using assms by (auto simp: close_window_def open_windows_def set_dirty_def nth_list_update)

lemma close_window_type:
  "win_type (windows (close_window k g) ! i) = win_type (windows g ! i)"
  by (cases "k < length (windows g)") (auto simp: close_window_def nth_list_update list_update_beyond)

lemma close_window_order:
  assumes "wm_ok g" shows "z_order (close_window k g) = List.filter (\<lambda>i. i \<noteq> k) (z_order g)"
proof (cases "k \<ge> MAX_WINDOWS \<or> \<not> win_used (windows g ! k)")
  case True
  then have "k \<notin> open_windows g" by (auto simp: open_windows_def)
  then have "k \<notin> set (z_order g)" using assms by (simp add: wm_ok_def)
  then show ?thesis using True by (simp add: close_window_def filter_out)
next
  case False
  have "distinct (z_order g)" using assms by (simp add: wm_ok_def)
  with False show ?thesis by (simp add: close_window_def remove_from_order)
qed

lemma close_window_ok:
  assumes "wm_ok g" shows "wm_ok (close_window k g)"
proof -
  have len: "length (windows g) = MAX_WINDOWS" and d: "distinct (z_order g)" and z: "set (z_order g) = open_windows g"
    and inj: "inj_on (\<lambda>i. win_type (windows g ! i)) (open_windows g)" using assms by (simp_all add: wm_ok_def)
  have "length (windows (close_window k g)) = MAX_WINDOWS" using len by (simp add: close_window_def)
  moreover have "inj_on (\<lambda>i. win_type (windows g ! i)) (open_windows g - {k})" using inj by (rule inj_on_subset) simp
  ultimately show ?thesis
    unfolding wm_ok_def close_window_open [OF len] close_window_type close_window_order [OF assms] using d z by auto
qed

lemma find_window_of_type_None: "find_window_of_type t (windows g) = None \<longleftrightarrow> (\<forall>i\<in>open_windows g. win_type (windows g ! i) \<noteq> t)"
  by (auto simp: find_window_of_type_def find_None_iff open_windows_def)

lemma find_window_of_type_Some: "find_window_of_type t (windows g) = Some i \<Longrightarrow> i \<in> open_windows g \<and> win_type (windows g ! i) = t"
  by (auto simp: find_window_of_type_def find_Some_iff open_windows_def)

lemma alloc_window_Some: "alloc_window ws = Some i \<Longrightarrow> i < MAX_WINDOWS \<and> \<not> win_used (ws ! i)"
  by (auto simp: alloc_window_def find_Some_iff)

text \<open>There are six applications and eight slots, so a slot is free whenever one is needed.\<close>

lemma six_apps: "(UNIV :: app_type set) = {APP_TERMINAL, APP_FILES, APP_MONITOR, APP_ABOUT, APP_EDITOR, APP_CALCULATOR}"
  by (auto intro: app_type.exhaust)

lemma slot_is_free:
  assumes "wm_ok g"
  shows "alloc_window (windows g) \<noteq> None"
proof
  assume "alloc_window (windows g) = None"
  then have "open_windows g = {0..<MAX_WINDOWS}" by (auto simp: alloc_window_def find_None_iff open_windows_def)
  then have "card ((\<lambda>i. win_type (windows g ! i)) ` open_windows g) = 8"
    using assms by (simp add: card_image wm_ok_def MAX_WINDOWS_def)
  moreover have "card ((\<lambda>i. win_type (windows g ! i)) ` open_windows g) \<le> card (UNIV :: app_type set)"
    by (rule card_mono [OF _ subset_UNIV]) (simp add: six_apps)
  moreover have "card (UNIV :: app_type set) \<le> 6" by (simp add: six_apps card_insert_if)
  ultimately show False by simp
qed

text \<open>The new window of \<open>open_app\<close>, as one value.\<close>

definition new_window :: "fb_info \<Rightarrow> app_type \<Rightarrow> i32 \<Rightarrow> window_t" where
  "new_window fb t k =
     (case fit_size t (fb_width fb) (fb_height fb) of (w, h) \<Rightarrow>
      case place_window k w h (fb_width fb) (fb_height fb) of (x, y) \<Rightarrow>
        \<lparr>win_used = True, win_x = x, win_y = y, win_w = w, win_h = h, win_type = t, win_title = title_for t\<rparr>)"

lemma new_window_simps [simp]: "win_used (new_window fb t k)" "win_type (new_window fb t k) = t"
  by (simp_all add: new_window_def split: prod.split)

lemma open_app_cases:
  assumes "wm_ok g"
  obtains (raise) i where "i \<in> open_windows g" and "win_type (windows g ! i) = t"
      and "open_app fb t g = set_dirty (raise_window i g)"
  | (new) i where "i < MAX_WINDOWS" and "i \<notin> open_windows g" and "\<forall>j\<in>open_windows g. win_type (windows g ! j) \<noteq> t"
      and "windows (open_app fb t g) = (windows g)[i := new_window fb t (g_next_cascade g)]"
      and "z_order (open_app fb t g) = z_order g @ [i]"
proof (cases "find_window_of_type t (windows g)")
  case (Some i)
  show thesis by (rule raise [of i]) (use find_window_of_type_Some [OF Some] in \<open>simp_all add: open_app_def Some raise_window_def\<close>)
next
  case None
  obtain i where i: "alloc_window (windows g) = Some i" using slot_is_free [OF assms] by blast
  show thesis
  proof (rule new [of i])
    show "i < MAX_WINDOWS" "i \<notin> open_windows g" using alloc_window_Some [OF i] by (simp_all add: open_windows_def)
    show "\<forall>j\<in>open_windows g. win_type (windows g ! j) \<noteq> t" using None by (simp add: find_window_of_type_None)
  qed (simp_all add: open_app_def i None new_window_def split: prod.split)
qed

lemma open_new_ok:
  assumes "wm_ok g" and "i < MAX_WINDOWS" and "i \<notin> open_windows g" and "\<forall>j\<in>open_windows g. win_type (windows g ! j) \<noteq> t"
    and "windows g' = (windows g)[i := w]" and "z_order g' = z_order g @ [i]" and "win_used w" and "win_type w = t"
  shows "wm_ok g'"
proof -
  have len: "length (windows g) = MAX_WINDOWS" and d: "distinct (z_order g)" and z: "set (z_order g) = open_windows g"
    and inj: "inj_on (\<lambda>i. win_type (windows g ! i)) (open_windows g)" using assms(1) by (simp_all add: wm_ok_def)
  have o1: "open_windows g' = insert i (open_windows g)"
    using assms len by (auto simp: open_windows_def nth_list_update)
  have "inj_on (\<lambda>j. win_type (windows g' ! j)) (insert i (open_windows g))"
    using inj assms len by (auto simp: inj_on_def nth_list_update)
  then show ?thesis unfolding wm_ok_def o1 using len d z assms by auto
qed

lemma open_app_ok:
  assumes "wm_ok g" shows "wm_ok (open_app fb t g)"
  using assms
proof (cases rule: open_app_cases [where fb = fb and t = t])
  case (raise i)
  then show ?thesis using assms by (simp add: raise_window_ok)
next
  case (new i)
  show ?thesis by (rule open_new_ok [OF assms new]) simp_all
qed

lemma open_app_on_top:
  assumes "wm_ok g"
  shows "z_order (open_app fb t g) \<noteq> [] \<and> win_type (windows (open_app fb t g) ! last (z_order (open_app fb t g))) = t"
  using assms
proof (cases rule: open_app_cases [where fb = fb and t = t])
  case (raise i)
  then have "i \<in> set (z_order g)" "distinct (z_order g)" using assms by (simp_all add: wm_ok_def)
  then show ?thesis using raise by (simp add: raise_window_def bring_to_top)
next
  case (new i)
  then show ?thesis using assms by (simp add: wm_ok_def)
qed

end
