(* ===== verification/Calculator.thy ===== *)
theory Calculator
  imports Windows
begin

text \<open>
  The desk calculator of \<^verbatim>\<open>src/kernel/gui.cpp\<close>: its display buffer, accumulator and pending
  operator, and what each key does. Arithmetic is on 64-bit words, which wrap as the machine's
  instructions do; a division that the processor refuses is None, since the kernel halts on that exception.
  The lemmas show that a sequence of numbers and operators is evaluated from left to right and that the display shows the result.
\<close>

type_synonym i64 = "64 word"

text \<open>\<open>g_calc_op\<close> is the pending operator, or the NUL character for none.\<close>

record calc =
  g_calc_display :: string
  g_calc_acc :: i64
  g_calc_op :: char
  g_calc_fresh :: bool

record calc_btn =
  cb_x :: i32
  cb_y :: i32
  cb_w :: i32
  cb_h :: i32
  cb_label :: string

definition DISPLAY_CAP :: nat where "DISPLAY_CAP = 24"

definition calc_start :: calc where
  "calc_start = \<lparr>g_calc_display = ''0'', g_calc_acc = 0, g_calc_op = NUL, g_calc_fresh = True\<rparr>"

definition is_digit :: "char \<Rightarrow> bool" where
  "is_digit c \<longleftrightarrow> 48 \<le> (of_char c :: nat) \<and> (of_char c :: nat) \<le> 57"

section \<open>Signed 64-bit numbers\<close>

definition i64_range :: "int \<Rightarrow> bool" where
  "i64_range k \<longleftrightarrow> - (2 ^ 63) \<le> k \<and> k < 2 ^ 63"

lemma sint_i64: "i64_range k \<Longrightarrow> sint (word_of_int k :: i64) = k"
  using signed_take_bit_int_eq_self [of 63 k] by (simp add: i64_range_def sint_sbintrunc')

lemma i64_range_sint [simp]: "i64_range (sint (v :: i64))"
  using sint_less [of v] sint_ge [of v] by (simp add: i64_range_def)

lemma abs_sdiv_10: "\<bar>k sdiv 10\<bar> = \<bar>k\<bar> div (10 :: int)"
  by (cases "k = 0") (simp_all add: signed_divide_int_def abs_mult)

section \<open>Numbers on the display\<close>

text \<open>
  The digits of a number, last one first. For the smallest number, whose negation is itself, the remainders
  are negative and what is written are the characters below the digit zero.
\<close>

function calc_digits :: "i64 \<Rightarrow> string" where
  "calc_digits v =
     (if v = 0 then []
      else char_of (nat (48 + sint v smod 10)) # calc_digits (word_of_int (sint v sdiv 10)))"
  by pat_completeness auto
termination
proof (relation "measure (\<lambda>v. nat \<bar>sint v\<bar>)", simp)
  fix v :: i64
  assume "v \<noteq> 0"
  then have v: "sint v \<noteq> 0" by (simp add: signed_eq_0_iff)
  have "\<bar>sint v sdiv 10\<bar> < \<bar>sint v\<bar>" unfolding abs_sdiv_10 using v by (simp add: int_div_less_self)
  moreover from this have "i64_range (sint v sdiv 10)" using i64_range_sint [of v] by (auto simp: i64_range_def)
  ultimately show "(word_of_int (sint v sdiv 10), v) \<in> measure (\<lambda>v. nat \<bar>sint v\<bar>)"
    by (simp add: sint_i64)
qed

declare calc_digits.simps [simp del]

definition calc_set_display_from_int :: "i64 \<Rightarrow> calc \<Rightarrow> calc" where
  "calc_set_display_from_int v c =
     (let neg = sint v < 0; v1 = (if neg then - v else v);
          tmp = (if v1 = 0 then ''0'' else calc_digits v1);
          sign = (if neg then ''-'' else [])
      in c\<lparr>g_calc_display := sign @ take (DISPLAY_CAP - 1 - length sign) (rev tmp)\<rparr>)"

fun parse_loop :: "i64 \<Rightarrow> string \<Rightarrow> i64" where
  "parse_loop v [] = v"
| "parse_loop v (c # s) = (if is_digit c then parse_loop (v * 10 + of_nat (of_char c - 48)) s else v)"

definition calc_parse_display :: "calc \<Rightarrow> i64" where
  "calc_parse_display c =
     (case g_calc_display c of
        [] \<Rightarrow> 0
      | d # s \<Rightarrow> if d = CHR ''-'' then - parse_loop 0 s else parse_loop 0 (d # s))"

section \<open>Keys\<close>

definition calc_apply :: "char \<Rightarrow> i64 \<Rightarrow> i64 \<Rightarrow> i64 option" where
  "calc_apply f acc b =
     (if f = CHR ''+'' then Some (acc + b)
      else if f = CHR ''-'' then Some (acc - b)
      else if f = CHR ''*'' then Some (acc * b)
      else if f = CHR ''/''
           then (if b = 0 then Some 0
                 else if sint acc = - (2 ^ 63) \<and> sint b = -1 then None
                 else Some (word_of_int (sint acc sdiv sint b)))
      else Some acc)"

definition press_digit :: "char \<Rightarrow> calc \<Rightarrow> calc" where
  "press_digit d c =
     (if g_calc_fresh c then c\<lparr>g_calc_display := [d], g_calc_fresh := False\<rparr>
      else if length (g_calc_display c) + 1 < DISPLAY_CAP - 1
           then (if g_calc_display c = ''0'' then c\<lparr>g_calc_display := [d]\<rparr>
                 else c\<lparr>g_calc_display := g_calc_display c @ [d]\<rparr>)
      else c)"

definition press_operator :: "char \<Rightarrow> calc \<Rightarrow> calc option" where
  "press_operator f c =
     map_option (\<lambda>c1. c1\<lparr>g_calc_op := f, g_calc_fresh := True\<rparr>)
       (if g_calc_op c \<noteq> NUL \<and> \<not> g_calc_fresh c
        then map_option (\<lambda>r. calc_set_display_from_int r (c\<lparr>g_calc_acc := r\<rparr>))
               (calc_apply (g_calc_op c) (g_calc_acc c) (calc_parse_display c))
        else Some (c\<lparr>g_calc_acc := calc_parse_display c\<rparr>))"

definition press_equals :: "calc \<Rightarrow> calc option" where
  "press_equals c =
     (if g_calc_op c = NUL then Some c
      else map_option (\<lambda>r. (calc_set_display_from_int r c)\<lparr>g_calc_acc := r, g_calc_op := NUL, g_calc_fresh := True\<rparr>)
             (calc_apply (g_calc_op c) (g_calc_acc c) (calc_parse_display c)))"

definition calc_press :: "string \<Rightarrow> calc \<Rightarrow> calc option" where
  "calc_press label c =
     (case label of
        [] \<Rightarrow> Some c
      | k # rest \<Rightarrow>
          if is_digit k \<and> rest = [] then Some (press_digit k c)
          else if k \<in> {CHR ''+'', CHR ''-'', CHR ''*'', CHR ''/''} then press_operator k c
          else if k = CHR ''='' then press_equals c
          else if k = CHR ''C'' then Some calc_start
          else Some c)"

definition k_calc_labels :: "string list" where
  "k_calc_labels = [''C'', ''('', '')'', ''/'', ''7'', ''8'', ''9'', ''*'', ''4'', ''5'', ''6'', ''-'', ''1'', ''2'', ''3'', ''+'']"

text \<open>The press of the first button that contains the point; the flag says whether there is one.\<close>

definition calculator_handle_click :: "calc_btn list \<Rightarrow> i32 \<Rightarrow> i32 \<Rightarrow> calc \<Rightarrow> (calc \<times> bool) option" where
  "calculator_handle_click btns px py c =
     (case find (\<lambda>b. point_in px py (cb_x b) (cb_y b) (cb_w b) (cb_h b)) btns of
        Some b \<Rightarrow> map_option (\<lambda>c1. (c1, True)) (calc_press (cb_label b) c)
      | None \<Rightarrow> Some (c, False))"

section \<open>Decimal digits\<close>

text \<open>A number as the display shows it.\<close>

definition show_int :: "int \<Rightarrow> string" where
  "show_int k = (if k < 0 then ''-'' else []) @ dec_string (word_of_int \<bar>k\<bar>)"

lemma uint_of_pos: "0 \<le> sint (v :: i64) \<Longrightarrow> uint v = sint v"
proof -
  assume "0 \<le> sint v"
  then have "take_bit 64 (sint v) = sint v"
    using i64_range_sint [of v] by (intro take_bit_int_eq_self) (simp_all add: i64_range_def)
  moreover have "uint v = take_bit 64 (sint v)" using uint_word_of_int_eq [of "sint v", where ?'a = 64] by simp
  ultimately show ?thesis by simp
qed

lemma sdiv_pos: "0 \<le> a \<Longrightarrow> 0 \<le> b \<Longrightarrow> a sdiv b = a div (b :: int)"
  by (cases "a = 0"; cases "b = 0") (simp_all add: signed_divide_int_def)

lemma calc_digits_tmp: "0 \<le> sint v \<Longrightarrow> calc_digits v = tmp_digits v"
proof (induction v rule: calc_digits.induct)
  case (1 v)
  have u: "uint v = sint v" using 1(2) by (rule uint_of_pos)
  have q: "word_of_int (sint v sdiv 10) = v div 10" using 1(2) by (simp add: word_div_def u sdiv_pos)
  have r: "sint v smod 10 = uint (v mod 10)" using 1(2) by (simp add: u [symmetric] uint_mod smod_mod_positive)
  have "0 \<le> sint (v div 10)"
    unfolding q [symmetric] using 1(2) i64_range_sint [of v]
    by (subst sint_i64) (auto simp: i64_range_def sdiv_pos)
  then have ih: "v \<noteq> 0 \<Longrightarrow> calc_digits (v div 10) = tmp_digits (v div 10)" using 1(1) by (simp add: q)
  have n: "nat (48 + uint (v mod 10)) = 48 + unat (v mod 10)" by (simp add: nat_add_distrib)
  show ?case
  proof (cases "v = 0")
    case False
    have "calc_digits v = char_of (nat (48 + uint (v mod 10))) # calc_digits (v div 10)"
      using False by (simp only: calc_digits.simps [of v] q r if_False)
    moreover have "tmp_digits v = char_of (48 + unat (v mod 10)) # tmp_digits (v div 10)"
      using False by (subst tmp_digits.simps) simp
    ultimately show ?thesis using ih [OF False] by (simp only: n)
  qed (simp add: calc_digits.simps)
qed

lemma display_from_int:
  assumes "\<bar>sint v\<bar> < 2 ^ 63"
  shows "calc_set_display_from_int v c = c\<lparr>g_calc_display := show_int (sint v)\<rparr>"
proof -
  have n: "sint v < 0 \<Longrightarrow> sint (- v) = - sint v"
    using sint_i64 [of "- sint v"] assms by (simp add: i64_range_def)
  define v1 where "v1 = (if sint v < 0 then - v else v)"
  have p: "0 \<le> sint v1" "v1 = word_of_int \<bar>sint v\<bar>" using n by (auto simp: v1_def)
  show ?thesis
    using dec_string_length [of v1, unfolded dec_string_tmp] unfolding calc_set_display_from_int_def show_int_def Let_def v1_def [symmetric] p(2) [symmetric]
    by (auto simp: dec_string_tmp calc_digits_tmp [OF p(1)] DISPLAY_CAP_def)
qed

text \<open>Parsing the digits of a number gives it back.\<close>

lemma parse_loop_digits:
  "\<forall>c\<in>set s. is_digit c \<Longrightarrow> parse_loop v s = v * 10 ^ length s + of_nat (parse_dec s)"
proof (induction s arbitrary: v)
  case (Cons c s)
  then have "parse_loop v (c # s) = (v * 10 + of_nat (of_char c - 48)) * 10 ^ length s + of_nat (parse_dec s)" by simp
  also have "\<dots> = v * 10 ^ length (c # s) + of_nat ((of_char c - 48) * 10 ^ length s + parse_dec s)"
    unfolding of_nat_add of_nat_mult of_nat_power length_Cons power_Suc of_nat_numeral
    by (simp only: distrib_right mult.assoc add.assoc)
  finally show ?case by (simp only: parse_dec_Cons)
qed simp

lemma tmp_digits_are: "\<forall>c\<in>set (tmp_digits v). is_digit c"
proof (induction v rule: tmp_digits.induct)
  case (1 v)
  have "unat (v mod 10) < 10" by (simp add: unat_mod)
  then show ?case using 1 by (subst tmp_digits.simps) (auto simp: is_digit_def)
qed

lemma tmp_digits_last: "v \<noteq> 0 \<Longrightarrow> tmp_digits v \<noteq> [] \<and> last (tmp_digits v) \<noteq> CHR ''0''"
proof (induction v rule: tmp_digits.induct)
  case (1 v)
  show ?case
  proof (cases "v div 10 = 0")
    case True
    then have d: "tmp_digits v = [char_of (48 + unat (v mod 10))]" using 1(2) by (subst tmp_digits.simps) simp
    have m: "unat (v mod 10) < 10" "unat v div 10 = 0" using True unat_div [of v 10] by (simp_all add: unat_mod)
    have "unat (v mod 10) = unat v mod 10" by (simp add: unat_mod)
    moreover have "unat v \<noteq> 0" using 1(2) by (simp add: unat_eq_0)
    ultimately have "of_char (char_of (48 + unat (v mod 10)) :: char) \<noteq> (of_char (CHR ''0'') :: nat)" using m by simp
    then have "char_of (48 + unat (v mod 10)) \<noteq> CHR ''0''" by metis
    then show ?thesis unfolding d by simp
  next
    case False
    then show ?thesis using 1 by (subst (1 2) tmp_digits.simps) simp
  qed
qed

lemma dec_string_digits:
  "\<forall>c\<in>set (dec_string v). is_digit c" "dec_string v \<noteq> []" "v \<noteq> 0 \<Longrightarrow> hd (dec_string v) \<noteq> CHR ''0''"
  using tmp_digits_are [of v] tmp_digits_last [of v] by (auto simp: dec_string_tmp is_digit_def hd_rev)

lemma parse_display:
  assumes "g_calc_display c = dec_string v"
  shows "calc_parse_display c = v"
proof -
  obtain d s where s: "dec_string v = d # s" using dec_string_digits(2) [of v] by (cases "dec_string v") auto
  have "is_digit d" using dec_string_digits(1) [of v] by (simp add: s)
  then have "d \<noteq> CHR ''-''" by (auto simp: is_digit_def)
  then have "calc_parse_display c = parse_loop 0 (dec_string v)" using assms by (simp add: calc_parse_display_def s)
  also have "\<dots> = of_nat (unat v)" by (simp add: parse_loop_digits [OF dec_string_digits(1)] dec_string_value)
  finally show ?thesis by simp
qed

section \<open>Typing numbers\<close>

definition press_all :: "string \<Rightarrow> calc \<Rightarrow> calc option" where
  "press_all ks c = fold (\<lambda>k r. Option.bind r (calc_press [k])) ks (Some c)"

lemma press_all_simps [simp]:
  "press_all [] c = Some c"
  "press_all (xs @ ys) c = Option.bind (press_all xs c) (press_all ys)"
proof -
  have n: "fold (\<lambda>k r. Option.bind r (calc_press [k])) ks None = None" for ks by (induction ks) simp_all
  show "press_all [] c = Some c" by (simp add: press_all_def)
  show "press_all (xs @ ys) c = Option.bind (press_all xs c) (press_all ys)"
    by (cases "press_all xs c") (simp_all add: press_all_def n)
qed

lemma press_all_Cons: "press_all (k # ks) c = Option.bind (calc_press [k] c) (press_all ks)"
  using press_all_simps(2) [of "[k]" ks c] by (simp add: press_all_def)

lemma type_more_digits:
  assumes "\<forall>d\<in>set ds. is_digit d" and "length (g_calc_display c) + length ds \<le> 22"
    and "g_calc_display c \<noteq> ''0''" and "g_calc_display c \<noteq> []" and "\<not> g_calc_fresh c"
  shows "press_all ds c = Some (c\<lparr>g_calc_display := g_calc_display c @ ds\<rparr>)"
  using assms
proof (induction ds arbitrary: c)
  case (Cons d ds)
  have "calc_press [d] c = Some (c\<lparr>g_calc_display := g_calc_display c @ [d]\<rparr>)"
    using Cons.prems by (simp add: calc_press_def press_digit_def DISPLAY_CAP_def)
  moreover have "g_calc_display c @ [d] \<noteq> ''0''" using Cons.prems by (cases "g_calc_display c") auto
  ultimately show ?case using Cons by (simp add: press_all_Cons)
qed simp

text \<open>A number typed where one is expected replaces the display.\<close>

lemma type_number:
  assumes "g_calc_fresh c"
  shows "press_all (dec_string v) c = Some (c\<lparr>g_calc_display := dec_string v, g_calc_fresh := False\<rparr>)"
proof (cases "v = 0")
  case True
  then show ?thesis
    using assms by (simp add: dec_string_def press_all_Cons calc_press_def press_digit_def is_digit_def)
next
  case False
  obtain d s where s: "dec_string v = d # s" using dec_string_digits(2) [of v] by (cases "dec_string v") auto
  have d: "is_digit d" "\<forall>x\<in>set s. is_digit x" "d \<noteq> CHR ''0''" "length s \<le> 19"
    using dec_string_digits [of v] dec_string_length [of v] False by (simp_all add: s)
  let ?c = "c\<lparr>g_calc_display := [d], g_calc_fresh := False\<rparr>"
  have "calc_press [d] c = Some ?c" using d assms by (simp add: calc_press_def press_digit_def)
  moreover have "press_all s ?c = Some (?c\<lparr>g_calc_display := g_calc_display ?c @ s\<rparr>)"
    by (rule type_more_digits) (use d in auto)
  ultimately show ?thesis by (simp add: s press_all_Cons)
qed

section \<open>Evaluation from left to right\<close>

definition operators :: "char set" where
  "operators = {CHR ''+'', CHR ''-'', CHR ''*'', CHR ''/''}"

definition apply_int :: "char \<Rightarrow> int \<Rightarrow> int \<Rightarrow> int" where
  "apply_int f a b =
     (if f = CHR ''+'' then a + b else if f = CHR ''-'' then a - b else if f = CHR ''*'' then a * b
      else if b = 0 then 0 else a sdiv b)"

definition value_of :: "nat \<Rightarrow> (char \<times> nat) list \<Rightarrow> int" where
  "value_of a fbs = foldl (\<lambda>r (f, b). apply_int f r (int b)) (int a) fbs"

definition keys_of :: "nat \<Rightarrow> (char \<times> nat) list \<Rightarrow> string" where
  "keys_of a fbs = dec_string (of_nat a) @ concat (map (\<lambda>(f, b). f # dec_string (of_nat b)) fbs)"

lemma calc_apply_int:
  assumes "f \<in> operators" and "0 \<le> sint b" and "\<bar>apply_int f (sint acc) (sint b)\<bar> < 2 ^ 63"
  shows "\<exists>r. calc_apply f acc b = Some r \<and> sint r = apply_int f (sint acc) (sint b)"
proof -
  have w: "sint (word_of_int (apply_int f (sint acc) (sint b)) :: i64) = apply_int f (sint acc) (sint b)"
    using assms(3) by (intro sint_i64) (auto simp: i64_range_def abs_less_iff)
  have "calc_apply f acc b = Some (word_of_int (apply_int f (sint acc) (sint b)))"
    using assms(1,2) by (auto simp: operators_def calc_apply_def apply_int_def signed_eq_0_iff)
  then show ?thesis using w by blast
qed

lemma nul_not_operator [simp]: "f \<in> operators \<Longrightarrow> f \<noteq> NUL"
  by (auto simp: operators_def NUL_def)

text \<open>The state after a number was typed: pressing an operator or the equals key now would give \<open>r\<close>.\<close>

definition awaits :: "int \<Rightarrow> calc \<Rightarrow> bool" where
  "awaits r c \<longleftrightarrow> \<not> g_calc_fresh c \<and> \<bar>r\<bar> < 2 ^ 63 \<and>
     (\<exists>b. g_calc_display c = dec_string b \<and> 0 \<le> sint b \<and>
        (if g_calc_op c = NUL then r = sint b
         else g_calc_op c \<in> operators \<and> r = apply_int (g_calc_op c) (sint (g_calc_acc c)) (sint b)))"

lemma sint_number: "b < 2 ^ 63 \<Longrightarrow> sint (of_nat b :: i64) = int b"
  using sint_i64 [of "int b"] by (simp add: i64_range_def)

lemma awaits_first: "a < 2 ^ 63 \<Longrightarrow> press_all (dec_string (of_nat a)) calc_start = Some c \<Longrightarrow> awaits (int a) c"
  by (auto simp: type_number calc_start_def awaits_def sint_number)

lemma awaits_operator:
  assumes "awaits r c" and "f \<in> operators"
  shows "\<exists>c1. calc_press [f] c = Some c1 \<and> g_calc_fresh c1 \<and> g_calc_op c1 = f \<and> sint (g_calc_acc c1) = r"
proof -
  obtain b where b: "g_calc_display c = dec_string b" "0 \<le> sint b" "\<not> g_calc_fresh c" "\<bar>r\<bar> < 2 ^ 63"
      "if g_calc_op c = NUL then r = sint b
       else g_calc_op c \<in> operators \<and> r = apply_int (g_calc_op c) (sint (g_calc_acc c)) (sint b)"
    using assms(1) by (auto simp: awaits_def)
  have p: "calc_parse_display c = b" by (rule parse_display [OF b(1)])
  have k: "calc_press [f] c = press_operator f c"
    using assms(2) by (auto simp: calc_press_def operators_def is_digit_def)
  show ?thesis
  proof (cases "g_calc_op c = NUL")
    case True
    then show ?thesis using b p by (simp add: k press_operator_def)
  next
    case False
    then obtain x where x: "calc_apply (g_calc_op c) (g_calc_acc c) b = Some x" "sint x = r"
      using calc_apply_int [of "g_calc_op c" b "g_calc_acc c"] b by auto
    then show ?thesis using False b p by (simp add: k press_operator_def display_from_int)
  qed
qed

lemma awaits_equals:
  assumes "awaits r c"
  shows "\<exists>c1. calc_press ''='' c = Some c1 \<and> g_calc_display c1 = show_int r"
proof -
  obtain b where b: "g_calc_display c = dec_string b" "0 \<le> sint b" "\<not> g_calc_fresh c" "\<bar>r\<bar> < 2 ^ 63"
      "if g_calc_op c = NUL then r = sint b
       else g_calc_op c \<in> operators \<and> r = apply_int (g_calc_op c) (sint (g_calc_acc c)) (sint b)"
    using assms(1) by (auto simp: awaits_def)
  have p: "calc_parse_display c = b" by (rule parse_display [OF b(1)])
  have k: "calc_press ''='' c = press_equals c" by (simp add: calc_press_def is_digit_def)
  show ?thesis
  proof (cases "g_calc_op c = NUL")
    case True
    then show ?thesis using b p by (simp add: k press_equals_def show_int_def)
  next
    case False
    then obtain x where x: "calc_apply (g_calc_op c) (g_calc_acc c) b = Some x" "sint x = r"
      using calc_apply_int [of "g_calc_op c" b "g_calc_acc c"] b by auto
    then show ?thesis using False b p by (simp add: k press_equals_def display_from_int)
  qed
qed

lemma awaits_number:
  assumes "awaits r c" and "f \<in> operators" and "b < 2 ^ 63" and "\<bar>apply_int f r (int b)\<bar> < 2 ^ 63"
  shows "\<exists>c1. press_all (f # dec_string (of_nat b)) c = Some c1 \<and> awaits (apply_int f r (int b)) c1"
proof -
  obtain c1 where c1: "calc_press [f] c = Some c1" "g_calc_fresh c1" "g_calc_op c1 = f" "sint (g_calc_acc c1) = r"
    using awaits_operator [OF assms(1,2)] by blast
  show ?thesis
    using assms(2-4) c1 by (auto simp: press_all_Cons type_number awaits_def sint_number)
qed

definition fits_i64 :: "nat \<Rightarrow> (char \<times> nat) list \<Rightarrow> bool" where
  "fits_i64 a fbs \<longleftrightarrow> a < 2 ^ 63 \<and> (\<forall>(f, b)\<in>set fbs. f \<in> operators \<and> b < 2 ^ 63) \<and>
     (\<forall>n\<le>length fbs. \<bar>value_of a (take n fbs)\<bar> < 2 ^ 63)"

lemma keys_awaits:
  assumes "fits_i64 a fbs"
  shows "\<exists>c. press_all (keys_of a fbs) calc_start = Some c \<and> awaits (value_of a fbs) c"
  using assms
proof (induction fbs rule: rev_induct)
  case Nil
  then show ?case
    using awaits_first [of a] by (auto simp: keys_of_def value_of_def fits_i64_def type_number calc_start_def)
next
  case (snoc fb fbs)
  obtain f b where fb: "fb = (f, b)" by fastforce
  have fit: "\<bar>value_of a (take n (fbs @ [fb]))\<bar> < 2 ^ 63" if "n \<le> length (fbs @ [fb])" for n
    using snoc.prems that unfolding fits_i64_def by blast
  have "\<bar>value_of a (take n fbs)\<bar> < 2 ^ 63" if "n \<le> length fbs" for n using fit [of n] that by simp
  then have "fits_i64 a fbs" using snoc.prems unfolding fits_i64_def by simp
  then obtain c where c: "press_all (keys_of a fbs) calc_start = Some c" "awaits (value_of a fbs) c"
    using snoc.IH by blast
  have v: "value_of a (fbs @ [fb]) = apply_int f (value_of a fbs) (int b)" by (simp add: value_of_def fb)
  have "\<bar>apply_int f (value_of a fbs) (int b)\<bar> < 2 ^ 63" using fit [of "length (fbs @ [fb])"] by (simp add: v)
  moreover have "f \<in> operators" "b < 2 ^ 63" using snoc.prems by (auto simp: fits_i64_def fb)
  ultimately obtain c1 where "press_all (f # dec_string (of_nat b)) c = Some c1" "awaits (value_of a (fbs @ [fb])) c1"
    using awaits_number [OF c(2)] by (metis v)
  moreover have "keys_of a (fbs @ [fb]) = keys_of a fbs @ f # dec_string (of_nat b)" by (simp add: keys_of_def fb)
  ultimately show ?case using c(1) by simp
qed

text \<open>
  C20. The calculator evaluates from left to right: after the clear key, a number, any sequence of
  operators and numbers, and the equals key, the display shows the value that applying the operators one after
  the other to the integers gives, division being towards zero and division by zero giving zero. This holds whatever
  the calculator was doing before, as long as the numbers and every intermediate value fit in 63 bits and a sign,
  and it includes that no key stops the kernel.
\<close>

theorem calculator_evaluates_left_to_right:
  assumes "fits_i64 a fbs"
  shows "\<exists>c1. press_all (''C'' @ keys_of a fbs @ ''='') c = Some c1 \<and> g_calc_display c1 = show_int (value_of a fbs)"
proof -
  obtain c0 where c0: "press_all (keys_of a fbs) calc_start = Some c0" "awaits (value_of a fbs) c0"
    using keys_awaits [OF assms] by blast
  have "calc_press ''C'' c = Some calc_start" by (simp add: calc_press_def is_digit_def)
  then show ?thesis using c0 awaits_equals [OF c0(2)] by (auto simp: press_all_Cons)
qed

lemma calculator_evaluates_left_to_right_witness:
  "\<exists>c1. press_all (''C'' @ keys_of 7 [(CHR ''-'', 12), (CHR ''*'', 3), (CHR ''/'', 2)] @ ''='') calc_start = Some c1 \<and>
     g_calc_display c1 = show_int (- 7)"
proof -
  have "fits_i64 7 [(CHR ''-'', 12), (CHR ''*'', 3), (CHR ''/'', 2)]"
    by (auto simp: fits_i64_def operators_def value_of_def apply_int_def take_Cons split: nat.splits)
  then show ?thesis
    using calculator_evaluates_left_to_right [of 7 "[(CHR ''-'', 12), (CHR ''*'', 3), (CHR ''/'', 2)]" calc_start]
    by (simp add: value_of_def apply_int_def)
qed

text \<open>
  There is an input the calculator does not survive: the smallest 64-bit number, which can be typed
  since parsing wraps around, divided by minus one, typed as the largest unsigned number, is the division that the processor refuses.
\<close>

theorem calculator_division_overflow:
  "press_all (''C'' @ keys_of (2 ^ 63) [(CHR ''/'', 2 ^ 64 - 1)] @ ''='') c = None"
proof -
  have n: "of_nat (2 ^ 64 - 1) = (-1 :: i64)" "of_nat (2 ^ 63) = (word_of_int (- (2 ^ 63)) :: i64)" by simp_all
  have s: "sint (word_of_int (- (2 ^ 63)) :: i64) = - (2 ^ 63)" by (rule sint_i64) (simp add: i64_range_def)
  define x where "x = (word_of_int (- (2 ^ 63)) :: i64)"
  let ?c1 = "calc_start\<lparr>g_calc_display := dec_string x, g_calc_fresh := False\<rparr>"
  let ?c2 = "?c1\<lparr>g_calc_acc := x, g_calc_op := CHR ''/'', g_calc_fresh := True\<rparr>"
  let ?c3 = "?c2\<lparr>g_calc_display := dec_string (-1), g_calc_fresh := False\<rparr>"
  have "calc_press ''C'' c = Some calc_start" by (simp add: calc_press_def is_digit_def)
  moreover have "press_all (dec_string x) calc_start = Some ?c1" by (rule type_number) (simp add: calc_start_def)
  moreover have "calc_press ''/'' ?c1 = Some ?c2"
    using parse_display [of ?c1 x] by (simp add: calc_press_def is_digit_def press_operator_def calc_start_def NUL_def)
  moreover have "press_all (dec_string (-1)) ?c2 = Some ?c3" by (simp add: type_number)
  moreover have "calc_press ''='' ?c3 = None"
    using parse_display [of ?c3 "-1"] s by (simp add: calc_press_def is_digit_def press_equals_def calc_apply_def NUL_def x_def)
  moreover have "keys_of (2 ^ 63) [(CHR ''/'', 2 ^ 64 - 1)] = dec_string x @ CHR ''/'' # dec_string (-1)"
    unfolding keys_of_def by (simp only: n x_def list.map prod.case concat.simps append_Nil2)
  ultimately show ?thesis by (simp only: press_all_simps press_all_Cons append_Cons append_Nil bind.bind_lunit bind.bind_lzero)
qed

end
