(* ===== verification/Desktop.thy ===== *)
theory Desktop
  imports Calculator Mouse Pci Ata
begin

text \<open>
  What the desktop of \<^verbatim>\<open>src/kernel/gui.cpp\<close> draws: the wallpaper, the stars, the taskbar with the clock, the icons,
  the frames of windows, the cursor, and the windows of the terminal, the calculator, the monitor and the About box.
  Each function gives the list of framebuffer calls it makes, for the tick count and the state it reads.
\<close>

section \<open>Colours\<close>

definition C_DESKTOP :: u32 where "C_DESKTOP = FB_RGB 0x07 0x04 0x1c"
definition C_TASKBAR :: u32 where "C_TASKBAR = FB_RGB 0x06 0x09 0x14"
definition C_TASKBAR_HI :: u32 where "C_TASKBAR_HI = FB_RGB 0x4a 0x90 0xe2"
definition C_WIN_BORDER :: u32 where "C_WIN_BORDER = FB_RGB 0x3a 0x4a 0x6a"
definition C_WIN_TITLE :: u32 where "C_WIN_TITLE = FB_RGB 0x1f 0x2a 0x44"
definition C_WIN_TITLE_F :: u32 where "C_WIN_TITLE_F = FB_RGB 0x2c 0x44 0x70"
definition C_WIN_BG :: u32 where "C_WIN_BG = FB_RGB 0x0d 0x12 0x1f"
definition C_TEXT :: u32 where "C_TEXT = FB_RGB 0xff 0xff 0xff"
definition C_TEXT_DIM :: u32 where "C_TEXT_DIM = FB_RGB 0x9f 0xae 0xc4"
definition C_TERM_FG :: u32 where "C_TERM_FG = FB_RGB 0xc8 0xd6 0xea"
definition C_TERM_PROMPT :: u32 where "C_TERM_PROMPT = FB_RGB 0x6a 0xd2 0x9a"
definition C_ICON_LABEL :: u32 where "C_ICON_LABEL = FB_RGB 0xe8 0xee 0xfa"
definition C_ICON_HOVER :: u32 where "C_ICON_HOVER = FB_RGB 0x4a 0x90 0xe2"
definition C_BAR_FILL :: u32 where "C_BAR_FILL = FB_RGB 0x4a 0xc8 0x90"
definition C_BAR_USED :: u32 where "C_BAR_USED = FB_RGB 0xe2 0x66 0x66"
definition C_TERM_BODY :: u32 where "C_TERM_BODY = FB_RGB 0x1a 0x22 0x36"
definition C_TERM_BORDER :: u32 where "C_TERM_BORDER = FB_RGB 0x55 0xaa 0x88"
definition C_FILES_BODY :: u32 where "C_FILES_BODY = FB_RGB 0xe6 0xc8 0x6a"
definition C_FILES_TAB :: u32 where "C_FILES_TAB = FB_RGB 0xc7 0xa1 0x40"
definition C_ABOUT_BODY :: u32 where "C_ABOUT_BODY = FB_RGB 0x4a 0x90 0xe2"
definition C_ABOUT_HI :: u32 where "C_ABOUT_HI = FB_RGB 0xff 0xff 0xff"
definition C_MONITOR_BODY :: u32 where "C_MONITOR_BODY = FB_RGB 0x6a 0xd2 0x9a"
definition C_MONITOR_HI :: u32 where "C_MONITOR_HI = FB_RGB 0x10 0x30 0x20"
definition C_CURSOR_KEY :: u32 where "C_CURSOR_KEY = FB_RGB 0xff 0x00 0xff"

definition CURSOR_W :: nat where "CURSOR_W = 12"
definition CURSOR_H :: nat where "CURSOR_H = 19"

definition cursor_pixels :: "string list" where
  "cursor_pixels =
    [''Bkkkkkkkkkkk'', ''BBkkkkkkkkkk'', ''BWBkkkkkkkkk'', ''BWWBkkkkkkkk'',
     ''BWWWBkkkkkkk'', ''BWWWWBkkkkkk'', ''BWWWWWBkkkkk'', ''BWWWWWWBkkkk'',
     ''BWWWWWWWBkkk'', ''BWWWWWWWWBkk'', ''BWWWWWWWWWBk'', ''BWWWWWBBBBBB'',
     ''BWWBWWBkkkkk'', ''BWBkBWWBkkkk'', ''BBkkBWWBkkkk'', ''Bkkkk BWWBkk'',
     ''kkkkk BWWBkk'', ''kkkkkk BWWBk'', ''kkkkkk BBBBk'']"

text \<open>The cursor image as \<^verbatim>\<open>cursor_compile\<close> writes it to \<^verbatim>\<open>cursor_buf\<close>, at the address \<open>buf\<close>.\<close>

definition cursor_px :: "char \<Rightarrow> u32" where
  "cursor_px c =
     (if c = CHR ''B'' then FB_RGB 0x00 0x00 0x00 else if c = CHR ''W'' then FB_RGB 0xff 0xff 0xff else C_CURSOR_KEY)"

definition cursor_compile :: "u64 \<Rightarrow> mem \<Rightarrow> mem" where
  "cursor_compile buf m =
     fold (\<lambda>y. fold (\<lambda>x m. write32 m (buf + 4 * of_nat (y * CURSOR_W + x)) (cursor_px (cursor_pixels ! y ! x))) [0..<CURSOR_W])
       [0..<CURSOR_H] m"

record icon =
  icon_x :: i32
  icon_y :: i32
  icon_label :: string
  icon_app :: app_type

definition ICON_W :: i32 where "ICON_W = 80"
definition ICON_H :: i32 where "ICON_H = 80"
definition ICON_LABEL_GAP :: i32 where "ICON_LABEL_GAP = 4"

definition icons :: "icon list" where
  "icons =
     [\<lparr>icon_x = 30, icon_y = 40, icon_label = ''Terminal'', icon_app = APP_TERMINAL\<rparr>,
      \<lparr>icon_x = 30, icon_y = 150, icon_label = ''Files'', icon_app = APP_FILES\<rparr>,
      \<lparr>icon_x = 30, icon_y = 260, icon_label = ''Monitor'', icon_app = APP_MONITOR\<rparr>,
      \<lparr>icon_x = 30, icon_y = 370, icon_label = ''Calculator'', icon_app = APP_CALCULATOR\<rparr>,
      \<lparr>icon_x = 30, icon_y = 480, icon_label = ''About'', icon_app = APP_ABOUT\<rparr>]"

definition kstrlen :: "string \<Rightarrow> u32" where
  "kstrlen s = of_nat (length s)"

section \<open>Small helpers\<close>

text \<open>Text in one colour on what is there already, and the integers a loop over \<^verbatim>\<open>int32_t\<close> runs through.\<close>

definition draw_text :: "i32 \<Rightarrow> i32 \<Rightarrow> string \<Rightarrow> u32 \<Rightarrow> draw_op list" where
  "draw_text x y s fg = snd (font_draw_string x y s fg 0 False)"

definition rows_between :: "i32 \<Rightarrow> i32 \<Rightarrow> i32 list" where
  "rows_between a b = map word_of_int [sint a..sint b - 1]"

definition byte_of :: "i32 \<Rightarrow> u32" where
  "byte_of v = v AND 0xFF"

definition lerp_rgb :: "u32 \<Rightarrow> u32 \<Rightarrow> i32 \<Rightarrow> i32 \<Rightarrow> u32" where
  "lerp_rgb a b t most =
     (if sint most \<le> 0 then a
      else let t1 = (if sint t < 0 then 0 else t);
               t2 = (if sint t1 > sint most then most else t1);
               mix = (\<lambda>p q. p + idiv ((q - p) * t2) most)
           in FB_RGB (byte_of (mix (drop_bit 16 a AND 0xFF) (drop_bit 16 b AND 0xFF)))
                     (byte_of (mix (drop_bit 8 a AND 0xFF) (drop_bit 8 b AND 0xFF)))
                     (byte_of (mix (a AND 0xFF) (b AND 0xFF))))"

definition draw_star :: "fb_info \<Rightarrow> u64 \<Rightarrow> i32 \<Rightarrow> nat \<Rightarrow> draw_op list" where
  "draw_star fb t max_y i =
     (let px = 0xC0DEF00D XOR (of_nat i * 0x9E3779B9) :: u32;
          py = 0xDEADBEEF XOR (of_nat i * 0x85EBCA6B) :: u32;
          speed = 1 + px mod 4;
          x = (px XOR ucast (drop_bit 4 (t * ucast speed))) mod fb_width fb;
          y = py mod max_y;
          bri = 90 + ucast (px mod 160) :: u8;
          grey = (\<lambda>v :: u8. FB_RGB (ucast v) (ucast v) (ucast v))
      in Put x y (FB_RGB (ucast bri) (ucast bri) (ucast (bri OR 40))) #
         (if bri > 210 then [Put (x - 1) y (grey (bri div 2)), Put (x - 2) y (grey (bri div 4))] else []))"

definition draw_stars_above :: "fb_info \<Rightarrow> u64 \<Rightarrow> i32 \<Rightarrow> draw_op list" where
  "draw_stars_above fb t max_y = concat (map (draw_star fb t max_y) [0..<90])"

text \<open>
  The integer square root by counting up. The loop is on integers: the products stay within 32 bits for every argument
  below 46340 squared, and the desktop asks for roots of at most 16900.
\<close>

function isqrt_loop :: "int \<Rightarrow> int \<Rightarrow> int" where
  "isqrt_loop v r = (if (r + 1) * (r + 1) \<le> v then isqrt_loop v (r + 1) else r)"
  by pat_completeness auto
termination
proof (relation "measure (\<lambda>(v, r). nat (v - r))", simp)
  fix v r :: int
  assume a: "(r + 1) * (r + 1) \<le> v"
  have "r < (r + 1) * (r + 1)"
  proof (cases "r + 1 > 0")
    case True
    then have "r + 1 \<le> (r + 1) * (r + 1)" by (simp add: mult_le_cancel_left1)
    then show ?thesis by simp
  qed (smt (verit) zero_le_square)
  with a show "((v, r + 1), (v, r)) \<in> measure (\<lambda>(v, r). nat (v - r))" by simp
qed

declare isqrt_loop.simps [simp del]

definition isqrt32 :: "i32 \<Rightarrow> i32" where
  "isqrt32 v = (if sint v \<le> 0 then 0 else word_of_int (isqrt_loop (sint v) 0))"

section \<open>The wallpaper\<close>

definition draw_sky :: "i32 \<Rightarrow> i32 \<Rightarrow> draw_op list" where
  "draw_sky W horizon_y =
     (let mid_y = idiv horizon_y 2; sky_top = FB_RGB 0x07 0x04 0x1c; sky_mid = FB_RGB 0x36 0x0e 0x56; sky_horizon = FB_RGB 0xe0 0x46 0x9a
      in map (\<lambda>y. Fill 0 y W 1 (if sint y < sint mid_y then lerp_rgb sky_top sky_mid y mid_y
                                else lerp_rgb sky_mid sky_horizon (y - mid_y) (horizon_y - mid_y)))
           (rows_between 0 horizon_y))"

definition draw_sun :: "i32 \<Rightarrow> i32 \<Rightarrow> draw_op list" where
  "draw_sun sun_cx sun_cy =
     (let sun_r = 130; sun_top = FB_RGB 0xff 0xe0 0x6a; sun_bot = FB_RGB 0xff 0x46 0x9a
      in concat (map (\<lambda>y.
           let dy = sun_cy - y; hw = isqrt32 (sun_r * sun_r - dy * dy); band_idx = idiv (sun_r - dy) 10
           in if sint dy < sint (idiv (sun_r * 2) 3) \<and> band_idx AND 1 = 0 then []
              else [Fill (sun_cx - hw) y (hw * 2) 1 (lerp_rgb sun_top sun_bot (sun_r - dy) sun_r)])
           (rows_between (sun_cy - sun_r) sun_cy)))"

text \<open>
  The distances of the horizontal grid lines from the horizon, up to \<open>room\<close>: the step grows by two. The loop is on integers, which
  stay below the height of the screen.
\<close>

function grid_offsets :: "int \<Rightarrow> int \<Rightarrow> nat \<Rightarrow> int list" where
  "grid_offsets room y_off step = (if y_off < room then y_off # grid_offsets room (y_off + int step) (step + 2) else [])"
  by pat_completeness auto
termination by (relation "measures [\<lambda>(room, y, s). nat (room - y), \<lambda>(room, y, s). if s = 0 then 1 else 0]") auto

declare grid_offsets.simps [simp del]

definition draw_ground :: "i32 \<Rightarrow> i32 \<Rightarrow> i32 \<Rightarrow> i32 \<Rightarrow> draw_op list" where
  "draw_ground W sun_cx horizon_y taskbar_top =
     (let ground_near = FB_RGB 0x06 0x02 0x16; ground_far = FB_RGB 0x22 0x06 0x36;
          grid_near = FB_RGB 0xff 0x4a 0xc8; grid_far = FB_RGB 0x40 0x08 0x44;
          ground_h = taskbar_top - horizon_y;
          ink = (\<lambda>y. lerp_rgb grid_far grid_near (idiv ((y - horizon_y) * 255) ground_h) 255)
      in map (\<lambda>y. Fill 0 y W 1 (lerp_rgb ground_far ground_near (y - horizon_y) ground_h)) (rows_between (horizon_y + 1) taskbar_top) @
         map (\<lambda>y_off. let y = horizon_y + word_of_int y_off in Fill 0 y W 1 (ink y))
           (grid_offsets (sint taskbar_top - sint horizon_y) 4 4) @
         concat (map (\<lambda>i.
           let x_bottom = word_of_int (int i * sint W sdiv 18)
           in map (\<lambda>y. Put (sun_cx + idiv ((x_bottom - sun_cx) * (y - horizon_y)) ground_h) y (ink y))
                (rows_between (horizon_y + 1) taskbar_top)) [0..<19]))"

definition draw_task_button :: "fb_info \<Rightarrow> wm \<Rightarrow> nat \<Rightarrow> draw_op list" where
  "draw_task_button fb g i =
     (case taskbar_btn_rect fb i g of
        None \<Rightarrow> []
      | Some (bx, h_y, bw, bh) \<Rightarrow>
          let idx = z_order g ! i
          in [Fill bx h_y bw bh (if idx = last (z_order g) then C_WIN_TITLE_F else C_WIN_TITLE),
              Outline bx h_y bw bh C_WIN_BORDER] @
             font_draw_n (bx + 6) (h_y + idiv (bh - FONT_HEIGHT) 2) (win_title (windows g ! idx))
               (unat (idiv (bw - 12) FONT_WIDTH)) C_TEXT 0 False)"

text \<open>Hours, minutes and seconds since the start.\<close>

definition clock_text :: "u64 \<Rightarrow> string" where
  "clock_text ticks =
     (let s = ticks div 100; hh = ucast (s div 3600) :: u32; mm = ucast (s div 60 mod 60) :: u32; ss = ucast (s mod 60) :: u32;
          two = (\<lambda>v line. cat_u64 32 (ucast v) (line @ '':'' @ (if v < 10 then ''0'' else [])))
      in two ss (two mm (cat_u64 32 (ucast hh) [])))"

definition draw_taskbar :: "fb_info \<Rightarrow> u64 \<Rightarrow> wm \<Rightarrow> draw_op list" where
  "draw_taskbar fb ticks g =
     (let bar_h = TASKBAR_H; y = fb_height fb - bar_h; label_y = y + idiv (bar_h - FONT_HEIGHT) 2; clock = clock_text ticks
      in [Fill 0 y (fb_width fb) bar_h C_TASKBAR, Fill 0 y (fb_width fb) 1 C_TASKBAR_HI] @
         draw_text 10 label_y ''ParadoxOS'' C_TASKBAR_HI @
         concat (map (draw_task_button fb g) [0..<length (z_order g)]) @
         draw_text (fb_width fb - of_nat (length clock) * FONT_WIDTH - 12) label_y clock C_TEXT_DIM)"

definition draw_desktop_bg :: "fb_info \<Rightarrow> u64 \<Rightarrow> wm \<Rightarrow> draw_op list" where
  "draw_desktop_bg fb ticks g =
     (let W = fb_width fb; H = fb_height fb; taskbar_top = H - TASKBAR_H; horizon_y = idiv (H * 58) 100; sun_cx = idiv W 2
      in draw_sky W horizon_y @ draw_stars_above fb ticks (idiv (horizon_y * 7) 10) @ draw_sun sun_cx horizon_y @
         [Fill 0 (horizon_y - 1) W 1 (FB_RGB 0xff 0xb0 0xd8), Fill 0 horizon_y W 1 (FB_RGB 0xff 0x60 0xb0)] @
         draw_ground W sun_cx horizon_y taskbar_top @ draw_taskbar fb ticks g)"

section \<open>Icons, frames and the cursor\<close>

definition icon_hovered :: "icon \<Rightarrow> i32 \<Rightarrow> i32 \<Rightarrow> bool" where
  "icon_hovered ic mx my = point_in mx my (icon_x ic) (icon_y ic) ICON_W ICON_H"

fun icon_art :: "app_type \<Rightarrow> u64 \<Rightarrow> i32 \<Rightarrow> i32 \<Rightarrow> draw_op list" where
  "icon_art APP_TERMINAL t x y =
     [Fill x y ICON_W ICON_H C_TERM_BODY, Outline x y ICON_W ICON_H C_TERM_BORDER] @
     font_draw_string_scaled (x + idiv (ICON_W - 32) 2) (y + idiv (ICON_H - 32) 2) ''>_'' C_TERM_PROMPT 2"
| "icon_art APP_FILES t x y =
     [Fill x (y + 12) ICON_W (ICON_H - 12) C_FILES_BODY, Fill x (y + 6) 36 12 C_FILES_BODY,
      Outline x (y + 6) ICON_W (ICON_H - 6) C_FILES_TAB] @
     map (\<lambda>i. Fill (x + 16) (y + 30 + of_nat i * 12) (ICON_W - 32) 4 C_FILES_TAB) [0..<3]"
| "icon_art APP_MONITOR t x y =
     [Fill x y ICON_W ICON_H (FB_RGB 0x0a 0x18 0x12), Outline x y ICON_W ICON_H C_MONITOR_BODY] @
     (let bw = idiv (ICON_W - 16) 14
      in map (\<lambda>i. let r = ucast ((of_nat (i * 37) + t) XOR 0xA5A5) :: u32; bh = 6 + r mod 50
                  in Fill (x + 8 + of_nat i * bw) (y + ICON_H - 10 - bh) (bw - 1) bh C_MONITOR_BODY) [0..<14])"
| "icon_art APP_ABOUT t x y =
     [Fill x y ICON_W ICON_H C_ABOUT_BODY, Outline x y ICON_W ICON_H C_ABOUT_HI] @
     font_draw_string_scaled (x + idiv (ICON_W - 16) 2) (y + idiv (ICON_H - 32) 2) ''i'' C_ABOUT_HI 2"
| "icon_art APP_EDITOR t x y = []"
| "icon_art APP_CALCULATOR t x y =
     [Fill x y ICON_W ICON_H (FB_RGB 0x55 0x77 0x88), Outline x y ICON_W ICON_H (FB_RGB 0xff 0xff 0xff),
      Fill (x + 8) (y + 8) (ICON_W - 16) 16 (FB_RGB 0x05 0x10 0x18)] @
     concat (map (\<lambda>r. map (\<lambda>c. Fill (x + 10 + of_nat c * 21) (y + 30 + of_nat r * 15) 16 10 (FB_RGB 0x33 0x55 0x66)) [0..<3]) [0..<3]) @
     font_draw_string_scaled (x + idiv (ICON_W - 16) 2) (y + idiv (ICON_H - 32) 2 + 6) ''+'' C_TEXT 2"

definition draw_icon :: "icon \<Rightarrow> u64 \<Rightarrow> bool \<Rightarrow> draw_op list" where
  "draw_icon ic t hover =
     (let x = icon_x ic; y = icon_y ic; lw = kstrlen (icon_label ic) * FONT_WIDTH
      in [Fill (x + 3) (y + 3) ICON_W ICON_H (FB_RGB 0 0 0)] @ icon_art (icon_app ic) t x y @
         (if hover then [Outline (x - 2) (y - 2) (ICON_W + 4) (ICON_H + 4) C_ICON_HOVER,
                         Outline (x - 3) (y - 3) (ICON_W + 6) (ICON_H + 6) C_ICON_HOVER] else []) @
         draw_text (x + idiv (ICON_W - lw) 2) (y + ICON_H + ICON_LABEL_GAP) (icon_label ic)
           (if hover then C_ICON_HOVER else C_ICON_LABEL))"

definition draw_icons :: "u64 \<Rightarrow> mouse_state \<Rightarrow> draw_op list" where
  "draw_icons t m = concat (map (\<lambda>ic. draw_icon ic t (icon_hovered ic (mouse_x m) (mouse_y m))) icons)"

definition draw_window_chrome :: "window_t \<Rightarrow> bool \<Rightarrow> draw_op list" where
  "draw_window_chrome w focused =
     (let x = win_x w; y = win_y w; ww = win_w w; h = win_h w;
          cx = x + ww - CLOSE_INSET - CLOSE_W; cy = y + idiv (TITLE_H - CLOSE_H) 2
      in concat (map (\<lambda>i. [Fill (x + of_nat i) (y + h + of_nat i - 1) ww 1 (FB_RGB 0 0 0),
                           Fill (x + ww + of_nat i - 1) (y + of_nat i) 1 h (FB_RGB 0 0 0)]) [1..<5]) @
         [Fill x y ww TITLE_H (if focused then C_WIN_TITLE_F else C_WIN_TITLE),
          Fill x (y + TITLE_H) ww (h - TITLE_H) C_WIN_BG, Outline x y ww h C_WIN_BORDER,
          Fill x (y + TITLE_H) ww 1 C_WIN_BORDER] @
         draw_text (x + 10) (y + idiv (TITLE_H - FONT_HEIGHT) 2) (win_title w) C_TEXT @
         [Fill cx cy CLOSE_W CLOSE_H (FB_RGB 0xe6 0x60 0x60), Outline cx cy CLOSE_W CLOSE_H (FB_RGB 0x60 0x10 0x10)])"

definition draw_cursor :: "u64 \<Rightarrow> mouse_state \<Rightarrow> draw_op list" where
  "draw_cursor buf m = [Blit buf (of_nat CURSOR_W) (mouse_x m) (mouse_y m) (of_nat CURSOR_W) (of_nat CURSOR_H) C_CURSOR_KEY]"

section \<open>Windows of the terminal, the monitor and the About box\<close>

definition body_x :: "window_t \<Rightarrow> i32" where "body_x w = win_x w + WIN_PAD"
definition body_y :: "window_t \<Rightarrow> i32" where "body_y w = win_y w + TITLE_H + WIN_PAD"
definition body_w :: "window_t \<Rightarrow> i32" where "body_w w = win_w w - 2 * WIN_PAD"
definition body_h :: "window_t \<Rightarrow> i32" where "body_h w = win_h w - TITLE_H - 2 * WIN_PAD"

definition draw_terminal_in :: "window_t \<Rightarrow> u64 \<Rightarrow> term_state \<Rightarrow> draw_op list" where
  "draw_terminal_in w ticks t =
     (let bx = body_x w; h_y = body_y w;
          cols0 = idiv (body_w w) FONT_WIDTH; cols = (if sint cols0 > int TERM_COLS then of_nat TERM_COLS else cols0);
          rows0 = idiv (body_h w) FONT_HEIGHT; rows = (if sint rows0 > int TERM_ROWS then of_nat TERM_ROWS else rows0);
          cx = bx + of_nat (cur_col t) * FONT_WIDTH; cy = h_y + of_nat (cur_row t) * FONT_HEIGHT
      in concat (map (\<lambda>r. font_draw_n bx (h_y + of_nat r * FONT_HEIGHT) (term_cells t ! r) (unat cols) C_TERM_FG 0 False)
           [0..<nat (sint rows)]) @
         (if int (cur_row t) < sint rows \<and> int (cur_col t) < sint cols \<and> ticks div 50 AND 1 = 0
          then [Fill cx (cy + FONT_HEIGHT - 2) FONT_WIDTH 2 C_TERM_PROMPT] else []))"

text \<open>Lines of text one under the other, each with the distance to the next.\<close>

fun draw_lines :: "i32 \<Rightarrow> i32 \<Rightarrow> (string \<times> u32 \<times> i32) list \<Rightarrow> draw_op list" where
  "draw_lines x y [] = []"
| "draw_lines x y ((s, colour, step) # ls) = draw_text x y s colour @ draw_lines x (y + step) ls"

definition about_display :: "fb_info \<Rightarrow> string" where
  "about_display fb =
     cat 64 (cat_u64 64 (ucast (fb_height fb)) (cat 64 (cat_u64 64 (ucast (fb_width fb)) (cat 64 [] ''Display      : '')) ''x''))
       '' 32-bpp linear FB''"

definition draw_about_in :: "fb_info \<Rightarrow> window_t \<Rightarrow> draw_op list" where
  "draw_about_in fb w =
     font_draw_string_scaled (body_x w) (body_y w) ''ParadoxOS'' C_ABOUT_HI 2 @
     draw_lines (body_x w) (body_y w + 36)
       [(''graphical kernel - tracks A-C'', C_TEXT_DIM, 24),
        (''Architecture : x86_64 long mode'', C_TEXT, 18),
        (''Bootloader   : Multiboot2 (GRUB)'', C_TEXT, 18),
        (about_display fb, C_TEXT, 18),
        (''Input        : PS/2 keyboard + mouse'', C_TEXT, 18),
        (''Memory mgmt  : PMM + paging + heap'', C_TEXT, 18),
        (''Storage      : ATA PIO + diskfs (disk-backed /home)'', C_TEXT, 18),
        (''User mode    : ring 3 + ELF64 loader'', C_TEXT, 18),
        (''Scheduler    : round-robin (kernel)'', C_TEXT, 28),
        (''Built with intent. No fake features.'', C_TERM_PROMPT, 0)]"

definition monitor_uptime :: "u64 \<Rightarrow> string" where
  "monitor_uptime ticks =
     (let s = ticks div 100;
          l1 = cat 96 (cat_u64 96 (s div 3600) (cat 96 [] ''Uptime    : '')) ''h '';
          l2 = cat 96 (cat_u64 96 (s div 60 mod 60) l1) ''m '';
          l3 = cat 96 (cat_u64 96 (s mod 60) l2) ''s   ticks=''
      in cat_u64 96 ticks l3)"

definition mib :: "u64 \<Rightarrow> u64" where
  "mib v = v div (1024 * 1024)"

definition monitor_memory :: "pmm \<Rightarrow> string" where
  "monitor_memory p =
     (let l1 = cat 96 (cat_u64 96 (mib (pmm_get_used_memory p)) (cat 96 [] ''Memory    : '')) '' MiB used / '';
          l2 = cat 96 (cat_u64 96 (mib (pmm_get_managed_memory p)) l1) '' MiB total (''
      in cat 96 (cat_u64 96 (mib (pmm_get_free_memory p)) l2) '' free)'')"

definition monitor_disk :: "ata_device \<Rightarrow> string" where
  "monitor_disk d =
     (let l = cat 96 [] ''Disk      : ''
      in if present d
         then cat 96 (cat_u64 96 (sectors d div 2048) (cat 96 (cat 96 l (model d)) '' (''))  '' MiB)''
         else cat 96 l ''absent'')"

text \<open>The width of the used part of the memory bar.\<close>

definition memory_fill :: "i32 \<Rightarrow> pmm \<Rightarrow> i32" where
  "memory_fill bar_w p =
     (if mib (pmm_get_managed_memory p) > 0
      then ucast (scast bar_w * mib (pmm_get_used_memory p) div mib (pmm_get_managed_memory p)) else 0)"

definition draw_monitor_in :: "window_t \<Rightarrow> u64 \<Rightarrow> pmm \<Rightarrow> u32 \<Rightarrow> ata_device \<Rightarrow> draw_op list" where
  "draw_monitor_in w ticks p pci_devices d =
     (let bx = body_x w; bw = body_w w; row_h = FONT_HEIGHT; bar_w = bw - 16; bar_h = 16; fill_w = memory_fill bar_w p;
          y0 = body_y w; y1 = y0 + row_h + 8; y2 = y1 + row_h + 4; y3 = y2 + bar_h + 12; y4 = y3 + row_h; y5 = y4 + row_h + 8;
          y6 = y5 + row_h + 8;
          pulse_w = bw - 16; pulse_pos = ucast (ticks mod 100 * scast (pulse_w - 30) div 100) :: i32
      in draw_text bx y0 (monitor_uptime ticks) C_TEXT @ draw_text bx y1 (monitor_memory p) C_TEXT @
         [Outline bx y2 bar_w bar_h C_WIN_BORDER, Fill (bx + 1) (y2 + 1) fill_w (bar_h - 2) C_BAR_USED,
          Fill (bx + 1 + fill_w) (y2 + 1) (bar_w - 2 - fill_w) (bar_h - 2) C_BAR_FILL] @
         draw_text bx y3 (cat_u64 96 (ucast pci_devices) (cat 96 [] ''PCI devs  : '')) C_TEXT @
         draw_text bx y4 (monitor_disk d) C_TEXT @
         [Fill bx (y5 + 6) pulse_w 2 C_WIN_BORDER, Fill (bx + pulse_pos) (y5 + 4) 30 6 C_TASKBAR_HI] @
         draw_text bx y5 (cat 96 [] ''Heartbeat : '') C_TEXT_DIM @
         draw_text bx y6 ''(updates every tick; close to free CPU)'' C_TEXT_DIM)"

section \<open>The window of the calculator\<close>

definition CALC_PAD :: i32 where "CALC_PAD = 4"
definition CALC_CELL_H :: i32 where "CALC_CELL_H = 44"

definition calc_cell_w :: "window_t \<Rightarrow> i32" where
  "calc_cell_w w = idiv (body_w w - CALC_PAD * 3) 4"

text \<open>The buttons, in the order they are drawn and searched: four rows of four, and the zero and equals keys below.\<close>

definition calc_buttons :: "window_t \<Rightarrow> calc_btn list" where
  "calc_buttons w =
     (let bx = body_x w; grid_y = body_y w + 40 + 24; cw = calc_cell_w w; wide = cw * 2 + CALC_PAD;
          row_y = grid_y + 4 * (CALC_CELL_H + CALC_PAD)
      in map (\<lambda>k. \<lparr>cb_x = bx + of_nat (k mod 4) * (cw + CALC_PAD), cb_y = grid_y + of_nat (k div 4) * (CALC_CELL_H + CALC_PAD),
                    cb_w = cw, cb_h = CALC_CELL_H, cb_label = k_calc_labels ! k\<rparr>) [0..<16] @
         [\<lparr>cb_x = bx, cb_y = row_y, cb_w = wide, cb_h = CALC_CELL_H, cb_label = ''0''\<rparr>,
          \<lparr>cb_x = bx + cw * 2 + CALC_PAD * 2, cb_y = row_y, cb_w = wide, cb_h = CALC_CELL_H, cb_label = ''=''\<rparr>])"

definition calc_btn_colours :: "string \<Rightarrow> u32 \<times> u32" where
  "calc_btn_colours label =
     (if label = ''='' then (FB_RGB 0x6a 0xd2 0x9a, FB_RGB 0x10 0x30 0x20)
      else if is_digit (hd label) then (FB_RGB 0x2a 0x34 0x4a, C_TEXT) else (FB_RGB 0x3a 0x6a 0x9a, C_TEXT))"

definition draw_calc_btn :: "calc_btn \<Rightarrow> draw_op list" where
  "draw_calc_btn b =
     (case calc_btn_colours (cb_label b) of (bg, fg) \<Rightarrow>
        [Fill (cb_x b) (cb_y b) (cb_w b) (cb_h b) bg, Outline (cb_x b) (cb_y b) (cb_w b) (cb_h b) C_WIN_BORDER] @
        font_draw_string_scaled (cb_x b + idiv (cb_w b - FONT_WIDTH * 2) 2) (cb_y b + idiv (cb_h b - FONT_HEIGHT * 2) 2)
          (cb_label b) fg 2)"

definition draw_calculator_in :: "window_t \<Rightarrow> calc \<Rightarrow> draw_op list" where
  "draw_calculator_in w c =
     (let bx = body_x w; h_y = body_y w; bw = body_w w; disp_h = 40;
          dx = bx + bw - 8 - kstrlen (g_calc_display c) * FONT_WIDTH * 2; dy = h_y + idiv (disp_h - FONT_HEIGHT * 2) 2
      in [Fill bx h_y bw disp_h (FB_RGB 0x05 0x10 0x18), Outline bx h_y bw disp_h C_WIN_BORDER] @
         font_draw_string_scaled dx dy (g_calc_display c) C_TERM_PROMPT 2 @
         draw_text (bx + 4) (h_y + disp_h + 4) (''op: '' @ [if g_calc_op c \<noteq> NUL then g_calc_op c else CHR ''-'']) C_TEXT_DIM @
         concat (map draw_calc_btn (calc_buttons w)))"

section \<open>The splash screen\<close>

definition splash_frame :: "fb_info \<Rightarrow> draw_op list" where
  "splash_frame fb =
     (let logo = ''PARADOX OS''; scale = 6; total_w = kstrlen logo * FONT_WIDTH * scale;
          lx = idiv (fb_width fb - total_w) 2; ly = idiv (fb_height fb) 2 - 80;
          sub = ''graphical kernel - tracks A-C''; sub_w = kstrlen sub * FONT_WIDTH;
          sx = idiv (fb_width fb - sub_w) 2; sy = ly + FONT_HEIGHT * scale + 24
      in Clear C_DESKTOP # font_draw_string_scaled lx ly logo C_TASKBAR_HI scale @ draw_text sx sy sub C_TEXT_DIM @
         [Outline (idiv (fb_width fb - 480) 2) (sy + 60) 480 8 C_WIN_BORDER])"

definition splash_bar :: "fb_info \<Rightarrow> u64 \<Rightarrow> draw_op list" where
  "splash_bar fb dt =
     (let d = (if dt > 200 then 200 else dt); ly = idiv (fb_height fb) 2 - 80; by0 = ly + FONT_HEIGHT * 6 + 24 + 60
      in [Fill (idiv (fb_width fb - 480) 2 + 1) (by0 + 1) (ucast (scast (480 - 2 :: i32) * d div 200)) (8 - 2) C_TASKBAR_HI])"

text \<open>
  The loop of the splash: \<open>ticks\<close> are the tick counts it reads, one for each frame, and the timer's interrupt advances them
  between frames. None says that they run out before the 200 ticks are over.
\<close>

fun splash_loop :: "fb_info \<Rightarrow> u64 \<Rightarrow> u64 list \<Rightarrow> mem \<Rightarrow> mem option" where
  "splash_loop fb start [] m = None"
| "splash_loop fb start (now # ticks) m =
     (let m1 = fb_present fb (paint fb (splash_bar fb (now - start)) m)
      in if now - start < 200 then splash_loop fb start ticks m1 else Some m1)"

definition gui_run_splash :: "fb_info \<Rightarrow> u64 \<Rightarrow> u64 list \<Rightarrow> mem \<Rightarrow> mem option" where
  "gui_run_splash fb start ticks m = splash_loop fb start ticks (paint fb (splash_frame fb) m)"

section \<open>The button under the pointer\<close>

lemma sint_i32: "- (2 ^ 31) \<le> k \<Longrightarrow> k < 2 ^ 31 \<Longrightarrow> sint (word_of_int k :: i32) = k"
  using signed_take_bit_int_eq_self [of 31 k] by (simp add: sint_sbintrunc')

text \<open>A window somewhere near the screen, wide enough for four columns of buttons.\<close>

definition near_screen :: "window_t \<Rightarrow> bool" where
  "near_screen w \<longleftrightarrow> \<bar>sint (win_x w)\<bar> \<le> 2 ^ 20 \<and> \<bar>sint (win_y w)\<bar> \<le> 2 ^ 20 \<and> 32 \<le> sint (win_w w) \<and> sint (win_w w) \<le> 2 ^ 20"

text \<open>A rectangle in integers: which points it holds.\<close>

definition in_box :: "int \<Rightarrow> int \<Rightarrow> int \<Rightarrow> int \<Rightarrow> i32 \<Rightarrow> i32 \<Rightarrow> bool" where
  "in_box x y w h px py \<longleftrightarrow> x \<le> sint px \<and> sint px < x + w \<and> y \<le> sint py \<and> sint py < y + h"

lemma point_in_rect:
  assumes "\<bar>x\<bar> \<le> 2 ^ 28" and "\<bar>y\<bar> \<le> 2 ^ 28" and "\<bar>w\<bar> \<le> 2 ^ 28" and "\<bar>h\<bar> \<le> 2 ^ 28"
  shows "point_in px py (word_of_int x) (word_of_int y) (word_of_int w) (word_of_int h) = in_box x y w h px py"
proof -
  have "sint (word_of_int x + word_of_int w :: i32) = x + w" "sint (word_of_int y + word_of_int h :: i32) = y + h"
    unfolding of_int_add [symmetric] using assms by (intro sint_i32; simp)+
  moreover have "sint (word_of_int x :: i32) = x" "sint (word_of_int y :: i32) = y" using assms by (intro sint_i32; simp)+
  ultimately show ?thesis by (simp add: point_in_def in_box_def)
qed

text \<open>Column, row and width in cells of button \<open>k\<close>.\<close>

definition btn_col :: "nat \<Rightarrow> int" where "btn_col k = (if k < 16 then int (k mod 4) else if k = 16 then 0 else 2)"
definition btn_row :: "nat \<Rightarrow> int" where "btn_row k = int (k div 4)"
definition btn_span :: "nat \<Rightarrow> int" where "btn_span k = (if k < 16 then 1 else 2)"

definition cell_width :: "window_t \<Rightarrow> int" where
  "cell_width w = (sint (win_w w) - 28) div 4"

lemma calc_buttons_at:
  assumes "near_screen w" and "k < 18"
  defines "X \<equiv> sint (win_x w) + 8" and "Y \<equiv> sint (win_y w) + 96" and "K \<equiv> cell_width w"
  shows "cb_x (calc_buttons w ! k) = word_of_int (X + btn_col k * (K + 4)) \<and> cb_y (calc_buttons w ! k) = word_of_int (Y + btn_row k * 48) \<and>
    cb_w (calc_buttons w ! k) = word_of_int (btn_span k * (K + 4) - 4) \<and> cb_h (calc_buttons w ! k) = word_of_int 44"
proof -
  have w: "32 \<le> sint (win_w w)" "sint (win_w w) \<le> 2 ^ 20" using assms(1) by (simp_all add: near_screen_def)
  have "sint (body_w w - CALC_PAD * 3) = sint (win_w w) - 28"
  proof -
    have "body_w w - CALC_PAD * 3 = word_of_int (sint (win_w w) - 28)"
      by (simp add: body_w_def CALC_PAD_def WIN_PAD_def)
    then show ?thesis using w by (simp only:) (intro sint_i32; simp)
  qed
  then have cw: "calc_cell_w w = word_of_int K"
    using w sdiv_pos [of "sint (win_w w) - 28" 4] by (simp add: calc_cell_w_def idiv_def K_def cell_width_def)
  have X: "body_x w = word_of_int X" "body_y w + 64 = word_of_int Y"
    by (simp_all add: body_x_def body_y_def X_def Y_def WIN_PAD_def TITLE_H_def)
  consider "k < 16" | "k = 16" | "k = 17" using assms(2) by linarith
  then show ?thesis
  proof cases
    case 1
    have "of_nat (k mod 4) = (word_of_int (int (k mod 4)) :: i32)" "of_nat (k div 4) = (word_of_int (int (k div 4)) :: i32)"
      by simp_all
    then show ?thesis using 1
      by (simp add: calc_buttons_def Let_def nth_append X cw btn_col_def btn_row_def btn_span_def CALC_PAD_def CALC_CELL_H_def algebra_simps)
  next
    case 2
    then show ?thesis
      by (simp add: calc_buttons_def Let_def nth_append X cw btn_col_def btn_row_def btn_span_def CALC_PAD_def CALC_CELL_H_def algebra_simps)
  next
    case 3
    then show ?thesis
      by (simp add: calc_buttons_def Let_def nth_append X cw btn_col_def btn_row_def btn_span_def CALC_PAD_def CALC_CELL_H_def algebra_simps)
  qed
qed

text \<open>No two buttons hold the same point.\<close>

lemma cells_apart:
  fixes a b s p u :: int
  assumes "a * u \<le> p" and "p < a * u + s * u - 4" and "b * u \<le> p" and "0 \<le> u"
  shows "b < a + s"
proof (rule ccontr)
  assume "\<not> b < a + s"
  then have "(a + s) * u \<le> b * u" using assms(4) by (intro mult_right_mono) simp_all
  then show False using assms by (simp add: distrib_right)
qed

lemma btn_cells_unique:
  assumes "k < 18" and "l < 18" and "btn_row k = btn_row l" and "btn_col k < btn_col l + btn_span l" and "btn_col l < btn_col k + btn_span k"
  shows "k = l"
proof -
  have q: "k div 4 = l div 4" using assms(3) by (simp add: btn_row_def)
  show ?thesis
  proof (cases "k < 16")
    case True
    then have "l < 16" using q div_less_iff_less_mult [of 4 k 4] div_less_iff_less_mult [of 4 l 4] by simp
    then have "k mod 4 = l mod 4" using True assms(4,5) by (simp add: btn_col_def btn_span_def)
    then show ?thesis using q by (metis div_mult_mod_eq)
  next
    case False
    then have "\<not> l < 16" using q div_less_iff_less_mult [of 4 k 4] div_less_iff_less_mult [of 4 l 4] by simp
    with False have "k = 16 \<or> k = 17" "l = 16 \<or> l = 17" using assms(1,2) by auto
    then show ?thesis using assms(4,5) by (auto simp: btn_col_def btn_span_def)
  qed
qed

lemma in_button:
  assumes "near_screen w" and "k < 18"
  defines "b \<equiv> calc_buttons w ! k"
  shows "point_in px py (cb_x b) (cb_y b) (cb_w b) (cb_h b) =
    in_box (sint (win_x w) + 8 + btn_col k * (cell_width w + 4)) (sint (win_y w) + 96 + btn_row k * 48)
      (btn_span k * (cell_width w + 4) - 4) 44 px py"
proof -
  have n: "\<bar>sint (win_x w)\<bar> \<le> 2 ^ 20" "\<bar>sint (win_y w)\<bar> \<le> 2 ^ 20" "0 \<le> cell_width w" "cell_width w \<le> 2 ^ 20"
    using assms(1) by (auto simp: near_screen_def cell_width_def)
  have c: "0 \<le> btn_col k" "btn_col k \<le> 3" "0 \<le> btn_row k" "btn_row k \<le> 4" "1 \<le> btn_span k" "btn_span k \<le> 2"
    using assms(2) by (auto simp: btn_col_def btn_row_def btn_span_def)
  have p: "0 \<le> a * (cell_width w + 4)" "a * (cell_width w + 4) \<le> 3 * (2 ^ 20 + 4)" if "0 \<le> a" "a \<le> 3" for a :: int
    using that n mult_mono [of a 3 "cell_width w + 4" "2 ^ 20 + 4"] by simp_all
  have s: "0 \<le> btn_span k" "btn_span k \<le> 3" using c by simp_all
  have "\<bar>sint (win_x w) + 8 + btn_col k * (cell_width w + 4)\<bar> \<le> 2 ^ 28" using p [OF c(1,2)] n(1) by (auto simp: abs_le_iff)
  moreover have "\<bar>sint (win_y w) + 96 + btn_row k * 48\<bar> \<le> 2 ^ 28" using n(2) c by (auto simp: abs_le_iff)
  moreover have "\<bar>btn_span k * (cell_width w + 4) - 4\<bar> \<le> 2 ^ 28" using p [OF s] by (auto simp: abs_le_iff)
  ultimately show ?thesis
    unfolding b_def using calc_buttons_at [OF assms(1,2)] by (simp only:) (rule point_in_rect; simp)
qed

lemma one_button_holds:
  assumes "near_screen w" and "k < 18" and "l < 18"
    and "point_in px py (cb_x (calc_buttons w ! k)) (cb_y (calc_buttons w ! k)) (cb_w (calc_buttons w ! k)) (cb_h (calc_buttons w ! k))"
    and "point_in px py (cb_x (calc_buttons w ! l)) (cb_y (calc_buttons w ! l)) (cb_w (calc_buttons w ! l)) (cb_h (calc_buttons w ! l))"
  shows "k = l"
proof -
  define u where "u = cell_width w + 4"
  define p where "p = sint px - sint (win_x w) - 8"
  define q where "q = sint py - sint (win_y w) - 96"
  have u: "0 \<le> u" using assms(1) by (auto simp: u_def near_screen_def cell_width_def)
  have k: "btn_col k * u \<le> p" "p < btn_col k * u + btn_span k * u - 4" "btn_row k * 48 \<le> q" "q < btn_row k * 48 + 44"
    using assms(4) unfolding in_button [OF assms(1,2)] by (auto simp: in_box_def u_def p_def q_def)
  have l: "btn_col l * u \<le> p" "p < btn_col l * u + btn_span l * u - 4" "btn_row l * 48 \<le> q" "q < btn_row l * 48 + 44"
    using assms(5) unfolding in_button [OF assms(1,3)] by (auto simp: in_box_def u_def p_def q_def)
  show ?thesis
  proof (rule btn_cells_unique [OF assms(2,3)])
    show "btn_row k = btn_row l" using k(3,4) l(3,4) by linarith
    show "btn_col k < btn_col l + btn_span l" by (rule cells_apart [OF l(1,2) k(1) u])
    show "btn_col l < btn_col k + btn_span k" by (rule cells_apart [OF k(1,2) l(1) u])
  qed
qed

lemma length_calc_buttons [simp]: "length (calc_buttons w) = 18"
  by (simp add: calc_buttons_def Let_def)


definition calc_window_demo :: window_t where
  "calc_window_demo = \<lparr>win_used = True, win_x = 300, win_y = 200, win_w = 280, win_h = 360, win_type = APP_CALCULATOR,
     win_title = title_for APP_CALCULATOR\<rparr>"


end
