(* ===== verification/Screen.thy ===== *)
theory Screen
  imports Canvas
begin

text \<open>
  The copy of the back buffer to the hardware frame, \<^verbatim>\<open>fb_present\<close> of \<^verbatim>\<open>src/kernel/framebuffer.cpp\<close>. The
  hardware frame is seen as a buffer of its own, as wide as the pitch, and the copy is a list of single pixels.
\<close>

definition scanout :: "fb_info \<Rightarrow> fb_info" where
  "scanout fb = fb\<lparr>fb_back := fb_hw fb, fb_w := pitch_px fb\<rparr>"

text \<open>Both buffers are usable, a line of the hardware frame holds a line of pixels, and they lie apart.\<close>

definition frame_ok :: "fb_info \<Rightarrow> bool" where
  "frame_ok fb \<longleftrightarrow> fb_ok fb \<and> fb_ok (scanout fb) \<and> unat (fb_w fb) \<le> unat (pitch_px fb) \<and>
     (\<forall>a. in_run a (fb_back fb) (4 * pixels fb) \<longrightarrow> \<not> in_run a (fb_hw fb) (4 * pixels (scanout fb)))"

definition copy_pixel :: "fb_info \<Rightarrow> nat \<times> nat \<Rightarrow> mem \<Rightarrow> mem" where
  "copy_pixel fb p m = (case p of (i, j) \<Rightarrow> set_pixel (scanout fb) i (pixel fb m j) m)"

definition frame_pixels :: "fb_info \<Rightarrow> (nat \<times> nat) list" where
  "frame_pixels fb = map (\<lambda>(y, x). (y * unat (pitch_px fb) + x, y * unat (fb_w fb) + x))
     (List.product [0..<unat (fb_h fb)] [0..<unat (fb_w fb)])"

lemma fold_product: "fold (\<lambda>y. fold (\<lambda>x. f (y, x)) xs) ys s = fold f (List.product ys xs) s"
  by (induction ys arbitrary: s) (simp_all add: fold_map o_def)

lemma outside_pixel:
  assumes "fb_ok fb" and "j < pixels fb" and "\<And>a. in_run a (fb_back fb) (4 * pixels fb) \<Longrightarrow> m' a = m a"
  shows "pixel fb m' j = pixel fb m j"
proof -
  have "m' (fb_back fb + 4 * of_nat j + of_nat k) = m (fb_back fb + 4 * of_nat j + of_nat k)" if "k < 4" for k
  proof (rule assms(3))
    have "in_run (fb_back fb + of_nat (4 * j + k)) (fb_back fb) (4 * pixels fb)"
      by (rule in_run_nth) (use that assms(2) pixels_bound [OF assms(1)] in simp_all)
    then show "in_run (fb_back fb + 4 * of_nat j + of_nat k) (fb_back fb) (4 * pixels fb)" by (simp add: algebra_simps)
  qed
  then have "read_bytes m' (fb_back fb + 4 * of_nat j) 4 = read_bytes m (fb_back fb + 4 * of_nat j) 4"
    by (intro read_bytes_cong) simp
  then show ?thesis by (simp add: pixel_def read32_def)
qed

lemma copy_keeps_back:
  assumes ok: "frame_ok fb" and i: "i < pixels (scanout fb)" and j: "j < pixels fb"
  shows "pixel fb (set_pixel (scanout fb) i c m) j = pixel fb m j"
proof (rule outside_pixel)
  fix a assume "in_run a (fb_back fb) (4 * pixels fb)"
  then have "\<not> in_run a (fb_back (scanout fb)) (4 * pixels (scanout fb))" using ok by (simp add: frame_ok_def scanout_def)
  then show "set_pixel (scanout fb) i c m a = m a"
    using outside_set_pixel [of "scanout fb" i m c] i ok by (simp add: outside_same_def frame_ok_def)
qed (use ok j in \<open>simp_all add: frame_ok_def\<close>)

lemma copy_pixels:
  assumes ok: "frame_ok fb"
  shows "\<forall>(i, j) \<in> set ps. i < pixels (scanout fb) \<and> j < pixels fb \<Longrightarrow> distinct (map fst ps) \<Longrightarrow>
    (\<forall>j < pixels fb. pixel fb (fold (copy_pixel fb) ps m) j = pixel fb m j) \<and>
    (\<forall>(i, j) \<in> set ps. pixel (scanout fb) (fold (copy_pixel fb) ps m) i = pixel fb m j) \<and>
    outside_same (scanout fb) m (fold (copy_pixel fb) ps m)"
proof (induction ps rule: rev_induct)
  case (snoc p ps)
  obtain i j where p: "p = (i, j)" by fastforce
  let ?m = "fold (copy_pixel fb) ps m"
  have ij: "i < pixels (scanout fb)" "j < pixels fb" using snoc.prems(1) by (auto simp: p)
  have hw: "fb_ok (scanout fb)" using ok by (simp add: frame_ok_def)
  have ih: "\<forall>j < pixels fb. pixel fb ?m j = pixel fb m j" "\<forall>(i, j) \<in> set ps. pixel (scanout fb) ?m i = pixel fb m j"
    "outside_same (scanout fb) m ?m" using snoc by auto
  have c: "fold (copy_pixel fb) (ps @ [p]) m = set_pixel (scanout fb) i (pixel fb m j) ?m"
    using ih(1) ij by (simp add: copy_pixel_def p)
  have "pixel (scanout fb) (set_pixel (scanout fb) i (pixel fb m j) ?m) k = pixel fb m l" if "(k, l) \<in> set (ps @ [p])" for k l
  proof (cases "(k, l) = p")
    case False
    then have kl: "(k, l) \<in> set ps" using that by simp
    then have "k < pixels (scanout fb)" using snoc.prems(1) by auto
    moreover have "k \<noteq> i" using snoc.prems(2) kl p by (force simp: image_iff)
    ultimately show ?thesis using pixel_set_pixel [OF hw ij(1)] ih(2) kl by auto
  qed (use pixel_set_pixel [OF hw ij(1) ij(1)] p in simp)
  moreover have "outside_same (scanout fb) m (set_pixel (scanout fb) i (pixel fb m j) ?m)"
    by (rule outside_trans [OF ih(3) outside_set_pixel [OF hw ij(1)]])
  ultimately show ?case unfolding c using ih(1) copy_keeps_back [OF ok ij(1)] by auto
qed simp

lemma frame_pixels_ok:
  assumes ok: "frame_ok fb"
  shows "\<forall>(i, j) \<in> set (frame_pixels fb). i < pixels (scanout fb) \<and> j < pixels fb" and "distinct (map fst (frame_pixels fb))"
proof -
  let ?W = "unat (fb_w fb)" and ?P = "unat (pitch_px fb)" and ?H = "unat (fb_h fb)"
  have w: "?W \<le> ?P" using ok by (simp add: frame_ok_def)
  have "y * ?P + x < ?P * ?H" "y * ?W + x < ?W * ?H" if "y < ?H" "x < ?W" for x y
    using row_fits [of x 1 ?P y ?H] row_fits [of x 1 ?W y ?H] that w by simp_all
  then show "\<forall>(i, j) \<in> set (frame_pixels fb). i < pixels (scanout fb) \<and> j < pixels fb"
    by (auto simp: frame_pixels_def pixels_def scanout_def)
  have "inj_on (\<lambda>(y, x). y * ?P + x) ({0..<?H} \<times> {0..<?W})"
  proof (rule inj_onI, clarify)
    fix y x y' x'
    assume "x \<in> {0..<?W}" "x' \<in> {0..<?W}" and e: "y * ?P + x = y' * ?P + x'"
    then show "y = y' \<and> x = x'" using row_index_unique [of x ?P 0 x' y y'] w by simp
  qed
  moreover have "map fst (frame_pixels fb) = map (\<lambda>(y, x). y * ?P + x) (List.product [0..<?H] [0..<?W])"
    by (simp add: frame_pixels_def o_def case_prod_beta)
  ultimately show "distinct (map fst (frame_pixels fb))" by (simp add: distinct_map distinct_product)
qed

lemma present_copies:
  assumes ok: "frame_ok fb"
  shows "fb_present fb m = fold (copy_pixel fb) (frame_pixels fb) m"
proof -
  let ?W = "unat (fb_w fb)" and ?P = "unat (pitch_px fb)" and ?H = "unat (fb_h fb)"
  have b: "pixels fb \<le> 2 ^ 30" "pixels (scanout fb) \<le> 2 ^ 30" using ok pixels_bound by (simp_all add: frame_ok_def)
  have addr: "base + 4 * ucast (of_nat y * v) + 4 * ucast (of_nat x :: u32) = base + (4 * of_nat (y * unat v + x) :: u64)"
    if "y < ?H" "x < unat v" "unat v * ?H \<le> 2 ^ 30" for base y x and v :: u32
  proof -
    have "y * unat v + x < unat v * ?H" using row_fits [of x 1 "unat v" y ?H] that by simp
    then have s: "y * unat v < 2 ^ 32" "x < 2 ^ 32" using that(3) by simp_all
    have "of_nat y * v = (of_nat (y * unat v) :: u32)" by simp
    then show ?thesis using zext_of_nat [OF s(1)] zext_of_nat [OF s(2)] by (simp add: algebra_simps)
  qed
  have hwb: "fb_back (scanout fb) = fb_hw fb" by (simp add: scanout_def)
  have step: "write32 m (fb_hw fb + 4 * ucast (of_nat y * pitch_px fb) + 4 * ucast (of_nat x :: u32))
      (read32 m (fb_back fb + 4 * ucast (of_nat y * fb_w fb) + 4 * ucast (of_nat x :: u32))) =
      copy_pixel fb (y * ?P + x, y * ?W + x) m" if "y < ?H" "x < ?W" for x y m
  proof -
    have P: "x < ?P" "?P * ?H \<le> 2 ^ 30" "?W * ?H \<le> 2 ^ 30" using that b ok by (simp_all add: frame_ok_def pixels_def scanout_def)
    show ?thesis
      by (simp only: copy_pixel_def prod.case set_pixel_def pixel_def hwb
          addr [OF that(1) P(1,2)] addr [OF that P(3)])
  qed
  have ready: "fb_is_ready fb" using ok by (simp add: frame_ok_def fb_ok_def)
  have "fb_present fb m = fold (\<lambda>y. fold (\<lambda>x. copy_pixel fb (y * ?P + x, y * ?W + x)) [0..<?W]) [0..<?H] m"
  proof -
    have row: "fold (\<lambda>x m. write32 m (fb_hw fb + 4 * ucast (of_nat y * pitch_px fb) + 4 * ucast (of_nat x :: u32))
        (read32 m (fb_back fb + 4 * ucast (of_nat y * fb_w fb) + 4 * ucast (of_nat x :: u32)))) [0..<?W] m =
        fold (\<lambda>x. copy_pixel fb (y * ?P + x, y * ?W + x)) [0..<?W] m" if "y < ?H" for y m
      by (rule fold_cong [OF refl refl]) (rule ext, simp add: step that)
    show ?thesis unfolding fb_present_def Let_def for_w_fold
      by (simp only: unsigned_0 ready not_True_eq_False if_False) (rule fold_cong [OF refl refl], rule ext, simp add: row)
  qed
  also have "\<dots> = fold (copy_pixel fb) (frame_pixels fb) m"
    using fold_product [of "\<lambda>p. copy_pixel fb (fst p * ?P + snd p, fst p * ?W + snd p)" "[0..<?W]" "[0..<?H]" m]
    by (simp add: frame_pixels_def fold_map o_def case_prod_beta)
  finally show ?thesis .
qed

lemma shown_pixels:
  assumes "frame_ok fb"
  shows "\<forall>y < unat (fb_h fb). \<forall>x < unat (fb_w fb).
      read32 (fb_present fb m) (fb_hw fb + 4 * of_nat (y * unat (pitch_px fb) + x)) = pixel fb m (y * unat (fb_w fb) + x) \<and>
      pixel fb (fb_present fb m) (y * unat (fb_w fb) + x) = pixel fb m (y * unat (fb_w fb) + x)"
proof (intro allI impI)
  fix y x assume yx: "y < unat (fb_h fb)" "x < unat (fb_w fb)"
  note c = copy_pixels [OF assms frame_pixels_ok [OF assms], of m]
  let ?m = "fold (copy_pixel fb) (frame_pixels fb) m"
  have hw: "pixel (scanout fb) m' i = read32 m' (fb_hw fb + 4 * of_nat i)" for m' i by (simp add: pixel_def scanout_def)
  have p: "(y * unat (pitch_px fb) + x, y * unat (fb_w fb) + x) \<in> set (frame_pixels fb)" using yx by (auto simp: frame_pixels_def)
  then have "y * unat (fb_w fb) + x < pixels fb" using frame_pixels_ok(1) [OF assms] by blast
  then show "read32 (fb_present fb m) (fb_hw fb + 4 * of_nat (y * unat (pitch_px fb) + x)) = pixel fb m (y * unat (fb_w fb) + x) \<and>
      pixel fb (fb_present fb m) (y * unat (fb_w fb) + x) = pixel fb m (y * unat (fb_w fb) + x)"
    using c p unfolding present_copies [OF assms] hw [symmetric] by blast
qed

text \<open>
  C39. Presenting puts every pixel of the back buffer in its place in the hardware frame, whatever the pitch of the
  hardware is, keeps the back buffer as it is, and changes no memory outside the hardware frame.
\<close>

theorem present_shows_back_buffer:
  assumes "frame_ok fb"
  shows "(\<forall>y < unat (fb_h fb). \<forall>x < unat (fb_w fb).
      read32 (fb_present fb m) (fb_hw fb + 4 * of_nat (y * unat (pitch_px fb) + x)) = pixel fb m (y * unat (fb_w fb) + x) \<and>
      pixel fb (fb_present fb m) (y * unat (fb_w fb) + x) = pixel fb m (y * unat (fb_w fb) + x)) \<and>
    outside_same (scanout fb) m (fb_present fb m)"
  using shown_pixels [OF assms] copy_pixels [OF assms frame_pixels_ok [OF assms], of m] present_copies [OF assms] by simp

lemma in_run_bounds:
  assumes "in_run a b n" and "unat b + n \<le> 2 ^ 64"
  shows "unat b \<le> unat a \<and> unat a < unat b + n"
proof -
  obtain i where i: "i < n" "a = b + of_nat i" "i < 2 ^ 64" using assms(1) by (auto simp: in_run_conv)
  then have "unat a = unat b + i" using assms(2) by (simp add: unat_word_ariths unat_of_nat)
  with i(1) show ?thesis by simp
qed

definition frame_demo :: fb_info where
  "frame_demo = \<lparr>fb_hw = 0xFD000000, fb_back = 0x400000, fb_w = 4, fb_h = 3, pitch_px = 6, fb_is_ready = True\<rparr>"

lemma present_shows_back_buffer_witness:
  "read32 (fb_present frame_demo (\<lambda>_. 0)) (0xFD000000 + 4 * of_nat (2 * 6 + 3)) = pixel frame_demo (\<lambda>_. 0) (2 * 4 + 3)"
proof -
  have "\<not> in_run a 0xFD000000 72" if "in_run a 0x400000 48" for a
    using in_run_bounds [OF that] in_run_bounds [of a "0xFD000000" 72] by auto
  then have "frame_ok frame_demo" by (simp add: frame_ok_def fb_ok_def scanout_def frame_demo_def pixels_def)
  then show ?thesis
    using present_shows_back_buffer [of frame_demo "\<lambda>_. 0", THEN conjunct1, rule_format, of 2 3] by (simp add: frame_demo_def)
qed

end
