(* ===== verification/Files.thy ===== *)
theory Files
  imports Desktop Vfs
begin

text \<open>
  The Files and Editor windows of \<^verbatim>\<open>src/kernel/gui.cpp\<close>: the directory shown, the selection, the file being edited,
  the field for arguments, and the rectangles that drawing leaves for the handlers of clicks. The lemmas
  show that the rows a drawing leaves are the entries of the directory, in order and apart from each other.
\<close>

record btn_rect =
  br_x :: i32
  br_y :: i32
  br_w :: i32
  br_h :: i32

text \<open>Node 0 is the null pointer. \<open>g_args_buf\<close> is the text before the NUL; its length is \<^verbatim>\<open>g_args_len\<close>.\<close>

record files =
  g_files_dir :: u64
  g_files_selected :: u64
  g_editor_file :: u64
  g_editor_title :: string
  g_last_save_tick :: u64
  g_btn_open :: btn_rect
  g_btn_edit :: btn_rect
  g_btn_run :: btn_rect
  g_btn_save :: btn_rect
  g_files_rows :: "(i32 \<times> u64) list"
  g_files_row_x :: i32
  g_files_row_w :: i32
  g_args_buf :: string
  g_args_focused :: bool
  g_args_field :: btn_rect

definition FILES_MAX_ROWS :: nat where "FILES_MAX_ROWS = 64"
definition FILES_ARGS_CAP :: nat where "FILES_ARGS_CAP = 96"
definition g_files_row_h :: i32 where "g_files_row_h = FONT_HEIGHT + 4"

fun kind_label :: "vfs_kind \<Rightarrow> string" where
  "kind_label VFS_DIR = ''dir''"
| "kind_label VFS_FILE = ''file''"
| "kind_label VFS_EXEC = ''exec''"

definition draw_filesys_button :: "btn_rect \<Rightarrow> string \<Rightarrow> bool \<Rightarrow> bool \<Rightarrow> draw_op list" where
  "draw_filesys_button r label enabled primary =
     (let fill = (if \<not> enabled then C_WIN_TITLE else if primary then C_TASKBAR_HI else C_WIN_TITLE_F);
          ink = (if enabled then C_TEXT else C_TEXT_DIM);
          lw = kstrlen label * FONT_WIDTH
      in [Fill (br_x r) (br_y r) (br_w r) (br_h r) fill, Outline (br_x r) (br_y r) (br_w r) (br_h r) C_WIN_BORDER] @
         draw_text (br_x r + idiv (br_w r - lw) 2) (br_y r + idiv (br_h r - FONT_HEIGHT) 2) label ink)"

section \<open>The Files window\<close>

text \<open>The rectangles of the toolbar and the field for arguments, which depend on the window only.\<close>

definition place_toolbar :: "window_t \<Rightarrow> files \<Rightarrow> files" where
  "place_toolbar w f =
     (let bx = body_x w; h_y = body_y w; btn_w = 60; btn_h = 22; btn_gap = 6
      in f\<lparr>g_btn_open := \<lparr>br_x = bx, br_y = h_y, br_w = btn_w, br_h = btn_h\<rparr>,
           g_btn_edit := \<lparr>br_x = bx + (btn_w + btn_gap), br_y = h_y, br_w = btn_w, br_h = btn_h\<rparr>,
           g_btn_run := \<lparr>br_x = bx + 2 * (btn_w + btn_gap), br_y = h_y, br_w = btn_w, br_h = btn_h\<rparr>,
           g_args_field := \<lparr>br_x = bx + 48, br_y = h_y + btn_h + 6, br_w = body_w w - 48, br_h = btn_h\<rparr>\<rparr>)"

definition draw_toolbar :: "window_t \<Rightarrow> vfs \<Rightarrow> files \<Rightarrow> draw_op list" where
  "draw_toolbar w s f =
     (let sel = g_files_selected f; kind = nkind (nodes s sel)
      in draw_filesys_button (g_btn_open f) ''Open'' (sel \<noteq> 0) True @
         draw_filesys_button (g_btn_edit f) ''Edit'' (sel \<noteq> 0 \<and> kind = VFS_FILE) False @
         draw_filesys_button (g_btn_run f) ''Run'' (sel \<noteq> 0 \<and> kind = VFS_EXEC) False @
         draw_text (br_x (g_btn_run f) + br_w (g_btn_run f) + 16) (body_y w + idiv (22 - FONT_HEIGHT) 2)
           (vfs_path_of (g_files_dir f) 128 s) C_TASKBAR_HI)"

definition draw_args_field :: "window_t \<Rightarrow> files \<Rightarrow> draw_op list" where
  "draw_args_field w f =
     (let r = g_args_field f
      in draw_text (body_x w) (br_y r + 4) ''args:'' C_TEXT_DIM @
         [Fill (br_x r) (br_y r) (br_w r) (br_h r) C_WIN_BG,
          Outline (br_x r) (br_y r) (br_w r) (br_h r) (if g_args_focused f then C_TASKBAR_HI else C_WIN_BORDER)] @
         draw_text (br_x r + 6) (br_y r + 4) (g_args_buf f) C_TEXT @
         (if g_args_focused f
          then [Fill (br_x r + 6 + of_nat (length (g_args_buf f)) * FONT_WIDTH) (br_y r + 4) 2 FONT_HEIGHT C_TEXT] else []))"

fun kind_prefix :: "vfs_kind \<Rightarrow> string" where
  "kind_prefix VFS_DIR = ''[]''"
| "kind_prefix VFS_FILE = ''-''"
| "kind_prefix VFS_EXEC = ''*''"

text \<open>A description cut to the room of its column, with dots in place of the last three characters when some are missing.\<close>

definition clip_description :: "i32 \<Rightarrow> string \<Rightarrow> string" where
  "clip_description room d =
     (let max_chars = (if sint room > 0 then unat (idiv room FONT_WIDTH) else 0);
          shown = take (min max_chars 63) d
      in if length shown < length d \<and> length shown \<ge> 3 then take (length shown - 3) shown @ ''...'' else shown)"

definition draw_row_text :: "i32 \<Rightarrow> i32 \<Rightarrow> i32 \<Rightarrow> bool \<Rightarrow> vfs_node \<Rightarrow> string \<Rightarrow> draw_op list" where
  "draw_row_text bx bw cur_y selected n name =
     (if selected then [Fill bx cur_y bw g_files_row_h C_WIN_TITLE_F] else []) @
     draw_text (bx + 8) (cur_y + 2) (take 63 (kind_prefix (nkind n) @ '' '' @ name)) C_TEXT @
     draw_text (bx + 280) (cur_y + 2) (kind_label (nkind n)) C_TEXT_DIM @
     (if nkind n = VFS_FILE then draw_text (bx + 360) (cur_y + 2) (fmt_u64 16 (ucast (nlen n))) C_TEXT_DIM else []) @
     (if nkind n = VFS_EXEC
      then draw_text (bx + 460) (cur_y + 2) (clip_description (bx + bw - (bx + 460) - 4) (ndescription n)) C_TEXT_DIM else [])"

text \<open>One call of \<^verbatim>\<open>draw_row\<close> after the other, with the drawing, the rows so far and the place of the next one.\<close>

definition draw_row ::
  "i32 \<Rightarrow> i32 \<Rightarrow> i32 \<Rightarrow> u64 \<Rightarrow> vfs \<Rightarrow> u64 \<times> string \<Rightarrow> draw_op list \<times> (i32 \<times> u64) list \<times> i32 \<Rightarrow> draw_op list \<times> (i32 \<times> u64) list \<times> i32"
where
  "draw_row bx bw bottom selected s nm st =
     (case nm of (n, name) \<Rightarrow> case st of (ops, rows, cur_y) \<Rightarrow>
        if length rows \<ge> FILES_MAX_ROWS \<or> sint (cur_y + g_files_row_h) > sint bottom then (ops, rows, cur_y)
        else (ops @ draw_row_text bx bw cur_y (selected = n) (nodes s n) name, rows @ [(cur_y, n)], cur_y + g_files_row_h))"

text \<open>The walk over the children of a directory; None says that it does not end.\<close>

partial_function (option) dir_children :: "(u64 \<Rightarrow> vfs_node) \<Rightarrow> u64 \<Rightarrow> u64 list option" where
  "dir_children nd c = (if c = 0 then Some [] else Option.bind (dir_children nd (nnext (nd c))) (\<lambda>cs. Some (c # cs)))"

definition row_entries :: "vfs \<Rightarrow> u64 \<Rightarrow> u64 list \<Rightarrow> (u64 \<times> string) list" where
  "row_entries s dir children =
     (if nparent (nodes s dir) \<noteq> 0 then [(nparent (nodes s dir), ''..'')] else []) @ map (\<lambda>c. (c, nname (nodes s c))) children"

definition rows_top :: "window_t \<Rightarrow> i32" where
  "rows_top w = body_y w + 22 + 6 + 22 + 10 + FONT_HEIGHT + 6"

definition draw_rows :: "window_t \<Rightarrow> u64 \<Rightarrow> vfs \<Rightarrow> (u64 \<times> string) list \<Rightarrow> draw_op list \<times> (i32 \<times> u64) list \<times> i32" where
  "draw_rows w selected s es = fold (draw_row (body_x w) (body_w w) (body_y w + body_h w) selected s) es ([], [], rows_top w)"

definition draw_list_head :: "window_t \<Rightarrow> draw_op list" where
  "draw_list_head w =
     (let bx = body_x w; list_y = body_y w + 22 + 6 + 22 + 10
      in Fill bx list_y (body_w w) (FONT_HEIGHT + 4) C_WIN_TITLE # draw_text (bx + 8) (list_y + 2) ''name'' C_TEXT_DIM @
         draw_text (bx + 280) (list_y + 2) ''kind'' C_TEXT_DIM @ draw_text (bx + 360) (list_y + 2) ''size'' C_TEXT_DIM @
         draw_text (bx + 460) (list_y + 2) ''description'' C_TEXT_DIM)"

definition draw_files_in :: "window_t \<Rightarrow> vfs \<Rightarrow> files \<Rightarrow> (draw_op list \<times> files) option" where
  "draw_files_in w s f =
     (let f1 = place_toolbar w (if g_files_dir f = 0 then f\<lparr>g_files_dir := vfs_root s\<rparr> else f)
      in Option.bind (dir_children (nodes s) (first_child (nodes s (g_files_dir f1)))) (\<lambda>children.
           case draw_rows w (g_files_selected f1) s (row_entries s (g_files_dir f1) children) of (ops, rows, _) \<Rightarrow>
             Some (draw_toolbar w s f1 @ draw_args_field w f1 @ draw_list_head w @ ops,
                   f1\<lparr>g_files_rows := rows, g_files_row_x := body_x w, g_files_row_w := body_w w\<rparr>)))"

section \<open>The Editor window\<close>

definition content_text :: "u64 \<Rightarrow> vfs \<Rightarrow> string" where
  "content_text n s = map (char_of \<circ> unat) (read_bytes (hmem (vheap s)) (ncontent (nodes s n)) (unat (nlen (nodes s n))))"

text \<open>The text in lines of \<open>cols\<close> characters, as far as the box reaches; gives the place of the caret too.\<close>

fun editor_loop :: "i32 \<Rightarrow> i32 \<Rightarrow> i32 \<Rightarrow> i32 \<Rightarrow> i32 \<Rightarrow> string \<Rightarrow> draw_op list \<times> i32 \<times> i32" where
  "editor_loop cx cols bottom cy col [] = ([], cy, col)"
| "editor_loop cx cols bottom cy col (c # s) =
     (if c = CHR 0x0A
      then (if sint (cy + FONT_HEIGHT + FONT_HEIGHT) > sint bottom then ([], cy + FONT_HEIGHT, 0)
            else editor_loop cx cols bottom (cy + FONT_HEIGHT) 0 s)
      else let wrap = sint col \<ge> sint cols; cy1 = (if wrap then cy + FONT_HEIGHT else cy); col1 = (if wrap then 0 else col)
           in if wrap \<and> sint (cy1 + FONT_HEIGHT) > sint bottom then ([], cy1, 0)
              else case editor_loop cx cols bottom cy1 (col1 + 1) s of
                     (ops, r) \<Rightarrow> (font_draw_char (cx + col1 * FONT_WIDTH) cy1 c C_TERM_FG 0 False @ ops, r))"

definition draw_editor_in :: "window_t \<Rightarrow> u64 \<Rightarrow> vfs \<Rightarrow> files \<Rightarrow> draw_op list \<times> files" where
  "draw_editor_in w ticks s f =
     (let bx = body_x w; h_y = body_y w; bw = body_w w; btn_h = 22; btn_w = 60; pad = 6;
          save = \<lparr>br_x = bx, br_y = h_y, br_w = btn_w, br_h = btn_h\<rparr>;
          path = vfs_path_of (g_editor_file f) 128 s; label_y = h_y + idiv (btn_h - FONT_HEIGHT) 2;
          toast_x = bx + btn_w + 16 + kstrlen path * FONT_WIDTH + 16;
          top_y = h_y + btn_h + 10; box_h = body_h w - (btn_h + 10); cx = bx + pad;
          frame = draw_filesys_button save ''Save'' True True @ draw_text (bx + btn_w + 16) label_y path C_TASKBAR_HI @
            (if g_last_save_tick f \<noteq> 0 \<and> ticks - g_last_save_tick f < 200
             then draw_text toast_x label_y ''[saved to disk]'' C_TERM_PROMPT else []) @
            [Outline bx top_y bw box_h C_WIN_BORDER];
          body = (if g_editor_file f = 0 then []
                  else case editor_loop cx (idiv (bw - 2 * pad) FONT_WIDTH) (top_y + box_h) (top_y + pad) 0
                              (content_text (g_editor_file f) s) of (ops, cy, col) \<Rightarrow>
                       ops @ (if ticks div 50 AND 1 = 0
                              then [Fill (cx + col * FONT_WIDTH) (cy + FONT_HEIGHT - 2) FONT_WIDTH 2 C_TERM_PROMPT] else []))
      in (frame @ body, f\<lparr>g_btn_save := save\<rparr>))"

text \<open>Opening a file in the editor; the title buffer has 96 bytes and the path 80.\<close>

definition open_editor_for :: "fb_info \<Rightarrow> u64 \<Rightarrow> vfs \<Rightarrow> files \<times> wm \<Rightarrow> files \<times> wm" where
  "open_editor_for fb file s fg =
     (case fg of (f, g) \<Rightarrow>
        if file = 0 \<or> nkind (nodes s file) \<noteq> VFS_FILE then (f, g)
        else let title = take 95 (''Editor - '' @ vfs_path_of file 80 s);
                 f1 = f\<lparr>g_editor_file := file, g_editor_title := title\<rparr>
             in case find_window_of_type APP_EDITOR (windows g) of
                  Some existing \<Rightarrow> (f1, set_dirty (raise_window existing (set_title existing title g)))
                | None \<Rightarrow>
                    let g1 = open_app fb APP_EDITOR g
                    in case find_window_of_type APP_EDITOR (windows g1) of
                         Some idx \<Rightarrow> (f1, set_title idx title g1)
                       | None \<Rightarrow> (f1, g1))"

section \<open>The listing\<close>

lemma dir_children_chain: "chain nd c cs \<Longrightarrow> dir_children nd c = Some cs"
  by (induction cs arbitrary: c) (auto simp: dir_children.simps)

text \<open>Drawing the Files window always comes back when the tree is well formed.\<close>

lemma draw_files_returns:
  assumes T: "tree_ok s N ch" and d: "g_files_dir f = 0 \<or> g_files_dir f \<in> N"
  shows "\<exists>ops f'. draw_files_in w s f = Some (ops, f')"
proof -
  let ?f1 = "place_toolbar w (if g_files_dir f = 0 then f\<lparr>g_files_dir := vfs_root s\<rparr> else f)"
  have dir: "g_files_dir (place_toolbar w h) = g_files_dir h" for h by (simp add: place_toolbar_def Let_def)
  have "g_files_dir ?f1 \<in> N" using d T by (auto simp: dir vfs_root_def tree_ok_def)
  then have "chain (nodes s) (first_child (nodes s (g_files_dir ?f1))) (ch (g_files_dir ?f1))" using T by (simp add: tree_ok_def)
  then have "dir_children (nodes s) (first_child (nodes s (g_files_dir ?f1))) = Some (ch (g_files_dir ?f1))" by (rule dir_children_chain)
  then show ?thesis unfolding draw_files_in_def Let_def by (simp add: case_prod_beta)
qed

text \<open>The rows are the first entries, one below the other.\<close>

lemma draw_rows_step:
  assumes "draw_row bx bw bottom sel s e (ops, rows, y) = (ops', rows', y')"
  shows "rows' = rows \<and> y' = y \<or> rows' = rows @ [(y, fst e)] \<and> y' = y + g_files_row_h \<and> length rows < FILES_MAX_ROWS \<and>
    sint (y + g_files_row_h) \<le> sint bottom"
  using assms by (auto simp: draw_row_def split: prod.splits if_splits)

lemma draw_rows_stuck:
  assumes "length rows \<ge> FILES_MAX_ROWS \<or> sint (y + g_files_row_h) > sint bottom"
  shows "fold (draw_row bx bw bottom sel s) es (ops, rows, y) = (ops, rows, y)"
  using assms by (induction es) (auto simp: draw_row_def split: prod.split)

lemma draw_rows_list:
  "fold (draw_row bx bw bottom sel s) es (ops, rows, y) = (ops', rows', y') \<Longrightarrow>
   \<exists>k \<le> length es. rows' = rows @ map (\<lambda>i. (y + of_nat i * g_files_row_h, fst (es ! i))) [0..<k] \<and>
     length rows' \<le> max (length rows) FILES_MAX_ROWS \<and> (\<forall>i < k. sint (y + of_nat (Suc i) * g_files_row_h) \<le> sint bottom)"
proof (induction es arbitrary: ops rows y)
  case (Cons e es)
  obtain o1 r1 y1 where st: "draw_row bx bw bottom sel s e (ops, rows, y) = (o1, r1, y1)" by (cases "draw_row bx bw bottom sel s e (ops, rows, y)")
  show ?case
  proof (cases "length rows \<ge> FILES_MAX_ROWS \<or> sint (y + g_files_row_h) > sint bottom")
    case True
    then show ?thesis using Cons.prems draw_rows_stuck [OF True, of bx bw sel s "e # es" ops] by (intro exI [of _ 0]) auto
  next
    case False
    then have r1: "r1 = rows @ [(y, fst e)]" "y1 = y + g_files_row_h" "length rows < FILES_MAX_ROWS" "sint (y + g_files_row_h) \<le> sint bottom"
      using st by (auto simp: draw_row_def split: prod.splits)
    have "fold (draw_row bx bw bottom sel s) es (o1, r1, y1) = (ops', rows', y')" using Cons.prems st by simp
    then obtain k where k: "k \<le> length es" "rows' = r1 @ map (\<lambda>i. (y1 + of_nat i * g_files_row_h, fst (es ! i))) [0..<k]"
        "length rows' \<le> max (length r1) FILES_MAX_ROWS" "\<forall>i < k. sint (y1 + of_nat (Suc i) * g_files_row_h) \<le> sint bottom"
      using Cons.IH by blast
    have "rows' = rows @ map (\<lambda>i. (y + of_nat i * g_files_row_h, fst ((e # es) ! i))) [0..<Suc k]"
      unfolding upt_conv_Cons [OF zero_less_Suc] map_Suc_upt [symmetric] k(2) r1
      by (simp add: algebra_simps)
    moreover have "sint (y + of_nat (Suc i) * g_files_row_h) \<le> sint bottom" if "i < Suc k" for i
      using that k(4) r1 by (cases i) (auto simp: algebra_simps)
    moreover have "length rows' \<le> max (length rows) FILES_MAX_ROWS" using k(3) r1 by simp
    ultimately show ?thesis using k(1) by (intro exI [of _ "Suc k"]) auto
  qed
qed simp

end
