(* ===== verification/Gui.thy ===== *)
theory Gui
  imports Files Shell Diskfs
begin

text \<open>
  The desktop as a whole, \<^verbatim>\<open>src/kernel/gui.cpp\<close>: the state of all its parts over the world of
  the shell, repainting, what a click and a key do, and the tick of the main loop. Drawing is computed from
  the state first and then painted; file contents and the cursor image lie outside the back buffer, so this order makes no difference.
  None says that a walk over a directory or a started program does not come back.
\<close>

record desk =
  d_world :: world
  d_wm :: wm
  d_calc :: calc
  g_calc_btns :: "calc_btn list"
  d_files :: files
  d_mouse :: mouse
  d_fb :: fb_info
  d_cursor :: u64
  d_disk :: ata_device
  d_super :: super_block
  d_loaded :: bool
  g_drag_idx :: "nat option"
  g_drag_off_x :: i32
  g_drag_off_y :: i32
  last_x :: i32
  last_y :: i32
  last_paint_tick :: u64

abbreviation desk_fs :: "desk \<Rightarrow> vfs" where
  "desk_fs d \<equiv> tree_of (d_world d)"

definition desk_ticks :: "desk \<Rightarrow> u64" where
  "desk_ticks d = timer_get_ticks (k_timer (w_k (d_world d)))"

definition on_wm :: "(wm \<Rightarrow> wm) \<Rightarrow> desk \<Rightarrow> desk" where
  "on_wm f d = d\<lparr>d_wm := f (d_wm d)\<rparr>"

definition on_files :: "(files \<Rightarrow> files) \<Rightarrow> desk \<Rightarrow> desk" where
  "on_files f d = d\<lparr>d_files := f (d_files d)\<rparr>"

text \<open>The file system and the memory of the world after they changed.\<close>

definition set_fs :: "vfs \<Rightarrow> desk \<Rightarrow> desk" where
  "set_fs s d =
     (let w = d_world d; k = w_k w
      in d\<lparr>d_world := w\<lparr>w_nodes := nodes s, w_root := g_root s, w_k := k\<lparr>k_procs := (k_procs k)\<lparr>kheap_of := vheap s\<rparr>\<rparr>\<rparr>\<rparr>)"

definition desk_mem :: "desk \<Rightarrow> mem" where
  "desk_mem d = k_mem (w_k (d_world d))"

definition set_desk_mem :: "mem \<Rightarrow> desk \<Rightarrow> desk" where
  "set_desk_mem m d = d\<lparr>d_world := (d_world d)\<lparr>w_k := set_mem m (w_k (d_world d))\<rparr>\<rparr>"

text \<open>
  Once the desktop runs, each character printed to the console goes to the terminal at once. In the model the
  console collects them in \<open>forwarded\<close>, and the operations that can print hand them over when they are done; nothing reads
  the terminal in between.
\<close>

definition drain :: "desk \<Rightarrow> desk" where
  "drain d =
     (let w = d_world d; k = w_k w; v = k_vga k
      in d\<lparr>d_world := w\<lparr>w_k := k\<lparr>k_vga := v\<lparr>forwarded := []\<rparr>\<rparr>\<rparr>,
           d_wm := (d_wm d)\<lparr>wm_term := gui_term_puts (forwarded v) (wm_term (d_wm d))\<rparr>\<rparr>)"

section \<open>Repainting\<close>

definition draw_window_content :: "window_t \<Rightarrow> desk \<Rightarrow> (draw_op list \<times> desk) option" where
  "draw_window_content w d =
     (case win_type w of
        APP_TERMINAL \<Rightarrow> Some (draw_terminal_in w (desk_ticks d) (wm_term (d_wm d)), d)
      | APP_FILES \<Rightarrow> map_option (\<lambda>(ops, f). (ops, d\<lparr>d_files := f\<rparr>)) (draw_files_in w (desk_fs d) (d_files d))
      | APP_MONITOR \<Rightarrow> Some (draw_monitor_in w (desk_ticks d) (pages_in (w_k (d_world d)))
                              (pci_get_device_count (w_pci (d_world d))) (ata_primary_master (d_disk d)), d)
      | APP_ABOUT \<Rightarrow> Some (draw_about_in (d_fb d) w, d)
      | APP_EDITOR \<Rightarrow> (case draw_editor_in w (desk_ticks d) (desk_fs d) (d_files d) of (ops, f) \<Rightarrow> Some (ops, d\<lparr>d_files := f\<rparr>))
      | APP_CALCULATOR \<Rightarrow> Some (draw_calculator_in w (d_calc d), d\<lparr>g_calc_btns := calc_buttons w\<rparr>))"

text \<open>The windows from the bottom up; the last one has the focus.\<close>

fun draw_windows :: "nat list \<Rightarrow> desk \<Rightarrow> (draw_op list \<times> desk) option" where
  "draw_windows [] d = Some ([], d)"
| "draw_windows (idx # zs) d =
     (let w = windows (d_wm d) ! idx
      in Option.bind (draw_window_content w d) (\<lambda>(ops, d1).
           Option.bind (draw_windows zs d1) (\<lambda>(rest, d2). Some (draw_window_chrome w (idx = last (idx # zs)) @ ops @ rest, d2))))"

definition redraw_all :: "desk \<Rightarrow> desk option" where
  "redraw_all d =
     Option.bind (draw_windows (z_order (d_wm d)) d) (\<lambda>(ops, d1).
       Some (set_desk_mem (paint (d_fb d)
         (draw_desktop_bg (d_fb d) (desk_ticks d) (d_wm d) @ draw_icons (desk_ticks d) (mouse_peek (d_mouse d)) @ ops @
          draw_cursor (d_cursor d) (mouse_peek (d_mouse d))) (desk_mem d)) d1))"

definition gui_present :: "desk \<Rightarrow> desk option" where
  "gui_present d = map_option (\<lambda>d1. set_desk_mem (fb_present (d_fb d) (desk_mem d1)) d1) (redraw_all d)"

section \<open>Clicks\<close>

definition in_btn :: "i32 \<Rightarrow> i32 \<Rightarrow> btn_rect \<Rightarrow> bool" where
  "in_btn px py r = point_in px py (br_x r) (br_y r) (br_w r) (br_h r)"

definition desk_diskfs :: "device \<Rightarrow> desk \<Rightarrow> diskfs" where
  "desk_diskfs dev d = \<lparr>g_super = d_super d, g_loaded = d_loaded d, fs = desk_fs d, io = (dev, d_disk d, w_io (d_world d))\<rparr>"

definition after_diskfs :: "diskfs \<Rightarrow> desk \<Rightarrow> desk" where
  "after_diskfs k d =
     (case io k of (dev, ata, h) \<Rightarrow>
        (set_fs (fs k) d)\<lparr>d_super := g_super k, d_loaded := g_loaded k, d_disk := ata,
                          d_world := (d_world (set_fs (fs k) d))\<lparr>w_io := h\<rparr>\<rparr>)"

definition editor_handle_click :: "env \<Rightarrow> i32 \<Rightarrow> i32 \<Rightarrow> desk \<Rightarrow> desk option" where
  "editor_handle_click e px py d =
     (if in_btn px py (g_btn_save (d_files d)) \<and> g_editor_file (d_files d) \<noteq> 0
      then map_option (\<lambda>(saved, k).
             let d1 = after_diskfs k d
             in if saved then on_files (\<lambda>f. f\<lparr>g_last_save_tick := desk_ticks d\<rparr>) d1 else d1)
           (diskfs_save (g_editor_file (d_files d)) (desk_diskfs (env_dev e) d))
      else Some d)"

text \<open>Running a program from the Files window brings the terminal up first.\<close>

definition run_exec :: "env \<Rightarrow> u64 \<Rightarrow> desk \<Rightarrow> desk option" where
  "run_exec e n d =
     (let d1 = on_wm (\<lambda>g. case find_window_of_type APP_TERMINAL (windows g) of
                             None \<Rightarrow> open_app (d_fb d) APP_TERMINAL g
                           | Some i \<Rightarrow> raise_window i g) d
      in map_option (\<lambda>k. drain (d1\<lparr>d_world := (d_world d1)\<lparr>w_k := k\<rparr>\<rparr>))
           (run_node e n (Some (g_args_buf (d_files d1))) (desk_fs d1) (w_k (d_world d1))))"

definition edit_file :: "u64 \<Rightarrow> desk \<Rightarrow> desk" where
  "edit_file n d =
     (case open_editor_for (d_fb d) n (desk_fs d) (d_files d, d_wm d) of (f, g) \<Rightarrow> d\<lparr>d_files := f, d_wm := g\<rparr>)"

definition enter_dir :: "u64 \<Rightarrow> desk \<Rightarrow> desk" where
  "enter_dir n d = on_files (\<lambda>f. f\<lparr>g_files_dir := n, g_files_selected := 0\<rparr>) d"

definition row_at :: "i32 \<Rightarrow> i32 \<Rightarrow> files \<Rightarrow> (i32 \<times> u64) option" where
  "row_at px py f =
     find (\<lambda>(y, n). sint py \<ge> sint y \<and> sint py < sint (y + g_files_row_h) \<and> sint px \<ge> sint (g_files_row_x f) \<and>
                    sint px < sint (g_files_row_x f + g_files_row_w f)) (g_files_rows f)"

definition files_handle_click :: "env \<Rightarrow> i32 \<Rightarrow> i32 \<Rightarrow> desk \<Rightarrow> desk option" where
  "files_handle_click e px py d =
     (if in_btn px py (g_args_field (d_files d)) then Some (on_files (\<lambda>f. f\<lparr>g_args_focused := True\<rparr>) d)
      else let d1 = on_files (\<lambda>f. f\<lparr>g_args_focused := False\<rparr>) d; f = d_files d1;
               sel = g_files_selected f; nd = nodes (desk_fs d1)
           in if in_btn px py (g_btn_open f)
              then (if sel = 0 then Some d1
                    else case nkind (nd sel) of
                           VFS_DIR \<Rightarrow> Some (enter_dir sel d1)
                         | VFS_FILE \<Rightarrow> Some (edit_file sel d1)
                         | VFS_EXEC \<Rightarrow> run_exec e sel d1)
              else if in_btn px py (g_btn_edit f)
              then Some (if sel \<noteq> 0 \<and> nkind (nd sel) = VFS_FILE then edit_file sel d1 else d1)
              else if in_btn px py (g_btn_run f)
              then (if sel \<noteq> 0 \<and> nkind (nd sel) = VFS_EXEC then run_exec e sel d1 else Some d1)
              else case row_at px py f of
                     None \<Rightarrow> Some d1
                   | Some (_, n) \<Rightarrow>
                       Some (if n = nparent (nd (g_files_dir f)) \<or> n \<noteq> 0 \<and> nkind (nd n) = VFS_DIR then enter_dir n d1
                             else on_files (\<lambda>f. f\<lparr>g_files_selected := n\<rparr>) d1))"

text \<open>What a press inside a window, below its title bar, does.\<close>

definition click_in_window :: "env \<Rightarrow> app_type \<Rightarrow> i32 \<Rightarrow> i32 \<Rightarrow> desk \<Rightarrow> desk option" where
  "click_in_window e t px py d =
     (case t of
        APP_FILES \<Rightarrow> files_handle_click e px py d
      | APP_EDITOR \<Rightarrow> editor_handle_click e px py d
      | APP_CALCULATOR \<Rightarrow> map_option (\<lambda>(c, _). d\<lparr>d_calc := c\<rparr>) (calculator_handle_click (g_calc_btns d) px py (d_calc d))
      | _ \<Rightarrow> Some d)"

text \<open>The taskbar button under the pointer.\<close>

definition task_button_at :: "fb_info \<Rightarrow> i32 \<Rightarrow> i32 \<Rightarrow> wm \<Rightarrow> nat option" where
  "task_button_at fb px py g =
     find (\<lambda>i. case taskbar_btn_rect fb i g of None \<Rightarrow> False | Some (x, y, w, h) \<Rightarrow> point_in px py x y w h) [0..<length (z_order g)]"

text \<open>The topmost window under the pointer.\<close>

definition window_at :: "i32 \<Rightarrow> i32 \<Rightarrow> wm \<Rightarrow> nat option" where
  "window_at px py g =
     find (\<lambda>idx. let w = windows g ! idx in point_in px py (win_x w) (win_y w) (win_w w) (win_h w)) (rev (z_order g))"

definition icon_at :: "i32 \<Rightarrow> i32 \<Rightarrow> icon option" where
  "icon_at px py = find (\<lambda>ic. point_in px py (icon_x ic) (icon_y ic) ICON_W ICON_H) icons"

definition handle_left_press :: "env \<Rightarrow> i32 \<Rightarrow> i32 \<Rightarrow> desk \<Rightarrow> (bool \<times> desk) option" where
  "handle_left_press e px py d =
     (let g = d_wm d
      in if sint py \<ge> sint (fb_height (d_fb d) - TASKBAR_H)
         then (case task_button_at (d_fb d) px py g of
                 None \<Rightarrow> Some (False, d)
               | Some i \<Rightarrow> Some (True, on_wm (raise_window (z_order g ! i)) d))
         else case window_at px py g of
                Some idx \<Rightarrow>
                  (let w = windows g ! idx
                   in if point_in_close_btn w px py then Some (True, on_wm (close_window idx) d)
                      else let d1 = on_wm (raise_window idx) d
                      in if point_in_titlebar w px py
                         then Some (True, d1\<lparr>g_drag_idx := Some idx, g_drag_off_x := win_x w - px, g_drag_off_y := win_y w - py\<rparr>)
                         else map_option (Pair True) (click_in_window e (win_type w) px py d1))
              | None \<Rightarrow>
                  (case icon_at px py of
                     Some ic \<Rightarrow> Some (True, on_wm (open_app (d_fb d) (icon_app ic)) d)
                   | None \<Rightarrow> Some (False, d)))"

section \<open>Keys\<close>

definition printable :: "char \<Rightarrow> bool" where
  "printable c \<longleftrightarrow> 32 \<le> (of_char c :: nat) \<and> (of_char c :: nat) < 127"

definition touched :: "desk \<Rightarrow> desk" where
  "touched d = on_wm set_dirty d"

text \<open>A key while the field for arguments has the focus.\<close>

definition args_key :: "char \<Rightarrow> desk \<Rightarrow> desk" where
  "args_key c d =
     (let buf = g_args_buf (d_files d)
      in if c = CHR 0x08
         then (if buf \<noteq> [] then touched (on_files (\<lambda>f. f\<lparr>g_args_buf := butlast buf\<rparr>) d) else d)
         else if c = CHR 0x0A \<or> c = CHR 0x0D then touched (on_files (\<lambda>f. f\<lparr>g_args_focused := False\<rparr>) d)
         else if printable c \<and> length buf + 1 < FILES_ARGS_CAP
         then touched (on_files (\<lambda>f. f\<lparr>g_args_buf := buf @ [c]\<rparr>) d)
         else d)"

definition append_to_file :: "u64 \<Rightarrow> char \<Rightarrow> desk \<Rightarrow> desk option" where
  "append_to_file file c d =
     map_option (\<lambda>(_, s). touched (set_fs s d)) (vfs_append_char file (of_nat (of_char c)) (desk_fs d))"

text \<open>A key while the editor has the focus.\<close>

definition editor_key :: "char \<Rightarrow> desk \<Rightarrow> desk option" where
  "editor_key c d =
     (let file = g_editor_file (d_files d)
      in if c = CHR 0x08
         then (case vfs_pop_char file (desk_fs d) of (ok, s) \<Rightarrow> Some (if ok then touched (set_fs s d) else set_fs s d))
         else if c = CHR 0x0A \<or> c = CHR 0x0D then append_to_file file (CHR 0x0A) d
         else if printable c then append_to_file file c d
         else Some d)"

definition editor_focused :: "desk \<Rightarrow> bool" where
  "editor_focused d \<longleftrightarrow> z_order (d_wm d) \<noteq> [] \<and> win_type (windows (d_wm d) ! last (z_order (d_wm d))) = APP_EDITOR \<and>
     g_editor_file (d_files d) \<noteq> 0"

text \<open>The flag says that the desktop took the key, so that the shell does not see it.\<close>

definition gui_handle_key :: "char \<Rightarrow> desk \<Rightarrow> (bool \<times> desk) option" where
  "gui_handle_key c d =
     (if g_args_focused (d_files d) then Some (True, args_key c d)
      else if \<not> editor_focused d then Some (False, d)
      else map_option (Pair True) (editor_key c d))"

section \<open>The tick of the main loop\<close>

text \<open>Where the pointer takes a dragged window, kept within reach.\<close>

definition drag_place :: "fb_info \<Rightarrow> window_t \<Rightarrow> i32 \<Rightarrow> i32 \<Rightarrow> i32 \<times> i32" where
  "drag_place fb w x y =
     (let W = fb_width fb; H = fb_height fb;
          x1 = (if sint x < sint (- win_w w + 80) then - win_w w + 80 else x);
          x2 = (if sint x1 > sint (W - 80) then W - 80 else x1);
          y1 = (if sint y < 0 then 0 else y);
          y2 = (if sint y1 > sint (H - TITLE_H - 32) then H - TITLE_H - 32 else y1)
      in (x2, y2))"

definition drag_update :: "i32 \<Rightarrow> i32 \<Rightarrow> desk \<Rightarrow> bool \<times> desk" where
  "drag_update px py d =
     (case g_drag_idx d of
        None \<Rightarrow> (False, d)
      | Some idx \<Rightarrow>
          (let w = windows (d_wm d) ! idx
           in if \<not> win_used w then (False, d)
              else case drag_place (d_fb d) w (px + g_drag_off_x d) (py + g_drag_off_y d) of (nx, ny) \<Rightarrow>
                     if win_x w \<noteq> nx \<or> win_y w \<noteq> ny then (True, on_wm (move_window idx nx ny) d) else (False, d)))"

definition MOUSE_BUTTON_LEFT :: u8 where "MOUSE_BUTTON_LEFT = 1"

text \<open>
  The input of a tick. The press comes before the drag and the release last; a repaint is due when the pointer
  is elsewhere than before, and about ten times a second.
\<close>

definition tick_press :: "env \<Rightarrow> mouse_event \<Rightarrow> desk \<Rightarrow> (bool \<times> desk) option" where
  "tick_press e ev d =
     (if ev_pressed ev AND MOUSE_BUTTON_LEFT \<noteq> 0 \<and> g_drag_idx d = None
      then handle_left_press e (ev_x ev) (ev_y ev) d else Some (False, d))"

definition tick_release :: "mouse_event \<Rightarrow> desk \<Rightarrow> desk" where
  "tick_release ev d = (if ev_released ev AND MOUSE_BUTTON_LEFT \<noteq> 0 then d\<lparr>g_drag_idx := None\<rparr> else d)"

definition tick_pointer :: "mouse_event \<Rightarrow> desk \<Rightarrow> bool \<times> desk" where
  "tick_pointer ev d =
     (if ev_x ev \<noteq> last_x d \<or> ev_y ev \<noteq> last_y d then (True, d\<lparr>last_x := ev_x ev, last_y := ev_y ev\<rparr>) else (False, d))"

definition tick_due :: "desk \<Rightarrow> bool \<times> desk" where
  "tick_due d =
     (if desk_ticks d - last_paint_tick d \<ge> 10 then (True, d\<lparr>last_paint_tick := desk_ticks d\<rparr>) else (False, d))"

definition tick_input :: "env \<Rightarrow> desk \<Rightarrow> (bool \<times> desk) option" where
  "tick_input e d =
     (case mouse_consume_event (d_mouse d) of (ev, m) \<Rightarrow>
        Option.bind (tick_press e ev (d\<lparr>d_mouse := m\<rparr>)) (\<lambda>(hit, d1).
          case drag_update (ev_x ev) (ev_y ev) d1 of (dragged, d2) \<Rightarrow>
          case tick_pointer ev (tick_release ev d2) of (pointer, d3) \<Rightarrow>
          case tick_due d3 of (due, d4) \<Rightarrow>
            Some (term_dirty (wm_term (d_wm d)) \<or> hit \<or> dragged \<or> pointer \<or> due, d4)))"

definition clear_dirty :: "wm \<Rightarrow> wm" where
  "clear_dirty g = g\<lparr>wm_term := (wm_term g)\<lparr>term_dirty := False\<rparr>\<rparr>"

definition gui_tick :: "env \<Rightarrow> desk \<Rightarrow> desk option" where
  "gui_tick e d =
     Option.bind (tick_input e d) (\<lambda>(need, d1). if \<not> need then Some d1 else gui_present (on_wm clear_dirty d1))"

definition gui_init :: "device \<Rightarrow> desk \<Rightarrow> desk option" where
  "gui_init dev d =
     (let d1 = set_desk_mem (cursor_compile (d_cursor d) (desk_mem d)) d;
          d2 = on_wm (\<lambda>g. g\<lparr>wm_term := term_clear (wm_term g), windows := map (\<lambda>w. w\<lparr>win_used := False\<rparr>) (windows g), z_order := []\<rparr>) d1;
          d3 = on_files (\<lambda>f. f\<lparr>g_files_dir := vfs_root (desk_fs d2), g_files_selected := 0, g_editor_file := 0\<rparr>) d2
      in case ata_read dev (d_disk d3) 0 1 (w_io (d_world d3)) of (_, _, h) \<Rightarrow>
           gui_present (d3\<lparr>d_world := (d_world d3)\<lparr>w_io := h\<rparr>\<rparr>))"

section \<open>What the operations leave alone\<close>

lemma desk_frames [simp]:
  "d_wm (set_fs s d) = d_wm d" "d_files (set_fs s d) = d_files d" "g_drag_idx (set_fs s d) = g_drag_idx d"
  "d_wm (set_desk_mem m d) = d_wm d" "d_files (set_desk_mem m d) = d_files d" "g_drag_idx (set_desk_mem m d) = g_drag_idx d"
  "d_wm (on_files f d) = d_wm d" "d_files (on_files f d) = f (d_files d)" "g_drag_idx (on_files f d) = g_drag_idx d"
  "d_wm (on_wm h d) = h (d_wm d)" "d_files (on_wm h d) = d_files d" "g_drag_idx (on_wm h d) = g_drag_idx d"
  "d_world (on_files f d) = d_world d" "d_world (on_wm h d) = d_world d"
  "d_fb (on_files f d) = d_fb d" "d_fb (on_wm h d) = d_fb d" "d_fb (set_fs s d) = d_fb d" "d_fb (set_desk_mem m d) = d_fb d"
  by (simp_all add: set_fs_def set_desk_mem_def on_files_def on_wm_def Let_def)

lemma after_diskfs_frames [simp]:
  "d_wm (after_diskfs k d) = d_wm d" "d_files (after_diskfs k d) = d_files d" "g_drag_idx (after_diskfs k d) = g_drag_idx d"
  "d_fb (after_diskfs k d) = d_fb d"
  by (simp_all add: after_diskfs_def split: prod.split)

section \<open>The desktop stays well formed\<close>

definition term_ok :: "term_state \<Rightarrow> bool" where
  "term_ok t \<longleftrightarrow> (\<exists>p. displays t p \<and> page_ok p)"

lemma term_ok_puts: "term_ok t \<Longrightarrow> term_ok (gui_term_puts s t)"
  unfolding term_ok_def by (blast intro: puts_displays page_puts_ok)

lemma term_ok_dirty [simp]: "term_ok (t\<lparr>term_dirty := b\<rparr>) = term_ok t"
  by (simp add: term_ok_def)

text \<open>
  The window table is in order, the terminal is a grid of its size with the cursor in it, the argument fits its
  buffer, and a window being dragged is a slot of the table.
\<close>

definition desk_ok :: "desk \<Rightarrow> bool" where
  "desk_ok d \<longleftrightarrow> wm_ok (d_wm d) \<and> term_ok (wm_term (d_wm d)) \<and> length (g_args_buf (d_files d)) < FILES_ARGS_CAP \<and>
     (\<forall>i. g_drag_idx d = Some i \<longrightarrow> i < MAX_WINDOWS)"

text \<open>An operation on the windows that keeps the table in order and does not write to the terminal.\<close>

definition wm_keeps :: "(wm \<Rightarrow> wm) \<Rightarrow> bool" where
  "wm_keeps f \<longleftrightarrow> (\<forall>g. (wm_ok g \<longrightarrow> wm_ok (f g)) \<and> (\<exists>b. wm_term (f g) = (wm_term g)\<lparr>term_dirty := b\<rparr>))"

lemma same_dirty: "\<exists>b. t = t\<lparr>term_dirty := b\<rparr>"
  by (rule exI [of _ "term_dirty t"]) simp

lemma wm_keeps_ops:
  "wm_keeps (raise_window i)" "wm_keeps (close_window i)" "wm_keeps (open_app fb t)" "wm_keeps (set_title i ttl)"
  "wm_keeps (move_window i x y)" "wm_keeps set_dirty" "wm_keeps (\<lambda>g. g\<lparr>wm_term := (wm_term g)\<lparr>term_dirty := b\<rparr>\<rparr>)"
  unfolding wm_keeps_def
proof (safe)
  fix g :: wm
  show "wm_ok g \<Longrightarrow> wm_ok (raise_window i g)" by (rule raise_window_ok)
  show "wm_ok g \<Longrightarrow> wm_ok (close_window i g)" by (rule close_window_ok)
  show "wm_ok g \<Longrightarrow> wm_ok (open_app fb t g)" by (rule open_app_ok)
  show "wm_ok g \<Longrightarrow> wm_ok (set_title i ttl g)" by (rule set_title_ok)
  show "wm_ok g \<Longrightarrow> wm_ok (move_window i x y g)" by (rule move_window_ok)
  show "wm_ok g \<Longrightarrow> wm_ok (set_dirty g)" by simp
  show "wm_ok g \<Longrightarrow> wm_ok (g\<lparr>wm_term := (wm_term g)\<lparr>term_dirty := b\<rparr>\<rparr>)" by (simp add: wm_ok_def open_windows_def)
  show "\<exists>b. wm_term (raise_window i g) = (wm_term g)\<lparr>term_dirty := b\<rparr>" "\<exists>b. wm_term (set_title i ttl g) = (wm_term g)\<lparr>term_dirty := b\<rparr>"
    "\<exists>b. wm_term (move_window i x y g) = (wm_term g)\<lparr>term_dirty := b\<rparr>"
    using same_dirty by (simp_all add: raise_window_def set_title_def move_window_def)
  show "\<exists>b. wm_term (set_dirty g) = (wm_term g)\<lparr>term_dirty := b\<rparr>" by (auto simp: set_dirty_def)
  show "\<exists>b. wm_term (close_window i g) = (wm_term g)\<lparr>term_dirty := b\<rparr>"
    using same_dirty by (auto simp: close_window_def set_dirty_def)
  show "\<exists>b. wm_term (open_app fb t g) = (wm_term g)\<lparr>term_dirty := b\<rparr>"
    using same_dirty by (auto simp: open_app_def set_dirty_def split: option.split prod.split)
  show "\<exists>ba. wm_term (g\<lparr>wm_term := (wm_term g)\<lparr>term_dirty := b\<rparr>\<rparr>) = (wm_term g)\<lparr>term_dirty := ba\<rparr>" by auto
qed

lemma wm_keeps_comp: "wm_keeps f \<Longrightarrow> wm_keeps h \<Longrightarrow> wm_keeps (\<lambda>g. f (h g))"
  unfolding wm_keeps_def
proof (intro allI conjI impI)
  fix g assume f: "\<forall>g. (wm_ok g \<longrightarrow> wm_ok (f g)) \<and> (\<exists>b. wm_term (f g) = (wm_term g)\<lparr>term_dirty := b\<rparr>)"
    and h: "\<forall>g. (wm_ok g \<longrightarrow> wm_ok (h g)) \<and> (\<exists>b. wm_term (h g) = (wm_term g)\<lparr>term_dirty := b\<rparr>)"
  show "wm_ok g \<Longrightarrow> wm_ok (f (h g))" using f h by blast
  obtain b c where "wm_term (h g) = (wm_term g)\<lparr>term_dirty := b\<rparr>" "wm_term (f (h g)) = (wm_term (h g))\<lparr>term_dirty := c\<rparr>"
    using f h by blast
  then show "\<exists>b. wm_term (f (h g)) = (wm_term g)\<lparr>term_dirty := b\<rparr>" by (intro exI [of _ c]) simp
qed

lemma desk_ok_wm:
  assumes "desk_ok d" and "wm_keeps f" and "d_wm d' = f (d_wm d)" and "g_args_buf (d_files d') = g_args_buf (d_files d)"
    and "\<forall>i. g_drag_idx d' = Some i \<longrightarrow> i < MAX_WINDOWS"
  shows "desk_ok d'"
proof -
  obtain b where "wm_term (f (d_wm d)) = (wm_term (d_wm d))\<lparr>term_dirty := b\<rparr>" using assms(2) unfolding wm_keeps_def by blast
  then show ?thesis using assms unfolding desk_ok_def wm_keeps_def by simp
qed

lemma on_wm_ok: "desk_ok d \<Longrightarrow> wm_keeps f \<Longrightarrow> desk_ok (on_wm f d)"
  by (rule desk_ok_wm [where f = f and d = d]) (simp_all add: desk_ok_def)

text \<open>An operation that leaves the windows and the argument alone.\<close>

lemma desk_ok_same:
  assumes "desk_ok d" and "d_wm d' = d_wm d" and "g_args_buf (d_files d') = g_args_buf (d_files d)" and "g_drag_idx d' = g_drag_idx d"
  shows "desk_ok d'"
  using assms by (simp add: desk_ok_def)

lemma drain_ok: "desk_ok d \<Longrightarrow> desk_ok (drain d)"
  by (simp add: desk_ok_def drain_def Let_def term_ok_puts wm_ok_def open_windows_def)

section \<open>Repainting keeps it\<close>

lemma place_toolbar_args [simp]: "g_args_buf (place_toolbar w f) = g_args_buf f"
  by (simp add: place_toolbar_def Let_def)

lemma draw_files_args: "draw_files_in w s f = Some (ops, f') \<Longrightarrow> g_args_buf f' = g_args_buf f"
  unfolding draw_files_in_def Let_def by (auto simp: bind_eq_Some_conv case_prod_beta)

lemma draw_editor_args: "draw_editor_in w t s f = (ops, f') \<Longrightarrow> g_args_buf f' = g_args_buf f"
  by (auto simp: draw_editor_in_def Let_def)

lemma draw_content_same:
  assumes "draw_window_content w d = Some (ops, d')"
  shows "d_wm d' = d_wm d \<and> g_args_buf (d_files d') = g_args_buf (d_files d) \<and> g_drag_idx d' = g_drag_idx d \<and> d_fb d' = d_fb d \<and>
    d_world d' = d_world d"
  using assms by (cases "win_type w")
    (auto simp: draw_window_content_def dest: draw_files_args draw_editor_args split: prod.splits)

lemma draw_windows_same:
  "draw_windows zs d = Some (ops, d') \<Longrightarrow> d_wm d' = d_wm d \<and> g_args_buf (d_files d') = g_args_buf (d_files d) \<and>
     g_drag_idx d' = g_drag_idx d \<and> d_fb d' = d_fb d \<and> d_world d' = d_world d"
proof (induction zs arbitrary: d ops)
  case (Cons z zs)
  then obtain o1 d1 o2 where "draw_window_content (windows (d_wm d) ! z) d = Some (o1, d1)" "draw_windows zs d1 = Some (o2, d')"
    by (auto simp: Let_def bind_eq_Some_conv)
  then show ?case using draw_content_same Cons.IH by metis
qed simp

lemma gui_present_same:
  assumes "gui_present d = Some d'"
  shows "d_wm d' = d_wm d \<and> g_args_buf (d_files d') = g_args_buf (d_files d) \<and> g_drag_idx d' = g_drag_idx d \<and> d_fb d' = d_fb d"
  using assms by (auto simp: gui_present_def redraw_all_def bind_eq_Some_conv dest: draw_windows_same)

lemma gui_present_ok: "desk_ok d \<Longrightarrow> gui_present d = Some d' \<Longrightarrow> desk_ok d'"
  using gui_present_same by (metis desk_ok_same)

section \<open>Clicks and keys keep it\<close>

lemma desk_ok_fields [simp]:
  "desk_ok (d\<lparr>d_calc := c\<rparr>) = desk_ok d" "desk_ok (d\<lparr>d_mouse := m\<rparr>) = desk_ok d" "desk_ok (d\<lparr>last_x := x, last_y := y\<rparr>) = desk_ok d"
  "desk_ok (d\<lparr>last_paint_tick := t\<rparr>) = desk_ok d" "desk_ok d \<Longrightarrow> desk_ok (d\<lparr>g_drag_idx := None\<rparr>)"
  by (simp_all add: desk_ok_def)

lemma retitle_keeps:
  "wm_keeps (\<lambda>g. set_dirty (raise_window i (set_title i ttl g)))" "wm_keeps (\<lambda>g. set_title i ttl (open_app fb t g))"
  by (rule wm_keeps_comp [OF wm_keeps_ops(6) wm_keeps_comp [OF wm_keeps_ops(1) wm_keeps_ops(4)]],
      rule wm_keeps_comp [OF wm_keeps_ops(4) wm_keeps_ops(3)])

lemma edit_file_ok: "desk_ok d \<Longrightarrow> desk_ok (edit_file n d)"
proof -
  assume ok: "desk_ok d"
  let ?ttl = "take 95 (''Editor - '' @ vfs_path_of n 80 (desk_fs d))"
  have drag: "\<forall>i. g_drag_idx d = Some i \<longrightarrow> i < MAX_WINDOWS" using ok by (simp add: desk_ok_def)
  have by_wm: "desk_ok d'" if "wm_keeps h" "d_wm d' = h (d_wm d)" "g_args_buf (d_files d') = g_args_buf (d_files d)"
      "g_drag_idx d' = g_drag_idx d" for h d'
    by (rule desk_ok_wm [OF ok that(1-3)]) (use that(4) drag in simp)
  consider (skip) "n = 0 \<or> nkind (nodes (desk_fs d) n) \<noteq> VFS_FILE"
    | (fileopen) "n \<noteq> 0" "nkind (nodes (desk_fs d) n) = VFS_FILE" by blast
  then show ?thesis
  proof cases
    case skip
    then show ?thesis using ok by (simp add: edit_file_def open_editor_for_def)
  next
    case fileopen
    show ?thesis
    proof (cases "find_window_of_type APP_EDITOR (windows (d_wm d))")
      case (Some i)
      show ?thesis
        by (rule by_wm [where h = "\<lambda>g. set_dirty (raise_window i (set_title i ?ttl g))"])
          (use fileopen Some in \<open>simp_all add: edit_file_def open_editor_for_def Let_def retitle_keeps\<close>)
    next
      case None
      let ?o = "open_app (d_fb d) APP_EDITOR"
      show ?thesis
      proof (cases "find_window_of_type APP_EDITOR (windows (?o (d_wm d)))")
        case (Some i)
        show ?thesis
          by (rule by_wm [where h = "\<lambda>g. set_title i ?ttl (?o g)"])
            (use fileopen None Some in \<open>simp_all add: edit_file_def open_editor_for_def Let_def retitle_keeps\<close>)
      next
        case n2: None
        show ?thesis
          by (rule by_wm [where h = ?o])
            (use fileopen None n2 in \<open>simp_all add: edit_file_def open_editor_for_def Let_def wm_keeps_ops\<close>)
      qed
    qed
  qed
qed

lemma enter_dir_ok: "desk_ok d \<Longrightarrow> desk_ok (enter_dir n d)"
  by (simp add: enter_dir_def desk_ok_def)

lemma run_exec_ok:
  assumes "desk_ok d" and "run_exec e n d = Some d'"
  shows "desk_ok d'"
proof -
  have k: "wm_keeps (\<lambda>g. case find_window_of_type APP_TERMINAL (windows g) of
      None \<Rightarrow> open_app (d_fb d) APP_TERMINAL g | Some i \<Rightarrow> raise_window i g)"
    using wm_keeps_ops unfolding wm_keeps_def by (auto split: option.split)
  obtain k where "d' = drain ((on_wm (\<lambda>g. case find_window_of_type APP_TERMINAL (windows g) of
      None \<Rightarrow> open_app (d_fb d) APP_TERMINAL g | Some i \<Rightarrow> raise_window i g) d)\<lparr>d_world := (d_world d)\<lparr>w_k := k\<rparr>\<rparr>)"
    using assms(2) by (auto simp: run_exec_def Let_def)
  then show ?thesis using drain_ok desk_ok_same [OF on_wm_ok [OF assms(1) k]] by simp
qed

lemma editor_click_ok: "desk_ok d \<Longrightarrow> editor_handle_click e px py d = Some d' \<Longrightarrow> desk_ok d'"
  by (auto simp: editor_handle_click_def Let_def desk_ok_def split: if_splits)

lemma files_click_ok:
  assumes "desk_ok d" and "files_handle_click e px py d = Some d'"
  shows "desk_ok d'"
proof -
  have f: "desk_ok (on_files (\<lambda>f. f\<lparr>g_args_focused := b\<rparr>) d)" for b using assms(1) by (simp add: desk_ok_def)
  have s: "desk_ok (on_files (\<lambda>f. f\<lparr>g_files_selected := n\<rparr>) d1)" if "desk_ok d1" for n d1 using that by (simp add: desk_ok_def)
  show ?thesis
    using assms(2) f [of True] f [of False] unfolding files_handle_click_def Let_def
    by (auto split: if_splits option.splits vfs_kind.splits prod.splits intro: enter_dir_ok edit_file_ok s dest: run_exec_ok)
qed

lemma click_in_window_ok:
  assumes "desk_ok d" and "click_in_window e t px py d = Some d'"
  shows "desk_ok d'"
  using assms files_click_ok [OF assms(1)] editor_click_ok [OF assms(1)]
  by (cases t) (auto simp: click_in_window_def)

lemma find_in_set: "find P xs = Some x \<Longrightarrow> x \<in> set xs \<and> P x"
  by (induction xs) (auto split: if_splits)

lemma window_at_open:
  assumes "wm_ok g" and "window_at px py g = Some i"
  shows "i < MAX_WINDOWS \<and> win_used (windows g ! i) \<and> i \<in> set (z_order g)"
proof -
  have "i \<in> set (rev (z_order g))" using assms(2) find_in_set unfolding window_at_def by fast
  then show ?thesis using assms(1) by (auto simp: wm_ok_def open_windows_def)
qed

lemma left_press_ok:
  assumes "desk_ok d" and "handle_left_press e px py d = Some (b, d')"
  shows "desk_ok d'"
proof -
  have op: "desk_ok (on_wm (raise_window i) d)" "desk_ok (on_wm (close_window i) d)" "desk_ok (on_wm (open_app fb t) d)" for i fb t
    by (intro on_wm_ok assms(1) wm_keeps_ops)+
  have drag: "desk_ok ((on_wm (raise_window i) d)\<lparr>g_drag_idx := Some i, g_drag_off_x := x, g_drag_off_y := y\<rparr>)"
    if "window_at px py (d_wm d) = Some i" for i x y
    by (rule desk_ok_wm [OF assms(1) wm_keeps_ops(1), of _ i]) (use window_at_open [OF _ that] assms(1) in \<open>simp_all add: desk_ok_def\<close>)
  show ?thesis
    using assms(2) assms(1) op drag click_in_window_ok [OF op(1)] unfolding handle_left_press_def Let_def
    by (auto split: if_splits option.splits)
qed

lemma touched_ok: "desk_ok d \<Longrightarrow> desk_ok (touched d)"
  unfolding touched_def by (intro on_wm_ok wm_keeps_ops)

lemma set_fs_ok: "desk_ok d \<Longrightarrow> desk_ok (set_fs s d)"
  by (rule desk_ok_same [of d]) simp_all

lemma args_key_ok: "desk_ok d \<Longrightarrow> desk_ok (args_key c d)"
  unfolding args_key_def Let_def by (auto intro!: touched_ok) (auto simp: desk_ok_def)

lemma handle_key_ok:
  assumes "desk_ok d" and "gui_handle_key c d = Some (b, d')"
  shows "desk_ok d'"
  using assms args_key_ok [OF assms(1)] touched_ok [OF set_fs_ok [OF assms(1)]] set_fs_ok [OF assms(1)]
  by (auto simp: gui_handle_key_def editor_key_def append_to_file_def Let_def split: if_splits prod.splits)

section \<open>The tick keeps it\<close>

lemma drag_update_ok: "desk_ok d \<Longrightarrow> drag_update px py d = (b, d') \<Longrightarrow> desk_ok d'"
  using on_wm_ok [OF _ wm_keeps_ops(5)]
  by (auto simp: drag_update_def Let_def split: option.splits if_splits prod.splits)


lemma tick_parts_ok:
  "desk_ok d \<Longrightarrow> tick_press e ev d = Some (b, d') \<Longrightarrow> desk_ok d'"
  "desk_ok d \<Longrightarrow> desk_ok (tick_release ev d)"
  "desk_ok d \<Longrightarrow> tick_pointer ev d = (b, d') \<Longrightarrow> desk_ok d'"
  "desk_ok d \<Longrightarrow> tick_due d = (b, d') \<Longrightarrow> desk_ok d'"
  using left_press_ok by (auto simp: tick_press_def tick_release_def tick_pointer_def tick_due_def split: if_splits)

lemma tick_input_cases:
  assumes "tick_input e d = Some (b, d')"
  obtains ev m hit d1 dragged d2 pointer d3 due where "mouse_consume_event (d_mouse d) = (ev, m)"
    and "tick_press e ev (d\<lparr>d_mouse := m\<rparr>) = Some (hit, d1)" and "drag_update (ev_x ev) (ev_y ev) d1 = (dragged, d2)"
    and "tick_pointer ev (tick_release ev d2) = (pointer, d3)" and "tick_due d3 = (due, d')"
    and "b \<longleftrightarrow> term_dirty (wm_term (d_wm d)) \<or> hit \<or> dragged \<or> pointer \<or> due"
proof -
  obtain ev m where 1: "mouse_consume_event (d_mouse d) = (ev, m)" by fastforce
  then obtain hit d1 where 2: "tick_press e ev (d\<lparr>d_mouse := m\<rparr>) = Some (hit, d1)"
    using assms by (auto simp: tick_input_def bind_eq_Some_conv)
  obtain dragged d2 where 3: "drag_update (ev_x ev) (ev_y ev) d1 = (dragged, d2)" by fastforce
  obtain pointer d3 where 4: "tick_pointer ev (tick_release ev d2) = (pointer, d3)" by fastforce
  obtain due d4 where 5: "tick_due d3 = (due, d4)" by fastforce
  show thesis using that [OF 1 2 3 4] assms by (simp add: tick_input_def 1 2 3 4 5)
qed

lemma tick_input_ok:
  assumes "desk_ok d" and "tick_input e d = Some (b, d')"
  shows "desk_ok d'"
  using assms(2)
proof (cases rule: tick_input_cases)
  case (1 ev m hit d1 dragged d2 pointer d3 due)
  have "desk_ok d1" using tick_parts_ok(1) [OF _ 1(2)] assms(1) by simp
  then have "desk_ok (tick_release ev d2)" using drag_update_ok [OF _ 1(3)] tick_parts_ok(2) by blast
  then show ?thesis using tick_parts_ok(3) [OF _ 1(4)] tick_parts_ok(4) [OF _ 1(5)] by blast
qed

lemma clear_dirty_keeps: "wm_keeps clear_dirty"
  using wm_keeps_ops(7) [of False] by (simp add: clear_dirty_def [abs_def])

lemma gui_tick_ok:
  assumes "desk_ok d" and "gui_tick e d = Some d'"
  shows "desk_ok d'"
proof -
  obtain need d1 where t: "tick_input e d = Some (need, d1)" using assms(2) by (auto simp: gui_tick_def bind_eq_Some_conv)
  have ok: "desk_ok d1" by (rule tick_input_ok [OF assms(1) t])
  show ?thesis
  proof (cases need)
    case True
    then have "gui_present (on_wm clear_dirty d1) = Some d'" using assms(2) by (simp add: gui_tick_def t)
    then show ?thesis by (rule gui_present_ok [OF on_wm_ok [OF ok clear_dirty_keeps]])
  qed (use assms(2) t ok in \<open>simp add: gui_tick_def\<close>)
qed

end
