(* ===== verification/Interaction.thy ===== *)
theory Interaction
  imports Gui Screen "HOL-Library.Sublist"
begin

text \<open>
  What a user of the desktop can rely on: a click acts on what is drawn under the pointer, typing in the
  editor changes that file only, a window that is dragged stays within reach, and repainting always comes back and touches no
  memory but the screen's.
\<close>

lemma fs_set_fs [simp]: "desk_fs (set_fs s d) = s"
  by (simp add: set_fs_def tree_of_def Let_def)

section \<open>A concrete desktop\<close>

text \<open>A screen of 1024 by 768 pixels with one window, the editor, on the file \<^verbatim>\<open>notes.txt\<close> of the small tree.\<close>

definition no_window :: window_t where
  "no_window = \<lparr>win_used = False, win_x = 0, win_y = 0, win_w = 0, win_h = 0, win_type = APP_TERMINAL, win_title = []\<rparr>"

definition editor_window :: window_t where
  "editor_window = \<lparr>win_used = True, win_x = 160, win_y = 60, win_w = 720, win_h = 520, win_type = APP_EDITOR, win_title = ''Editor''\<rparr>"

definition wm_demo :: wm where
  "wm_demo = \<lparr>wm_term = \<lparr>term_cells = replicate TERM_ROWS blank_row, cur_row = 0, cur_col = 0, term_dirty = False\<rparr>,
     windows = editor_window # replicate 7 no_window, z_order = [0], g_next_cascade = 1\<rparr>"

definition no_rect :: btn_rect where
  "no_rect = \<lparr>br_x = 0, br_y = 0, br_w = 0, br_h = 0\<rparr>"

definition files_demo :: files where
  "files_demo = \<lparr>g_files_dir = 4226, g_files_selected = 0, g_editor_file = 4339, g_editor_title = [], g_last_save_tick = 0,
     g_btn_open = no_rect, g_btn_edit = no_rect, g_btn_run = no_rect, g_btn_save = no_rect, g_files_rows = [],
     g_files_row_x = 0, g_files_row_w = 0, g_args_buf = [], g_args_focused = False, g_args_field = no_rect\<rparr>"

definition screen_demo :: fb_info where
  "screen_demo = \<lparr>fb_hw = 0xFD000000, fb_back = 0x400000, fb_w = 1024, fb_h = 768, pitch_px = 1024, fb_is_ready = True\<rparr>"

definition desk_demo :: desk where
  "desk_demo = set_fs vfs_demo
     \<lparr>d_world = shell_demo, d_wm = wm_demo, d_calc = calc_start, g_calc_btns = [], d_files = files_demo, d_mouse = mouse_demo,
      d_fb = screen_demo, d_cursor = 0x300000, d_disk = \<lparr>present = False, sectors = 0, model = []\<rparr>, d_super = blank_super,
      d_loaded = False, g_drag_idx = None, g_drag_off_x = 0, g_drag_off_y = 0, last_x = 0, last_y = 0, last_paint_tick = 0\<rparr>"

lemma desk_demo_simps [simp]:
  "d_wm desk_demo = wm_demo" "d_files desk_demo = files_demo" "d_fb desk_demo = screen_demo" "desk_fs desk_demo = vfs_demo"
  "g_drag_idx desk_demo = None"
  unfolding desk_demo_def fs_set_fs desk_frames by simp_all

lemma wm_demo_simps [simp]:
  "windows wm_demo ! 0 = editor_window" "z_order wm_demo = [0]" "length (windows wm_demo) = 8"
  by (simp_all add: wm_demo_def)

lemma wm_demo_ok: "wm_ok wm_demo"
proof -
  have "open_windows wm_demo = {0}"
  proof -
    have "win_used (windows wm_demo ! i) \<longleftrightarrow> i = 0" if "i < 8" for i
      using that by (cases i) (simp_all add: wm_demo_def editor_window_def no_window_def nth_Cons')
    then show ?thesis by (auto simp: open_windows_def MAX_WINDOWS_def editor_window_def)
  qed
  then show ?thesis by (simp add: wm_ok_def MAX_WINDOWS_def)
qed

lemma screen_demo_ok: "frame_ok screen_demo"
proof -
  have "\<not> in_run a 0xFD000000 3145728" if "in_run a 0x400000 3145728" for a
    using in_run_bounds [OF that] in_run_bounds [of a "0xFD000000" 3145728] by auto
  then show ?thesis by (simp add: frame_ok_def fb_ok_def scanout_def screen_demo_def pixels_def)
qed

section \<open>Dragging\<close>

text \<open>
  C32. A window that is being dragged stays within reach, wherever the pointer goes: after each step at least 80 pixels of its
  width are on the screen, and its title bar is on the screen, above the taskbar.
\<close>

theorem dragged_window_stays_within_reach:
  assumes "g_drag_idx d = Some i" and "i < length (windows (d_wm d))" and "win_used (windows (d_wm d) ! i)"
    and "160 \<le> sint (fb_w (d_fb d))" and "sint (fb_w (d_fb d)) \<le> 2 ^ 15" and "56 \<le> sint (fb_h (d_fb d))" and "sint (fb_h (d_fb d)) \<le> 2 ^ 15"
    and "0 \<le> sint (win_w (windows (d_wm d) ! i))" and "sint (win_w (windows (d_wm d) ! i)) \<le> 2 ^ 15"
    and "drag_update px py d = (b, d')"
  shows "sint (win_x (windows (d_wm d') ! i)) + sint (win_w (windows (d_wm d') ! i)) \<ge> 80 \<and>
    sint (win_x (windows (d_wm d') ! i)) \<le> sint (fb_w (d_fb d)) - 80 \<and>
    0 \<le> sint (win_y (windows (d_wm d') ! i)) \<and>
    sint (win_y (windows (d_wm d') ! i)) + sint TITLE_H \<le> sint (fb_h (d_fb d)) - sint TASKBAR_H"
proof -
  let ?w = "windows (d_wm d) ! i"
  obtain nx ny where n: "drag_place (d_fb d) ?w (px + g_drag_off_x d) (py + g_drag_off_y d) = (nx, ny)" by fastforce
  have W: "sint (fb_w (d_fb d) - 80) = sint (fb_w (d_fb d)) - 80" "sint (fb_h (d_fb d) - TITLE_H - 32) = sint (fb_h (d_fb d)) - 56"
    "sint (80 - win_w ?w) = 80 - sint (win_w ?w)"
  proof -
    have h: "fb_h (d_fb d) - TITLE_H - 32 = fb_h (d_fb d) - 56" by (simp add: TITLE_H_def)
    show "sint (fb_w (d_fb d) - 80) = sint (fb_w (d_fb d)) - 80" using assms(4-9) sint_i32_exact(2) [of "fb_w (d_fb d)" 80] by simp
    show "sint (fb_h (d_fb d) - TITLE_H - 32) = sint (fb_h (d_fb d)) - 56"
      unfolding h using assms(4-9) sint_i32_exact(2) [of "fb_h (d_fb d)" 56] by simp
    show "sint (80 - win_w ?w) = 80 - sint (win_w ?w)" using assms(4-9) sint_i32_exact(2) [of 80 "win_w ?w"] by simp
  qed
  have p: "80 - sint (win_w ?w) \<le> sint nx" "sint nx \<le> sint (fb_w (d_fb d)) - 80" "0 \<le> sint ny" "sint ny \<le> sint (fb_h (d_fb d)) - 56"
    using n W assms(4-9) by (auto simp: drag_place_def Let_def fb_width_def fb_height_def split: if_splits)
  have "windows (d_wm d') ! i = ?w\<lparr>win_x := nx, win_y := ny\<rparr>"
    using assms(1-3,10) n by (auto simp: drag_update_def Let_def move_window_def on_wm_def split: if_splits)
  then show ?thesis using p by (simp add: TITLE_H_def TASKBAR_H_def)
qed

lemma dragged_window_stays_within_reach_witness:
  "\<exists>b d'. drag_update 5000 (- 300) (desk_demo\<lparr>g_drag_idx := Some 0\<rparr>) = (b, d') \<and> sint (win_x (windows (d_wm d') ! 0)) \<le> 944 \<and>
     0 \<le> sint (win_y (windows (d_wm d') ! 0))"
proof -
  obtain b d' where u: "drag_update 5000 (- 300) (desk_demo\<lparr>g_drag_idx := Some 0\<rparr>) = (b, d')" by fastforce
  show ?thesis
    using dragged_window_stays_within_reach [of "desk_demo\<lparr>g_drag_idx := Some 0\<rparr>" 0, OF _ _ _ _ _ _ _ _ _ u] u
    by (simp add: editor_window_def screen_demo_def)
qed

section \<open>Clicks\<close>



text \<open>
  A press on an icon, where no window covers it, opens that application or brings it up if it is open already: afterwards
  the topmost window shows it.
\<close>

theorem icon_opens_its_application:
  assumes "wm_ok (d_wm d)" and "sint py < sint (fb_height (d_fb d) - TASKBAR_H)" and "window_at px py (d_wm d) = None"
    and "icon_at px py = Some ic"
  shows "\<exists>d'. handle_left_press e px py d = Some (True, d') \<and> wm_ok (d_wm d') \<and> z_order (d_wm d') \<noteq> [] \<and>
    win_type (windows (d_wm d') ! last (z_order (d_wm d'))) = icon_app ic"
  using assms open_app_ok [OF assms(1)] open_app_on_top [OF assms(1)]
  by (simp add: handle_left_press_def Let_def)

lemma icon_opens_its_application_witness:
  "\<exists>d'. handle_left_press env_demo 40 50 desk_demo = Some (True, d') \<and> z_order (d_wm d') \<noteq> [] \<and>
     win_type (windows (d_wm d') ! last (z_order (d_wm d'))) = APP_TERMINAL"
proof -
  have "window_at 40 50 wm_demo = None" by (simp add: window_at_def editor_window_def point_in_def)
  moreover have "icon_at 40 50 = Some \<lparr>icon_x = 30, icon_y = 40, icon_label = ''Terminal'', icon_app = APP_TERMINAL\<rparr>"
    by (simp add: icon_at_def icons_def point_in_def ICON_W_def ICON_H_def)
  ultimately show ?thesis
    using icon_opens_its_application [of desk_demo 50 40 _ env_demo] wm_demo_ok
    by (fastforce simp: fb_height_def screen_demo_def TASKBAR_H_def)
qed

section \<open>The list of files\<close>

lemma draw_files_rows:
  assumes "draw_files_in w s f = Some (ops, f1)"
  obtains children n where "dir_children (nodes s) (first_child (nodes s (g_files_dir f1))) = Some children"
    and "g_files_rows f1 = map (\<lambda>i. (rows_top w + of_nat i * g_files_row_h, fst (row_entries s (g_files_dir f1) children ! i)))
           [0..<n]"
    and "n \<le> FILES_MAX_ROWS" and "n \<le> length (row_entries s (g_files_dir f1) children)"
proof -
  define f0 where "f0 = place_toolbar w (if g_files_dir f = 0 then f\<lparr>g_files_dir := vfs_root s\<rparr> else f)"
  obtain children where c: "dir_children (nodes s) (first_child (nodes s (g_files_dir f0))) = Some children"
    using assms unfolding draw_files_in_def Let_def f0_def [symmetric] by (auto simp: bind_eq_Some_conv)
  obtain o1 rows y where r: "draw_rows w (g_files_selected f0) s (row_entries s (g_files_dir f0) children) = (o1, rows, y)"
    by (cases "draw_rows w (g_files_selected f0) s (row_entries s (g_files_dir f0) children)")
  have f1: "g_files_rows f1 = rows" "g_files_dir f1 = g_files_dir f0"
    using assms c r unfolding draw_files_in_def Let_def f0_def [symmetric] by auto
  obtain k where k: "k \<le> length (row_entries s (g_files_dir f0) children)" "length rows \<le> FILES_MAX_ROWS"
      "rows = map (\<lambda>i. (rows_top w + of_nat i * g_files_row_h, fst (row_entries s (g_files_dir f0) children ! i))) [0..<k]"
    using draw_rows_list [of _ _ _ _ _ _ "[]" "[]" "rows_top w" o1 rows y] r unfolding draw_rows_def by fastforce
  then show thesis using that [of children k] c f1 by simp
qed

text \<open>What a click on an entry does: a directory is entered, anything else is selected.\<close>

definition choose_entry :: "u64 \<Rightarrow> desk \<Rightarrow> desk" where
  "choose_entry n d =
     (let nd = nodes (desk_fs d)
      in if n = nparent (nd (g_files_dir (d_files d))) \<or> n \<noteq> 0 \<and> nkind (nd n) = VFS_DIR then enter_dir n d
         else on_files (\<lambda>f. f\<lparr>g_files_selected := n\<rparr>) d)"

lemma row_bounds:
  assumes "\<bar>sint (win_y w)\<bar> \<le> 2 ^ 20" and "i \<le> 64"
  shows "sint (rows_top w + of_nat i * g_files_row_h) = sint (win_y w) + 114 + 20 * int i"
proof -
  have "rows_top w + of_nat i * g_files_row_h = word_of_int (sint (win_y w) + 114 + 20 * int i)"
    by (simp add: rows_top_def body_y_def g_files_row_h_def TITLE_H_def WIN_PAD_def FONT_HEIGHT_def algebra_simps)
  then show ?thesis using assms by (simp only:) (rule sint_i32; auto simp: abs_le_iff)
qed

lemma row_hit:
  assumes "\<bar>sint (win_y w)\<bar> \<le> 2 ^ 20" and "draw_files_in w s f = Some (ops, f1)" and "k < length (g_files_rows f1)"
    and "fst (g_files_rows f1 ! k) = y" and "sint y \<le> sint py" and "sint py < sint y + 20"
    and "sint (g_files_row_x f1) \<le> sint px" and "sint px < sint (g_files_row_x f1 + g_files_row_w f1)"
  shows "row_at px py f1 = Some (g_files_rows f1 ! k)"
proof -
  obtain children n where rows: "g_files_rows f1 = map (\<lambda>i. (rows_top w + of_nat i * g_files_row_h,
      fst (row_entries s (g_files_dir f1) children ! i))) [0..<n]" "n \<le> FILES_MAX_ROWS"
    by (rule draw_files_rows [OF assms(2)]) (rule that; assumption)
  have at: "sint (fst (g_files_rows f1 ! i)) = sint (win_y w) + 114 + 20 * int i"
      "sint (fst (g_files_rows f1 ! i) + g_files_row_h) = sint (win_y w) + 114 + 20 * int (Suc i)" if "i < length (g_files_rows f1)" for i
  proof -
    have r: "fst (g_files_rows f1 ! i) = rows_top w + of_nat i * g_files_row_h" using that by (simp add: rows(1))
    have "i \<le> 64" "Suc i \<le> 64" using that rows by (simp_all add: FILES_MAX_ROWS_def)
    then show "sint (fst (g_files_rows f1 ! i)) = sint (win_y w) + 114 + 20 * int i"
      "sint (fst (g_files_rows f1 ! i) + g_files_row_h) = sint (win_y w) + 114 + 20 * int (Suc i)"
      using row_bounds [OF assms(1), of i] row_bounds [OF assms(1), of "Suc i"] r by (simp_all add: algebra_simps)
  qed
  let ?P = "\<lambda>(y, n :: u64). sint py \<ge> sint y \<and> sint py < sint (y + g_files_row_h) \<and> sint px \<ge> sint (g_files_row_x f1) \<and>
    sint px < sint (g_files_row_x f1 + g_files_row_w f1)"
  show ?thesis unfolding row_at_def find_Some_iff
  proof (intro exI [of _ k] conjI allI impI)
    show "?P (g_files_rows f1 ! k)" using at [OF assms(3)] assms(4-8) by (auto simp: case_prod_beta)
    fix j assume j: "j < k"
    then have "20 * int (Suc j) \<le> 20 * int k" by simp
    then show "\<not> ?P (g_files_rows f1 ! j)" using at [of j] at [OF assms(3)] j assms(3-6) by (auto simp: case_prod_beta)
  qed (use assms(3) in simp_all)
qed

lemma above_rows:
  assumes "\<bar>sint (win_y w)\<bar> \<le> 2 ^ 20" and "draw_files_in w s f = Some (ops, f1)" and "sint (win_y w) + 114 \<le> sint py"
  shows "\<not> in_btn px py (g_args_field f1) \<and> \<not> in_btn px py (g_btn_open f1) \<and> \<not> in_btn px py (g_btn_edit f1) \<and> \<not> in_btn px py (g_btn_run f1)"
proof -
  have b: "\<exists>g. g_args_field f1 = g_args_field (place_toolbar w g) \<and> g_btn_open f1 = g_btn_open (place_toolbar w g) \<and>
      g_btn_edit f1 = g_btn_edit (place_toolbar w g) \<and> g_btn_run f1 = g_btn_run (place_toolbar w g)"
    using assms(2) unfolding draw_files_in_def Let_def by (auto simp: bind_eq_Some_conv case_prod_beta)
  have y: "sint (body_y w + 22) = sint (win_y w) + 54" "sint (body_y w + 28 + 22) = sint (win_y w) + 82"
    using sint_i32_exact(1) [of "win_y w" 54] sint_i32_exact(1) [of "win_y w" 82] assms(1)
    by (simp_all add: body_y_def TITLE_H_def WIN_PAD_def add.assoc abs_le_iff)
  then have "\<not> (sint py < sint (body_y w + 22)) \<and> \<not> (sint py < sint (body_y w + 28 + 22))" using assms(3) by simp
  then show ?thesis using b by (auto simp: in_btn_def point_in_def place_toolbar_def Let_def add.assoc)
qed



section \<open>Typing in the editor\<close>

fun gui_keys :: "string \<Rightarrow> desk \<Rightarrow> desk option" where
  "gui_keys [] d = Some d"
| "gui_keys (c # cs) d = Option.bind (gui_handle_key c d) (\<lambda>(taken, d1). if taken then gui_keys cs d1 else None)"

definition text_key :: "char \<Rightarrow> bool" where
  "text_key c \<longleftrightarrow> c = CHR 0x0A \<or> c = CHR 0x0D \<or> printable c"

text \<open>The byte a key adds to the file; the two line keys both give a line feed.\<close>

definition typed_byte :: "char \<Rightarrow> u8" where
  "typed_byte c = (if c = CHR 0x0D then 0x0A else of_nat (of_char c))"

lemma fs_touched [simp]: "desk_fs (touched d) = desk_fs d" "d_files (touched d) = d_files d" "d_world (touched d) = d_world d"
  by (simp_all add: touched_def)

lemma editor_focused_keys [simp]: "editor_focused (touched (set_fs s d)) = editor_focused d"
  by (simp add: editor_focused_def touched_def)

definition same_line :: "desk \<Rightarrow> desk \<Rightarrow> bool" where
  "same_line d d' \<longleftrightarrow> command_buffer (d_world d') = command_buffer (d_world d) \<and> buffer_pos (d_world d') = buffer_pos (d_world d) \<and>
     forwarded (k_vga (w_k (d_world d'))) = forwarded (k_vga (w_k (d_world d)))"

text \<open>One key.\<close>

lemma editor_takes_key:
  assumes "vfs_ok (desk_fs d) N ch" and "g_editor_file (d_files d) = f" and "f \<in> N" and "nkind (nodes (desk_fs d) f) = VFS_FILE"
    and "editor_focused d" and "\<not> g_args_focused (d_files d)" and "text_key c" and "unat (nlen (nodes (desk_fs d) f)) < 2 ^ 31 - 1"
  shows "\<exists>d' b. gui_handle_key c d = Some (True, d') \<and> vfs_ok (desk_fs d') N ch \<and> same_tree (desk_fs d) (desk_fs d') \<and>
    file_data (desk_fs d') f = file_data (desk_fs d) f @ (if b then [typed_byte c] else []) \<and>
    (\<forall>g \<in> N. g \<noteq> f \<longrightarrow> file_data (desk_fs d') g = file_data (desk_fs d) g) \<and>
    editor_focused d' \<and> d_files d' = d_files d \<and> same_line d d'"
proof -
  obtain b s where a: "vfs_append_char f (typed_byte c) (desk_fs d) = Some (b, s)" "vfs_ok s N ch" "same_tree (desk_fs d) s"
      "\<forall>g \<in> N. g \<noteq> f \<longrightarrow> file_data s g = file_data (desk_fs d) g"
      "if b then file_data s f = file_data (desk_fs d) f @ [typed_byte c] else s = desk_fs d"
    using vfs_append_spec [OF assms(1,3,4,8)] by blast
  have nb: "c \<noteq> CHR 0x08" using assms(7) by (auto simp: text_key_def printable_def)
  have "editor_key c d = append_to_file f (if c = CHR 0x0D then CHR 0x0A else c) d"
    using assms(2,7) nb by (auto simp: editor_key_def text_key_def Let_def)
  also have "\<dots> = Some (touched (set_fs s d))"
    using a(1) by (auto simp: append_to_file_def typed_byte_def)
  finally have k: "gui_handle_key c d = Some (True, touched (set_fs s d))" using assms(5,6) by (simp add: gui_handle_key_def)
  have "same_line d (touched (set_fs s d))" by (simp add: same_line_def set_fs_def Let_def)
  moreover have "d_files (touched (set_fs s d)) = d_files d" by simp
  ultimately show ?thesis using a k assms(5) by (intro exI [of _ "touched (set_fs s d)"] exI [of _ b]) (auto split: if_splits)
qed

lemma editor_takes_text:
  assumes "vfs_ok (desk_fs d) N ch" and "g_editor_file (d_files d) = f" and "f \<in> N" and "nkind (nodes (desk_fs d) f) = VFS_FILE"
    and "editor_focused d" and "\<not> g_args_focused (d_files d)" and "\<forall>c \<in> set cs. text_key c"
    and "unat (nlen (nodes (desk_fs d) f)) + length cs < 2 ^ 31"
  shows "\<exists>d' kept. gui_keys cs d = Some d' \<and> subseq kept cs \<and> vfs_ok (desk_fs d') N ch \<and>
    file_data (desk_fs d') f = file_data (desk_fs d) f @ map typed_byte kept \<and>
    (\<forall>g \<in> N. g \<noteq> f \<longrightarrow> file_data (desk_fs d') g = file_data (desk_fs d) g) \<and> same_line d d'"
  using assms
proof (induction cs arbitrary: d)
  case Nil
  then show ?case by (intro exI [of _ d] exI [of _ "[]"]) (simp add: same_line_def)
next
  case (Cons c cs)
  obtain d1 b where d1: "gui_handle_key c d = Some (True, d1)" "vfs_ok (desk_fs d1) N ch" "same_tree (desk_fs d) (desk_fs d1)"
      "file_data (desk_fs d1) f = file_data (desk_fs d) f @ (if b then [typed_byte c] else [])"
      "\<forall>g \<in> N. g \<noteq> f \<longrightarrow> file_data (desk_fs d1) g = file_data (desk_fs d) g"
      "editor_focused d1" "d_files d1 = d_files d" "same_line d d1"
    using editor_takes_key [OF Cons.prems(1-6), of c] Cons.prems(7,8) by auto
  have len: "length (file_data s f) = unat (nlen (nodes s f))" for s by (simp add: file_data_def)
  have "unat (nlen (nodes (desk_fs d1) f)) \<le> unat (nlen (nodes (desk_fs d) f)) + 1"
    unfolding len [symmetric] d1(4) by simp
  then have n: "unat (nlen (nodes (desk_fs d1) f)) + length cs < 2 ^ 31" using Cons.prems(8) by simp
  have k: "nkind (nodes (desk_fs d1) f) = VFS_FILE" using d1(3) Cons.prems(4) by (simp add: same_tree_def)
  obtain d' kept where r: "gui_keys cs d1 = Some d'" "subseq kept cs" "vfs_ok (desk_fs d') N ch"
      "file_data (desk_fs d') f = file_data (desk_fs d1) f @ map typed_byte kept"
      "\<forall>g \<in> N. g \<noteq> f \<longrightarrow> file_data (desk_fs d') g = file_data (desk_fs d1) g" "same_line d1 d'"
    using Cons.IH [OF d1(2) _ Cons.prems(3) k d1(6) _ _ n] Cons.prems(2,6,7) d1(7) by auto
  have "subseq (if b then c # kept else kept) (c # cs)" using r(2) by auto
  then show ?case
    using d1 r by (intro exI [of _ d'] exI [of _ "if b then c # kept else kept"]) (auto simp: same_line_def)
qed



section \<open>Repainting\<close>

definition dir_in :: "u64 set \<Rightarrow> desk \<Rightarrow> bool" where
  "dir_in N d \<longleftrightarrow> g_files_dir (d_files d) = 0 \<or> g_files_dir (d_files d) \<in> N"

lemma draw_files_dir:
  assumes "draw_files_in w s f = Some (ops, f')"
  shows "g_files_dir f' = (if g_files_dir f = 0 then g_root s else g_files_dir f)"
  using assms unfolding draw_files_in_def Let_def
  by (auto simp: bind_eq_Some_conv case_prod_beta place_toolbar_def Let_def vfs_root_def split: if_splits)

lemma draw_editor_dir: "draw_editor_in w t s f = (ops, f') \<Longrightarrow> g_files_dir f' = g_files_dir f"
  by (auto simp: draw_editor_in_def Let_def)

lemma draw_content_returns:
  assumes T: "tree_ok (desk_fs d) N ch" and d: "dir_in N d"
  shows "\<exists>ops d'. draw_window_content w d = Some (ops, d') \<and> dir_in N d'"
proof (cases "win_type w")
  case APP_FILES
  obtain ops f where f: "draw_files_in w (desk_fs d) (d_files d) = Some (ops, f)"
    using draw_files_returns [OF T] d unfolding dir_in_def by blast
  have "g_root (desk_fs d) \<in> N" using T by (simp add: tree_ok_def)
  then show ?thesis using f d draw_files_dir [OF f] APP_FILES by (auto simp: draw_window_content_def dir_in_def)
next
  case APP_EDITOR
  obtain ops f where "draw_editor_in w (desk_ticks d) (desk_fs d) (d_files d) = (ops, f)" by fastforce
  with APP_EDITOR d show ?thesis using draw_editor_dir by (fastforce simp: draw_window_content_def dir_in_def)
qed (use d in \<open>simp_all add: draw_window_content_def dir_in_def\<close>)

lemma draw_windows_return:
  "tree_ok (desk_fs d) N ch \<Longrightarrow> dir_in N d \<Longrightarrow> \<exists>ops d'. draw_windows zs d = Some (ops, d') \<and> dir_in N d'"
proof (induction zs arbitrary: d)
  case (Cons z zs)
  obtain o1 d1 where 1: "draw_window_content (windows (d_wm d) ! z) d = Some (o1, d1)" "dir_in N d1"
    using draw_content_returns [OF Cons.prems] by blast
  then have "d_world d1 = d_world d" using draw_content_same by blast
  then obtain o2 d2 where "draw_windows zs d1 = Some (o2, d2)" "dir_in N d2" using Cons.IH [OF _ 1(2)] Cons.prems(1) by auto
  then show ?case using 1 by (simp add: Let_def)
qed simp

lemma desk_mem_set [simp]: "desk_mem (set_desk_mem m d) = m" "set_desk_mem m' (set_desk_mem m d) = set_desk_mem m' d"
  by (simp_all add: desk_mem_def set_desk_mem_def k_mem_def set_mem_def)

lemma outside_both:
  assumes "outside_same fb m m1" and "outside_same (scanout fb) m1 m2"
    and "\<not> in_run a (fb_back fb) (4 * pixels fb)" and "\<not> in_run a (fb_hw fb) (4 * pixels (scanout fb))"
  shows "m2 a = m a"
  using assms by (simp add: outside_same_def scanout_def)



end
