(* ===== verification/Kernel.thy ===== *)
theory Kernel
  imports Interaction Idt Gdt Paging
begin

text \<open>
  The kernel as a whole, \<^verbatim>\<open>src/kernel/kernel.cpp\<close>: the search for the frame buffer in the boot information, the order in which
  \<^verbatim>\<open>kernel_main\<close> brings the components up, where a typed key goes (\<^verbatim>\<open>keyboard.cpp\<close>, lines 109 to 111), and the events
  of the running system: hardware interrupts and turns of the main loop. Serial diagnostics are left out.
\<close>

section \<open>The frame buffer tag\<close>

definition MULTIBOOT2_BOOTLOADER_MAGIC :: u64 where "MULTIBOOT2_BOOTLOADER_MAGIC = 0x36d76289"
definition MB2_TAG_END :: u32 where "MB2_TAG_END = 0"
definition MB2_TAG_FRAMEBUFFER :: u32 where "MB2_TAG_FRAMEBUFFER = 8"

text \<open>The walk over the tags; None says that it does not end, as on a tag of size 0.\<close>

partial_function (option) fb_tag_loop :: "mem \<Rightarrow> u64 \<Rightarrow> u64 \<Rightarrow> u64 option" where
  "fb_tag_loop m end_at p =
     (if p \<ge> end_at then Some 0
      else if read32 m p = MB2_TAG_END then Some 0
      else if read32 m p = MB2_TAG_FRAMEBUFFER then Some p
      else fb_tag_loop m end_at (p + ucast ((read32 m (p + 4) + 7) AND NOT 7)))"

definition find_framebuffer_tag :: "mem \<Rightarrow> u64 \<Rightarrow> u64 option" where
  "find_framebuffer_tag m mb_info =
     (if mb_info = 0 then Some 0 else fb_tag_loop m (mb_info + ucast (read32 m mb_info)) (mb_info + 8))"

record mb2_tag_framebuffer =
  tag_addr :: u64
  tag_pitch :: u32
  tag_width :: u32
  tag_height :: u32
  tag_bpp :: u8
  tag_fb_type :: u8

definition get_fb_tag :: "mem \<Rightarrow> u64 \<Rightarrow> mb2_tag_framebuffer" where
  "get_fb_tag m t =
     \<lparr>tag_addr = read64 m (t + 8), tag_pitch = read32 m (t + 16), tag_width = read32 m (t + 20),
      tag_height = read32 m (t + 24), tag_bpp = m (t + 28), tag_fb_type = m (t + 29)\<rparr>"

section \<open>The state of the kernel\<close>

text \<open>
  What the linker, the assembly files and the hardware decide: the environment of theory Programs, the addresses of the tables
  and stubs, the end of the kernel image, a bound on the nesting of scripts, and how many timer
  interrupts the splash screen has seen at each of its readings of the clock.
\<close>

record platform =
  pf_env :: env
  kernel_end :: u64
  idt_at :: u64
  idt_ptr_at :: u64
  isr_at :: "nat \<Rightarrow> u64"
  irq_at :: "nat \<Rightarrow> u64"
  syscall_at :: u64
  gdt_at :: u64
  gdt_ptr_at :: u64
  tss_at :: u64
  pf_nesting :: nat
  pf_frames :: "nat list"

record system =
  sy_desk :: desk
  sy_idt :: idt_state
  sy_gdt :: gdt
  sy_tss :: tss_entry
  task_register :: u16
  sy_pml4 :: u64
  sy_keys :: keyboard
  sy_enabled :: bool
  sy_graphical :: bool

abbreviation pf_dev :: "platform \<Rightarrow> device" where
  "pf_dev pf \<equiv> env_dev (pf_env pf)"

abbreviation sy_world :: "system \<Rightarrow> world" where
  "sy_world s \<equiv> d_world (sy_desk s)"

definition on_desk :: "(desk \<Rightarrow> desk) \<Rightarrow> system \<Rightarrow> system" where
  "on_desk f s = s\<lparr>sy_desk := f (sy_desk s)\<rparr>"

definition on_world :: "(world \<Rightarrow> world) \<Rightarrow> desk \<Rightarrow> desk" where
  "on_world f d = d\<lparr>d_world := f (d_world d)\<rparr>"

definition on_io :: "(history \<Rightarrow> history) \<Rightarrow> desk \<Rightarrow> desk" where
  "on_io f = on_world (\<lambda>w. w\<lparr>w_io := f (w_io w)\<rparr>)"

definition on_console :: "(vga \<Rightarrow> vga) \<Rightarrow> desk \<Rightarrow> desk" where
  "on_console f = on_world (\<lambda>w. w\<lparr>w_k := (w_k w)\<lparr>k_vga := f (k_vga (w_k w))\<rparr>\<rparr>)"

definition on_procs :: "(procs \<Rightarrow> procs) \<Rightarrow> desk \<Rightarrow> desk" where
  "on_procs f = on_world (\<lambda>w. set_procs (f (k_procs (w_k w))) w)"

text \<open>What does not come back is the result \<open>Lost\<close> of theory Shell.\<close>

fun or_lost :: "'a option \<Rightarrow> 'a result" where
  "or_lost None = Lost"
| "or_lost (Some x) = Back x"

section \<open>Where a typed key goes\<close>

text \<open>
  To the program in ring 3 if there is one, else to the desktop, and to the shell if the desktop does not take it. The history of
  the ports is the last argument, as the keyboard driver has it. None says that the call does not return: the command typed
  restarts the machine, or starts a program that never ends.
\<close>

definition key_to_program :: "char \<Rightarrow> desk \<Rightarrow> desk" where
  "key_to_program c d =
     (let k = w_k (d_world d)
      in case stdin_push c (k_stdin k, k_vga k) of (s, v) \<Rightarrow>
           drain (on_world (\<lambda>w. w\<lparr>w_k := k\<lparr>k_stdin := s, k_vga := v\<rparr>\<rparr>) d))"

definition key_to_shell :: "platform \<Rightarrow> char \<Rightarrow> desk \<Rightarrow> desk option" where
  "key_to_shell pf c d =
     (case shell_process_char (pf_nesting pf) (pf_env pf) c (d_world d) of
        Back w \<Rightarrow> Some (drain (d\<lparr>d_world := w\<rparr>))
      | _ \<Rightarrow> None)"

definition route_key :: "platform \<Rightarrow> char \<Rightarrow> desk \<Rightarrow> desk option" where
  "route_key pf c d =
     (if usermode_active (k_user (w_k (d_world d))) then Some (key_to_program c d)
      else Option.bind (gui_handle_key c d) (\<lambda>(taken, d1). if taken then Some d1 else key_to_shell pf c d1))"

definition key_route :: "platform \<Rightarrow> char \<Rightarrow> desk \<Rightarrow> history \<Rightarrow> (desk \<times> history) option" where
  "key_route pf c d h = map_option (\<lambda>d1. (d1, w_io (d_world d1))) (route_key pf c (on_io (\<lambda>_. h) d))"

section \<open>Starting the kernel\<close>

text \<open>Interrupts and system calls: \<open>idt_init\<close> to \<open>syscall_init\<close>.\<close>

definition start_interrupts :: "platform \<Rightarrow> system \<Rightarrow> system option" where
  "start_interrupts pf s =
     (let w = sy_world s;
          i = idt_init (idt_at pf) (idt_ptr_at pf) (isr_at pf) (irq_at pf) (syscall_at pf) (sy_idt s)
      in case keyboard_init (pf_dev pf) (sy_keys s, pic_init (w_io w)) of (ks, h) \<Rightarrow>
           map_option (\<lambda>(t, h1).
               (on_desk (on_world (\<lambda>w. w\<lparr>w_k := (w_k w)\<lparr>k_timer := t\<rparr>, w_io := h1, w_syscalls := syscall_init (w_syscalls w)\<rparr>)) s)
                 \<lparr>sy_idt := i, sy_keys := ks\<rparr>)
             (timer_init (pf_dev pf) 100 (k_timer (w_k w)) h))"

text \<open>Memory: \<open>pmm_init\<close>, \<open>paging_init\<close> and \<open>heap_init\<close>.\<close>

definition start_memory :: "platform \<Rightarrow> u64 \<Rightarrow> system \<Rightarrow> system option" where
  "start_memory pf mb s =
     (let ps = k_procs (w_k (sy_world s)); m = hmem (kheap_of ps)
      in map_option (\<lambda>p.
             case heap_init p (kheap_of ps) of (p1, h) \<Rightarrow>
               (on_desk (on_procs (\<lambda>ps. ps\<lparr>pages_of := p1, kheap_of := h\<rparr>)) s)
                 \<lparr>sy_pml4 := current_pml4 (paging_init (env_cr3 (pf_env pf))
                    \<lparr>pt_mem = m, pt_pmm = p, current_pml4 = sy_pml4 s, invalidated = []\<rparr>)\<rparr>)
           (pmm_init (kernel_end pf) m mb (pages_of ps)))"

text \<open>Segments: \<open>gdt_init\<close>, \<open>tss_init\<close>, \<open>gdt_set_tss\<close> and \<open>tss_flush\<close>, which loads the task register.\<close>

definition GDT_TSS :: u16 where "GDT_TSS = 0x28"

definition tss_flush :: "u16 \<Rightarrow> system \<Rightarrow> system" where
  "tss_flush tss_selector s = s\<lparr>task_register := tss_selector\<rparr>"

definition start_segments :: "platform \<Rightarrow> system \<Rightarrow> system" where
  "start_segments pf s =
     (let g = gdt_init (gdt_at pf) (gdt_ptr_at pf) (sy_gdt s)
      in case tss_init (pages_of (k_procs (w_k (sy_world s)))) of (t, p) \<Rightarrow>
           tss_flush GDT_TSS
             ((on_desk (on_procs (\<lambda>ps. ps\<lparr>pages_of := p\<rparr>)) s)
                \<lparr>sy_tss := t, sy_gdt := gdt_set_tss (gdt_ptr_at pf) (tss_at pf) (of_nat (SIZEOF_TSS_ENTRY - 1)) g\<rparr>))"

text \<open>Devices and files: \<open>pci_init\<close>, \<open>ata_init\<close>, \<open>vfs_init\<close>, \<open>diskfs_init\<close> and \<open>stdin_init\<close>.\<close>

definition start_devices :: "platform \<Rightarrow> desk \<Rightarrow> desk option" where
  "start_devices pf d =
     (case pci_init (pf_dev pf) (w_pci (d_world d), w_io (d_world d)) of (pci, h) \<Rightarrow>
        map_option (\<lambda>(disk, h1). (on_world (\<lambda>w. w\<lparr>w_pci := pci, w_io := h1\<rparr>) d)\<lparr>d_disk := disk\<rparr>)
          (ata_init (pf_dev pf) (d_disk d, h)))"

definition start_files :: "platform \<Rightarrow> desk \<Rightarrow> desk option" where
  "start_files pf d =
     Option.bind (vfs_init (desk_fs d)) (\<lambda>v.
       map_option (\<lambda>k. on_world (\<lambda>w. w\<lparr>w_k := (w_k w)\<lparr>k_stdin := stdin_init (k_stdin (w_k w))\<rparr>\<rparr>) (after_diskfs k (set_fs v d)))
         (diskfs_init (desk_diskfs (pf_dev pf) (set_fs v d))))"

text \<open>Processes: \<open>process_init\<close>; \<^verbatim>\<open>scheduler_init\<close> only writes to the log.\<close>

definition start_processes :: "desk \<Rightarrow> desk option" where
  "start_processes d = map_option (\<lambda>ps. on_procs (\<lambda>_. ps) d) (process_init (k_procs (w_k (d_world d))))"

definition start_components :: "platform \<Rightarrow> u64 \<Rightarrow> system \<Rightarrow> system option" where
  "start_components pf mb s =
     Option.bind (start_interrupts pf s) (\<lambda>s1.
       Option.bind (start_memory pf mb s1) (\<lambda>s2.
         let s3 = start_segments pf s2
         in Option.bind (start_devices pf (sy_desk s3)) (\<lambda>d1.
              Option.bind (start_files pf d1) (\<lambda>d2.
                map_option (\<lambda>d3. s3\<lparr>sy_desk := d3, sy_enabled := True\<rparr>) (start_processes d2)))))"

section \<open>The screen\<close>

text \<open>
  The splash screen runs with interrupts enabled: \<open>pf_frames\<close> counts the timer interrupts before each of its readings of the clock,
  so by its end the timer has handled as many as the first reading that ends it.
\<close>

definition splash_passes :: "nat list \<Rightarrow> nat" where
  "splash_passes ns = hd (dropWhile (\<lambda>n. n < 200) ns)"

definition timer_passes :: "nat \<Rightarrow> desk \<Rightarrow> desk" where
  "timer_passes n d =
     (let w = d_world d
      in case (timer_handler ^^ n) (k_timer (w_k w), k_procs (w_k w)) of (t, ps) \<Rightarrow>
           on_world (\<lambda>w. w\<lparr>w_k := (w_k w)\<lparr>k_timer := t, k_procs := ps\<rparr>\<rparr>) d)"

definition show_splash :: "platform \<Rightarrow> desk \<Rightarrow> desk option" where
  "show_splash pf d =
     map_option (\<lambda>m. timer_passes (splash_passes (pf_frames pf)) (set_desk_mem m d))
       (gui_run_splash (d_fb d) (desk_ticks d) (map (\<lambda>n. desk_ticks d + of_nat n) (pf_frames pf)) (desk_mem d))"

definition start_mouse :: "platform \<Rightarrow> mb2_tag_framebuffer \<Rightarrow> desk \<Rightarrow> desk option" where
  "start_mouse pf t d =
     map_option (\<lambda>(mo, h). (on_io (\<lambda>_. h) d)\<lparr>d_mouse := mo\<rparr>)
       (mouse_init (pf_dev pf) (tag_width t) (tag_height t) (d_mouse d) (w_io (d_world d)))"

definition start_desktop :: "platform \<Rightarrow> mb2_tag_framebuffer \<Rightarrow> desk \<Rightarrow> desk option" where
  "start_desktop pf t d =
     Option.bind (start_mouse pf t d) (\<lambda>d1.
       Option.bind (show_splash pf d1) (\<lambda>d2.
         map_option (on_console (vga_set_gui_redirect True)) (gui_init (pf_dev pf) d2)))"

text \<open>The frame buffer of the boot information, if it is one the driver supports and there is memory for the back buffer.\<close>

definition start_framebuffer :: "mb2_tag_framebuffer \<Rightarrow> desk \<Rightarrow> (bool \<times> desk) option" where
  "start_framebuffer t d =
     map_option (\<lambda>(ok, fb, h). (ok, (on_procs (\<lambda>ps. ps\<lparr>kheap_of := h\<rparr>) d)\<lparr>d_fb := fb\<rparr>))
       (fb_init (tag_addr t) (tag_pitch t) (tag_width t) (tag_height t) (tag_bpp t) (tag_fb_type t) (d_fb d)
          (kheap_of (k_procs (w_k (d_world d)))))"

definition start_screen :: "platform \<Rightarrow> u64 \<Rightarrow> desk \<Rightarrow> (bool \<times> desk) option" where
  "start_screen pf mb d =
     Option.bind (find_framebuffer_tag (desk_mem d) mb) (\<lambda>at.
       if at = 0 then Some (False, d)
       else let t = get_fb_tag (desk_mem d) at
            in Option.bind (start_framebuffer t d) (\<lambda>(ok, d1).
                 if ok then map_option (Pair True) (start_desktop pf t d1) else Some (False, d1)))"

definition greeting :: "bool \<Rightarrow> vga \<Rightarrow> vga" where
  "greeting graphical v =
     (if graphical
      then vga_print (''Click the Terminal icon on the desktop.'' @ LF @ LF) (vga_print (''ParadoxOS - graphical kernel'' @ LF) v)
      else vga_setcolor VGA_WHITE VGA_BLACK (vga_print (''ParadoxOS (text mode)'' @ LF)
             (vga_setcolor VGA_LIGHT_CYAN VGA_BLACK (vga_clear v))))"

text \<open>
  \<^verbatim>\<open>kernel_main\<close> up to its main loop. \<open>Halted\<close> is the endless halt after a wrong magic number; \<open>Lost\<close> says that an
  initialisation does not come back. The calls that print hand over to the terminal when they are done.
\<close>

definition kernel_main :: "platform \<Rightarrow> u64 \<Rightarrow> u64 \<Rightarrow> system \<Rightarrow> system result" where
  "kernel_main pf magic_no mb s =
     (let s1 = on_desk (on_console vga_init) (on_desk (on_io serial_init) s)
      in if magic_no \<noteq> MULTIBOOT2_BOOTLOADER_MAGIC
         then Halted (on_desk (on_console (vga_print (''ERROR: Invalid Multiboot2 magic - halting.'' @ LF))) s1)
         else or_lost (Option.bind (start_components pf mb s1) (\<lambda>s2.
                map_option (\<lambda>(graphical, d).
                    s2\<lparr>sy_graphical := graphical, sy_desk := drain (on_world shell_init (on_console (greeting graphical) d))\<rparr>)
                  (start_screen pf mb (sy_desk s2)))))"

section \<open>The running system\<close>

text \<open>
  A hardware interrupt, by the dispatch of theory Idt. Besides the keyboard's own state and the history of the ports, a
  timer interrupt changes timer and processes, a typed key changes the desktop, and a byte from the mouse the mouse.
\<close>

definition take_irq :: "platform \<Rightarrow> u64 \<Rightarrow> system \<Rightarrow> system option" where
  "take_irq pf n s =
     (let d = sy_desk s; k = w_k (d_world d)
      in map_option (\<lambda>r.
             s\<lparr>sy_keys := irq_keys r,
               sy_desk := on_io (\<lambda>_. irq_io r)
                 (if n = 33 then irq_world r
                  else (on_world (\<lambda>w. w\<lparr>w_k := k\<lparr>k_timer := irq_timer r, k_procs := irq_procs r\<rparr>\<rparr>) d)\<lparr>d_mouse := irq_mouse r\<rparr>)\<rparr>)
           (irq_handler (key_route pf) (pf_dev pf) n
              \<lparr>irq_timer = k_timer k, irq_procs = k_procs k, irq_keys = sy_keys s, irq_mouse = d_mouse d, irq_world = d,
               irq_io = w_io (d_world d)\<rparr>))"

text \<open>One event: an interrupt, or one turn of the main loop. Interrupts come between turns.\<close>

inductive kernel_step :: "platform \<Rightarrow> system \<Rightarrow> system \<Rightarrow> bool" for pf :: platform where
  irq: "sy_enabled s \<Longrightarrow> 32 \<le> n \<Longrightarrow> n < 48 \<Longrightarrow> take_irq pf n s = Some s' \<Longrightarrow> kernel_step pf s s'"
| turn: "sy_graphical s \<Longrightarrow> gui_tick (pf_env pf) (sy_desk s) = Some d \<Longrightarrow> kernel_step pf s (s\<lparr>sy_desk := d\<rparr>)"

inductive kernel_run :: "platform \<Rightarrow> system \<Rightarrow> system \<Rightarrow> bool" for pf :: platform where
  start: "kernel_run pf s s"
| further: "kernel_run pf s s1 \<Longrightarrow> kernel_step pf s1 s2 \<Longrightarrow> kernel_run pf s s2"

end
