(* ===== verification/Running.thy ===== *)
theory Running
  imports Kernel
begin

text \<open>
  What no sequence of interrupts and turns of the main loop can break: the state of the desktop, the file tree, and
  the pointers of shell and windows into it, which keep pointing to nodes of the tree of the kind their users expect.
\<close>

section \<open>The shape of the tree never changes\<close>

lemma same_tree_nodes: "nodes s' = nodes s \<Longrightarrow> g_root s' = g_root s \<Longrightarrow> same_tree s s'"
  by (simp add: same_tree_def)

lemma upd_content_same:
  assumes "\<And>x. nname (f x) = nname x \<and> nkind (f x) = nkind x \<and> nparent (f x) = nparent x \<and> first_child (f x) = first_child x \<and>
    nnext (f x) = nnext x"
  shows "same_tree s (upd_node n f s)"
  using assms by (simp add: same_tree_def upd_node_def)

lemma poke_same: "same_tree s (poke a bs s)"
  by (simp add: same_tree_def poke_def)

lemma heap_same: "same_tree s (s\<lparr>vheap := h\<rparr>)"
  by (simp add: same_tree_def)

lemma ensure_cap_same: "ensure_cap f need s = Some (b, s') \<Longrightarrow> same_tree s s'"
  using same_tree_trans [OF upd_content_same heap_same, of "\<lambda>x. x\<lparr>ncontent := _, ncap := _\<rparr>"]
  by (auto simp: ensure_cap_def Let_def heap_same split: if_splits option.splits prod.splits)

lemma append_char_same:
  assumes "vfs_append_char f c s = Some (b, s')"
  shows "same_tree s s'"
proof -
  have u: "same_tree s1 (upd_node f (\<lambda>x. x\<lparr>nlen := l\<rparr>) (poke a x (poke a' y s1)))" for s1 l a x a' y
    by (rule same_tree_trans [OF same_tree_trans [OF poke_same poke_same] upd_content_same]) simp
  show ?thesis using assms ensure_cap_same same_tree_trans [OF _ u]
    by (auto simp: vfs_append_char_def Let_def split: if_splits option.splits prod.splits)
qed

lemma pop_char_same: "vfs_pop_char f s = (b, s') \<Longrightarrow> same_tree s s'"
  using same_tree_trans [OF upd_content_same poke_same, of "\<lambda>x. x\<lparr>nlen := _\<rparr>"] upd_content_same [of "\<lambda>x. x\<lparr>nlen := _\<rparr>"]
  by (auto simp: vfs_pop_char_def Let_def split: if_splits)

lemma save_same: "diskfs_save f k = Some (b, k') \<Longrightarrow> fs k' = fs k"
  by (auto simp: diskfs_save_def Let_def bind_eq_Some_conv split: if_splits prod.splits)

section \<open>Pointers into the tree\<close>

definition in_tree :: "(u64 \<Rightarrow> u64 list) \<Rightarrow> vfs \<Rightarrow> u64 \<Rightarrow> bool" where
  "in_tree ch s n \<longleftrightarrow> reachable ch (g_root s) n"

text \<open>
  The directory shown is a directory of the tree, unless it is not set and nothing is listed yet; the file being edited is a file of it, and the
  selection and the rows that a click can choose are nodes of it.
\<close>

definition files_ok :: "(u64 \<Rightarrow> u64 list) \<Rightarrow> vfs \<Rightarrow> files \<Rightarrow> bool" where
  "files_ok ch s f \<longleftrightarrow>
     (g_files_dir f = 0 \<and> g_files_rows f = [] \<or> in_tree ch s (g_files_dir f) \<and> nkind (nodes s (g_files_dir f)) = VFS_DIR) \<and>
     (g_files_selected f = 0 \<or> in_tree ch s (g_files_selected f)) \<and>
     (g_editor_file f = 0 \<or> in_tree ch s (g_editor_file f) \<and> nkind (nodes s (g_editor_file f)) = VFS_FILE) \<and>
     (\<forall>r \<in> set (g_files_rows f). in_tree ch s (snd r))"

lemma files_ok_same: "same_tree s s' \<Longrightarrow> files_ok ch s' f = files_ok ch s f"
  by (simp add: files_ok_def in_tree_def same_tree_def)

lemma cwd_ok_same: "same_tree (tree_of w) (tree_of w') \<Longrightarrow> g_cwd w' = g_cwd w \<Longrightarrow> cwd_ok ch w' = cwd_ok ch w"
  by (simp add: cwd_ok_def same_tree_def tree_of_def)

definition tree_held :: "u64 set \<Rightarrow> (u64 \<Rightarrow> u64 list) \<Rightarrow> desk \<Rightarrow> bool" where
  "tree_held N ch d \<longleftrightarrow> tree_ok (desk_fs d) N ch \<and> cwd_ok ch (d_world d) \<and> files_ok ch (desk_fs d) (d_files d)"

lemma tree_held_frame:
  assumes "tree_held N ch d" and "same_tree (desk_fs d) (desk_fs d')" and "g_cwd (d_world d') = g_cwd (d_world d)"
    and "files_ok ch (desk_fs d) (d_files d')"
  shows "tree_held N ch d'"
  using assms same_tree_ok [OF assms(2)] cwd_ok_same [OF assms(2,3)] files_ok_same [OF assms(2)] by (simp add: tree_held_def)

lemma tree_held_keep:
  assumes "tree_held N ch d" and "same_tree (desk_fs d) (desk_fs d')" and "g_cwd (d_world d') = g_cwd (d_world d)"
    and "d_files d' = d_files d"
  shows "tree_held N ch d'"
  by (rule tree_held_frame [OF assms(1-3)]) (use assms(1,4) in \<open>simp add: tree_held_def\<close>)

text \<open>Operations on other parts of the desktop.\<close>

lemma tree_held_parts [simp]:
  "tree_held N ch (on_wm f d) = tree_held N ch d" "tree_held N ch (d\<lparr>d_calc := c\<rparr>) = tree_held N ch d"
  "tree_held N ch (d\<lparr>d_mouse := m\<rparr>) = tree_held N ch d" "tree_held N ch (d\<lparr>g_calc_btns := bs\<rparr>) = tree_held N ch d"
  "tree_held N ch (d\<lparr>g_drag_idx := di\<rparr>) = tree_held N ch d" "tree_held N ch (d\<lparr>g_drag_off_x := x, g_drag_off_y := y\<rparr>) = tree_held N ch d"
  "tree_held N ch (d\<lparr>g_drag_idx := di, g_drag_off_x := x, g_drag_off_y := y\<rparr>) = tree_held N ch d"
  "tree_held N ch (d\<lparr>last_x := x, last_y := y\<rparr>) = tree_held N ch d" "tree_held N ch (d\<lparr>last_paint_tick := t\<rparr>) = tree_held N ch d"
  "tree_held N ch (d\<lparr>d_disk := a\<rparr>) = tree_held N ch d" "tree_held N ch (d\<lparr>d_fb := fb\<rparr>) = tree_held N ch d"
  by (simp_all add: tree_held_def on_wm_def)

lemma desk_fs_sets [simp]:
  "w_nodes (d_world (set_desk_mem m d)) = w_nodes (d_world d)" "w_root (d_world (set_desk_mem m d)) = w_root (d_world d)"
  "g_cwd (d_world (set_desk_mem m d)) = g_cwd (d_world d)" "g_cwd (d_world (set_fs s d)) = g_cwd (d_world d)"
  "desk_fs (drain d) = desk_fs d" "g_cwd (d_world (drain d)) = g_cwd (d_world d)" "d_files (drain d) = d_files d"
  "tree_of (w\<lparr>w_io := h\<rparr>) = tree_of w"
  by (simp_all add: set_desk_mem_def set_fs_def drain_def tree_of_def Let_def set_mem_def)

lemma tree_held_mem [simp]: "tree_held N ch (set_desk_mem m d) = tree_held N ch d"
proof -
  have s: "same_tree (desk_fs d) (desk_fs (set_desk_mem m d))" by (rule same_tree_nodes) simp_all
  show ?thesis using s same_tree_ok [OF s] cwd_ok_same [OF s] files_ok_same [OF s]
    tree_held_keep [of N ch d "set_desk_mem m d"] tree_held_keep [of N ch "set_desk_mem m d" d] by (auto simp: same_tree_def)
qed

lemma tree_held_drain [simp]: "tree_held N ch (drain d) = tree_held N ch d"
proof -
  have s: "same_tree (desk_fs d) (desk_fs (drain d))" by simp
  show ?thesis using cwd_ok_same [OF s] by (simp add: tree_held_def)
qed

lemma tree_held_k:
  "tree_held N ch d \<Longrightarrow> tree_held N ch (d\<lparr>d_world := (d_world d)\<lparr>w_k := k\<rparr>\<rparr>)"
  by (erule tree_held_keep, rule same_tree_nodes) simp_all

lemma tree_held_io: "tree_held N ch (d\<lparr>d_world := (d_world d)\<lparr>w_io := h\<rparr>\<rparr>) = tree_held N ch d"
  by (simp add: tree_held_def cwd_ok_def)

lemma tree_held_set_fs:
  "tree_held N ch d \<Longrightarrow> same_tree (desk_fs d) s \<Longrightarrow> tree_held N ch (set_fs s d)"
  by (erule tree_held_keep) simp_all

section \<open>Repainting\<close>

lemma rows_in_entries:
  assumes "draw_rows w sel s es = (ops, rows, y)" and "r \<in> set rows"
  shows "snd r \<in> fst ` set es"
proof -
  obtain k where "k \<le> length es" "rows = map (\<lambda>i. (rows_top w + of_nat i * g_files_row_h, fst (es ! i))) [0..<k]"
    using draw_rows_list [OF assms(1) [unfolded draw_rows_def]] by auto
  then show ?thesis using assms(2) by (auto intro!: imageI nth_mem)
qed

lemma entries_in_tree:
  assumes T: "tree_ok s N ch" and root: "nparent (nodes s (g_root s)) = 0" and d: "in_tree ch s dir"
    and c: "dir_children (nodes s) (first_child (nodes s dir)) = Some children" and e: "e \<in> set (row_entries s dir children)"
  shows "in_tree ch s (fst e)"
proof -
  have N: "dir \<in> N" using reachable_in [OF T] d by (simp add: in_tree_def)
  then have "chain (nodes s) (first_child (nodes s dir)) (ch dir)" using T by (simp add: tree_ok_def)
  then have ch: "children = ch dir" using dir_children_chain c by fastforce
  consider "fst e = nparent (nodes s dir)" "nparent (nodes s dir) \<noteq> 0" | "fst e \<in> set (ch dir)"
    using e ch by (auto simp: row_entries_def split: if_splits)
  then show ?thesis
  proof cases
    case 1
    then have "dir \<noteq> g_root s" using root by auto
    then show ?thesis using 1(1) reachable_parent [OF T] d by (simp add: in_tree_def)
  next
    case 2
    then show ?thesis using reachable_step d by (simp add: in_tree_def)
  qed
qed

lemma draw_files_ok:
  assumes T: "tree_ok s N ch" and root: "nparent (nodes s (g_root s)) = 0" "nkind (nodes s (g_root s)) = VFS_DIR"
    and f: "files_ok ch s f" and r: "draw_files_in w s f = Some (ops, f')"
  shows "files_ok ch s f'"
proof -
  let ?f0 = "if g_files_dir f = 0 then f\<lparr>g_files_dir := vfs_root s\<rparr> else f"
  define f1 where "f1 = place_toolbar w ?f0"
  have p: "g_files_dir f1 = g_files_dir ?f0" "g_files_selected f1 = g_files_selected f" "g_editor_file f1 = g_editor_file f"
    by (simp_all add: f1_def place_toolbar_def Let_def)
  have dir: "in_tree ch s (g_files_dir f1)" "nkind (nodes s (g_files_dir f1)) = VFS_DIR"
    using f root by (auto simp: p files_ok_def in_tree_def vfs_root_def)
  obtain children where c: "dir_children (nodes s) (first_child (nodes s (g_files_dir f1))) = Some children"
    using r unfolding draw_files_in_def Let_def f1_def [symmetric] by (auto simp: bind_eq_Some_conv)
  obtain o1 rows y where d: "draw_rows w (g_files_selected f1) s (row_entries s (g_files_dir f1) children) = (o1, rows, y)"
    by (rule prod_cases3)
  have f': "f' = f1\<lparr>g_files_rows := rows, g_files_row_x := body_x w, g_files_row_w := body_w w\<rparr>"
    using r unfolding draw_files_in_def Let_def f1_def [symmetric] by (simp add: c d)
  have "in_tree ch s (snd x)" if "x \<in> set rows" for x
    using rows_in_entries [OF d that] entries_in_tree [OF T root(1) dir(1) c] by auto
  then show ?thesis using f dir p by (simp add: files_ok_def f')
qed

lemma draw_editor_ok: "files_ok ch s f \<Longrightarrow> draw_editor_in w t s f = (ops, f') \<Longrightarrow> files_ok ch s f'"
  by (auto simp: draw_editor_in_def Let_def files_ok_def)

lemma root_held: "tree_held N ch d \<Longrightarrow> nparent (nodes (desk_fs d) (g_root (desk_fs d))) = 0 \<and> nkind (nodes (desk_fs d) (g_root (desk_fs d))) = VFS_DIR"
  by (simp add: tree_held_def cwd_ok_def tree_of_def)

lemma draw_content_held:
  assumes h: "tree_held N ch d" and r: "draw_window_content w d = Some (ops, d')"
  shows "tree_held N ch d'"
proof -
  have same: "tree_held N ch (d\<lparr>d_files := f\<rparr>)" if "files_ok ch (desk_fs d) f" for f
    using tree_held_frame [OF h, of "d\<lparr>d_files := f\<rparr>"] that by simp
  have T: "tree_ok (desk_fs d) N ch" and f: "files_ok ch (desk_fs d) (d_files d)" using h by (simp_all add: tree_held_def)
  show ?thesis
  proof (cases "win_type w")
    case APP_FILES
    then obtain f' where "draw_files_in w (desk_fs d) (d_files d) = Some (ops, f')" "d' = d\<lparr>d_files := f'\<rparr>"
      using r by (auto simp: draw_window_content_def)
    then show ?thesis using same draw_files_ok [OF T _ _ f] root_held [OF h] by blast
  next
    case APP_EDITOR
    then obtain f' where "draw_editor_in w (desk_ticks d) (desk_fs d) (d_files d) = (ops, f')" "d' = d\<lparr>d_files := f'\<rparr>"
      using r by (auto simp: draw_window_content_def split: prod.splits)
    then show ?thesis using same draw_editor_ok [OF f] by blast
  qed (use h r in \<open>auto simp: draw_window_content_def\<close>)
qed

lemma draw_windows_held: "tree_held N ch d \<Longrightarrow> draw_windows zs d = Some (ops, d') \<Longrightarrow> tree_held N ch d'"
proof (induction zs arbitrary: d ops)
  case (Cons z zs)
  then obtain o1 d1 o2 where "draw_window_content (windows (d_wm d) ! z) d = Some (o1, d1)" "draw_windows zs d1 = Some (o2, d')"
    by (auto simp: Let_def bind_eq_Some_conv)
  then show ?case using draw_content_held Cons by blast
qed simp

lemma gui_present_held: "tree_held N ch d \<Longrightarrow> gui_present d = Some d' \<Longrightarrow> tree_held N ch d'"
  by (auto simp: gui_present_def redraw_all_def bind_eq_Some_conv dest: draw_windows_held)

section \<open>Clicks\<close>

lemma on_files_held:
  "tree_held N ch d \<Longrightarrow> files_ok ch (desk_fs d) (f (d_files d)) \<Longrightarrow> tree_held N ch (on_files f d)"
  by (erule tree_held_frame) simp_all

lemma files_held: "tree_held N ch d \<Longrightarrow> files_ok ch (desk_fs d) (d_files d)"
  by (simp add: tree_held_def)

lemma edit_file_held:
  assumes h: "tree_held N ch d" and n: "n = 0 \<or> in_tree ch (desk_fs d) n"
  shows "tree_held N ch (edit_file n d)"
proof -
  obtain f g where o: "open_editor_for (d_fb d) n (desk_fs d) (d_files d, d_wm d) = (f, g)" by fastforce
  then have "files_ok ch (desk_fs d) f" using files_held [OF h] n
    by (auto simp: open_editor_for_def Let_def files_ok_def split: if_splits option.splits)
  then show ?thesis using tree_held_frame [OF h, of "d\<lparr>d_files := f, d_wm := g\<rparr>"] by (simp add: edit_file_def o)
qed

lemma enter_dir_held:
  assumes "tree_held N ch d" and "in_tree ch (desk_fs d) n" and "nkind (nodes (desk_fs d) n) = VFS_DIR"
  shows "tree_held N ch (enter_dir n d)"
  unfolding enter_dir_def by (rule on_files_held [OF assms(1)]) (use files_held [OF assms(1)] assms(2,3) in \<open>simp add: files_ok_def\<close>)

lemma run_exec_held:
  assumes h: "tree_held N ch d" and r: "run_exec e n d = Some d'"
  shows "tree_held N ch d'"
proof -
  obtain k f where "d' = drain ((on_wm f d)\<lparr>d_world := (d_world (on_wm f d))\<lparr>w_k := k\<rparr>\<rparr>)"
    using r by (auto simp: run_exec_def Let_def)
  then show ?thesis using tree_held_k [of N ch "on_wm f d" k] h by simp
qed

lemma after_diskfs_held:
  assumes h: "tree_held N ch d" and s: "same_tree (desk_fs d) (fs k)"
  shows "tree_held N ch (after_diskfs k d)"
proof -
  obtain dev ata hist where "io k = (dev, ata, hist)" by (cases "io k")
  then show ?thesis using tree_held_keep [OF h, of "after_diskfs k d"] s by (simp add: after_diskfs_def)
qed

lemma editor_click_held:
  assumes h: "tree_held N ch d" and r: "editor_handle_click e px py d = Some d'"
  shows "tree_held N ch d'"
proof (cases "in_btn px py (g_btn_save (d_files d)) \<and> g_editor_file (d_files d) \<noteq> 0")
  case True
  then obtain saved k where k: "diskfs_save (g_editor_file (d_files d)) (desk_diskfs (env_dev e) d) = Some (saved, k)"
    and d': "d' = (if saved then on_files (\<lambda>f. f\<lparr>g_last_save_tick := desk_ticks d\<rparr>) (after_diskfs k d) else after_diskfs k d)"
    using r by (auto simp: editor_handle_click_def Let_def)
  have "fs k = desk_fs d" using save_same [OF k] by (simp add: desk_diskfs_def)
  then have a: "tree_held N ch (after_diskfs k d)" using after_diskfs_held [OF h] by simp
  then show ?thesis using on_files_held [OF a, of "\<lambda>f. f\<lparr>g_last_save_tick := desk_ticks d\<rparr>"] files_held [OF a]
    by (simp add: d' files_ok_def)
qed (use h r in \<open>auto simp: editor_handle_click_def\<close>)

lemma row_at_in: "row_at px py f = Some (y, n) \<Longrightarrow> (y, n) \<in> set (g_files_rows f)"
  using find_in_set unfolding row_at_def by fast

lemma files_click_held:
  assumes h: "tree_held N ch d" and r: "files_handle_click e px py d = Some d'"
  shows "tree_held N ch d'"
proof -
  define d1 where "d1 = on_files (\<lambda>f. f\<lparr>g_args_focused := False\<rparr>) d"
  have foc: "tree_held N ch (on_files (\<lambda>f. f\<lparr>g_args_focused := b\<rparr>) d)" for b
    by (rule on_files_held [OF h]) (use files_held [OF h] in \<open>simp add: files_ok_def\<close>)
  then have h1: "tree_held N ch d1" by (simp add: d1_def)
  have fo: "files_ok ch (desk_fs d1) (d_files d1)" using files_held [OF h1] .
  have sel: "g_files_selected (d_files d1) = 0 \<or> in_tree ch (desk_fs d1) (g_files_selected (d_files d1))"
    using fo by (simp add: files_ok_def)
  have choose: "tree_held N ch (on_files (\<lambda>f. f\<lparr>g_files_selected := n\<rparr>) d1)" if "in_tree ch (desk_fs d1) n" for n
    by (rule on_files_held [OF h1]) (use fo that in \<open>simp add: files_ok_def\<close>)
  have row: "in_tree ch (desk_fs d1) n" if "row_at px py (d_files d1) = Some (y, n)" for y n
    using row_at_in [OF that] fo by (force simp: files_ok_def)
  have dir: "nkind (nodes (desk_fs d1) n) = VFS_DIR"
    if x: "row_at px py (d_files d1) = Some (y, n)" "n = nparent (nodes (desk_fs d1) (g_files_dir (d_files d1)))" for y n
  proof -
    have T: "tree_ok (desk_fs d1) N ch" using h1 by (simp add: tree_held_def)
    have z: "n \<noteq> 0" using reachable_in [OF T] row [OF x(1)] T by (auto simp: in_tree_def tree_ok_def)
    have g: "in_tree ch (desk_fs d1) (g_files_dir (d_files d1))"
      using row_at_in [OF x(1)] fo by (auto simp: files_ok_def)
    have "g_files_dir (d_files d1) \<noteq> g_root (desk_fs d1)" using x(2) z root_held [OF h1] by auto
    then show ?thesis using x(2) reachable_parent [OF T] g by (simp add: in_tree_def)
  qed
  have enter: "tree_held N ch (enter_dir n d1)"
    if "row_at px py (d_files d1) = Some (y, n)"
      and "n = nparent (nodes (desk_fs d1) (g_files_dir (d_files d1))) \<or> nkind (nodes (desk_fs d1) n) = VFS_DIR" for y n
    by (rule enter_dir_held [OF h1 row [OF that(1)]]) (use dir that in blast)
  show ?thesis
    using r foc [of True] edit_file_held [OF h1] enter sel choose run_exec_held [OF h1] row h1 enter_dir_held [OF h1]
    unfolding files_handle_click_def Let_def d1_def [symmetric]
    by (auto split: if_splits option.splits vfs_kind.splits prod.splits)
qed

lemma left_press_cases:
  assumes "handle_left_press e px py d = Some (b, d')"
  shows "d' = d \<or> (\<exists>f. d' = on_wm f d) \<or> (\<exists>f i x y. d' = (on_wm f d)\<lparr>g_drag_idx := Some i, g_drag_off_x := x, g_drag_off_y := y\<rparr>) \<or>
    (\<exists>f t. click_in_window e t px py (on_wm f d) = Some d')"
proof (cases "sint py \<ge> sint (fb_height (d_fb d) - TASKBAR_H)")
  case True
  then show ?thesis using assms by (auto simp: handle_left_press_def Let_def split: option.splits)
next
  case False
  show ?thesis
  proof (cases "window_at px py (d_wm d)")
    case None
    then show ?thesis using assms False by (auto simp: handle_left_press_def Let_def split: option.splits)
  next
    case (Some i)
    let ?w = "windows (d_wm d) ! i"
    consider "point_in_close_btn ?w px py" | "\<not> point_in_close_btn ?w px py" "point_in_titlebar ?w px py"
      | "\<not> point_in_close_btn ?w px py" "\<not> point_in_titlebar ?w px py" by blast
    then show ?thesis
    proof cases
      case 1
      then have "d' = on_wm (close_window i) d" using assms False Some by (simp add: handle_left_press_def Let_def)
      then show ?thesis by blast
    next
      case 2
      then have "d' = (on_wm (raise_window i) d)\<lparr>g_drag_idx := Some i, g_drag_off_x := win_x ?w - px, g_drag_off_y := win_y ?w - py\<rparr>"
        using assms False Some by (simp add: handle_left_press_def Let_def)
      then show ?thesis by blast
    next
      case 3
      then have "click_in_window e (win_type ?w) px py (on_wm (raise_window i) d) = Some d'"
        using assms False Some by (auto simp: handle_left_press_def Let_def)
      then show ?thesis by blast
    qed
  qed
qed

lemma click_in_window_held:
  assumes h: "tree_held N ch d" and r: "click_in_window e t px py d = Some d'"
  shows "tree_held N ch d'"
proof -
  consider "files_handle_click e px py d = Some d'" | "editor_handle_click e px py d = Some d'" | "\<exists>c. d' = d\<lparr>d_calc := c\<rparr>" | "d' = d"
    using r by (cases t) (auto simp: click_in_window_def)
  then show ?thesis using files_click_held [OF h] editor_click_held [OF h] h by cases auto
qed

lemma left_press_held:
  assumes h: "tree_held N ch d" and r: "handle_left_press e px py d = Some (b, d')"
  shows "tree_held N ch d'"
proof -
  have f: "tree_held N ch (on_wm f d)" for f using h by simp
  show ?thesis using left_press_cases [OF r]
  proof (elim disjE exE)
    fix f t assume "click_in_window e t px py (on_wm f d) = Some d'"
    then show ?thesis by (rule click_in_window_held [OF f])
  qed (simp_all add: h)
qed

section \<open>Keys\<close>

lemma args_key_held: "tree_held N ch d \<Longrightarrow> tree_held N ch (args_key c d)"
proof -
  assume h: "tree_held N ch d"
  have "tree_held N ch (on_files (\<lambda>f. f\<lparr>g_args_buf := x\<rparr>) d)" "tree_held N ch (on_files (\<lambda>f. f\<lparr>g_args_focused := b\<rparr>) d)" for x b
    by (rule on_files_held [OF h], use files_held [OF h] in \<open>simp add: files_ok_def\<close>)+
  then show ?thesis using h by (simp add: args_key_def Let_def touched_def)
qed

lemma editor_key_held:
  assumes h: "tree_held N ch d" and r: "editor_key c d = Some d'"
  shows "tree_held N ch d'"
proof -
  have app: "tree_held N ch d'" if "append_to_file f k d = Some d'" for f k
    using that tree_held_set_fs [OF h append_char_same] by (auto simp: append_to_file_def touched_def)
  obtain ok s where p: "vfs_pop_char (g_editor_file (d_files d)) (desk_fs d) = (ok, s)" by fastforce
  show ?thesis
    using r app h tree_held_set_fs [OF h pop_char_same [OF p]]
    by (auto simp: editor_key_def Let_def p touched_def split: if_splits)
qed

lemma gui_key_held: "tree_held N ch d \<Longrightarrow> gui_handle_key c d = Some (b, d') \<Longrightarrow> tree_held N ch d'"
  using args_key_held editor_key_held by (auto simp: gui_handle_key_def split: if_splits)

lemma on_world_fields [simp]:
  "d_wm (on_world f d) = d_wm d" "d_files (on_world f d) = d_files d" "g_drag_idx (on_world f d) = g_drag_idx d"
  "d_mouse (on_world f d) = d_mouse d" "d_world (on_world f d) = f (d_world d)" "d_fb (on_world f d) = d_fb d"
  by (simp_all add: on_world_def)

lemma shell_key_held:
  assumes h: "tree_held N ch d" and r: "key_to_shell pf c d = Some d'"
  shows "tree_held N ch d'"
proof -
  obtain w where w: "shell_process_char (pf_nesting pf) (pf_env pf) c (d_world d) = Back w" and d': "d' = drain (d\<lparr>d_world := w\<rparr>)"
    using r by (auto simp: key_to_shell_def split: result.splits)
  have T: "tree_ok (desk_fs d) N ch" using h by (simp add: tree_held_def)
  have k: "dirs_kept ch (d_world d) w" by (rule process_char_kept [OF T w])
  then have "same_tree (desk_fs d) (tree_of w)" by (simp add: dirs_kept_def same_tree_def tree_of_def)
  then have "tree_held N ch (d\<lparr>d_world := w\<rparr>)" using h k dirs_kept_tree [OF k T] files_ok_same
    by (simp add: tree_held_def dirs_kept_def)
  then show ?thesis by (simp add: d')
qed

lemma program_key_held: "tree_held N ch d \<Longrightarrow> tree_held N ch (key_to_program c d)"
  using tree_held_k [of N ch d] by (simp add: key_to_program_def Let_def on_world_def split: prod.split)

lemma route_key_cases:
  assumes "route_key pf c d = Some d'"
  shows "d' = key_to_program c d \<or> (\<exists>b. gui_handle_key c d = Some (b, d')) \<or>
    (\<exists>d1. gui_handle_key c d = Some (False, d1) \<and> key_to_shell pf c d1 = Some d')"
  using assms by (auto simp: route_key_def bind_eq_Some_conv split: if_splits)

lemma route_held:
  assumes "tree_held N ch d" and "route_key pf c d = Some d'"
  shows "tree_held N ch d'"
  using route_key_cases [OF assms(2)] program_key_held [OF assms(1)] gui_key_held [OF assms(1)] shell_key_held by blast

lemma desk_ok_world [simp]: "desk_ok (d\<lparr>d_world := w\<rparr>) = desk_ok d" "desk_ok (on_world f d) = desk_ok d"
  by (simp_all add: desk_ok_def on_world_def)

lemma route_desk_ok:
  assumes "desk_ok d" and "route_key pf c d = Some d'"
  shows "desk_ok d'"
proof -
  have "desk_ok (key_to_program c d)" using assms(1) by (simp add: key_to_program_def Let_def drain_ok split: prod.split)
  moreover have "desk_ok d2" if "desk_ok d1" "key_to_shell pf c d1 = Some d2" for d1 d2
    using that by (auto simp: key_to_shell_def drain_ok split: result.splits)
  ultimately show ?thesis using route_key_cases [OF assms(2)] handle_key_ok [OF assms(1)] by blast
qed

section \<open>Turns of the main loop\<close>

lemma tick_held:
  assumes h: "tree_held N ch d" and r: "gui_tick e d = Some d'"
  shows "tree_held N ch d'"
proof -
  obtain need d1 where t: "tick_input e d = Some (need, d1)" and d': "(if \<not> need then Some d1 else gui_present (on_wm clear_dirty d1)) = Some d'"
    using r by (auto simp: gui_tick_def bind_eq_Some_conv)
  have "tree_held N ch d1"
    using t
  proof (cases rule: tick_input_cases)
    case (1 ev m hit d1' dragged d2 pointer d3 due)
    have "tree_held N ch d1'" using 1(2) h left_press_held [of N ch "d\<lparr>d_mouse := m\<rparr>"] by (auto simp: tick_press_def split: if_splits)
    then have "tree_held N ch d2" using 1(3) by (auto simp: drag_update_def Let_def split: option.splits if_splits prod.splits)
    then have "tree_held N ch (tick_release ev d2)" by (simp add: tick_release_def)
    then have "tree_held N ch d3" using 1(4) by (auto simp: tick_pointer_def split: if_splits)
    then show ?thesis using 1(5) by (auto simp: tick_due_def split: if_splits)
  qed
  then show ?thesis using d' gui_present_held [of N ch "on_wm clear_dirty d1"] by (auto split: if_splits)
qed

section \<open>Interrupts\<close>

text \<open>
  The invariant of the running system: the desktop and the tree are in order, the pointer is on the screen, and the ring
  buffer of the keyboard has its size.
\<close>

definition system_ok :: "u64 set \<Rightarrow> (u64 \<Rightarrow> u64 list) \<Rightarrow> system \<Rightarrow> bool" where
  "system_ok N ch s \<longleftrightarrow> desk_ok (sy_desk s) \<and> tree_held N ch (sy_desk s) \<and> mouse_ok (d_mouse (sy_desk s)) \<and> ring_wf (sy_keys s)"

lemma mouse_kept [simp]:
  "d_mouse (set_fs s d) = d_mouse d" "d_mouse (set_desk_mem m d) = d_mouse d" "d_mouse (on_files f d) = d_mouse d"
  "d_mouse (on_wm h d) = d_mouse d" "d_mouse (drain d) = d_mouse d"
  by (simp_all add: set_fs_def set_desk_mem_def on_files_def on_wm_def drain_def Let_def)

lemma gui_key_mouse: "gui_handle_key c d = Some (b, d') \<Longrightarrow> d_mouse d' = d_mouse d"
  by (auto simp: gui_handle_key_def args_key_def editor_key_def append_to_file_def touched_def Let_def split: if_splits prod.splits)

lemma shell_key_mouse: "key_to_shell pf c d = Some d' \<Longrightarrow> d_mouse d' = d_mouse d"
  by (auto simp: key_to_shell_def split: result.splits)

lemma program_key_mouse: "d_mouse (key_to_program c d) = d_mouse d"
  by (simp add: key_to_program_def Let_def split: prod.split)

lemma route_mouse: "route_key pf c d = Some d' \<Longrightarrow> d_mouse d' = d_mouse d"
  using shell_key_mouse gui_key_mouse program_key_mouse route_key_cases by metis

lemma buffer_add_wf: "ring_wf k \<Longrightarrow> ring_wf (buffer_add c k)"
  by (simp add: ring_wf_def buffer_add_def Let_def)

lemma tree_held_on_io [simp]: "tree_held N ch (on_io f d) = tree_held N ch d"
  by (simp add: on_io_def on_world_def tree_held_io)

lemma on_io_parts [simp]: "desk_ok (on_io f d) = desk_ok d" "d_mouse (on_io f d) = d_mouse d"
  by (simp_all add: on_io_def)

lemma keyboard_irq:
  assumes "keyboard_handler (key_route pf) dev k d h = Some (k', d', h')" and "ring_wf k" and "desk_ok d" and "tree_held N ch d"
  shows "ring_wf k' \<and> desk_ok d' \<and> tree_held N ch d' \<and> d_mouse d' = d_mouse d"
proof -
  obtain sc h1 where i: "inb dev KEYBOARD_DATA_PORT h = (sc, h1)" by fastforce
  show ?thesis
  proof (cases "typed_char sc (modifiers k)")
    case None
    then show ?thesis using assms i by (auto simp: keyboard_handler_def Let_def ring_wf_def)
  next
    case (Some c)
    then obtain h2 where r: "key_route pf c d h1 = Some (d', h2)" and k': "k' = buffer_add c (k\<lparr>modifiers := modifiers_after sc (modifiers k)\<rparr>)"
      using assms(1) i by (auto simp: keyboard_handler_def Let_def bind_eq_Some_conv)
    have "ring_wf k'" using assms(2) buffer_add_wf by (simp add: k' ring_wf_def)
    moreover have e: "route_key pf c (on_io (\<lambda>_. h1) d) = Some d'" using r by (auto simp: key_route_def)
    ultimately show ?thesis using route_held [OF _ e] route_desk_ok [OF _ e] route_mouse [OF e] assms(3,4) by simp
  qed
qed

lemma irq_system_ok:
  assumes ok: "system_ok N ch s" and r: "take_irq pf n s = Some s'"
  shows "system_ok N ch s'"
proof -
  let ?d = "sy_desk s"
  define st where "st = \<lparr>irq_timer = k_timer (w_k (d_world ?d)), irq_procs = k_procs (w_k (d_world ?d)), irq_keys = sy_keys s,
    irq_mouse = d_mouse ?d, irq_world = ?d, irq_io = w_io (d_world ?d)\<rparr>"
  obtain r' where r': "irq_handler (key_route pf) (pf_dev pf) n st = Some r'"
    and s': "s' = s\<lparr>sy_keys := irq_keys r', sy_desk := on_io (\<lambda>_. irq_io r') (if n = 33 then irq_world r'
      else (on_world (\<lambda>w. w\<lparr>w_k := (w_k (d_world ?d))\<lparr>k_timer := irq_timer r', k_procs := irq_procs r'\<rparr>\<rparr>) ?d)\<lparr>d_mouse := irq_mouse r'\<rparr>)\<rparr>"
    using r by (auto simp: take_irq_def Let_def st_def)
  have d: "desk_ok ?d" "tree_held N ch ?d" "mouse_ok (d_mouse ?d)" "ring_wf (sy_keys s)" using ok by (simp_all add: system_ok_def)
  show ?thesis
  proof (cases "n = 33")
    case True
    then obtain k' d' h' where "keyboard_handler (key_route pf) (pf_dev pf) (sy_keys s) ?d (w_io (d_world ?d)) = Some (k', d', h')"
      and "irq_keys r' = k'" "irq_world r' = d'"
      using r' by (auto simp: irq_handler_def st_def)
    then show ?thesis using keyboard_irq [OF _ d(4,1,2)] d(3) True by (auto simp: s' system_ok_def)
  next
    case False
    then have "irq_keys r' = sy_keys s" and "mouse_ok (irq_mouse r')"
      using r' d(3) handler_ok [of "d_mouse ?d" "pf_dev pf" "w_io (d_world ?d)"]
      by (auto simp: irq_handler_def st_def split: if_splits prod.splits)
    moreover have "tree_held N ch (on_world (\<lambda>w. w\<lparr>w_k := k\<rparr>) ?d)" for k
      using tree_held_k [OF d(2)] by (simp add: on_world_def)
    ultimately show ?thesis using d False by (simp add: s' system_ok_def)
  qed
qed

section \<open>All events\<close>

lemma draw_content_mouse: "draw_window_content w d = Some (ops, d') \<Longrightarrow> d_mouse d' = d_mouse d"
  by (cases "win_type w") (auto simp: draw_window_content_def split: prod.splits)

lemma draw_windows_mouse: "draw_windows zs d = Some (ops, d') \<Longrightarrow> d_mouse d' = d_mouse d"
proof (induction zs arbitrary: d ops)
  case (Cons z zs)
  then obtain o1 d1 o2 where "draw_window_content (windows (d_wm d) ! z) d = Some (o1, d1)" "draw_windows zs d1 = Some (o2, d')"
    by (auto simp: Let_def bind_eq_Some_conv)
  then show ?case using draw_content_mouse Cons.IH by metis
qed simp

lemma gui_present_mouse: "gui_present d = Some d' \<Longrightarrow> d_mouse d' = d_mouse d"
  by (auto simp: gui_present_def redraw_all_def bind_eq_Some_conv dest: draw_windows_mouse)

lemma click_mouse:
  assumes "click_in_window e t px py d = Some d'"
  shows "d_mouse d' = d_mouse d"
proof -
  have run: "run_exec e n d1 = Some d2 \<Longrightarrow> d_mouse d2 = d_mouse d1" for n d1 d2 by (auto simp: run_exec_def Let_def)
  have edit: "d_mouse (edit_file n d1) = d_mouse d1" "d_mouse (enter_dir n d1) = d_mouse d1" for n d1
    by (simp_all add: edit_file_def enter_dir_def split: prod.split)
  have files: "d_mouse d' = d_mouse d" if "files_handle_click e px py d = Some d'"
    using that unfolding files_handle_click_def Let_def
    by (auto simp: edit split: if_splits option.splits vfs_kind.splits dest: run)
  have ed: "d_mouse d' = d_mouse d" if "editor_handle_click e px py d = Some d'"
    using that by (auto simp: editor_handle_click_def after_diskfs_def Let_def split: if_splits prod.splits)
  show ?thesis using assms files ed by (cases t) (auto simp: click_in_window_def)
qed

lemma left_press_mouse: "handle_left_press e px py d = Some (b, d') \<Longrightarrow> d_mouse d' = d_mouse d"
  by (drule left_press_cases) (auto dest: click_mouse)

lemma consume_ok: "mouse_ok m \<Longrightarrow> mouse_consume_event m = (ev, m') \<Longrightarrow> mouse_ok m'"
  by (auto simp: mouse_consume_event_def mouse_ok_def screen_ok_def pointer_ok_def)

lemma tick_mouse:
  assumes "gui_tick e d = Some d'" and ok: "mouse_ok (d_mouse d)"
  shows "mouse_ok (d_mouse d')"
proof -
  obtain need d1 where t: "tick_input e d = Some (need, d1)" and d': "(if \<not> need then Some d1 else gui_present (on_wm clear_dirty d1)) = Some d'"
    using assms(1) by (auto simp: gui_tick_def bind_eq_Some_conv)
  have "mouse_ok (d_mouse d1)"
    using t
  proof (cases rule: tick_input_cases)
    case (1 ev m hit d1' dragged d2 pointer d3 due)
    have "d_mouse d1' = m" using 1(2) by (auto simp: tick_press_def split: if_splits dest: left_press_mouse)
    then have "d_mouse d2 = m" using 1(3) by (auto simp: drag_update_def Let_def split: option.splits if_splits prod.splits)
    then have "d_mouse (tick_release ev d2) = m" by (simp add: tick_release_def)
    then have "d_mouse d3 = m" using 1(4) by (auto simp: tick_pointer_def split: if_splits)
    then have "d_mouse d1 = m" using 1(5) by (auto simp: tick_due_def split: if_splits)
    then show ?thesis using consume_ok [OF ok 1(1)] by simp
  qed
  then show ?thesis using d' gui_present_mouse [of "on_wm clear_dirty d1"] by (auto split: if_splits)
qed

lemma step_system_ok: "kernel_step pf s s' \<Longrightarrow> system_ok N ch s \<Longrightarrow> system_ok N ch s'"
proof (induction rule: kernel_step.induct)
  case (irq s n s')
  then show ?case using irq_system_ok by blast
next
  case (turn s d)
  then show ?case using gui_tick_ok [OF _ turn(2)] tick_held [OF _ turn(2)] tick_mouse [OF turn(2)] by (simp add: system_ok_def)
qed

lemma run_system_ok: "kernel_run pf s s' \<Longrightarrow> system_ok N ch s \<Longrightarrow> system_ok N ch s'"
  by (induction rule: kernel_run.induct) (auto intro: step_system_ok)

lemma held_repaints:
  assumes h: "tree_held N ch d"
  shows "\<exists>d'. gui_present d = Some d'"
proof -
  have T: "tree_ok (desk_fs d) N ch" using h by (simp add: tree_held_def)
  have "dir_in N d" using files_held [OF h] reachable_in [OF T] by (auto simp: dir_in_def files_ok_def in_tree_def)
  then show ?thesis using draw_windows_return [OF T, of "z_order (d_wm d)"] by (auto simp: gui_present_def redraw_all_def)
qed


section \<open>A concrete system\<close>

definition pf_demo :: platform where
  "pf_demo = \<lparr>pf_env = env_demo, kernel_end = 0x200000, idt_at = 0x110000, idt_ptr_at = 0x111000, isr_at = (\<lambda>i. 0x112000 + of_nat i * 16),
     irq_at = (\<lambda>i. 0x113000 + of_nat i * 16), syscall_at = 0x114000, gdt_at = 0x115000, gdt_ptr_at = 0x116000, tss_at = 0x117000,
     pf_nesting = 1, pf_frames = [0, 200]\<rparr>"

definition system_demo :: system where
  "system_demo = \<lparr>sy_desk = desk_demo, sy_idt = \<lparr>idt = replicate 256 (gate 0 0 0), idt_limit = 0, idt_base = 0, idt_flushed = []\<rparr>,
     sy_gdt = gdt_demo, sy_tss = fst (tss_init pmm_demo), task_register = 0, sy_pml4 = 0, sy_keys = keyboard_demo,
     sy_enabled = True, sy_graphical = True\<rparr>"

lemma desk_demo_parts: "d_mouse desk_demo = mouse_demo" "g_cwd (d_world desk_demo) = 0"
  unfolding desk_demo_def mouse_kept desk_fs_sets by (simp_all add: shell_demo_def)

lemma world_tree: "w_nodes w = nodes (tree_of w)" "w_root w = g_root (tree_of w)"
  by (simp_all add: tree_of_def)

lemma system_demo_ok: "system_ok demo_nodes demo_children system_demo"
proof -
  have "wm_term wm_demo = (term_clear (wm_term wm_demo))\<lparr>term_dirty := False\<rparr>" by (simp add: wm_demo_def term_clear_def)
  then have t: "term_ok (wm_term wm_demo)"
    by (metis term_ok_dirty term_ok_def clear_displays empty_page_ok)
  have r: "reachable demo_children 4113 4226" "reachable demo_children 4113 4339"
    using reachable_step [OF reachable_root, of 4226 demo_children 4113] reachable_step [of demo_children 4113 4226 4339]
    by (simp_all add: demo_children_def)
  have w: "w_nodes (d_world desk_demo) = nodes vfs_demo" "w_root (d_world desk_demo) = 4113"
    unfolding world_tree desk_demo_simps demo_node_simps by (rule refl)+
  have "tree_held demo_nodes demo_children desk_demo"
    unfolding tree_held_def desk_demo_simps
    by (simp add: demo_tree cwd_ok_def w desk_demo_parts files_ok_def in_tree_def files_demo_def new_node_def r)
  then show ?thesis
    using t wm_demo_ok mouse_demo_ok by (simp add: system_ok_def system_demo_def desk_ok_def desk_demo_parts files_demo_def FILES_ARGS_CAP_def
        ring_wf_def keyboard_demo_def)
qed


end
