(* ===== verification/Boot.thy ===== *)
theory Boot
  imports Running
begin

text \<open>
  What the start of the kernel establishes: a boot by a loader that does not pass the magic number halts with a message and starts
  nothing; the desktop comes up on a supported frame buffer; and the system it comes up with is one that no
  sequence of events breaks, in the sense of theory Running.
\<close>

section \<open>Printing within a row of the console\<close>

definition plain :: "char \<Rightarrow> bool" where
  "plain c \<longleftrightarrow> c \<notin> {CHR 0x08, CHR 0x09, CHR 0x0A, CHR 0x0D}"

definition overwrite :: "nat \<Rightarrow> 'a list \<Rightarrow> 'a list \<Rightarrow> 'a list" where
  "overwrite k ys xs = take k xs @ ys @ drop (k + length ys) xs"

lemma overwrite_Nil [simp]: "overwrite k [] xs = xs"
  by (simp add: overwrite_def)

lemma overwrite_Cons: "k < length xs \<Longrightarrow> overwrite k (y # ys) xs = overwrite (Suc k) ys (xs[k := y])"
  by (simp add: overwrite_def take_Suc_conv_app_nth)

lemma print_in_row:
  assumes "length (vga_buffer v) = 2000" and "unat (vga_row v) < 25" and "unat (vga_col v) + length s < 80"
    and "list_all plain s" and "\<not> redirect_to_gui v"
  shows "fold vga_putchar s v =
    v\<lparr>vga_buffer := overwrite (80 * unat (vga_row v) + unat (vga_col v)) (map (\<lambda>c. vga_cell (of_char c) (vga_color v)) s) (vga_buffer v),
      vga_col := vga_col v + of_nat (length s)\<rparr>"
  using assms
proof (induction s arbitrary: v)
  case (Cons c s)
  let ?k = "80 * unat (vga_row v) + unat (vga_col v)"
  have u: "unat (vga_col v + 1) = unat (vga_col v) + 1" using Cons.prems(3) by (simp add: unat_word_ariths)
  have at: "cell_at (vga_row v) (vga_col v) = ?k" using Cons.prems(2,3) by (simp add: cell_at_nat)
  have k: "?k < 2000" using Cons.prems(2,3) by simp
  have st: "vga_putchar c v = v\<lparr>vga_buffer := (vga_buffer v)[?k := vga_cell (of_char c) (vga_color v)], vga_col := vga_col v + 1\<rparr>"
    using Cons.prems u by (auto simp: vga_putchar_def vga_advance_def plain_def Let_def VGA_WIDTH_def VGA_HEIGHT_def word_le_nat_alt at)
  show ?case
    using Cons.IH [of "vga_putchar c v"] Cons.prems u k
    by (simp add: st overwrite_Cons ac_simps)
qed simp

lemma cleared: 
  assumes "length (vga_buffer v) = 2000"
  shows "vga_clear v = v\<lparr>vga_buffer := replicate 2000 (blank v), vga_row := 0, vga_col := 0\<rparr>"
proof -
  define row :: "nat \<Rightarrow> u16 list \<Rightarrow> u16 list" where "row y = fold (\<lambda>x b. b[80 * y + x := blank v]) [0..<80]" for y
  define b where "b = fold row [0..<25] (vga_buffer v)"
  let ?P = "\<lambda>n s. length s = 2000 \<and> (\<forall>k < n. s ! k = blank v)"
  have "?P (80 * 25) b" unfolding b_def
  proof (rule fold_invariant_upt [where P = "\<lambda>y. ?P (80 * y)"])
    fix y s assume y: "y < 25" and P: "?P (80 * y) s"
    have "?P (80 * y + 80) (row y s)" unfolding row_def
      by (rule fold_invariant_upt [where P = "\<lambda>x. ?P (80 * y + x)"]) (use P y in \<open>auto simp: nth_list_update less_Suc_eq\<close>)
    then show "?P (80 * Suc y) (row y s)" by (simp add: ac_simps)
  qed (use assms in auto)
  then have "b = replicate 2000 (blank v)" by (intro nth_equalityI) auto
  moreover have "for_w 0 VGA_HEIGHT (\<lambda>y b. for_w 0 VGA_WIDTH (\<lambda>x b. b[cell_at y x := blank v]) b) (vga_buffer v) = b"
  proof -
    have h: "unat VGA_HEIGHT = 25" "unat VGA_WIDTH = 80" by (simp_all add: VGA_HEIGHT_def VGA_WIDTH_def)
    have c: "fold (\<lambda>x b. b[cell_at (of_nat y) (of_nat x) := blank v]) [0..<80] s = row y s" if "y < 25" for y s
    proof -
      have "cell_at (of_nat y) (of_nat x) = 80 * y + x" if "x \<in> set [0..<80]" for x
      proof -
        have "x < 80" using that by (simp only: set_upt atLeastLessThan_iff)
        then have "unat (of_nat x :: u32) = x" "unat (of_nat y :: u32) = y" using \<open>y < 25\<close> by (simp_all add: unat_of_nat)
        then show ?thesis using \<open>x < 80\<close> \<open>y < 25\<close> by (simp add: cell_at_nat)
      qed
      then show ?thesis unfolding row_def by (intro fold_cong [OF refl refl] ext) (simp only:)
    qed
    have "(\<lambda>b. fold (\<lambda>x b. b[cell_at (of_nat y) (of_nat x) := blank v]) [0..<80] b) = row y" if "y \<in> set [0..<25]" for y
      using that by (intro ext c) (simp only: set_upt atLeastLessThan_iff)
    then show ?thesis unfolding b_def for_w_fold h unat_0 by (rule fold_cong [OF refl refl])
  qed
  ultimately show ?thesis by (simp add: vga_clear_def)
qed

section \<open>The wrong boot loader\<close>

definition white :: "char \<Rightarrow> u16" where
  "white c = vga_cell (of_char c) 0x0F"

lemma white_map: "map (\<lambda>c. vga_cell (of_char c) 15) s = map white s"
  by (simp add: white_def)

definition magic_error :: string where
  "magic_error = ''ERROR: Invalid Multiboot2 magic - halting.''"

lemma error_printed:
  assumes l: "length (vga_buffer v) = 2000" and r: "\<not> redirect_to_gui v"
  shows "screen (vga_print (magic_error @ LF) (vga_init v)) =
    (map white (magic_error @ replicate 38 CHR '' '')) # replicate 24 (replicate 80 (white (CHR '' '')))"
proof -
  define v0 where "v0 = v\<lparr>vga_row := 0, vga_col := 0, vga_color := 15\<rparr>"
  have i: "vga_init v = v0\<lparr>vga_buffer := replicate 2000 (white (CHR '' ''))\<rparr>"
    using cleared [of v0] l by (simp add: vga_init_def v0_def VGA_WHITE_def VGA_BLACK_def blank_def white_def)
  have n: "length magic_error = 42" "list_all plain magic_error" by (simp_all add: magic_error_def plain_def)
  define v1 where "v1 = fold vga_putchar magic_error (vga_init v)"
  have v1: "v1 = v0\<lparr>vga_buffer := overwrite 0 (map white magic_error) (replicate 2000 (white (CHR '' ''))), vga_col := 42\<rparr>"
    unfolding v1_def using print_in_row [of "vga_init v" magic_error] n r by (simp add: i v0_def white_map)
  have "vga_print (magic_error @ LF) (vga_init v) = vga_putchar (CHR 0x0A) v1"
    using r unfolding v1_def by (simp add: vga_print_def i v0_def LF_def)
  also have "\<dots> = v1\<lparr>vga_col := 0, vga_row := 1\<rparr>"
    using r by (simp add: v1 v0_def vga_putchar_def vga_advance_def Let_def VGA_WIDTH_def VGA_HEIGHT_def word_le_nat_alt)
  finally have b: "vga_buffer (vga_print (magic_error @ LF) (vga_init v)) = map white magic_error @ replicate 1958 (white (CHR '' ''))"
    by (simp add: v1 overwrite_def n)
  have "screen_row (map white magic_error @ replicate 1958 (white (CHR '' ''))) y =
      (if y = 0 then map white (magic_error @ replicate 38 CHR '' '') else replicate 80 (white (CHR '' '')))" if "y < 25" for y
    using that n by (intro nth_equalityI) (auto simp: screen_row_def nth_append)
  then show ?thesis unfolding screen_def b
    by (intro nth_equalityI) (auto simp: nth_Cons')
qed

text \<open>
  C40. A loader that does not pass the Multiboot2 magic number makes the kernel halt with one line of white text on an empty
  console, and nothing but the serial port and the console has been touched: no interrupt table, no
  memory, no disk, and interrupts stay disabled.
\<close>

theorem wrong_magic_halts:
  assumes "magic_no \<noteq> MULTIBOOT2_BOOTLOADER_MAGIC"
    and "length (vga_buffer (k_vga (w_k (sy_world s)))) = 2000" and "\<not> redirect_to_gui (k_vga (w_k (sy_world s)))"
  shows "\<exists>v. kernel_main pf magic_no mb s = Halted (on_desk (on_console (\<lambda>_. v) \<circ> on_io serial_init) s) \<and>
    screen v = map white (''ERROR: Invalid Multiboot2 magic - halting.'' @ replicate 38 CHR '' '') # replicate 24 (replicate 80 (white (CHR '' '')))"
  using error_printed [OF assms(2,3)] assms(1)
  by (intro exI [of _ "vga_print (magic_error @ LF) (vga_init (k_vga (w_k (sy_world s))))"])
    (simp add: kernel_main_def Let_def on_desk_def on_console_def on_io_def on_world_def magic_error_def)

theorem wrong_magic_halts_witness:
  "\<exists>v. kernel_main pf_demo 0 0 system_demo = Halted (on_desk (on_console (\<lambda>_. v) \<circ> on_io serial_init) system_demo) \<and>
    hd (hd (screen v)) = 0x0F45 \<and> last (screen v) = replicate 80 0x0F20"
proof -
  have v: "k_vga (w_k (sy_world system_demo)) = vga_demo"
    by (simp add: system_demo_def desk_demo_def set_fs_def Let_def shell_demo_def set_mem_def kstate_demo_def)
  have "\<exists>v. kernel_main pf_demo 0 0 system_demo = Halted (on_desk (on_console (\<lambda>_. v) \<circ> on_io serial_init) system_demo) \<and>
    screen v = map white (''ERROR: Invalid Multiboot2 magic - halting.'' @ replicate 38 CHR '' '') # replicate 24 (replicate 80 (white (CHR '' '')))"
    by (rule wrong_magic_halts) (simp_all add: MULTIBOOT2_BOOTLOADER_MAGIC_def v vga_demo_def)
  moreover have "white (CHR ''E'') = 0x0F45" "white (CHR '' '') = 0x0F20" by code_simp+
  ultimately show ?thesis by auto
qed

section \<open>The boot information\<close>

text \<open>The tags from the first one to the frame buffer tag, in order, none before it an end tag and all of them within the information.\<close>

fun fb_chain :: "mem \<Rightarrow> u64 \<Rightarrow> u64 list \<Rightarrow> bool" where
  "fb_chain m end_at [] = False"
| "fb_chain m end_at [a] = (a < end_at \<and> read32 m a = MB2_TAG_FRAMEBUFFER)"
| "fb_chain m end_at (a # b # ts) =
     (a < end_at \<and> read32 m a \<noteq> MB2_TAG_END \<and> read32 m a \<noteq> MB2_TAG_FRAMEBUFFER \<and>
      b = a + ucast ((read32 m (a + 4) + 7) AND NOT 7) \<and> fb_chain m end_at (b # ts))"

lemma fb_loop_chain: "fb_chain m end_at ts \<Longrightarrow> fb_tag_loop m end_at (hd ts) = Some (last ts)"
proof (induction m end_at ts rule: fb_chain.induct)
  case (2 m e a)
  then show ?case by (subst fb_tag_loop.simps) (auto simp: MB2_TAG_END_def MB2_TAG_FRAMEBUFFER_def)
next
  case (3 m e a b ts)
  have "fb_tag_loop m e a = fb_tag_loop m e b" using "3.prems" by (subst fb_tag_loop.simps) auto
  moreover have "fb_chain m e (b # ts)" using "3.prems" unfolding fb_chain.simps by blast
  ultimately show ?case using "3.IH" by simp
qed simp

definition screen_tag :: "mem \<Rightarrow> u64 \<Rightarrow> u64 list \<Rightarrow> mb2_tag_framebuffer \<Rightarrow> bool" where
  "screen_tag m mb ts t \<longleftrightarrow> mb \<noteq> 0 \<and> hd ts = mb + 8 \<and> last ts \<noteq> 0 \<and> fb_chain m (mb + ucast (read32 m mb)) ts \<and> t = get_fb_tag m (last ts)"

definition supported :: "mb2_tag_framebuffer \<Rightarrow> bool" where
  "supported t \<longleftrightarrow> tag_fb_type t = 1 \<and> tag_bpp t = 32 \<and> 0 < unat (tag_width t) \<and> unat (tag_width t) \<le> 2 ^ 15 \<and>
     0 < unat (tag_height t) \<and> unat (tag_height t) \<le> 2 ^ 15"

lemma find_screen:
  assumes "screen_tag m mb ts t"
  shows "\<exists>at. find_framebuffer_tag m mb = Some at \<and> at \<noteq> 0 \<and> get_fb_tag m at = t"
  using assms fb_loop_chain [of m _ ts] by (auto simp: screen_tag_def find_framebuffer_tag_def)

text \<open>The tags are the same in a memory that agrees on 32 bytes from each of them.\<close>

lemma read32_same: "(\<And>j. j < 32 \<Longrightarrow> m' (a + of_nat j) = m (a + of_nat j)) \<Longrightarrow> k \<le> 28 \<Longrightarrow> read32 m' (a + of_nat k) = read32 m (a + of_nat k)"
proof -
  assume e: "\<And>j. j < 32 \<Longrightarrow> m' (a + of_nat j) = m (a + of_nat j)" and k: "k \<le> 28"
  have "m' (a + of_nat k + of_nat i) = m (a + of_nat k + of_nat i)" if "i < 4" for i
    using e [of "k + i"] k that by (simp add: add.assoc)
  then show ?thesis unfolding read32_def by (metis read_bytes_cong)
qed

lemma fb_chain_same:
  "(\<And>a j. a \<in> set ts \<Longrightarrow> j < 32 \<Longrightarrow> m' (a + of_nat j) = m (a + of_nat j)) \<Longrightarrow> fb_chain m end_at ts \<Longrightarrow> fb_chain m' end_at ts"
proof (induction m end_at ts rule: fb_chain.induct)
  case (2 m e a)
  then show ?case using read32_same [of m' a m 0] by simp
next
  case (3 m e a b ts)
  have "read32 m' a = read32 m a" "read32 m' (a + 4) = read32 m (a + 4)"
    using read32_same [of m' a m 0] read32_same [of m' a m 4] "3.prems"(1) [of a] by simp_all
  moreover have "fb_chain m e (b # ts)" using "3.prems"(2) unfolding fb_chain.simps by blast
  then have "fb_chain m' e (b # ts)" using "3.IH" "3.prems"(1) by (meson list.set_intros(2))
  ultimately show ?case using "3.prems"(2) unfolding fb_chain.simps by metis
qed simp

lemma screen_tag_same:
  assumes e: "\<And>a j. a \<in> set (mb # ts) \<Longrightarrow> j < 32 \<Longrightarrow> m' (a + of_nat j) = m (a + of_nat j)" and t: "screen_tag m mb ts t"
  shows "screen_tag m' mb ts t"
proof -
  have "ts \<noteq> []" using t by (auto simp: screen_tag_def)
  then have l: "last ts \<in> set (mb # ts)" by simp
  have r: "read32 m' (last ts + of_nat k) = read32 m (last ts + of_nat k)" if "k \<le> 28" for k
    using e [OF l] that by (intro read32_same) auto
  have "read64 m' (last ts + 8) = read64 m (last ts + 8)"
  proof (rule read64_cong)
    fix i :: nat assume "i < 8"
    then show "m' (last ts + 8 + of_nat i) = m (last ts + 8 + of_nat i)" using e [OF l, of "8 + i"] by (simp add: add.assoc)
  qed
  then have g: "get_fb_tag m' (last ts) = get_fb_tag m (last ts)"
    using r [of 16] r [of 20] r [of 24] e [OF l, of 28] e [OF l, of 29] by (simp add: get_fb_tag_def)
  have "read32 m' mb = read32 m mb" using read32_same [of m' mb m 0] e [of mb] by simp
  moreover have "fb_chain m' end_at ts" if "fb_chain m end_at ts" for end_at
    using fb_chain_same [OF _ that, of m'] e by simp
  ultimately show ?thesis using t g by (simp add: screen_tag_def)
qed

section \<open>Hardware that answers\<close>

text \<open>Reading the data port empties the output buffer of the keyboard controller after finitely many bytes.\<close>

fun ps2_reads :: "device \<Rightarrow> nat \<Rightarrow> history \<Rightarrow> history" where
  "ps2_reads dev 0 h = h"
| "ps2_reads dev (Suc n) h = ps2_reads dev n (snd (inb dev PS2_DATA (snd (inb dev PS2_STATUS h))))"

definition empties :: "device \<Rightarrow> bool" where
  "empties dev \<longleftrightarrow> (\<forall>h. \<exists>n. fst (inb dev PS2_STATUS (ps2_reads dev n h)) AND 0x01 = 0)"

lemma flush_ends: "fst (inb dev PS2_STATUS (ps2_reads dev n h)) AND 0x01 = 0 \<Longrightarrow> \<exists>h1. mouse_flush dev h = Some h1"
proof (induction n arbitrary: h)
  case 0
  then show ?case by (subst mouse_flush.simps) (auto split: prod.splits)
next
  case (Suc n)
  then show ?case by (subst mouse_flush.simps) (auto split: prod.splits)
qed

lemma mouse_starts:
  assumes "empties dev"
  shows "\<exists>m' h'. mouse_init dev w ht m h = Some (m', h') \<and> m' = m\<lparr>g_screen_w := w, g_screen_h := ht,
    g_mouse := \<lparr>mouse_x = word_of_int (sint w sdiv 2), mouse_y = word_of_int (sint ht sdiv 2), mouse_buttons = 0, mouse_moved = True\<rparr>\<rparr>"
proof -
  have "\<exists>h1. mouse_flush dev h2 = Some h1" for h2 using assms flush_ends unfolding empties_def by blast
  then obtain h1 where "mouse_flush dev (outb PS2_CMD 0xA7 (wait_input_ready dev (outb PS2_CMD 0xAD (wait_input_ready dev h)))) = Some h1"
    by blast
  then show ?thesis by (simp add: mouse_init_def Let_def split: prod.split)
qed

lemma mouse_centred:
  fixes w :: u32
  assumes "0 < unat w" and "unat w \<le> 2 ^ 15"
  shows "0 < sint w \<and> sint w \<le> 65536 \<and> 0 \<le> sint (word_of_int (sint w sdiv 2) :: i32) \<and> sint (word_of_int (sint w sdiv 2) :: i32) < sint w"
proof -
  obtain n where w: "w = of_nat n" and n: "0 < n" "n \<le> 2 ^ 15" using assms by (metis of_nat_unat ucast_id)
  have s: "sint w = int n" unfolding w using n(2) by (intro sint_of_nat) simp
  have d: "int n sdiv 2 = int (n div 2)" using n(1) by (simp add: signed_divide_int_def sgn_if zdiv_int)
  have "sint (of_nat (n div 2) :: i32) = int (n div 2)" using n(2) by (intro sint_of_nat) simp
  then show ?thesis unfolding s d of_int_of_nat_eq using n by simp
qed

lemma splash_ends:
  assumes "list_ex (\<lambda>n. 200 \<le> n \<and> n < 2 ^ 64) ns"
  shows "\<exists>m'. splash_loop fb start (map (\<lambda>n. start + of_nat n) ns) m = Some m'"
  using assms
proof (induction ns arbitrary: m)
  case (Cons n ns)
  have "\<not> (of_nat n :: u64) < 200" if "200 \<le> n" "n < 2 ^ 64" using that by (simp add: word_less_nat_alt unat_of_nat_64)
  then show ?case using Cons by (auto simp: Let_def)
qed simp


section \<open>The desktop comes up\<close>

text \<open>The static variables of the desktop and the mouse at power on.\<close>

definition desk_fresh :: "desk \<Rightarrow> bool" where
  "desk_fresh d \<longleftrightarrow> length (windows (d_wm d)) = MAX_WINDOWS \<and> g_drag_idx d = None \<and> g_files_dir (d_files d) = 0 \<and>
     g_files_selected (d_files d) = 0 \<and> g_editor_file (d_files d) = 0 \<and> g_files_rows (d_files d) = [] \<and> g_args_buf (d_files d) = [] \<and>
     length (packet (d_mouse d)) = 3 \<and> packet_idx (d_mouse d) = 0"

text \<open>What the start of memory, files and processes leaves behind for the desktop.\<close>

definition tree_up :: "u64 set \<Rightarrow> (u64 \<Rightarrow> u64 list) \<Rightarrow> desk \<Rightarrow> bool" where
  "tree_up N ch d \<longleftrightarrow> tree_ok (desk_fs d) N ch \<and> nkind (nodes (desk_fs d) (g_root (desk_fs d))) = VFS_DIR \<and>
     nparent (nodes (desk_fs d) (g_root (desk_fs d))) = 0 \<and> g_cwd (d_world d) = 0"

lemma fresh_held: "desk_fresh d \<Longrightarrow> tree_up N ch d \<Longrightarrow> tree_held N ch d"
  by (simp add: tree_held_def desk_fresh_def tree_up_def cwd_ok_def files_ok_def)

lemma desktop_started:
  assumes h: "tree_held N ch d" and f: "desk_fresh d" and m: "mouse_ok (d_mouse d)"
  shows "\<exists>d'. gui_init dev d = Some d' \<and> tree_held N ch d' \<and> desk_ok d' \<and> mouse_ok (d_mouse d') \<and> z_order (d_wm d') = []"
proof -
  define d1 where "d1 = set_desk_mem (cursor_compile (d_cursor d) (desk_mem d)) d"
  define d2 where "d2 = on_wm (\<lambda>g. g\<lparr>wm_term := term_clear (wm_term g), windows := map (\<lambda>w. w\<lparr>win_used := False\<rparr>) (windows g), z_order := []\<rparr>) d1"
  define d3 where "d3 = on_files (\<lambda>f. f\<lparr>g_files_dir := vfs_root (desk_fs d2), g_files_selected := 0, g_editor_file := 0\<rparr>) d2"
  obtain ok bs h' where r: "ata_read dev (d_disk d3) 0 1 (w_io (d_world d3)) = (ok, bs, h')" by (metis prod_cases3)
  define d4 where "d4 = d3\<lparr>d_world := (d_world d3)\<lparr>w_io := h'\<rparr>\<rparr>"
  have i: "gui_init dev d = gui_present d4" 
    unfolding gui_init_def Let_def d1_def [symmetric] d2_def [symmetric] d3_def [symmetric] r prod.case d4_def by (rule refl)
  have h2: "tree_held N ch d2" using h by (simp add: d2_def d1_def)
  have k: "nkind (nodes (desk_fs d2) (g_root (desk_fs d2))) = VFS_DIR" using h2 by (simp add: tree_held_def cwd_ok_def tree_of_def)
  have "d_files d2 = d_files d" by (simp add: d2_def d1_def on_wm_def set_desk_mem_def)
  then have "files_ok ch (desk_fs d2) ((d_files d2)\<lparr>g_files_dir := vfs_root (desk_fs d2), g_files_selected := 0, g_editor_file := 0\<rparr>)"
    using f k by (simp add: files_ok_def in_tree_def vfs_root_def desk_fresh_def)
  then have "tree_held N ch d3" using on_files_held [OF h2] by (simp add: d3_def)
  then have h4: "tree_held N ch d4" unfolding d4_def tree_held_io .
  have "open_windows (d_wm d4) = {}"
    using f by (auto simp: d4_def d3_def d2_def d1_def on_wm_def on_files_def set_desk_mem_def desk_fresh_def open_windows_def)
  then have "desk_ok d4"
    using f clear_displays empty_page_ok
    by (auto simp: desk_ok_def d4_def d3_def d2_def d1_def on_wm_def on_files_def set_desk_mem_def desk_fresh_def wm_ok_def
        term_ok_def FILES_ARGS_CAP_def)
  moreover have "mouse_ok (d_mouse d4)" using m by (simp add: d4_def d3_def d2_def d1_def)
  moreover obtain d' where p: "gui_present d4 = Some d'" using held_repaints [OF h4] by blast
  moreover have "z_order (d_wm d4) = []" by (simp add: d4_def d3_def d2_def on_wm_def on_files_def)
  ultimately show ?thesis
    using i gui_present_held [OF h4 p] gui_present_ok gui_present_mouse [OF p] gui_present_same [OF p] by metis
qed


lemma held_same:
  assumes "tree_held N ch d" and "same_tree (desk_fs d) (desk_fs d')" and "g_cwd (d_world d') = g_cwd (d_world d)" and "d_files d' = d_files d"
    and "desk_fresh d" and "d_wm d' = d_wm d" and "g_drag_idx d' = g_drag_idx d" and "packet (d_mouse d') = packet (d_mouse d)"
    and "packet_idx (d_mouse d') = packet_idx (d_mouse d)"
  shows "tree_held N ch d' \<and> desk_fresh d'"
  using tree_held_keep [OF assms(1-4)] assms(4-9) by (simp add: desk_fresh_def)

lemma framebuffer_started:
  assumes h: "heap_ok (kheap_of (k_procs (w_k (d_world d)))) bs" and t: "supported t"
    and room: "abs_malloc (round8 (ucast (tag_width t) * ucast (tag_height t) * 4)) bs \<noteq> None"
  shows "\<exists>p h'. start_framebuffer t d = Some (True, (on_procs (\<lambda>ps. ps\<lparr>kheap_of := h'\<rparr>) d)\<lparr>d_fb := (d_fb d)\<lparr>fb_hw := tag_addr t,
    fb_w := tag_width t, fb_h := tag_height t, pitch_px := tag_pitch t div 4, fb_back := p, fb_is_ready := True\<rparr>\<rparr>)"
proof -
  let ?n = "ucast (tag_width t) * ucast (tag_height t) * 4 :: u64"
  define k where "k = unat (tag_width t) * unat (tag_height t)"
  have "k \<le> 2 ^ 15 * 2 ^ 15" unfolding k_def using t by (intro mult_le_mono) (simp_all add: supported_def)
  then have "unat ?n = k * 4" by (simp add: unat_word_ariths unat_zext_64 mod_less flip: k_def)
  moreover have "0 < k" using t by (simp add: k_def supported_def)
  ultimately have "?n \<noteq> 0" by (metis mult_is_0 less_numeral_extra(3) unat_0 zero_neq_numeral)
  then obtain p h' where "kmalloc ?n (kheap_of (k_procs (w_k (d_world d)))) = Some (p, h')" "p \<noteq> 0"
    using kmalloc_cases [OF h, of ?n] room by (metis option.distinct(1))
  then show ?thesis using t by (auto simp: start_framebuffer_def fb_init_def supported_def Let_def)
qed

text \<open>
  Once memory, files and processes are up, a machine whose boot information has the tag of a supported frame buffer, whose heap has room for the
  back buffer, and whose mouse controller answers, comes up with the desktop: \<open>start_screen\<close> returns, with
  no window open, the directory shown and all pointers into the tree valid, the terminal empty and the pointer on the screen.
\<close>

lemma desktop_comes_up:
  assumes "screen_tag (desk_mem d) mb ts t" and "supported t"
    and "heap_ok (kheap_of (k_procs (w_k (d_world d)))) bs" and "abs_malloc (round8 (ucast (tag_width t) * ucast (tag_height t) * 4)) bs \<noteq> None"
    and "empties (pf_dev pf)" and "list_ex (\<lambda>n. 200 \<le> n \<and> n < 2 ^ 64) (pf_frames pf)"
    and "desk_fresh d" and "tree_up N ch d"
  shows "\<exists>d'. start_screen pf mb d = Some (True, d') \<and> tree_held N ch d' \<and> desk_ok d' \<and> mouse_ok (d_mouse d') \<and> z_order (d_wm d') = []"
proof -
  obtain at where at: "find_framebuffer_tag (desk_mem d) mb = Some at" "at \<noteq> 0" "get_fb_tag (desk_mem d) at = t"
    using find_screen [OF assms(1)] by blast
  obtain p h' where fb: "start_framebuffer t d = Some (True, (on_procs (\<lambda>ps. ps\<lparr>kheap_of := h'\<rparr>) d)\<lparr>d_fb := (d_fb d)\<lparr>fb_hw := tag_addr t,
    fb_w := tag_width t, fb_h := tag_height t, pitch_px := tag_pitch t div 4, fb_back := p, fb_is_ready := True\<rparr>\<rparr>)" (is "_ = Some (True, ?d1)")
    using framebuffer_started [OF assms(3,2,4)] by blast
  have "same_tree (desk_fs d) (desk_fs ?d1)" by (rule same_tree_nodes) (simp_all add: on_procs_def on_world_def set_procs_def)
  then have d1: "tree_held N ch ?d1 \<and> desk_fresh ?d1"
    using fresh_held [OF assms(7,8)] assms(7) by (intro held_same [of N ch d]) (simp_all add: on_procs_def on_world_def set_procs_def)
  obtain m h where mo: "mouse_init (pf_dev pf) (tag_width t) (tag_height t) (d_mouse ?d1) (w_io (d_world ?d1)) = Some (m, h)"
    "m = (d_mouse ?d1)\<lparr>g_screen_w := tag_width t, g_screen_h := tag_height t,
       g_mouse := \<lparr>mouse_x = word_of_int (sint (tag_width t) sdiv 2), mouse_y = word_of_int (sint (tag_height t) sdiv 2), mouse_buttons = 0, mouse_moved = True\<rparr>\<rparr>"
    using mouse_starts [OF assms(5)] by blast
  define d2 where "d2 = (on_io (\<lambda>_. h) ?d1)\<lparr>d_mouse := m\<rparr>"
  have s2: "start_mouse pf t ?d1 = Some d2" using mo(1) by (simp add: start_mouse_def d2_def)
  have d2: "tree_held N ch d2 \<and> desk_fresh d2"
    using d1 mo(2) by (intro held_same [of N ch ?d1]) (simp_all add: d2_def on_io_def on_world_def same_tree_refl)
  have m2: "mouse_ok (d_mouse d2)"
    using mouse_centred [of "tag_width t"] mouse_centred [of "tag_height t"] assms(2) d1 mo(2)
    by (simp add: d2_def mouse_ok_def screen_ok_def pointer_ok_def supported_def desk_fresh_def)
  obtain mem3 where sp: "gui_run_splash (d_fb d2) (desk_ticks d2) (map (\<lambda>n. desk_ticks d2 + of_nat n) (pf_frames pf)) (desk_mem d2) = Some mem3"
    unfolding gui_run_splash_def using splash_ends [OF assms(6)] by metis
  define d3 where "d3 = timer_passes (splash_passes (pf_frames pf)) (set_desk_mem mem3 d2)"
  have s3: "show_splash pf d2 = Some d3" using sp by (simp add: show_splash_def d3_def)
  obtain k where k: "d3 = (set_desk_mem mem3 d2)\<lparr>d_world := (d_world (set_desk_mem mem3 d2))\<lparr>w_k := k\<rparr>\<rparr>"
    unfolding d3_def timer_passes_def Let_def on_world_def
    by (cases "(timer_handler ^^ splash_passes (pf_frames pf)) (k_timer (w_k (d_world (set_desk_mem mem3 d2))), k_procs (w_k (d_world (set_desk_mem mem3 d2))))")
      (simp only: prod.case)
  have d3: "tree_held N ch d3 \<and> desk_fresh d3"
    unfolding k using d2 tree_held_k [of N ch d2] by (simp add: desk_fresh_def set_desk_mem_def)
  have m3: "d_mouse d3 = d_mouse d2" unfolding k by (simp add: set_desk_mem_def)
  obtain d4 where d4: "gui_init (pf_dev pf) d3 = Some d4" "tree_held N ch d4" "desk_ok d4" "mouse_ok (d_mouse d4)" "z_order (d_wm d4) = []"
    using desktop_started [of N ch d3 "pf_dev pf"] d3 m2 m3 by auto
  define d5 where "d5 = on_console (vga_set_gui_redirect True) d4"
  have "start_desktop pf t ?d1 = Some d5" using s2 s3 d4(1) by (simp add: start_desktop_def d5_def)
  then have "start_screen pf mb d = Some (True, d5)" using at fb by (simp add: start_screen_def Let_def)
  moreover have "tree_held N ch d5"
    using tree_held_k [OF d4(2)] by (simp add: d5_def on_console_def on_world_def)
  moreover have "desk_ok d5" "d_mouse d5 = d_mouse d4" "d_wm d5 = d_wm d4" using d4(3) by (simp_all add: d5_def on_console_def on_world_def)
  ultimately show ?thesis using d4(4,5) by auto
qed

end
