(* ===== verification/Startup.thy ===== *)
theory Startup
  imports Boot
begin

text \<open>
  The start of the kernel as a whole: on a machine with enough memory, a supported frame buffer and devices that answer, \<open>kernel_main\<close>
  comes back with every component started. The heap is fresh and nothing is freed before the desktop is up, so its blocks lie one
  after the other; the lemmas follow how much of it each step takes and that no step writes outside it, where the boot information lies.
\<close>

section \<open>A heap on which nothing was freed\<close>

definition stacked :: "heap \<Rightarrow> nat \<Rightarrow> nat \<Rightarrow> bool" where
  "stacked h u l \<longleftrightarrow> (\<exists>ks n. heap_ok h (map (\<lambda>k. (k, False)) ks @ [(n, True)]) \<and> ntot (map (\<lambda>k. (k, False)) ks) = u \<and> unat n = l)"

text \<open>Memory outside the heap is the same, and the heap lies where it was.\<close>

definition same_outside :: "nat \<Rightarrow> heap \<Rightarrow> heap \<Rightarrow> bool" where
  "same_outside n h h' \<longleftrightarrow> heap_start h' = heap_start h \<and> heap_size h' = heap_size h \<and>
     (\<forall>x. unat x < unat (heap_start h) \<or> unat (heap_start h) + n \<le> unat x \<longrightarrow> hmem h' x = hmem h x)"

lemma same_outside_refl [simp]: "same_outside n h h"
  by (simp add: same_outside_def)

lemma same_outside_trans: "same_outside n h h1 \<Longrightarrow> same_outside n h1 h2 \<Longrightarrow> same_outside n h h2"
  by (simp add: same_outside_def)

lemma round8_near:
  assumes "unat q \<le> 2 ^ 32"
  shows "unat q \<le> unat (round8 q) \<and> unat (round8 q) \<le> unat q + 7"
proof -
  have s: "unat (q + 7) = unat q + 7" using assms by (simp add: unat_word_ariths)
  have b: "(unat q + 7) div 8 * 8 \<le> unat q + 7" "unat q \<le> (unat q + 7) div 8 * 8" by presburger+
  have "unat (round8 q) = (unat q + 7) div 8 * 8"
    unfolding round8_def and_not_7 s using assms b by (intro unat_of_nat_64) simp
  then show ?thesis using b by simp
qed

lemma stacked_kmalloc:
  assumes s: "stacked h u l" and q: "q \<noteq> 0" "unat q \<le> 2 ^ 32" "unat q + 32 \<le> l"
  obtains h' k where "kmalloc q h = Some (of_nat (unat (heap_start h) + u + 17), h')" "unat q \<le> k" "k \<le> unat q + 7"
    "stacked h' (u + 17 + k) (l - 17 - k)" "same_outside (u + 17 + l) h h'"
    "\<And>m. (\<And>x. unat x < unat (heap_start h) + u + 17 \<or> unat (heap_start h) + u + 17 + k \<le> unat x \<Longrightarrow> m x = hmem h' x) \<Longrightarrow>
       stacked (h'\<lparr>hmem := m\<rparr>) (u + 17 + k) (l - 17 - k)"
    "unat (heap_start h) + u + 17 + l < 2 ^ 63" "0 < unat (heap_start h)"
proof -
  let ?a = "unat (heap_start h)"
  obtain ks n where ok: "heap_ok h (map (\<lambda>k. (k, False)) ks @ [(n, True)])" and u: "ntot (map (\<lambda>k. (k, False)) ks) = u" and l: "unat n = l"
    using s by (auto simp: stacked_def)
  let ?xs = "map (\<lambda>k. (k, False)) ks"
  define k where "k = round8 q"
  have k: "unat q \<le> unat k" "unat k \<le> unat q + 7" using round8_near [OF q(2)] by (simp_all add: k_def)
  have fit: "k \<le> n" and nofit: "\<forall>b \<in> set ?xs. \<not> fits k b" using k q(3) l by (auto simp: word_le_nat_alt)
  have big: "?a + u + 17 + l < 2 ^ 63" "0 < ?a" using ok u l by (simp_all add: heap_ok_def)
  obtain m' where m': "kmalloc q h = Some (of_nat (?a + u + 17), h\<lparr>hmem := m'\<rparr>)" "heap_ok (h\<lparr>hmem := m'\<rparr>) (?xs @ cut k n @ [])"
      "\<forall>x. unat x < ?a + u \<or> ?a + u + 17 + l \<le> unat x \<longrightarrow> m' x = hmem h x"
    using kmalloc_ok_fit [of h ?xs n "[]" q] ok q(1) fit nofit unfolding k_def [symmetric] u l by auto
  define n' where "n' = n - k - 17"
  have c: "cut k n = [(k, False), (n', True)]" and n': "unat n' = l - 17 - unat k"
    using k q(3) l cut_rest [of k n] by (simp_all add: cut_def n'_def)
  have ok': "heap_ok (h\<lparr>hmem := m'\<rparr>) (map (\<lambda>k. (k, False)) (ks @ [k]) @ [(n', True)])" using m'(2) by (simp add: c)
  have u': "ntot (map (\<lambda>k. (k, False)) (ks @ [k])) = u + 17 + unat k" by (simp add: u)
  have st: "stacked (h\<lparr>hmem := m'\<rparr>) (u + 17 + unat k) (l - 17 - unat k)"
    unfolding stacked_def using ok' u' n' by blast
  have out: "same_outside (u + 17 + l) h (h\<lparr>hmem := m'\<rparr>)" using m'(3) by (simp add: same_outside_def)
  have wr: "stacked ((h\<lparr>hmem := m'\<rparr>)\<lparr>hmem := m\<rparr>) (u + 17 + unat k) (l - 17 - unat k)"
    if m: "\<And>x. unat x < ?a + u + 17 \<or> ?a + u + 17 + unat k \<le> unat x \<Longrightarrow> m x = hmem (h\<lparr>hmem := m'\<rparr>) x" for m
  proof -
    have "heap_ok ((h\<lparr>hmem := m'\<rparr>)\<lparr>hmem := m\<rparr>) (map (\<lambda>k. (k, False)) (ks @ [k]) @ [(n', True)])"
    proof (rule heap_ok_payload [OF ok'])
      fix x :: u64 assume x: "unat x \<notin> pays (unat (heap_start (h\<lparr>hmem := m'\<rparr>))) (map (\<lambda>k. (k, False)) (ks @ [k]) @ [(n', True)])"
      have "{?a + u + 17 ..< ?a + u + 17 + unat k} \<subseteq> pays ?a (map (\<lambda>k. (k, False)) (ks @ [k]) @ [(n', True)])"
        by (auto simp: pays_append u)
      then have "unat x \<notin> {?a + u + 17 ..< ?a + u + 17 + unat k}" using x by auto
      then show "m x = hmem (h\<lparr>hmem := m'\<rparr>) x" by (intro m) auto
    qed
    then show ?thesis unfolding stacked_def using u' n' by blast
  qed
  show ?thesis by (rule that [OF m'(1) k st out wr big])
qed


section \<open>Steps of the start of the file system\<close>

text \<open>
  The heap still has \<open>c\<close> bytes in one block after the first \<open>u\<close>, and memory outside its \<open>n\<close> bytes is what it was.
\<close>

definition heap_room :: "heap \<Rightarrow> nat \<Rightarrow> nat \<Rightarrow> nat \<Rightarrow> heap \<Rightarrow> bool" where
  "heap_room h0 n c u h \<longleftrightarrow> same_outside n h0 h \<and> (\<exists>l. stacked h u l \<and> u + 17 + l = n \<and> c \<le> l)"

lemma heap_room_less: "heap_room h0 n c u h \<Longrightarrow> c' \<le> c \<Longrightarrow> heap_room h0 n c' u h"
  unfolding heap_room_def using le_trans by blast

lemma heap_room_take:
  assumes r: "heap_room h0 n (c + 32 + unat q) u h" and q: "q \<noteq> 0" "unat q \<le> 2 ^ 32"
  obtains p h' u' where "kmalloc q h = Some (p, h')" "unat p = unat (heap_start h0) + u + 17" "u + 17 + unat q \<le> u'" "heap_room h0 n c u' h'"
    "\<forall>m. (\<forall>x. unat x < unat p \<or> unat p + unat q \<le> unat x \<longrightarrow> m x = hmem h' x) \<longrightarrow> heap_room h0 n c u' (h'\<lparr>hmem := m\<rparr>)"
    "unat p + unat q < 2 ^ 63"
proof -
  obtain l where l: "stacked h u l" "u + 17 + l = n" "c + 32 + unat q \<le> l" and o: "same_outside n h0 h" using r by (auto simp: heap_room_def)
  have a: "heap_start h = heap_start h0" using o by (simp add: same_outside_def)
  obtain h' k where h: "kmalloc q h = Some (of_nat (unat (heap_start h) + u + 17), h')" "unat q \<le> k" "k \<le> unat q + 7"
    "stacked h' (u + 17 + k) (l - 17 - k)" "same_outside (u + 17 + l) h h'"
    "\<And>m. (\<And>x. unat x < unat (heap_start h) + u + 17 \<or> unat (heap_start h) + u + 17 + k \<le> unat x \<Longrightarrow> m x = hmem h' x) \<Longrightarrow>
       stacked (h'\<lparr>hmem := m\<rparr>) (u + 17 + k) (l - 17 - k)"
    "unat (heap_start h) + u + 17 + l < 2 ^ 63" "0 < unat (heap_start h)"
    by (rule stacked_kmalloc [OF l(1) q]) (use l(3) in simp, blast)
  let ?p = "of_nat (unat (heap_start h) + u + 17) :: u64"
  have p: "unat ?p = unat (heap_start h0) + u + 17" using h(7) a by (subst unat_of_nat_64) simp_all
  have n: "u + 17 + k + 17 + (l - 17 - k) = n" "c \<le> l - 17 - k" using l(2,3) h(3) by simp_all
  have o': "same_outside n h0 h'" using same_outside_trans [OF o h(5) [unfolded l(2)]] .
  show ?thesis
  proof (rule that [OF h(1) p])
    show "u + 17 + unat q \<le> u + 17 + k" using h(2) by simp
    show "heap_room h0 n c (u + 17 + k) h'" unfolding heap_room_def using o' h(4) n by blast
    show "unat ?p + unat q < 2 ^ 63" using p h(7) a l(3) by simp
    show "\<forall>m. (\<forall>x. unat x < unat ?p \<or> unat ?p + unat q \<le> unat x \<longrightarrow> m x = hmem h' x) \<longrightarrow> heap_room h0 n c (u + 17 + k) (h'\<lparr>hmem := m\<rparr>)"
    proof (intro allI impI)
      fix m :: mem assume m: "\<forall>x. unat x < unat ?p \<or> unat ?p + unat q \<le> unat x \<longrightarrow> m x = hmem h' x"
      have "stacked (h'\<lparr>hmem := m\<rparr>) (u + 17 + k) (l - 17 - k)" using h(2) p a m by (intro h(6)) auto
      moreover have "same_outside n h0 (h'\<lparr>hmem := m\<rparr>)"
        using o' m p l(2,3) by (auto simp: same_outside_def)
      ultimately show "heap_room h0 n c (u + 17 + k) (h'\<lparr>hmem := m\<rparr>)" unfolding heap_room_def using n by blast
    qed
  qed
qed

text \<open>The same for the file system whose root is the oldest node.\<close>

definition fs_room :: "heap \<Rightarrow> nat \<Rightarrow> nat \<Rightarrow> vfs \<Rightarrow> bool" where
  "fs_room h0 n c s \<longleftrightarrow> (\<exists>u. heap_room h0 n c u (vheap s) \<and> unat (g_root s) < unat (heap_start h0) + u) \<and>
     g_root s \<noteq> 0 \<and> nparent (nodes s (g_root s)) = 0"

lemma fs_room_less: "fs_room h0 n c s \<Longrightarrow> c' \<le> c \<Longrightarrow> fs_room h0 n c' s"
  unfolding fs_room_def using heap_room_less by blast

lemma append_child_keeps: "append_child d n s = Some s' \<Longrightarrow> child_fields n s s'"
  by (auto simp: append_child_def child_fields_def upd_node_def split: if_splits option.splits)

lemma alloc_node_room:
  assumes r: "alloc_node nm k d s = Some (x, s')" and h: "heap_room h0 n (c + 128) u (vheap s)"
  obtains u' where "heap_room h0 n c u' (vheap s')" "unat x = unat (heap_start h0) + u + 17" "unat x < unat (heap_start h0) + u'" "x \<noteq> 0" "u \<le> u'"
    "g_root s' = g_root s" "\<forall>y. y \<noteq> x \<longrightarrow> nparent (nodes s' y) = nparent (nodes s y)" "nparent (nodes s' x) = d"
    "nkind (nodes s' x) = k" "ncontent (nodes s' x) = 0" "ncap (nodes s' x) = 0"
proof -
  have e: "c + 32 + unat (96 :: u64) = c + 128" by simp
  have "heap_room h0 n (c + 32 + unat (96 :: u64)) u (vheap s)" unfolding e by (rule h)
  then obtain p h' u' where p: "kmalloc 96 (vheap s) = Some (p, h')" "unat p = unat (heap_start h0) + u + 17" "u + 17 + unat (96 :: u64) \<le> u'"
      "heap_room h0 n c u' h'"
    by (rule heap_room_take) simp_all
  have p0: "p \<noteq> 0" using p(2) by (metis add_is_0 unat_0 zero_neq_numeral)
  then have a: "append_child d p (upd_node p (\<lambda>_. new_node nm k d) (s\<lparr>vheap := h'\<rparr>)) = Some s'" "x = p"
    using r p(1) by (auto simp: alloc_node_def SIZEOF_VFS_NODE_def)
  have f: "child_fields p (upd_node p (\<lambda>_. new_node nm k d) (s\<lparr>vheap := h'\<rparr>)) s'" by (rule append_child_keeps [OF a(1)])
  show ?thesis
    by (rule that [of u']) (use f p p0 a(2) in \<open>simp_all add: child_fields_def upd_node_def new_node_def\<close>)
qed

lemma alloc_node_fs:
  assumes "alloc_node nm k d s = Some (x, s')" and "fs_room h0 n (c + 128) s"
  shows "fs_room h0 n c s' \<and> x \<noteq> 0"
proof -
  obtain u where u: "heap_room h0 n (c + 128) u (vheap s)" "unat (g_root s) < unat (heap_start h0) + u" "g_root s \<noteq> 0"
      "nparent (nodes s (g_root s)) = 0" using assms(2) by (auto simp: fs_room_def)
  show ?thesis
  proof (rule alloc_node_room [OF assms(1) u(1)])
    fix u' assume a: "heap_room h0 n c u' (vheap s')" "unat x = unat (heap_start h0) + u + 17" "unat x < unat (heap_start h0) + u'" "x \<noteq> 0" "u \<le> u'"
      "g_root s' = g_root s" "\<forall>y. y \<noteq> x \<longrightarrow> nparent (nodes s' y) = nparent (nodes s y)"
    have "g_root s \<noteq> x" using a(2) u(2) by auto
    then show ?thesis using a u(2-4) by (auto simp: fs_room_def)
  qed
qed


lemma grow_cap_small:
  assumes "unat need \<le> 512"
  shows "\<exists>k. grow_cap need 64 = Some k \<and> unat need \<le> unat k \<and> unat k \<le> 512 \<and> k \<noteq> 0"
  using assms
  by (simp add: grow_cap.simps [of need 64] grow_cap.simps [of need 128] grow_cap.simps [of need 256] grow_cap.simps [of need 512]
      word_less_nat_alt)

lemma first_write_room:
  assumes w: "vfs_write x bs len s = Some (ok, s')" and h: "heap_room h0 n (c + 544) u (vheap s)" and x: "x \<noteq> 0" "nkind (nodes s x) = VFS_FILE"
    "ncontent (nodes s x) = 0" "ncap (nodes s x) = 0" and l: "unat len < 512" "length bs = unat len"
  obtains u' where "heap_room h0 n c u' (vheap s')" "u \<le> u'" "g_root s' = g_root s" "\<And>y. nparent (nodes s' y) = nparent (nodes s y)"
proof -
  have need: "unat (len + 1) = unat len + 1" using l(1) by (simp add: unat_word_ariths)
  obtain k where k: "grow_cap (len + 1) 64 = Some k" "unat (len + 1) \<le> unat k" "unat k \<le> 512" "k \<noteq> 0"
    using grow_cap_small [of "len + 1"] need l(1) by auto
  have uk: "unat (ucast k :: u64) = unat k" by (rule unat_zext_64)
  have "heap_room h0 n (c + 32 + unat (ucast k :: u64)) u (vheap s)" using h k(3) by (auto simp: uk intro: heap_room_less)
  moreover have "(ucast k :: u64) \<noteq> 0" using k(4) uk by (metis unat_0 unat_eq_0)
  moreover have "unat (ucast k :: u64) \<le> 2 ^ 32" using k(3) uk by simp
  ultimately obtain p h' u' where p: "kmalloc (ucast k) (vheap s) = Some (p, h')" "unat p = unat (heap_start h0) + u + 17"
      "u + 17 + unat (ucast k :: u64) \<le> u'" "heap_room h0 n c u' h'"
      "\<forall>m. (\<forall>x. unat x < unat p \<or> unat p + unat (ucast k :: u64) \<le> unat x \<longrightarrow> m x = hmem h' x) \<longrightarrow> heap_room h0 n c u' (h'\<lparr>hmem := m\<rparr>)"
      "unat p + unat (ucast k :: u64) < 2 ^ 63"
    by (rule heap_room_take)
  have p0: "p \<noteq> 0" using p(2) by (metis add_is_0 unat_0 zero_neq_numeral)
  have "0 < len + 1" using need by (simp add: word_less_nat_alt)
  then have nc: "\<not> len + 1 \<le> 0" by simp
  let ?s1 = "(upd_node x (\<lambda>y. y\<lparr>ncontent := p, ncap := k\<rparr>) s)\<lparr>vheap := h'\<rparr>"
  have e: "ensure_cap x (len + 1) s = Some (True, ?s1)"
    using nc by (simp add: ensure_cap_def Let_def x k(1) p(1) p0)
  let ?d = "take (unat len) bs @ [0]"
  have s': "s' = upd_node x (\<lambda>y. y\<lparr>nlen := len\<rparr>) (poke p ?d ?s1)"
    using w x(1,2) e by (simp add: vfs_write_def) (simp add: upd_node_def)
  have "heap_room h0 n c u' (h'\<lparr>hmem := write_bytes (hmem h') p ?d\<rparr>)"
  proof (rule p(5) [rule_format])
    fix y :: u64 assume y: "unat y < unat p \<or> unat p + unat (ucast k :: u64) \<le> unat y"
    have "length ?d \<le> unat k" using l k(2) need by simp
    then have "\<not> in_run y p (length ?d)" using y p(6) uk not_in_run_nat [of "unat p" "length ?d" "unat y"] unat_lt_64 [of y] by auto
    moreover have "length ?d < 2 ^ 64" using l by simp
    ultimately show "write_bytes (hmem h') p ?d y = hmem h' y" by (intro write_bytes_outside) auto
  qed
  then show ?thesis
    using p(3) by (intro that [of u']) (simp_all add: s' upd_node_def poke_def)
qed


lemma mkfile_room:
  assumes r: "mkfile_at d nm txts s = Some (x, s')" and h: "fs_room h0 n (c + 672) s" and l: "length txts < 512"
  shows "fs_room h0 n c s'"
proof -
  have e: "c + 672 = (c + 544) + 128" by simp
  obtain u where u: "heap_room h0 n ((c + 544) + 128) u (vheap s)" "unat (g_root s) < unat (heap_start h0) + u" "g_root s \<noteq> 0"
      "nparent (nodes s (g_root s)) = 0" using h unfolding fs_room_def e by blast
  obtain x1 s1 where a: "alloc_node nm VFS_FILE d s = Some (x1, s1)" using r by (auto simp: mkfile_at_def split: option.splits)
  obtain u1 where u1: "heap_room h0 n (c + 544) u1 (vheap s1)" "unat x1 = unat (heap_start h0) + u + 17" "u \<le> u1"
    "x1 \<noteq> 0" "g_root s1 = g_root s" "\<forall>y. y \<noteq> x1 \<longrightarrow> nparent (nodes s1 y) = nparent (nodes s y)"
    "nkind (nodes s1 x1) = VFS_FILE" "ncontent (nodes s1 x1) = 0" "ncap (nodes s1 x1) = 0"
    using alloc_node_room [OF a u(1)] by blast
  have "g_root s \<noteq> x1" using u1(2) u(2) by auto
  then have g: "unat (g_root s1) < unat (heap_start h0) + u1" "g_root s1 \<noteq> 0" "nparent (nodes s1 (g_root s1)) = 0"
    using u u1(3,5,6) by simp_all
  show ?thesis
  proof (cases "txts = []")
    case True
    then have "s' = s1" using r a u1(4) by (simp add: mkfile_at_def)
    then show ?thesis using u1(1) g heap_room_less [of h0 n "c + 544" _ _ c] by (auto simp: fs_room_def)
  next
    case False
    then obtain ok where w: "vfs_write x1 (bytes_of_string txts) (str_len txts) s1 = Some (ok, s')"
      using r a u1(4) by (auto simp: mkfile_at_def split: prod.splits)
    have len: "unat (str_len txts) = length txts" using l by (simp add: str_len_def unat_of_nat)
    obtain u2 where "heap_room h0 n c u2 (vheap s')" "u1 \<le> u2" "g_root s' = g_root s1" "\<And>y. nparent (nodes s' y) = nparent (nodes s1 y)"
      by (rule first_write_room [OF w u1(1,4,7,8,9)]) (use l len in \<open>simp_all add: bytes_of_string_def\<close>)
    then show ?thesis using g by (auto simp: fs_room_def)
  qed
qed

lemma mkexec_room:
  assumes r: "mkexec_at d nm fn desc s = Some (x, s')" and h: "fs_room h0 n (c + 128) s"
  shows "fs_room h0 n c s'"
proof -
  obtain x1 s1 where a: "alloc_node nm VFS_EXEC d s = Some (x1, s1)" using r by (auto simp: mkexec_at_def split: option.splits)
  have "fs_room h0 n c s1" using alloc_node_fs [OF a h] by blast
  then show ?thesis using r a by (auto simp: mkexec_at_def fs_room_def upd_node_def split: if_splits)
qed

fun short_text :: "init_call \<Rightarrow> bool" where
  "short_text (Make_file dir nm txts) = (length txts < 512)"
| "short_text (Make_exec nm fn desc) = True"

lemma init_all_room:
  "init_all home docs bin cs s = Some s' \<Longrightarrow> fs_room h0 n (c + 672 * length cs) s \<Longrightarrow> list_all short_text cs \<Longrightarrow> fs_room h0 n c s'"
proof (induction home docs bin cs s rule: init_all.induct)
  case (2 home docs bin k cs s)
  then obtain s1 where r: "run_init_call home docs bin k s = Some s1" "init_all home docs bin cs s1 = Some s'"
    by (auto split: option.splits)
  have "fs_room h0 n (c + 672 * length cs) s1"
  proof (cases k)
    case (Make_file dir nm txts)
    then show ?thesis using r(1) "2.prems"(2,3) mkfile_room [of _ nm txts s _ s1 h0 n "c + 672 * length cs"]
      by (auto simp: ac_simps split: if_splits)
  next
    case (Make_exec nm fn desc)
    have "fs_room h0 n (c + 672 * length cs + 128) s" using fs_room_less [OF "2.prems"(2)] by simp
    then show ?thesis using r(1) Make_exec mkexec_room [of _ nm fn desc s _ s1 h0 n "c + 672 * length cs"] by auto
  qed
  then show ?case using "2.IH" r "2.prems"(3) by simp
qed simp

lemma init_calls_short: "list_all short_text init_calls"
  by code_simp

text \<open>The initial tree takes at most 8576 bytes of the heap.\<close>

lemma vfs_init_room:
  assumes r: "vfs_init s = Some s'" and h: "heap_room h0 n (c + 8576) u (vheap s)"
  shows "fs_room h0 n c s'"
proof -
  obtain root s0 where a: "alloc_node ''/'' VFS_DIR 0 s = Some (root, s0)" using r by (auto simp: vfs_init_def split: option.splits)
  obtain u0 where u0: "heap_room h0 n (c + 8448) u0 (vheap s0)" "unat root < unat (heap_start h0) + u0" "root \<noteq> 0" "nparent (nodes s0 root) = 0"
    by (rule alloc_node_room [OF a, of h0 n "c + 8448"]) (use h in \<open>simp_all add: ac_simps\<close>)
  have "fs_room h0 n (c + 8448) (s0\<lparr>g_root := root\<rparr>)" using u0 by (auto simp: fs_room_def)
  then have f: "fs_room h0 n ((c + 8320) + 128) (s0\<lparr>g_root := root\<rparr>)" by (rule fs_room_less) simp
  obtain home s1 docs s2 bin s3 where m: "alloc_node ''home'' VFS_DIR root (s0\<lparr>g_root := root\<rparr>) = Some (home, s1)"
      "alloc_node ''docs'' VFS_DIR root s1 = Some (docs, s2)" "alloc_node ''bin'' VFS_DIR root s2 = Some (bin, s3)"
      "init_all home docs bin init_calls s3 = Some s'"
    using r a u0(3) by (auto simp: vfs_init_def mkdir_at_def split: option.splits)
  have "fs_room h0 n (c + 8320) s1" using alloc_node_fs [OF m(1) f] by blast
  then have "fs_room h0 n ((c + 8192) + 128) s1" by (rule fs_room_less) simp
  then have "fs_room h0 n (c + 8192) s2" using alloc_node_fs [OF m(2)] by blast
  then have "fs_room h0 n ((c + 8064) + 128) s2" by (rule fs_room_less) simp
  then have "fs_room h0 n (c + 8064) s3" using alloc_node_fs [OF m(3)] by blast
  moreover have "672 * length init_calls = 8064" by (simp add: init_calls_def)
  ultimately show ?thesis using init_all_room [OF m(4) _ init_calls_short] by simp
qed


section \<open>The start of each component\<close>

text \<open>What no start of a component changes: the variables of the desktop and the mouse.\<close>

definition same_statics :: "desk \<Rightarrow> desk \<Rightarrow> bool" where
  "same_statics d d' \<longleftrightarrow> d_wm d' = d_wm d \<and> d_files d' = d_files d \<and> d_mouse d' = d_mouse d \<and> g_drag_idx d' = g_drag_idx d \<and>
     g_cwd (d_world d') = g_cwd (d_world d)"

lemma same_statics_trans: "same_statics d d1 \<Longrightarrow> same_statics d1 d2 \<Longrightarrow> same_statics d d2"
  by (simp add: same_statics_def)

lemma fresh_same: "same_statics d d' \<Longrightarrow> desk_fresh d' = desk_fresh d"
  by (simp add: same_statics_def desk_fresh_def)

abbreviation desk_heap :: "desk \<Rightarrow> heap" where
  "desk_heap d \<equiv> kheap_of (k_procs (w_k (d_world d)))"

lemmas desk_updates = on_desk_def on_world_def on_io_def on_console_def on_procs_def set_procs_def

text \<open>
  Devices that answer: the serial port transmits, the keyboard controller runs dry, and the disk, if \<open>ata_init\<close> finds one, has
  no superblock of this kernel.
\<close>

definition unformatted :: "device \<Rightarrow> bool" where
  "unformatted dev \<longleftrightarrow> (\<forall>d0 h0 d h h1 sb sb' x. \<not> present d0 \<and> ata_init dev (d0, h0) = Some (d, h) \<and>
     read_super sb (dev, d, h1) = (True, sb', x) \<longrightarrow> magic sb' \<noteq> DISKFS_MAGIC \<or> version sb' \<noteq> DISKFS_VERSION)"

definition answers :: "device \<Rightarrow> bool" where
  "answers dev \<longleftrightarrow> transmits dev \<and> empties dev \<and> unformatted dev"

lemma interrupts_start:
  "\<exists>s'. start_interrupts pf s = Some s' \<and> same_statics (sy_desk s) (sy_desk s') \<and> k_procs (w_k (sy_world s')) = k_procs (w_k (sy_world s)) \<and>
     d_disk (sy_desk s') = d_disk (sy_desk s) \<and> key_buffer (sy_keys s') = key_buffer (sy_keys s)"
proof -
  have "pit_divisor 100 \<noteq> 0" by code_simp
  then show ?thesis
    by (simp add: start_interrupts_def Let_def timer_init_def keyboard_init_def same_statics_def desk_updates)
qed

lemma memory_start:
  assumes "pmm_init (kernel_end pf) (hmem (desk_heap (sy_desk s))) mb (pages_of (k_procs (w_k (sy_world s)))) = Some p"
    and "heap_init p (desk_heap (sy_desk s)) = (p1, h)"
  shows "\<exists>s'. start_memory pf mb s = Some s' \<and> same_statics (sy_desk s) (sy_desk s') \<and> desk_heap (sy_desk s') = h \<and>
     d_disk (sy_desk s') = d_disk (sy_desk s) \<and> sy_keys s' = sy_keys s"
  using assms by (simp add: start_memory_def Let_def same_statics_def desk_updates)

lemma segments_start:
  "same_statics (sy_desk s) (sy_desk (start_segments pf s)) \<and> desk_heap (sy_desk (start_segments pf s)) = desk_heap (sy_desk s) \<and>
     d_disk (sy_desk (start_segments pf s)) = d_disk (sy_desk s) \<and> sy_keys (start_segments pf s) = sy_keys s"
  by (simp add: start_segments_def Let_def tss_flush_def same_statics_def desk_updates split: prod.split)

lemma ata_returns:
  assumes "transmits dev"
  shows "\<exists>d h. ata_init dev x = Some (d, h)"
proof -
  have p: "serial_print dev s h \<noteq> None" for s h using print_sends [OF assms, of s h] by auto
  have "ata_init dev x \<noteq> None"
    unfolding ata_init_def Let_def by (simp add: p bind_eq_None_conv del: serial_print.simps append_Cons not_None_eq split: prod.split)
  then show ?thesis by auto
qed

lemma devices_start:
  assumes "answers (pf_dev pf)"
  shows "\<exists>d' h h'. start_devices pf d = Some d' \<and> same_statics d d' \<and> k_procs (w_k (d_world d')) = k_procs (w_k (d_world d)) \<and>
    ata_init (pf_dev pf) (d_disk d, h) = Some (d_disk d', h')"
proof -
  obtain pci h where p: "pci_init (pf_dev pf) (w_pci (d_world d), w_io (d_world d)) = (pci, h)" by fastforce
  obtain a h' where "ata_init (pf_dev pf) (d_disk d, h) = Some (a, h')" using ata_returns assms unfolding answers_def by blast
  then show ?thesis using p by (auto simp: start_devices_def same_statics_def desk_updates)
qed

lemma no_superblock:
  assumes "unformatted dev" and "\<not> present d0" and "ata_init dev (d0, h) = Some (d_disk d, h')"
  shows "\<exists>k. diskfs_init (desk_diskfs dev d) = Some k \<and> fs k = desk_fs d"
proof -
  obtain ok sb x where r: "read_super (d_super d) (dev, d_disk d, w_io (d_world d)) = (ok, sb, x)" by (metis prod_cases3)
  have "magic sb \<noteq> DISKFS_MAGIC \<or> version sb \<noteq> DISKFS_VERSION" if ok
  proof -
    have "read_super (d_super d) (dev, d_disk d, w_io (d_world d)) = (True, sb, x)" using r that by simp
    then show ?thesis using assms unfolding unformatted_def by blast
  qed
  then show ?thesis using r by (auto simp: diskfs_init_def desk_diskfs_def Let_def)
qed

lemma files_start:
  assumes r: "heap_room h0 n (c + 8576) u (desk_heap d)" and "g_cwd (d_world d) = 0"
    and a: "answers (pf_dev pf)" "\<not> present d0" "ata_init (pf_dev pf) (d0, h) = Some (d_disk d, h')"
  shows "\<exists>d' N ch u'. start_files pf d = Some d' \<and> same_statics d d' \<and> tree_up N ch d' \<and> heap_room h0 n c u' (desk_heap d')"
proof -
  obtain bs where "heap_ok (desk_heap d) bs" using r by (auto simp: heap_room_def stacked_def)
  then obtain v where v: "vfs_init (desk_fs d) = Some v" and k: "g_root v = 0 \<or> (\<exists>N ch. vfs_ok v N ch \<and> nkind (nodes v (g_root v)) = VFS_DIR)"
    using vfs_init_ok [of "desk_fs d" bs] by (auto simp: tree_of_def)
  have f: "fs_room h0 n c v" using vfs_init_room [OF v, of h0 n c u] r by (simp add: tree_of_def)
  then obtain N ch where T: "tree_ok v N ch" "nkind (nodes v (g_root v)) = VFS_DIR" "nparent (nodes v (g_root v)) = 0"
    using k by (auto simp: vfs_ok_def fs_room_def)
  obtain u' where u': "heap_room h0 n c u' (vheap v)" using f by (auto simp: fs_room_def)
  define d1 where "d1 = set_fs v d"
  have d1: "d_disk d1 = d_disk d" "desk_fs d1 = v" "same_statics d d1"
    by (simp_all add: d1_def fs_set_fs set_fs_def same_statics_def Let_def tree_of_def)
  obtain k where k': "diskfs_init (desk_diskfs (pf_dev pf) d1) = Some k" "fs k = v"
    using no_superblock [of "pf_dev pf" d0 h d1 h'] a d1(1,2) unfolding answers_def by auto
  define d2 where "d2 = after_diskfs k d1"
  have d2: "desk_fs d2 = v" "same_statics d1 d2"
    using k'(2) by (simp_all add: d2_def after_diskfs_def set_fs_def same_statics_def Let_def tree_of_def split: prod.splits)
  define d3 where "d3 = on_world (\<lambda>w. w\<lparr>w_k := (w_k w)\<lparr>k_stdin := stdin_init (k_stdin (w_k w))\<rparr>\<rparr>) d2"
  have d3: "desk_fs d3 = v" "same_statics d2 d3" using d2(1) by (simp_all add: d3_def on_world_def same_statics_def tree_of_def)
  have st: "same_statics d d3" using same_statics_trans d1(3) d2(2) d3(2) by blast
  have "start_files pf d = Some d3" using v k'(1) by (simp add: start_files_def d3_def d2_def d1_def)
  moreover have "tree_up N ch d3" using T st assms(2) by (simp add: tree_up_def d3(1) same_statics_def)
  moreover have "desk_heap d3 = vheap v" using d3(1) by (metis tree_of_def vfs.select_convs(3))
  ultimately show ?thesis using st u' by metis
qed

lemma processes_start:
  assumes r: "heap_room h0 n (c + 264) u (desk_heap d)" and t: "tree_up N ch d"
  shows "\<exists>d' u'. start_processes d = Some d' \<and> same_statics d d' \<and> tree_up N ch d' \<and> heap_room h0 n c u' (desk_heap d')"
proof -
  have e: "c + 32 + unat (232 :: u64) = c + 264" by simp
  have r': "heap_room h0 n (c + 32 + unat (232 :: u64)) u (desk_heap d)" unfolding e by (rule r)
  have "\<exists>p h' u'. kmalloc 232 (desk_heap d) = Some (p, h') \<and> heap_room h0 n c u' h'"
    by (rule heap_room_take [OF r']) (simp, simp, blast)
  then obtain p h' u' where p: "kmalloc 232 (desk_heap d) = Some (p, h')" "heap_room h0 n c u' h'" by blast
  have "\<exists>ps. process_init (k_procs (w_k (d_world d))) = Some ps \<and> kheap_of ps = h'"
    using p(1) by (simp add: process_init_def SIZEOF_PROCESS_def Let_def upd_pcb_def)
  then obtain ps where ps: "process_init (k_procs (w_k (d_world d))) = Some ps" "kheap_of ps = h'" by blast
  let ?d = "on_procs (\<lambda>_. ps) d"
  have st: "same_tree (desk_fs d) (desk_fs ?d)" by (rule same_tree_nodes) (simp_all add: desk_updates)
  have "tree_up N ch ?d" using t same_tree_ok [OF st, of N ch] by (simp add: tree_up_def desk_updates)
  then show ?thesis using ps p(2) by (auto simp: start_processes_def same_statics_def desk_updates)
qed


section \<open>The start of the kernel\<close>

text \<open>The static variables at power on.\<close>

definition power_on :: "system \<Rightarrow> bool" where
  "power_on s \<longleftrightarrow> desk_fresh (sy_desk s) \<and> g_cwd (sy_world s) = 0 \<and> ring_wf (sy_keys s) \<and> \<not> present (d_disk (sy_desk s))"

text \<open>The memory map of the boot information gives the heap one block of \<open>l\<close> bytes.\<close>

definition heap_given :: "platform \<Rightarrow> u64 \<Rightarrow> system \<Rightarrow> heap \<Rightarrow> nat \<Rightarrow> bool" where
  "heap_given pf mb s h l \<longleftrightarrow>
     (\<exists>p p1 n. pmm_init (kernel_end pf) (hmem (desk_heap (sy_desk s))) mb (pages_of (k_procs (w_k (sy_world s)))) = Some p \<and>
        heap_init p (desk_heap (sy_desk s)) = (p1, h) \<and> heap_ok h [(n, True)] \<and> unat n = l)"

text \<open>The addresses \<open>as\<close>, with 32 bytes each, are not in the heap.\<close>

definition apart :: "u64 list \<Rightarrow> heap \<Rightarrow> nat \<Rightarrow> bool" where
  "apart as h n \<longleftrightarrow> list_all (\<lambda>a. unat a + 32 \<le> unat (heap_start h) \<or> unat (heap_start h) + n \<le> unat a \<and> unat a + 32 \<le> 2 ^ 64) as"

lemma apart_same:
  assumes a: "apart as h n" "heap_start h = st" and m: "\<And>x. unat x < unat st \<or> unat st + n \<le> unat x \<Longrightarrow> m' x = m x"
    and x: "a \<in> set as" "j < 32" and b: "unat st < 2 ^ 63"
  shows "m' (a + of_nat j) = m (a + of_nat j)"
proof -
  have c: "unat a + 32 \<le> unat st \<or> unat st + n \<le> unat a \<and> unat a + 32 \<le> 2 ^ 64" using a x(1) by (auto simp: apart_def list_all_iff)
  then have "unat (a + of_nat j) = unat a + j" using x(2) b by (intro word_no_wrap) auto
  then show ?thesis using c x(2) by (intro m) auto
qed

lemma heap_init_outside:
  assumes "heap_init p s = (p1, h)" and "heap_ok h [(n, True)]" and "unat x < unat (heap_start h) \<or> unat (heap_start h) + (17 + unat n) \<le> unat x"
  shows "hmem h x = hmem s x"
proof -
  have b: "unat (heap_start h) + 17 \<le> 2 ^ 64" using assms(2) by (simp add: heap_ok_def)
  have "unat x < unat (heap_start h) \<or> unat (heap_start h) + 17 \<le> unat x" using assms(3) by auto
  then have "put_block (heap_start h) hd m x = m x" for hd m
    using put_block_outside [of x "unat (heap_start h)" hd m] b by simp
  then show ?thesis using assms(1) by (auto simp: heap_init_def split: prod.splits if_splits)
qed

lemma components_started:
  assumes p: "power_on s" and h: "heap_given pf mb s h l" and l: "c + 8840 \<le> l" and dev: "answers (pf_dev pf)"
  shows "\<exists>s' N ch u. start_components pf mb s = Some s' \<and> same_statics (sy_desk s) (sy_desk s') \<and> tree_up N ch (sy_desk s') \<and>
    heap_room h (17 + l) c u (desk_heap (sy_desk s')) \<and> ring_wf (sy_keys s') \<and> sy_enabled s'"
proof -
  obtain pm p1 n where m: "pmm_init (kernel_end pf) (hmem (desk_heap (sy_desk s))) mb (pages_of (k_procs (w_k (sy_world s)))) = Some pm"
      "heap_init pm (desk_heap (sy_desk s)) = (p1, h)" "heap_ok h [(n, True)]" "unat n = l" using h by (auto simp: heap_given_def)
  have "stacked h 0 l" unfolding stacked_def using m(3,4) by (intro exI [of _ "[]"] exI [of _ n]) simp
  then have r0: "heap_room h (17 + l) (c + 8840) 0 h" using l by (auto simp: heap_room_def)
  obtain s1 where s1: "start_interrupts pf s = Some s1" "same_statics (sy_desk s) (sy_desk s1)" "k_procs (w_k (sy_world s1)) = k_procs (w_k (sy_world s))"
      "d_disk (sy_desk s1) = d_disk (sy_desk s)" "key_buffer (sy_keys s1) = key_buffer (sy_keys s)" using interrupts_start [of pf s] by blast
  obtain s2 where s2: "start_memory pf mb s1 = Some s2" "same_statics (sy_desk s1) (sy_desk s2)" "desk_heap (sy_desk s2) = h"
      "d_disk (sy_desk s2) = d_disk (sy_desk s1)" "sy_keys s2 = sy_keys s1"
    using memory_start [of pf s1 mb pm p1 h] m(1,2) s1(3) by auto
  define s3 where "s3 = start_segments pf s2"
  note s3 = segments_start [of s2 pf, folded s3_def]
  obtain d4 ha hb where d4: "start_devices pf (sy_desk s3) = Some d4" "same_statics (sy_desk s3) d4" "k_procs (w_k (d_world d4)) = k_procs (w_k (sy_world s3))"
      "ata_init (pf_dev pf) (d_disk (sy_desk s3), ha) = Some (d_disk d4, hb)" using devices_start [OF dev] by blast
  have "same_statics (sy_desk s) d4" using same_statics_trans s1(2) s2(2) s3 d4(2) by blast
  then have c4: "g_cwd (d_world d4) = 0" "\<not> present (d_disk (sy_desk s3))" "desk_heap d4 = h"
    using p d4(3) s3 s2(3,4) s1(4) by (simp_all add: same_statics_def power_on_def)
  have "heap_room h (17 + l) ((c + 264) + 8576) 0 (desk_heap d4)" unfolding c4(3) by (rule heap_room_less [OF r0]) simp
  then obtain d5 N ch u where d5: "start_files pf d4 = Some d5" "same_statics d4 d5" "tree_up N ch d5" "heap_room h (17 + l) (c + 264) u (desk_heap d5)"
    using files_start [OF _ c4(1) dev c4(2) d4(4)] by blast
  obtain d6 u' where d6: "start_processes d5 = Some d6" "same_statics d5 d6" "tree_up N ch d6" "heap_room h (17 + l) c u' (desk_heap d6)"
    using processes_start [OF d5(4,3)] by blast
  have "start_components pf mb s = Some (s3\<lparr>sy_desk := d6, sy_enabled := True\<rparr>)"
    using s1(1) s2(1) d4(1) d5(1) d6(1) by (simp add: start_components_def Let_def s3_def)
  moreover have "same_statics (sy_desk s) d6" using same_statics_trans \<open>same_statics (sy_desk s) d4\<close> d5(2) d6(2) by blast
  moreover have "ring_wf (sy_keys s3)" using p s1(5) s2(5) s3 by (simp add: power_on_def ring_wf_def)
  ultimately show ?thesis using d6(3,4) by auto
qed

lemma room_for_buffer:
  assumes "heap_room h0 n (unat q + 32) u h" and "unat q \<le> 2 ^ 32"
  shows "\<exists>bs. heap_ok h bs \<and> abs_malloc (round8 q) bs \<noteq> None"
proof -
  obtain ks l where ok: "heap_ok h (map (\<lambda>k. (k, False)) ks @ [(l, True)])" and l: "unat q + 32 \<le> unat l"
    using assms(1) by (auto simp: heap_room_def stacked_def)
  have "round8 q \<le> l" using round8_near [OF assms(2)] l by (simp add: word_le_nat_alt)
  then have "abs_malloc (round8 q) (map (\<lambda>k. (k, False)) ks @ [(l, True)]) \<noteq> None" by (induction ks) simp_all
  then show ?thesis using ok by blast
qed


lemma kernel_brought_up:
  assumes p: "power_on s" and h: "heap_given pf mb s h l" and dev: "answers (pf_dev pf)"
    and t: "screen_tag (hmem (desk_heap (sy_desk s))) mb ts t" "apart (mb # ts) h (17 + l)" "supported t"
    and l: "8872 + unat (tag_width t) * unat (tag_height t) * 4 \<le> l" and fr: "list_ex (\<lambda>n. 200 \<le> n \<and> n < 2 ^ 64) (pf_frames pf)"
  shows "\<exists>s' N ch. kernel_main pf MULTIBOOT2_BOOTLOADER_MAGIC mb s = Back s' \<and> sy_enabled s' \<and> sy_graphical s' \<and>
    z_order (d_wm (sy_desk s')) = [] \<and> system_ok N ch s'"
proof -
  define k where "k = unat (tag_width t) * unat (tag_height t)"
  have k: "k \<le> 2 ^ 15 * 2 ^ 15" unfolding k_def using t(3) by (intro mult_le_mono) (simp_all add: supported_def)
  let ?q = "ucast (tag_width t) * ucast (tag_height t) * 4 :: u64"
  have q: "unat ?q = k * 4" using k by (simp add: unat_word_ariths unat_zext_64 mod_less flip: k_def)
  define s1 where "s1 = on_desk (on_console vga_init) (on_desk (on_io serial_init) s)"
  have e1: "same_statics (sy_desk s) (sy_desk s1)" "k_procs (w_k (sy_world s1)) = k_procs (w_k (sy_world s))" "sy_keys s1 = sy_keys s"
      "d_disk (sy_desk s1) = d_disk (sy_desk s)" by (simp_all add: s1_def same_statics_def desk_updates)
  have p1: "power_on s1" using p e1 fresh_same [OF e1(1)] by (simp add: power_on_def same_statics_def)
  have h1: "heap_given pf mb s1 h l" using h e1(2) by (simp add: heap_given_def)
  have "unat ?q + 32 + 8840 \<le> l" using l q by (simp add: k_def)
  then obtain s2 N ch u where s2: "start_components pf mb s1 = Some s2" "same_statics (sy_desk s1) (sy_desk s2)" "tree_up N ch (sy_desk s2)"
      "heap_room h (17 + l) (unat ?q + 32) u (desk_heap (sy_desk s2))" "ring_wf (sy_keys s2)" "sy_enabled s2"
    using components_started [OF p1 h1 _ dev] by blast
  obtain bs where bs: "heap_ok (desk_heap (sy_desk s2)) bs" "abs_malloc (round8 ?q) bs \<noteq> None"
    using room_for_buffer [OF s2(4)] q k by auto
  have m: "desk_mem (sy_desk s2) x = hmem (desk_heap (sy_desk s)) x" if x: "unat x < unat (heap_start h) \<or> unat (heap_start h) + (17 + l) \<le> unat x" for x
  proof -
    have "hmem (desk_heap (sy_desk s2)) x = hmem h x" using s2(4) x by (auto simp: heap_room_def same_outside_def)
    moreover have "hmem h x = hmem (desk_heap (sy_desk s)) x" using h x heap_init_outside by (auto simp: heap_given_def)
    ultimately show ?thesis by (simp add: desk_mem_def k_mem_def)
  qed
  have b: "unat (heap_start h) < 2 ^ 63" using h by (auto simp: heap_given_def heap_ok_def)
  have tag: "screen_tag (desk_mem (sy_desk s2)) mb ts t"
  proof (rule screen_tag_same [OF _ t(1)])
    fix a and j :: nat assume "a \<in> set (mb # ts)" "j < 32"
    then show "desk_mem (sy_desk s2) (a + of_nat j) = hmem (desk_heap (sy_desk s)) (a + of_nat j)"
      by (intro apart_same [where m' = "desk_mem (sy_desk s2)", OF t(2) refl _ _ _ b] m)
  qed
  have f2: "desk_fresh (sy_desk s2)" using p1 fresh_same [OF s2(2)] by (simp add: power_on_def)
  obtain d where d: "start_screen pf mb (sy_desk s2) = Some (True, d)" "tree_held N ch d" "desk_ok d" "mouse_ok (d_mouse d)" "z_order (d_wm d) = []"
    using desktop_comes_up [OF tag t(3) bs _ fr f2 s2(3)] dev by (auto simp: answers_def)
  define w where "w = w_k (shell_init (d_world (on_console (greeting True) d)))"
  let ?d = "on_world shell_init (on_console (greeting True) d)"
  have "tree_held N ch ?d" using d(2)
    by (rule tree_held_frame) (use d(2) in \<open>simp_all add: desk_updates shell_init_def out_def tree_of_def same_tree_def tree_held_def\<close>)
  moreover have "desk_ok ?d" "d_mouse ?d = d_mouse d" "d_wm ?d = d_wm d" using d(3) by (simp_all add: desk_updates)
  ultimately have "system_ok N ch (s2\<lparr>sy_graphical := True, sy_desk := drain ?d\<rparr>)"
    using d(4) s2(5) drain_ok by (simp add: system_ok_def ring_wf_def)
  moreover have "kernel_main pf MULTIBOOT2_BOOTLOADER_MAGIC mb s = Back (s2\<lparr>sy_graphical := True, sy_desk := drain ?d\<rparr>)"
    using s2(1) d(1) by (simp add: kernel_main_def Let_def flip: s1_def)
  moreover have "z_order (d_wm (drain ?d)) = []" using d(5) \<open>d_wm ?d = d_wm d\<close> by (simp add: drain_def Let_def)
  ultimately show ?thesis using s2(6) by (intro exI conjI) (assumption | simp)+
qed



section \<open>A concrete machine\<close>

text \<open>256 KB of memory, a frame buffer of 16 by 16 pixels, and the boot information at 1 MB.\<close>

definition boot_mem :: mem where
  "boot_mem a = (let bs = [88, 0, 0, 0, 0, 0, 0, 0,
     6, 0, 0, 0, 40, 0, 0, 0, 24, 0, 0, 0, 0, 0, 0, 0, 0, 0, 0, 0, 0, 0, 0, 0, 0, 0, 4, 0, 0, 0, 0, 0, 1, 0, 0, 0, 0, 0, 0, 0,
     8, 0, 0, 0, 32, 0, 0, 0, 0, 0, 0, 0xFD, 0, 0, 0, 0, 64, 0, 0, 0, 16, 0, 0, 0, 16, 0, 0, 0, 32, 1, 0, 0,
     0, 0, 0, 0, 8, 0, 0, 0]
     in if 0x100000 \<le> a \<and> a < 0x100058 then bs ! unat (a - 0x100000) else 0)"

definition pf_boot :: platform where
  "pf_boot = pf_demo\<lparr>pf_env := env_demo\<lparr>env_dev := \<lambda>h p. if p = 0x3FD then 0x20 else 0\<rparr>\<rparr>"

definition system_boot :: system where
  "system_boot = system_demo\<lparr>sy_desk := desk_demo\<lparr>
     d_world := shell_demo\<lparr>w_k := kstate_demo\<lparr>k_procs := procs_demo\<lparr>
       kheap_of := \<lparr>heap_start = 0, heap_size = 0, hmem = boot_mem\<rparr>, pages_of := pmm_boot\<rparr>\<rparr>\<rparr>,
     d_wm := wm_demo\<lparr>windows := replicate 8 no_window, z_order := []\<rparr>,
     d_files := files_demo\<lparr>g_files_dir := 0, g_editor_file := 0\<rparr>,
     d_mouse := mouse_demo\<lparr>packet := [0, 0, 0], packet_idx := 0\<rparr>\<rparr>\<rparr>"

definition boot_region :: mmap_entry where
  "boot_region = \<lparr>me_base = 0, me_length = 0x40000, me_type = 1\<rparr>"

lemma boot_memory_map:
  "\<exists>p. pmm_init 0x200000 boot_mem 0x100000 pmm_boot = Some p \<and> pmm_inv p \<and> total_pages p = 64 \<and> free_set p = {x. x < 64}"
proof -
  define p where "p = pmm_init_map 0x200000 boot_mem 0x100000 [boot_region] pmm_boot"
  have "tag_chain boot_mem [0x100008]" "read32 boot_mem 0x100008 = 6" "read32 boot_mem (0x100008 + 8) \<noteq> 0"
    "mmap_tag_entries boot_mem 0x100008 = [boot_region]" by code_simp+
  then have i: "pmm_init 0x200000 boot_mem 0x100000 pmm_boot = Some p"
    using find_mmap_tag_chain [of boot_mem "[0x100008]"] by (simp add: pmm_init_def p_def)
  have st: "fold mmap_stats [boot_region] (0, total_memory pmm_boot, usable_memory pmm_boot) = (0x40000, 0x40000, 0x40000)" by code_simp
  have t: "total_pages p = 64" unfolding p_def pmm_init_map_def st Let_def prod.case by code_simp
  have "avail_pages boot_region = {x. x < 64}" by (simp add: avail_pages_def boot_region_def PAGE_SIZE_def)
  moreover have "\<not> 256 \<le> x" if "x < 64" for x :: u64 using that by (simp add: word_less_nat_alt word_le_nat_alt)
  ultimately have "free_set p = {x. x < 64}"
    using pmm_init_map_spec(3) [of "0x200000" boot_mem "0x100000" "[boot_region]" pmm_boot] t
    by (auto simp: p_def [symmetric] reserved_pages_def)
  moreover have "pmm_inv p" unfolding p_def by (rule pmm_init_map_spec(1)) simp
  ultimately show ?thesis using i t by blast
qed

lemma boot_heap:
  "\<exists>h l. heap_given pf_boot 0x100000 system_boot h l \<and> 60000 \<le> l \<and> unat (heap_start h) + 17 + l \<le> 0x40000"
proof -
  let ?h0 = "\<lparr>heap_start = 0, heap_size = 0, hmem = boot_mem\<rparr>"
  obtain p where p: "pmm_init 0x200000 boot_mem 0x100000 pmm_boot = Some p" "pmm_inv p" "total_pages p = 64" "free_set p = {x. x < 64}"
    using boot_memory_map by blast
  obtain p1 h where h: "heap_init p ?h0 = (p1, h)" by force
  have "\<not> scan_none (page_bitmap p) (total_pages p) 16"
  proof
    assume "scan_none (page_bitmap p) (total_pages p) 16"
    then obtain x where x: "x \<in> page_run 1 16" "bitmap_test (page_bitmap p) x"
      unfolding scan_none_def p(3) by (auto dest!: spec [of _ 1])
    then have "x < 64" by (simp add: page_run_def word_less_nat_alt)
    then have "x \<in> free_set p" using p(4) by simp
    then show False using x(2) by (simp add: free_set_def)
  qed
  then obtain n where n: "16 \<le> unat n" "unat n \<le> 4096" "heap_placed p n p1 h"
    using heap_init_one_free_block [OF p(2) _ h] p(3) by auto
  then obtain r where r: "heap_start h = r * PAGE_SIZE" "heap_ok h [(n * PAGE_SIZE - HDR, True)]" "page_run r n \<subseteq> {x. x < 64}"
    unfolding heap_placed_def p(4) by blast
  have un: "unat (n * PAGE_SIZE) = unat n * 4096" using n(2) by (simp add: PAGE_SIZE_def unat_word_ariths)
  have l: "unat (n * PAGE_SIZE - HDR) = unat n * 4096 - 17" using un n(1) by (subst unat_sub) (simp_all add: word_le_nat_alt)
  have "r \<in> page_run r n" using n(1) by (simp add: page_run_def)
  then have "r < 64" using r(3) by auto
  then have r64: "unat r < 64" by (simp add: word_less_nat_alt)
  have "unat (r + of_nat (unat n - 1)) = unat r + (unat n - 1)" using r64 n(2) by (intro word_no_wrap) simp
  moreover from this have "r + of_nat (unat n - 1) \<in> page_run r n" using n(1) by (simp add: page_run_def)
  then have "r + of_nat (unat n - 1) < 64" using r(3) by auto
  ultimately have rn: "unat r + unat n \<le> 64" by (simp add: word_less_nat_alt)
  have "unat (heap_start h) = unat r * 4096" using rn by (simp add: r(1) PAGE_SIZE_def unat_word_ariths)
  moreover have "heap_given pf_boot 0x100000 system_boot h (unat n * 4096 - 17)"
    unfolding heap_given_def using p(1) h r(2) l
    by (intro exI [of _ p] exI [of _ p1] exI [of _ "n * PAGE_SIZE - HDR"]) (simp add: pf_boot_def pf_demo_def system_boot_def)
  ultimately show ?thesis using rn n(1) by (intro exI [of _ h] exI [of _ "unat n * 4096 - 17"]) simp
qed


end
